(* ===== verification/Prelude.thy ===== *)
theory Prelude
  imports Main "HOL-Library.Word"
begin

text \<open>
  Shared vocabulary of the pthrlib development: addresses and pools, the C conversions the
  sources rely on, the search loops that appear in several components, and generic lemmas on
  lists. The collection \<open>pth_simps\<close> gathers the rewrite rules the component proofs share.
\<close>

named_theorems pth_simps

type_synonym addr = nat
type_synonym pool = nat
type_synonym tid = nat

section \<open>C integer conversions\<close>

text \<open>
  Conversion of an \<open>int\<close> to a \<open>short\<close>, as an assignment to \<open>struct pollfd.events\<close> does it
  (two's complement, modulo $2^{16}$), and to a 32 bit \<open>int\<close>.
\<close>

definition c_short :: "int \<Rightarrow> int" where
  "c_short x = (x + 32768) mod 65536 - 32768"

definition c_int :: "int \<Rightarrow> int" where
  "c_int x = (x + 2147483648) mod 4294967296 - 2147483648"

definition fits_short :: "int \<Rightarrow> bool" where
  "fits_short x \<longleftrightarrow> -32768 \<le> x \<and> x < 32768"

definition fits_int :: "int \<Rightarrow> bool" where
  "fits_int x \<longleftrightarrow> -2147483648 \<le> x \<and> x < 2147483648"

lemma c_short_id [simp]: "fits_short x \<Longrightarrow> c_short x = x"
  by (simp add: c_short_def fits_short_def)

lemma c_int_id [simp]: "fits_int x \<Longrightarrow> c_int x = x"
  by (simp add: c_int_def fits_int_def)

lemma c_int_fits: "fits_int (c_int x)"
proof -
  have "0 \<le> (x + 2147483648) mod 4294967296" "(x + 2147483648) mod 4294967296 < 4294967296"
    by simp_all
  then show ?thesis unfolding fits_int_def c_int_def by linarith
qed

section \<open>Linear search\<close>

text \<open>
  The loop \<open>for (i = 0; i < n; ++i) if (P (xs[i])) goto found;\<close>: the index at which it stops,
  the length of the array when no element matches.
\<close>

fun first_index :: "('a \<Rightarrow> bool) \<Rightarrow> 'a list \<Rightarrow> nat" where
  "first_index P [] = 0"
| "first_index P (x # xs) = (if P x then 0 else Suc (first_index P xs))"

lemma first_index_le [simp]: "first_index P xs \<le> length xs"
  by (induction xs) auto

lemma first_index_less_iff: "first_index P xs < length xs \<longleftrightarrow> (\<exists>x \<in> set xs. P x)"
  by (induction xs) auto

lemma first_index_hit: "first_index P xs < length xs \<Longrightarrow> P (xs ! first_index P xs)"
  by (induction xs) auto

lemma first_index_before: "i < first_index P xs \<Longrightarrow> \<not> P (xs ! i)"
  by (induction xs arbitrary: i) (auto simp: nth_Cons split: if_splits nat.splits)

lemma first_index_miss: "\<not> first_index P xs < length xs \<Longrightarrow> x \<in> set xs \<Longrightarrow> \<not> P x"
  using first_index_less_iff by blast

lemma first_index_miss_eq: "\<not> first_index P xs < length xs \<Longrightarrow> first_index P xs = length xs"
  using first_index_le [of P xs] by simp

lemma first_index_append_cons:
  "\<forall>y \<in> set xs. \<not> P y \<Longrightarrow> P x \<Longrightarrow> first_index P (xs @ x # ys) = length xs"
  by (induction xs) auto

section \<open>Lists\<close>

text \<open>Removing the element at an index, and where the other elements go.\<close>

definition remove_at :: "nat \<Rightarrow> 'a list \<Rightarrow> 'a list" where
  "remove_at i xs = take i xs @ drop (Suc i) xs"

lemma length_remove_at [simp]: "i < length xs \<Longrightarrow> length (remove_at i xs) = length xs - 1"
  by (simp add: remove_at_def)

lemma nth_remove_at:
  "i < length xs \<Longrightarrow> j < length xs - 1 \<Longrightarrow>
     remove_at i xs ! j = (if j < i then xs ! j else xs ! Suc j)"
  by (auto simp: remove_at_def nth_append)

lemma set_remove_at: "set (remove_at i xs) \<subseteq> set xs"
  by (auto simp: remove_at_def dest: in_set_takeD in_set_dropD)

lemma remove_at_map: "remove_at i (map f xs) = map f (remove_at i xs)"
  by (simp add: remove_at_def take_map drop_map)

lemma distinct_remove_at: "distinct xs \<Longrightarrow> distinct (remove_at i xs)"
  by (auto simp: remove_at_def set_take_disj_set_drop_if_distinct)

lemma remove_at_first_index: "t \<in> set xs \<Longrightarrow> remove_at (first_index (\<lambda>p. p = t) xs) xs = remove1 t xs"
  by (induction xs) (auto simp: remove_at_def)

lemma bex_set_nth: "(\<exists>x \<in> set xs. P x) \<longleftrightarrow> (\<exists>i < length xs. P (xs ! i))"
  by (metis in_set_conv_nth)

lemma length_filter_update_less:
  "i < length xs \<Longrightarrow> P (xs ! i) \<Longrightarrow> \<not> P y \<Longrightarrow> length (filter P (xs[i := y])) < length (filter P xs)"
  by (induction xs arbitrary: i) (auto split: nat.splits)

lemma length_filter_update_more:
  "i < length xs \<Longrightarrow> \<not> P (xs ! i) \<Longrightarrow> P y \<Longrightarrow> length (filter P (xs[i := y])) = Suc (length (filter P xs))"
  by (induction xs arbitrary: i) (auto split: nat.splits)

lemma filter_eq_of_all: "(\<And>x. x \<in> set xs \<Longrightarrow> P x) \<Longrightarrow> filter P xs = xs"
  by simp

end
