(* ===== verification/Reactor_Handles.thy ===== *)
theory Reactor_Handles
  imports Prelude
begin

text \<open>
  The descriptor table of the reactor (\<open>src/src/pthr_reactor.c\<close>): \<open>reactor_register\<close> and
  \<open>reactor_unregister\<close> over the global arrays \<open>handles\<close> and \<open>poll_array\<close>. A handle holds an offset
  into the poll array; several handles may share a descriptor. The theory proves that the table
  invariant is kept and that, seen from a client, the two functions implement a map from handles
  to registrations (locale \<open>registry\<close>).
\<close>

section \<open>State\<close>

record pollfd =
  fd :: int
  events :: int
  revents :: int

record ('f, 'd) reactor_handle =
  offset :: int
  hfn :: 'f
  hdata :: 'd

text \<open>
  \<open>handles\<close> has \<open>nr_handles_allocated\<close> elements and \<open>poll_array\<close> has \<open>nr_array_allocated\<close>; only the
  first \<open>nr_array_used\<close> descriptors are in use.
\<close>

record ('f, 'd) handle_table =
  handles :: "('f, 'd) reactor_handle list"
  poll_array :: "pollfd list"
  nr_array_used :: nat

definition empty_table :: "('f, 'd) handle_table" where
  "empty_table = \<lparr>handles = [], poll_array = [], nr_array_used = 0\<rparr>"

section \<open>Operations\<close>

text \<open>
  \<open>jh\<close> and \<open>jp\<close> are the contents of the memory that \<open>realloc\<close> hands out beyond the old array: C
  leaves them indeterminate, so they are parameters. Registering reuses the first handle whose
  offset is -1, or grows the table by eight; it shares a descriptor with the same socket and
  events, or appends one. A new descriptor keeps whatever \<open>revents\<close> its memory held.
\<close>

definition find_handle ::
  "(nat \<Rightarrow> ('f, 'd) reactor_handle) \<Rightarrow> ('f, 'd) reactor_handle list
     \<Rightarrow> nat \<times> ('f, 'd) reactor_handle list" where
  "find_handle jh hs =
     (let h = first_index (\<lambda>x. offset x = -1) hs
      in if h < length hs then (h, hs)
         else (length hs, hs @ map (\<lambda>i. (jh i)\<lparr>offset := -1\<rparr>) [length hs..<length hs + 8]))"

definition find_poll_descriptor ::
  "(nat \<Rightarrow> pollfd) \<Rightarrow> int \<Rightarrow> int \<Rightarrow> pollfd list \<Rightarrow> nat \<Rightarrow> nat \<times> pollfd list \<times> nat" where
  "find_poll_descriptor jp socket operations arr used =
     (let a = first_index (\<lambda>p. fd p = socket \<and> events p = operations) (take used arr)
      in if a < used then (a, arr, used)
         else
           (let arr1 = (if used \<ge> length arr
                        then arr @ map jp [length arr..<length arr + 8] else arr)
            in (used,
                arr1[used := (arr1 ! used)\<lparr>fd := socket, events := c_short operations\<rparr>],
                Suc used)))"

definition reactor_register ::
  "(nat \<Rightarrow> ('f, 'd) reactor_handle) \<Rightarrow> (nat \<Rightarrow> pollfd) \<Rightarrow> ('f, 'd) handle_table
     \<Rightarrow> int \<Rightarrow> int \<Rightarrow> 'f \<Rightarrow> 'd \<Rightarrow> nat \<times> ('f, 'd) handle_table" where
  "reactor_register jh jp r socket operations f d =
     (let (h, hs) = find_handle jh (handles r);
          (a, arr, used) =
            find_poll_descriptor jp socket operations (poll_array r) (nr_array_used r)
      in (h, \<lparr>handles = hs[h := \<lparr>offset = int a, hfn = f, hdata = d\<rparr>],
              poll_array = arr, nr_array_used = used\<rparr>))"

text \<open>
  The \<open>memcpy\<close> that closes the gap at \<open>a\<close> copies the descriptors behind it one place down. Its two
  regions overlap as soon as there are two of them, and C leaves \<open>memcpy\<close> on overlapping regions
  undefined, so \<open>memcpy (dst, src, n)\<close> on an array is a parameter \<open>M\<close>. \<open>memcpy_law\<close> is all that C
  promises of it: a faithful copy when the regions lie inside the array and are disjoint.
\<close>

type_synonym 'a memcpy_fn = "nat \<Rightarrow> nat \<Rightarrow> nat \<Rightarrow> 'a list \<Rightarrow> 'a list"

definition copied :: "'a memcpy_fn" where
  "copied dst src n arr = take dst arr @ take n (drop src arr) @ drop (dst + n) arr"

definition memcpy_law :: "'a memcpy_fn \<Rightarrow> bool" where
  "memcpy_law M \<longleftrightarrow>
     (\<forall>dst src n arr. dst + n \<le> length arr \<and> src + n \<le> length arr \<and>
        (dst + n \<le> src \<or> src + n \<le> dst) \<longrightarrow> M dst src n arr = copied dst src n arr)"

definition close_gap :: "'a memcpy_fn \<Rightarrow> nat \<Rightarrow> nat \<Rightarrow> 'a list \<Rightarrow> 'a list" where
  "close_gap M a used arr = M a (a + 1) (used - a - 1) arr"

text \<open>\<open>None\<close> is an access outside the array of handles.\<close>

definition reactor_unregister_with ::
  "pollfd memcpy_fn \<Rightarrow> ('f, 'd) handle_table \<Rightarrow> nat \<Rightarrow> ('f, 'd) handle_table option" where
  "reactor_unregister_with M r h =
     (if h \<ge> length (handles r) then None
      else
        (let a = offset (handles r ! h);
             hs = (handles r)[h := (handles r ! h)\<lparr>offset := -1\<rparr>]
         in if \<exists>x \<in> set hs. offset x = a then Some (r\<lparr>handles := hs\<rparr>)
            else Some \<lparr>handles = map (\<lambda>x. if offset x > a then x\<lparr>offset := offset x - 1\<rparr> else x) hs,
                       poll_array = close_gap M (nat a) (nr_array_used r) (poll_array r),
                       nr_array_used = nr_array_used r - 1\<rparr>))"

text \<open>
  The implementation of \<open>memcpy\<close> that the function happens to need: it copies element by element
  from the front. The rest of the library is modelled on top of it.
\<close>

fun memcpy_up :: "'a memcpy_fn" where
  "memcpy_up dst src 0 arr = arr"
| "memcpy_up dst src (Suc n) arr = memcpy_up (Suc dst) (Suc src) n (arr[dst := arr ! src])"

definition reactor_unregister ::
  "('f, 'd) handle_table \<Rightarrow> nat \<Rightarrow> ('f, 'd) handle_table option" where
  "reactor_unregister r h = reactor_unregister_with memcpy_up r h"

section \<open>Invariant and abstraction\<close>

definition used_array :: "('f, 'd) handle_table \<Rightarrow> pollfd list" where
  "used_array r = take (nr_array_used r) (poll_array r)"

definition pkey :: "pollfd \<Rightarrow> int \<times> int" where
  "pkey p = (fd p, events p)"

definition table_inv :: "('f, 'd) handle_table \<Rightarrow> bool" where
  "table_inv r \<longleftrightarrow>
     nr_array_used r \<le> length (poll_array r) \<and>
     (\<forall>i < length (handles r). offset (handles r ! i) = -1 \<or>
        0 \<le> offset (handles r ! i) \<and> offset (handles r ! i) < int (nr_array_used r)) \<and>
     distinct (map pkey (used_array r)) \<and>
     (\<forall>a < nr_array_used r. \<exists>i < length (handles r). offset (handles r ! i) = int a)"

text \<open>What a client sees: which handles are live, and what each one watches.\<close>

definition registration ::
  "('f, 'd) handle_table \<Rightarrow> nat \<Rightarrow> (int \<times> int \<times> 'f \<times> 'd) option" where
  "registration r h =
     (if h < length (handles r) \<and> offset (handles r ! h) \<ge> 0
      then (let x = handles r ! h; p = poll_array r ! nat (offset x)
            in Some (fd p, events p, hfn x, hdata x))
      else None)"

text \<open>What the event loop sees of a live handle: its poll descriptor, function and data.\<close>

definition watched :: "('f, 'd) handle_table \<Rightarrow> nat \<Rightarrow> (pollfd \<times> 'f \<times> 'd) option" where
  "watched r h =
     (if h < length (handles r) \<and> offset (handles r ! h) \<ge> 0
      then (let x = handles r ! h in Some (poll_array r ! nat (offset x), hfn x, hdata x))
      else None)"

lemma registration_watched:
  "registration r h = map_option (\<lambda>(p, f, d). (fd p, events p, f, d)) (watched r h)"
  by (simp add: registration_def watched_def Let_def)

section \<open>Registering\<close>

lemma find_handle_spec:
  assumes "find_handle jh hs = (h, hs')"
  shows "h < length hs'" "offset (hs' ! h) = -1" "length hs \<le> length hs'"
    "\<And>i. i < length hs \<Longrightarrow> hs' ! i = hs ! i"
    "\<And>i. length hs \<le> i \<Longrightarrow> i < length hs' \<Longrightarrow> offset (hs' ! i) = -1"
proof -
  let ?h = "first_index (\<lambda>x. offset x = -1) hs"
  have hit: "?h < length hs \<Longrightarrow> offset (hs ! ?h) = -1"
    by (rule first_index_hit)
  show "h < length hs'" "offset (hs' ! h) = -1" "length hs \<le> length hs'"
    "\<And>i. i < length hs \<Longrightarrow> hs' ! i = hs ! i"
    "\<And>i. length hs \<le> i \<Longrightarrow> i < length hs' \<Longrightarrow> offset (hs' ! i) = -1"
    using assms hit by (auto simp: find_handle_def Let_def nth_append split: if_splits)
qed

lemma find_poll_descriptor_cases:
  assumes eq: "find_poll_descriptor jp s ops arr used = (a, arr', used')"
    and used: "used \<le> length arr" and fits: "fits_short ops"
  obtains (share) "first_index (\<lambda>p. fd p = s \<and> events p = ops) (take used arr) < used"
      "a = first_index (\<lambda>p. fd p = s \<and> events p = ops) (take used arr)" "arr' = arr" "used' = used"
    | (new) "\<not> first_index (\<lambda>p. fd p = s \<and> events p = ops) (take used arr) < used" "a = used" "used' = Suc used" "used < length arr'"
        "\<And>i. i < used \<Longrightarrow> arr' ! i = arr ! i" "fd (arr' ! used) = s" "events (arr' ! used) = ops"
proof (cases "first_index (\<lambda>p. fd p = s \<and> events p = ops) (take used arr) < used")
  case True
  then show thesis
    using eq unfolding find_poll_descriptor_def Let_def by (intro share) (auto split: if_splits)
next
  case False
  define arr1 where "arr1 = (if used \<ge> length arr
                      then arr @ map jp [length arr..<length arr + 8] else arr)"
  have old: "used < length arr1" "\<And>i. i < used \<Longrightarrow> arr1 ! i = arr ! i"
    using used by (auto simp: arr1_def nth_append)
  have "(a, arr', used') =
      (used, arr1[used := (arr1 ! used)\<lparr>fd := s, events := c_short ops\<rparr>], Suc used)"
    unfolding eq [symmetric] find_poll_descriptor_def Let_def arr1_def if_not_P [OF False] ..
  with False old fits show thesis by (intro new) simp_all
qed

lemma find_poll_descriptor_spec:
  assumes eq: "find_poll_descriptor jp s ops arr used = (a, arr', used')"
    and used: "used \<le> length arr" and fits: "fits_short ops"
  shows "a < used'" "used' \<le> length arr'" "used \<le> used'"
    "\<And>i. i < used \<Longrightarrow> arr' ! i = arr ! i"
    "fd (arr' ! a) = s" "events (arr' ! a) = ops"
    "used' = used \<or> used' = Suc used \<and> a = used"
    "distinct (map pkey (take used arr)) \<Longrightarrow> distinct (map pkey (take used' arr'))"
proof -
  let ?P = "\<lambda>p. fd p = s \<and> events p = ops"
  let ?a = "first_index ?P (take used arr)"
  have len: "length (take used arr) = used" using used by simp
  note cases = find_poll_descriptor_cases [OF assms]
  have hit: "?a < used \<Longrightarrow> fd (arr ! ?a) = s \<and> events (arr ! ?a) = ops"
    using first_index_hit [of ?P "take used arr"] len by simp
  show "a < used'" by (rule cases) auto
  show "used' \<le> length arr'" by (rule cases) (use used in auto)
  show "used \<le> used'" by (rule cases) auto
  show "\<And>i. i < used \<Longrightarrow> arr' ! i = arr ! i" by (rule cases) auto
  show "fd (arr' ! a) = s" by (rule cases) (use hit in auto)
  show "events (arr' ! a) = ops" by (rule cases) (use hit in auto)
  show "used' = used \<or> used' = Suc used \<and> a = used" by (rule cases) auto
  assume d: "distinct (map pkey (take used arr))"
  show "distinct (map pkey (take used' arr'))"
  proof (rule cases, goal_cases)
    case 1
    with d show ?thesis by simp
  next
    case new: 2
    have tk: "take used arr' = take used arr"
      using new used by (intro nth_equalityI) auto
    have "(s, ops) \<notin> set (map pkey (take used arr))"
      using first_index_miss [of ?P "take used arr"] new(1) len by (auto simp: pkey_def)
    moreover have "take used' arr' = take used arr @ [arr' ! used]"
      using new tk by (simp add: take_Suc_conv_app_nth)
    ultimately show ?thesis using d new by (auto simp: pkey_def)
  qed
qed

lemma table_inv_empty [simp]: "table_inv empty_table"
  by (simp add: table_inv_def empty_table_def used_array_def)

lemma registration_empty [simp]: "registration empty_table h = None"
  by (simp add: registration_def empty_table_def)

lemma table_inv_offset:
  "table_inv r \<Longrightarrow> h < length (handles r) \<Longrightarrow>
     offset (handles r ! h) = -1 \<or>
     0 \<le> offset (handles r ! h) \<and> nat (offset (handles r ! h)) < nr_array_used r"
  unfolding table_inv_def by force

lemma table_inv_used: "table_inv r \<Longrightarrow> nr_array_used r \<le> length (poll_array r)"
  by (simp add: table_inv_def)

lemma table_inv_surj:
  "table_inv r \<Longrightarrow> a < nr_array_used r \<Longrightarrow> \<exists>i < length (handles r). offset (handles r ! i) = int a"
  by (simp add: table_inv_def)

lemma reactor_register_inv:
  assumes inv: "table_inv r" and fits: "fits_short ops"
    and reg: "reactor_register jh jp r s ops f d = (h, r')"
  shows "table_inv r'"
proof -
  obtain hs where fh: "find_handle jh (handles r) = (h, hs)"
    using reg by (auto simp: reactor_register_def Let_def split: prod.splits)
  obtain a arr used where
    fp: "find_poll_descriptor jp s ops (poll_array r) (nr_array_used r) = (a, arr, used)"
    using prod_cases3 by blast
  let ?hs = "hs[h := \<lparr>offset = int a, hfn = f, hdata = d\<rparr>]"
  have r': "r' = \<lparr>handles = ?hs, poll_array = arr, nr_array_used = used\<rparr>"
    using reg fh fp by (simp add: reactor_register_def)
  note H = find_handle_spec [OF fh]
  note P = find_poll_descriptor_spec [OF fp table_inv_used [OF inv] fits]
  have all: "offset (?hs ! i) = -1 \<or> 0 \<le> offset (?hs ! i) \<and> offset (?hs ! i) < int used"
    if "i < length hs" for i
  proof (cases "i = h")
    case True
    then show ?thesis using P(1) H(1) by simp
  next
    case False
    then show ?thesis
      using table_inv_offset [OF inv, of i] H(4,5) [of i] P(3) that
      by (cases "i < length (handles r)") auto
  qed
  have onto: "\<exists>i < length hs. offset (?hs ! i) = int b" if "b < used" for b
  proof (cases "b = a")
    case True
    then show ?thesis using H(1) by (intro exI [of _ h]) simp
  next
    case False
    then have "b < nr_array_used r" using P(7) that by auto
    then obtain i where "i < length (handles r)" "offset (handles r ! i) = int b"
      using table_inv_surj [OF inv] by blast
    then show ?thesis using H(2,3,4) by (intro exI [of _ i]) (cases "i = h"; auto)
  qed
  show ?thesis
    using P(2,8) inv all onto unfolding r' table_inv_def used_array_def by simp
qed

lemma reactor_register_registration:
  assumes inv: "table_inv r" and fits: "fits_short ops"
    and reg: "reactor_register jh jp r s ops f d = (h, r')"
  shows "registration r h = None"
    and "registration r' = (registration r)(h \<mapsto> (s, ops, f, d))"
proof -
  obtain hs where fh: "find_handle jh (handles r) = (h, hs)"
    using reg by (auto simp: reactor_register_def Let_def split: prod.splits)
  obtain a arr used where
    fp: "find_poll_descriptor jp s ops (poll_array r) (nr_array_used r) = (a, arr, used)"
    using prod_cases3 by blast
  have r': "r' = \<lparr>handles = hs[h := \<lparr>offset = int a, hfn = f, hdata = d\<rparr>],
                  poll_array = arr, nr_array_used = used\<rparr>"
    using reg fh fp by (simp add: reactor_register_def)
  have u: "nr_array_used r \<le> length (poll_array r)" using inv by (simp add: table_inv_def)
  note H = find_handle_spec [OF fh]
  note P = find_poll_descriptor_spec [OF fp u fits]
  show "registration r h = None"
    using H(2,4) by (auto simp: registration_def)
  show "registration r' = (registration r)(h \<mapsto> (s, ops, f, d))"
  proof
    fix i
    consider (eq) "i = h" | (old) "i \<noteq> h" "i < length (handles r)"
      | (new) "i \<noteq> h" "length (handles r) \<le> i" by linarith
    then show "registration r' i = ((registration r)(h \<mapsto> (s, ops, f, d))) i"
    proof cases
      case eq
      then show ?thesis using H(1) P(5,6) by (simp add: registration_def r' Let_def)
    next
      case old
      then show ?thesis
        using H(3,4) P(4) table_inv_offset [OF inv old(2)]
        by (auto simp: registration_def r' Let_def)
    next
      case new
      then show ?thesis using H(5) by (auto simp: registration_def r')
    qed
  qed
qed

text \<open>Registering leaves the other handles' descriptors alone, the events \<open>poll\<close> reported included.\<close>

lemma reactor_register_watched:
  assumes inv: "table_inv r" and fits: "fits_short ops"
    and reg: "reactor_register jh jp r s ops f d = (h, r')" and live: "watched r i \<noteq> None"
  shows "i \<noteq> h" "watched r' i = watched r i"
proof -
  obtain hs where fh: "find_handle jh (handles r) = (h, hs)"
    using reg by (auto simp: reactor_register_def Let_def split: prod.splits)
  obtain a arr used where
    fp: "find_poll_descriptor jp s ops (poll_array r) (nr_array_used r) = (a, arr, used)"
    using prod_cases3 by blast
  have r': "r' = \<lparr>handles = hs[h := \<lparr>offset = int a, hfn = f, hdata = d\<rparr>],
                  poll_array = arr, nr_array_used = used\<rparr>"
    using reg fh fp by (simp add: reactor_register_def)
  have i: "i < length (handles r)" "offset (handles r ! i) \<ge> 0"
    using live by (auto simp: watched_def split: if_splits)
  note H = find_handle_spec [OF fh]
  note P = find_poll_descriptor_spec [OF fp table_inv_used [OF inv] fits]
  show ih: "i \<noteq> h" using H(2,4) i by auto
  show "watched r' i = watched r i"
    using H(3,4) P(4) table_inv_offset [OF inv i(1)] i ih by (simp add: watched_def r' Let_def)
qed

section \<open>Unregistering\<close>

lemma memcpy_up_copied:
  "dst \<le> src \<Longrightarrow> src + n \<le> length arr \<Longrightarrow> memcpy_up dst src n arr = copied dst src n arr"
proof (induction n arbitrary: dst src arr)
  case 0
  then show ?case by (simp add: copied_def)
next
  case (Suc n)
  let ?arr = "arr[dst := arr ! src]"
  have "memcpy_up dst src (Suc n) arr = copied (Suc dst) (Suc src) n ?arr"
    using Suc.prems by (simp add: Suc.IH)
  also have "\<dots> = copied dst src (Suc n) arr"
    using Suc.prems
    by (simp add: copied_def take_Suc_conv_app_nth drop_update_cancel take_update_cancel Cons_nth_drop_Suc [of src, symmetric])
  finally show ?case .
qed

definition gap_closed :: "nat \<Rightarrow> nat \<Rightarrow> 'a list \<Rightarrow> 'a list" where
  "gap_closed a used = copied a (a + 1) (used - a - 1)"

lemma gap_closed_conv:
  "a < used \<Longrightarrow> used \<le> length arr \<Longrightarrow>
     gap_closed a used arr = remove_at a (take used arr) @ drop (used - 1) arr"
  by (simp add: gap_closed_def copied_def remove_at_def drop_take)

lemma gap_closed_used:
  "a < used \<Longrightarrow> used \<le> length arr \<Longrightarrow>
     take (used - 1) (gap_closed a used arr) = remove_at a (take used arr)"
  by (simp add: gap_closed_conv)

lemma length_gap_closed [simp]:
  "a < used \<Longrightarrow> used \<le> length arr \<Longrightarrow> length (gap_closed a used arr) = length arr"
  by (simp add: gap_closed_conv)

lemma nth_gap_closed:
  "a < used \<Longrightarrow> used \<le> length arr \<Longrightarrow> j < used - 1 \<Longrightarrow>
     gap_closed a used arr ! j = (if j < a then arr ! j else arr ! Suc j)"
  by (auto simp: gap_closed_conv nth_append nth_remove_at)

text \<open>The copy that unregistering a handle makes, if it makes one, is a faithful one.\<close>

definition faithful_copy :: "pollfd memcpy_fn \<Rightarrow> ('f, 'd) handle_table \<Rightarrow> nat \<Rightarrow> bool" where
  "faithful_copy M r h \<longleftrightarrow>
     (\<forall>a. int a = offset (handles r ! h) \<longrightarrow> a < nr_array_used r \<longrightarrow>
        (\<forall>i < length (handles r). i \<noteq> h \<longrightarrow> offset (handles r ! i) \<noteq> int a) \<longrightarrow>
        close_gap M a (nr_array_used r) (poll_array r) = gap_closed a (nr_array_used r) (poll_array r))"

text \<open>
  It is one when its regions do not overlap: the handle is not live, another one shares its
  descriptor, or at most one descriptor lies behind it. With \<open>memcpy_up\<close> it always is.
\<close>

definition regions_disjoint :: "('f, 'd) handle_table \<Rightarrow> nat \<Rightarrow> bool" where
  "regions_disjoint r h \<longleftrightarrow>
     offset (handles r ! h) < 0 \<or>
     (\<exists>i < length (handles r). i \<noteq> h \<and> offset (handles r ! i) = offset (handles r ! h)) \<or>
     int (nr_array_used r) \<le> offset (handles r ! h) + 2"

lemma faithful_copy_disjoint:
  assumes "memcpy_law M" "table_inv r" "regions_disjoint r h"
  shows "faithful_copy M r h"
  unfolding faithful_copy_def
proof (intro allI impI)
  fix a
  assume a: "int a = offset (handles r ! h)" "a < nr_array_used r"
    and alone: "\<forall>i < length (handles r). i \<noteq> h \<longrightarrow> offset (handles r ! i) \<noteq> int a"
  have "nr_array_used r \<le> a + 2"
    using assms(3) alone unfolding regions_disjoint_def a(1) [symmetric] by auto
  then show "close_gap M a (nr_array_used r) (poll_array r) = gap_closed a (nr_array_used r) (poll_array r)"
    unfolding close_gap_def gap_closed_def
    by (intro assms(1) [unfolded memcpy_law_def, rule_format]) (use a(2) table_inv_used [OF assms(2)] in auto)
qed

lemma faithful_copy_up: "table_inv r \<Longrightarrow> faithful_copy memcpy_up r h"
  using table_inv_used [of r] by (simp add: faithful_copy_def close_gap_def gap_closed_def memcpy_up_copied)

text \<open>The three ways \<open>reactor_unregister_with\<close> can go: a dead handle, a shared descriptor, the last user.\<close>

lemma unregister_with_dead:
  "h < length (handles r) \<Longrightarrow> offset (handles r ! h) = -1 \<Longrightarrow> reactor_unregister_with M r h = Some r"
proof -
  assume h: "h < length (handles r)" and o: "offset (handles r ! h) = -1"
  have same: "(handles r)[h := (handles r ! h)\<lparr>offset := -1\<rparr>] = handles r"
    using h o by (metis (full_types) list_update_id reactor_handle.surjective reactor_handle.update_convs(1))
  moreover have "\<exists>x \<in> set (handles r). offset x = -1" using h o nth_mem by blast
  ultimately show ?thesis using h o by (simp add: reactor_unregister_with_def)
qed

lemma unregister_with_cases:
  assumes inv: "table_inv r" and copy: "faithful_copy M r h"
    and un: "reactor_unregister_with M r h = Some r'"
    and live: "offset (handles r ! h) \<ge> 0"
  obtains (shared) k where "k < length (handles r)" "k \<noteq> h"
      "offset (handles r ! k) = offset (handles r ! h)"
      "handles r' = (handles r)[h := (handles r ! h)\<lparr>offset := -1\<rparr>]"
      "poll_array r' = poll_array r" "nr_array_used r' = nr_array_used r"
  | (last) a where "int a = offset (handles r ! h)" "a < nr_array_used r"
      "\<And>i. i < length (handles r) \<Longrightarrow> i \<noteq> h \<Longrightarrow> offset (handles r ! i) \<noteq> int a"
      "handles r' = map (\<lambda>x. if offset x > int a then x\<lparr>offset := offset x - 1\<rparr> else x)
         ((handles r)[h := (handles r ! h)\<lparr>offset := -1\<rparr>])"
      "poll_array r' = gap_closed a (nr_array_used r) (poll_array r)"
      "nr_array_used r' = nr_array_used r - 1"
proof -
  have h: "h < length (handles r)" using un by (auto simp: reactor_unregister_with_def split: if_splits)
  let ?hs = "(handles r)[h := (handles r ! h)\<lparr>offset := -1\<rparr>]"
  let ?a = "offset (handles r ! h)"
  have ex: "(\<exists>x \<in> set ?hs. offset x = ?a) \<longleftrightarrow>
      (\<exists>i < length (handles r). i \<noteq> h \<and> offset (handles r ! i) = ?a)"
    using live h by (auto simp: bex_set_nth nth_list_update)
  show thesis
  proof (cases "\<exists>x \<in> set ?hs. offset x = ?a")
    case True
    then obtain k where "k < length (handles r)" "k \<noteq> h" "offset (handles r ! k) = ?a"
      using ex by blast
    moreover have "r' = r\<lparr>handles := ?hs\<rparr>"
      using un h True by (simp add: reactor_unregister_with_def Let_def)
    ultimately show thesis by (intro shared [of k]) simp_all
  next
    case False
    have a: "int (nat ?a) = ?a" "nat ?a < nr_array_used r"
      using live table_inv_offset [OF inv h] by auto
    have r': "r' = \<lparr>handles = map (\<lambda>x. if offset x > ?a then x\<lparr>offset := offset x - 1\<rparr> else x) ?hs,
                   poll_array = close_gap M (nat ?a) (nr_array_used r) (poll_array r),
                   nr_array_used = nr_array_used r - 1\<rparr>"
      using un h False by (simp add: reactor_unregister_with_def Let_def)
    have gap: "close_gap M (nat ?a) (nr_array_used r) (poll_array r) =
        gap_closed (nat ?a) (nr_array_used r) (poll_array r)"
      using copy a False ex unfolding faithful_copy_def by metis
    show thesis
      by (rule last [OF a]) (use False ex live gap in \<open>auto simp: r'\<close>)
  qed
qed

text \<open>The last handle on the descriptor \<open>a\<close> is unregistered: the array is closed up.\<close>

lemma unregister_last_inv:
  assumes inv: "table_inv r" and h: "h < length (handles r)" and last: "int a = offset (handles r ! h)" "a < nr_array_used r"
      "\<And>i. i < length (handles r) \<Longrightarrow> i \<noteq> h \<Longrightarrow> offset (handles r ! i) \<noteq> int a"
      "handles r' = map (\<lambda>x. if offset x > int a then x\<lparr>offset := offset x - 1\<rparr> else x)
         ((handles r)[h := (handles r ! h)\<lparr>offset := -1\<rparr>])"
      "poll_array r' = gap_closed a (nr_array_used r) (poll_array r)"
      "nr_array_used r' = nr_array_used r - 1"
  shows "table_inv r'"
proof -
  note rng = table_inv_offset [OF inv] and surj = table_inv_surj [OF inv]
  let ?u = "nr_array_used r"
  have len: "length (handles r') = length (handles r)" using last(4) by simp
  have off: "offset (handles r' ! i) =
      (if i = h then -1 else if offset (handles r ! i) > int a
       then offset (handles r ! i) - 1 else offset (handles r ! i))"
    if "i < length (handles r)" for i
    using that h unfolding last(4) by (auto simp: nth_list_update)
  have all: "offset (handles r' ! i) = -1 \<or>
      0 \<le> offset (handles r' ! i) \<and> offset (handles r' ! i) < int (?u - 1)"
    if "i < length (handles r)" for i
    using rng [OF that] last(3) [OF that] last(2) unfolding off [OF that] by auto
  have onto: "\<exists>i < length (handles r). offset (handles r' ! i) = int b" if b: "b < ?u - 1" for b
  proof -
    have "(if b < a then b else Suc b) < ?u" using b by auto
    then obtain i where i: "i < length (handles r)"
      "offset (handles r ! i) = int (if b < a then b else Suc b)" using surj by blast
    then have "i \<noteq> h" using last(1) by (auto split: if_splits)
    then show ?thesis using i off [OF i(1)] by (intro exI [of _ i]) auto
  qed
  have keys: "distinct (map pkey (used_array r'))"
    using inv last(2) distinct_remove_at [of "map pkey (used_array r)" a]
    unfolding used_array_def last(5,6) table_inv_def
    by (simp only: gap_closed_used remove_at_map)
  show ?thesis
    using all onto keys table_inv_used [OF inv] last(2)
    unfolding table_inv_def len last(5,6) by simp
qed

lemma unregister_with_inv:
  assumes inv: "table_inv r" and copy: "faithful_copy M r h"
    and un: "reactor_unregister_with M r h = Some r'"
  shows "table_inv r'"
proof -
  have h: "h < length (handles r)" using un by (auto simp: reactor_unregister_with_def split: if_splits)
  note rng = table_inv_offset [OF inv]
  note surj = table_inv_surj [OF inv]
  show ?thesis
  proof (cases "offset (handles r ! h) \<ge> 0")
    case False
    then show ?thesis using unregister_with_dead [OF h] rng [OF h] un inv by auto
  next
    case True
    from inv copy un True show ?thesis
    proof (cases rule: unregister_with_cases)
      case (shared k)
      have "\<exists>i < length (handles r). offset (handles r' ! i) = int b"
        if b: "b < nr_array_used r" for b
        using surj [OF b] shared by (metis nth_list_update_neq)
      then show ?thesis
        using inv h unfolding table_inv_def used_array_def shared(4-)
        by (auto simp: nth_list_update)
    next
      case (last a)
      show ?thesis by (rule unregister_last_inv [OF inv h last])
    qed
  qed
qed

lemma unregister_with_total:
  "table_inv r \<Longrightarrow> h < length (handles r) \<Longrightarrow> \<exists>r'. reactor_unregister_with M r h = Some r'"
  by (simp add: reactor_unregister_with_def Let_def)

lemma unregister_with_watched:
  assumes inv: "table_inv r" and copy: "faithful_copy M r h"
    and un: "reactor_unregister_with M r h = Some r'"
  shows "watched r' = (watched r)(h := None)"
proof -
  have h: "h < length (handles r)" using un by (auto simp: reactor_unregister_with_def split: if_splits)
  show ?thesis
  proof (cases "offset (handles r ! h) \<ge> 0")
    case False
    then show ?thesis
      using unregister_with_dead [OF h] table_inv_offset [OF inv h] un
      by (auto simp: fun_eq_iff watched_def)
  next
    case True
    from inv copy un True show ?thesis
    proof (cases rule: unregister_with_cases)
      case (shared k)
      then show ?thesis using h by (auto simp: fun_eq_iff watched_def nth_list_update)
    next
      case (last a)
      let ?u = "nr_array_used r"
      have gap: "gap_closed a ?u (poll_array r) ! j =
          (if j < a then poll_array r ! j else poll_array r ! Suc j)" if "j < ?u - 1" for j
        using nth_gap_closed [OF last(2) table_inv_used [OF inv] that] .
      show ?thesis
      proof
        fix i
        consider (eq) "i = h" | (out) "i \<noteq> h" "length (handles r) \<le> i"
          | (dead) "i \<noteq> h" "i < length (handles r)" "offset (handles r ! i) = -1"
          | (low) b where "i \<noteq> h" "i < length (handles r)" "offset (handles r ! i) = int b" "b < a"
          | (high) b where "i \<noteq> h" "i < length (handles r)" "offset (handles r ! i) = int b" "a < b" "b < ?u"
          using table_inv_offset [OF inv, of i] last(3) [of i]
          by (metis int_nat_eq linorder_neqE_nat not_le_imp_less)
        then show "watched r' i = ((watched r)(h := None)) i"
        proof cases
          case (high b)
          then have "poll_array r ! b = gap_closed a ?u (poll_array r) ! (b - 1)"
            using gap [of "b - 1"] by (simp add: Suc_diff_Suc)
          with high show ?thesis using last(4-6) h
            by (simp add: watched_def nth_list_update Let_def nat_diff_distrib)
        next
          case (low b)
          with last(2) have "poll_array r ! b = gap_closed a ?u (poll_array r) ! b"
            using gap [of b] by auto
          with low show ?thesis using last(4-6) h
            by (simp add: watched_def nth_list_update Let_def)
        qed (use last(4-6) h in \<open>auto simp: watched_def nth_list_update\<close>)
      qed
    qed
  qed
qed

lemma unregister_with_registration:
  assumes "table_inv r" "faithful_copy M r h" "reactor_unregister_with M r h = Some r'"
  shows "registration r' = (registration r)(h := None)"
  using unregister_with_watched [OF assms] by (simp add: fun_eq_iff registration_watched)

text \<open>The instances for the \<open>memcpy\<close> that copies from the front.\<close>

lemma reactor_unregister_inv:
  "table_inv r \<Longrightarrow> reactor_unregister r h = Some r' \<Longrightarrow> table_inv r'"
  using unregister_with_inv faithful_copy_up unfolding reactor_unregister_def by metis

lemma reactor_unregister_total:
  "table_inv r \<Longrightarrow> h < length (handles r) \<Longrightarrow> \<exists>r'. reactor_unregister r h = Some r'"
  using unregister_with_total unfolding reactor_unregister_def by metis

lemma reactor_unregister_registration:
  "table_inv r \<Longrightarrow> reactor_unregister r h = Some r' \<Longrightarrow> registration r' = (registration r)(h := None)"
  using unregister_with_registration faithful_copy_up unfolding reactor_unregister_def by metis

lemma reactor_unregister_watched:
  "table_inv r \<Longrightarrow> reactor_unregister r h = Some r' \<Longrightarrow> watched r' = (watched r)(h := None)"
  using unregister_with_watched faithful_copy_up unfolding reactor_unregister_def by metis

section \<open>The registry contract\<close>

text \<open>
  The loops of \<open>_poll\<close> (\<open>src/src/pthr_pseudothread.c\<close>) register a list of watches and later
  unregister the handles they got; \<open>block\<close> is the case of a single watch.
\<close>

fun register_many :: "('t \<Rightarrow> 'x \<Rightarrow> nat \<times> 't) \<Rightarrow> 't \<Rightarrow> 'x list \<Rightarrow> nat list \<times> 't" where
  "register_many reg t [] = ([], t)"
| "register_many reg t (x # xs) =
     (let (h, t1) = reg t x; (hs, t2) = register_many reg t1 xs in (h # hs, t2))"

fun unregister_many :: "('t \<Rightarrow> nat \<Rightarrow> 't option) \<Rightarrow> 't \<Rightarrow> nat list \<Rightarrow> 't option" where
  "unregister_many unreg t [] = Some t"
| "unregister_many unreg t (h # hs) =
     (case unreg t h of None \<Rightarrow> None | Some t1 \<Rightarrow> unregister_many unreg t1 hs)"

text \<open>What the pseudothread layer relies on: a registry is a map from handles to watches.\<close>

locale registry =
  fixes inv :: "'t \<Rightarrow> bool" and lookup :: "'t \<Rightarrow> nat \<Rightarrow> 'x option" and ok :: "'x \<Rightarrow> bool"
    and register :: "'t \<Rightarrow> 'x \<Rightarrow> nat \<times> 't" and unregister :: "'t \<Rightarrow> nat \<Rightarrow> 't option"
  assumes register_inv: "inv t \<Longrightarrow> ok x \<Longrightarrow> register t x = (h, t') \<Longrightarrow> inv t'"
    and register_fresh: "inv t \<Longrightarrow> ok x \<Longrightarrow> register t x = (h, t') \<Longrightarrow> lookup t h = None"
    and register_lookup: "inv t \<Longrightarrow> ok x \<Longrightarrow> register t x = (h, t') \<Longrightarrow> lookup t' = (lookup t)(h \<mapsto> x)"
    and unregister_live: "inv t \<Longrightarrow> lookup t h \<noteq> None \<Longrightarrow>
      \<exists>t'. unregister t h = Some t' \<and> inv t' \<and> lookup t' = (lookup t)(h := None)"
begin

lemma register_many_spec:
  "inv t \<Longrightarrow> \<forall>x \<in> set xs. ok x \<Longrightarrow> register_many register t xs = (hs, t') \<Longrightarrow>
     inv t' \<and> length hs = length xs \<and> distinct hs \<and> (\<forall>h \<in> set hs. lookup t h = None) \<and>
     lookup t' = (lookup t)(hs [\<mapsto>] xs)"
proof (induction xs arbitrary: t hs)
  case Nil
  then show ?case by simp
next
  case (Cons x xs)
  obtain h t1 where r1: "register t x = (h, t1)" by fastforce
  obtain hs1 where r2: "register_many register t1 xs = (hs1, t')" and hs: "hs = h # hs1"
    using Cons.prems(3) r1 by (auto split: prod.splits)
  have l1: "inv t1" "lookup t h = None" "lookup t1 = (lookup t)(h \<mapsto> x)"
    using register_inv register_fresh register_lookup Cons.prems r1 by auto
  have IH: "inv t'" "length hs1 = length xs" "distinct hs1" "\<forall>k \<in> set hs1. lookup t1 k = None"
    "lookup t' = (lookup t1)(hs1 [\<mapsto>] xs)"
    using Cons.IH [OF l1(1) _ r2] Cons.prems(2) by auto
  then have "h \<notin> set hs1" "\<forall>k \<in> set hs1. lookup t k = None"
    using l1 by (auto split: if_splits)
  with IH l1 hs show ?case by simp
qed

lemma unregister_many_spec:
  "inv t \<Longrightarrow> distinct hs \<Longrightarrow> \<forall>h \<in> set hs. lookup t h \<noteq> None \<Longrightarrow>
     \<exists>t'. unregister_many unregister t hs = Some t' \<and> inv t' \<and>
          lookup t' = (\<lambda>h. if h \<in> set hs then None else lookup t h)"
proof (induction hs arbitrary: t)
  case Nil
  then show ?case by simp
next
  case (Cons h hs)
  obtain t1 where t1: "unregister t h = Some t1" "inv t1" "lookup t1 = (lookup t)(h := None)"
    using unregister_live [OF Cons.prems(1), of h] Cons.prems(3) by auto
  have "\<forall>k \<in> set hs. lookup t1 k \<noteq> None" using Cons.prems t1(3) by auto
  then obtain t2 where "unregister_many unregister t1 hs = Some t2" "inv t2"
    "lookup t2 = (\<lambda>k. if k \<in> set hs then None else lookup t1 k)"
    using Cons.IH [OF t1(2)] Cons.prems(2) by auto
  with t1 show ?case by (auto simp: fun_eq_iff)
qed

text \<open>
  A client that registers its watches, lets others change the table while it sleeps (they leave
  its own handles alone) and unregisters them again, hands back the others' table.
\<close>

lemma sleep_roundtrip:
  assumes "inv t" "\<forall>x \<in> set xs. ok x" "register_many register t xs = (hs, t1)"
    and "inv t2" "\<forall>h \<in> set hs. lookup t2 h = lookup t1 h"
  shows "\<exists>t3. unregister_many unregister t2 hs = Some t3 \<and> inv t3 \<and>
           lookup t3 = (\<lambda>h. if h \<in> set hs then lookup t h else lookup t2 h)"
proof -
  have s: "length hs = length xs" "distinct hs" "\<forall>h \<in> set hs. lookup t h = None"
    "lookup t1 = (lookup t)(hs [\<mapsto>] xs)"
    using register_many_spec [OF assms(1-3)] by auto
  have "\<forall>h \<in> set hs. lookup t1 h \<noteq> None"
    using s(1,4) by (metis UnI1 domIff dom_map_upds order_refl take_all)
  then show ?thesis
    using unregister_many_spec [OF assms(4) s(2)] assms(5) s(3) by (auto simp: fun_eq_iff)
qed

end

text \<open>A watch as the callers pass it, and the registry that the two functions implement.\<close>

abbreviation register_watch ::
  "(nat \<Rightarrow> ('f, 'd) reactor_handle) \<Rightarrow> (nat \<Rightarrow> pollfd) \<Rightarrow> ('f, 'd) handle_table
     \<Rightarrow> int \<times> int \<times> 'f \<times> 'd \<Rightarrow> nat \<times> ('f, 'd) handle_table" where
  "register_watch jh jp r x \<equiv>
     reactor_register jh jp r (fst x) (fst (snd x)) (fst (snd (snd x))) (snd (snd (snd x)))"

interpretation handle_registry:
  registry table_inv registration "\<lambda>x. fits_short (fst (snd x))" "register_watch jh jp" reactor_unregister
  for jh jp
proof (unfold_locales, goal_cases)
  case (1 t x h t')
  then show ?case by (rule reactor_register_inv)
next
  case (2 t x h t')
  then show ?case by (rule reactor_register_registration)
next
  case (3 t x h t')
  then show ?case using reactor_register_registration(2) [OF 3] by simp
next
  case (4 t h)
  then have "h < length (handles t)" by (auto simp: registration_def split: if_splits)
  then obtain t' where "reactor_unregister t h = Some t'"
    using reactor_unregister_total [OF 4(1)] by blast
  then show ?case
    using reactor_unregister_inv reactor_unregister_registration 4(1) by blast
qed

section \<open>Properties\<close>

text \<open>
  C3: registering a handle keeps the table invariant, hands out a handle that was not in use, and
  changes the registrations only at that handle, whether it reuses a slot or grows the table and
  whether or not the descriptor is shared.
\<close>

theorem reactor_register_refines:
  assumes "table_inv r" "fits_short ops"
  shows "case reactor_register jh jp r s ops f d of (h, r') \<Rightarrow>
    table_inv r' \<and> registration r h = None \<and> registration r' = (registration r)(h \<mapsto> (s, ops, f, d))"
proof -
  obtain h r' where "reactor_register jh jp r s ops f d = (h, r')" by fastforce
  then show ?thesis
    using reactor_register_inv [OF assms] reactor_register_registration [OF assms] by simp
qed

theorem reactor_register_refines_witness:
  "case reactor_register (\<lambda>_. \<lparr>offset = 9, hfn = 0, hdata = 0\<rparr>) (\<lambda>_. \<lparr>fd = 0, events = 0, revents = 4\<rparr>)
      empty_table 5 1 (7 :: nat) (8 :: nat) of
    (h, r') \<Rightarrow> table_inv r' \<and> registration (empty_table :: (nat, nat) handle_table) h = None \<and>
      registration r' = (registration empty_table)(h \<mapsto> (5, 1, 7, 8))"
  by (rule reactor_register_refines) (simp_all add: fits_short_def)

text \<open>
  C2: unregistering any handle inside the table succeeds, keeps the table invariant and removes
  exactly that handle's registration: the descriptor is kept while another handle shares it, and
  otherwise the poll array is compacted and all other handles still watch what they watched. This
  holds for every \<open>memcpy\<close> that does what C promises if at most one descriptor lies behind the removed
  one (the regions copied are disjoint), and for longer moves, which C leaves undefined, if
  \<open>memcpy\<close> copies from the front.
\<close>

theorem reactor_unregister_refines:
  assumes "table_inv r" "h < length (handles r)"
    and "memcpy_law M \<and> regions_disjoint r h \<or> M = memcpy_up"
  shows "\<exists>r'. reactor_unregister_with M r h = Some r' \<and> table_inv r' \<and>
    registration r' = (registration r)(h := None)"
proof -
  have "faithful_copy M r h"
    using assms(1,3) faithful_copy_disjoint faithful_copy_up by blast
  then show ?thesis
    using unregister_with_total [OF assms(1,2)] unregister_with_inv [OF assms(1)]
      unregister_with_registration [OF assms(1)] by blast
qed

definition two_handles :: "(nat, nat) handle_table" where
  "two_handles = \<lparr>
     handles = [\<lparr>offset = 0, hfn = 1, hdata = 2\<rparr>, \<lparr>offset = 1, hfn = 3, hdata = 4\<rparr>, \<lparr>offset = 1, hfn = 5, hdata = 6\<rparr>],
     poll_array = [\<lparr>fd = 5, events = 1, revents = 0\<rparr>, \<lparr>fd = 6, events = 4, revents = 0\<rparr>],
     nr_array_used = 2\<rparr>"

lemma two_handles_inv: "table_inv two_handles"
  unfolding table_inv_def two_handles_def used_array_def
  by (simp add: pkey_def All_less_Suc Ex_less_Suc numeral_2_eq_2)

text \<open>A \<open>memcpy\<close> that copies from the back: it keeps the promise of C and is wrong for longer moves.\<close>

fun memcpy_down :: "'a memcpy_fn" where
  "memcpy_down dst src 0 arr = arr"
| "memcpy_down dst src (Suc n) arr = memcpy_down dst src n (arr[dst + n := arr ! (src + n)])"

lemma memcpy_down_nth:
  "dst + n \<le> length arr \<Longrightarrow> dst + n \<le> src \<or> src + n \<le> dst \<Longrightarrow>
     length (memcpy_down dst src n arr) = length arr \<and>
     (\<forall>i. memcpy_down dst src n arr ! i = (if dst \<le> i \<and> i < dst + n then arr ! (src + (i - dst)) else arr ! i))"
  by (induction n arbitrary: arr) (auto simp: nth_list_update less_Suc_eq)

lemma memcpy_down_law: "memcpy_law memcpy_down"
  unfolding memcpy_law_def
proof (intro allI impI, elim conjE)
  fix dst src n and arr :: "'a list"
  assume r: "dst + n \<le> length arr" "src + n \<le> length arr" "dst + n \<le> src \<or> src + n \<le> dst"
  show "memcpy_down dst src n arr = copied dst src n arr"
    using memcpy_down_nth [OF r(1,3)] r
    by (intro nth_equalityI) (auto simp: copied_def nth_append)
qed

theorem reactor_unregister_refines_witness:
  "\<exists>r'. reactor_unregister_with memcpy_down two_handles 0 = Some r' \<and> table_inv r' \<and>
    registration r' = (registration two_handles)(0 := None)"
  by (rule reactor_unregister_refines [OF two_handles_inv])
    (simp_all add: memcpy_down_law two_handles_def regions_disjoint_def)

text \<open>
  With two descriptors behind the removed one, that \<open>memcpy\<close> loses the watch of another handle:
  handle 1 then watches descriptor 7 instead of 6.
\<close>

definition three_handles :: "(nat, nat) handle_table" where
  "three_handles = \<lparr>
     handles = [\<lparr>offset = 0, hfn = 1, hdata = 2\<rparr>, \<lparr>offset = 1, hfn = 3, hdata = 4\<rparr>, \<lparr>offset = 2, hfn = 5, hdata = 6\<rparr>],
     poll_array = [\<lparr>fd = 5, events = 1, revents = 0\<rparr>, \<lparr>fd = 6, events = 1, revents = 0\<rparr>, \<lparr>fd = 7, events = 1, revents = 0\<rparr>],
     nr_array_used = 3\<rparr>"

lemma unregister_overlap_loses_watch:
  "registration three_handles 1 = Some (6, 1, 3, 4)"
  "map_option (\<lambda>r. registration r 1) (reactor_unregister_with memcpy_down three_handles 0) = Some (Some (7, 1, 3, 4))"
  by (simp_all add: registration_def three_handles_def reactor_unregister_with_def close_gap_def eval_nat_numeral)

text \<open>
  a thread that registers a list of watches, sleeps while the others change the table without
  touching its handles, and unregisters its handles again, gives back the table the others left:
  none of its watches stays behind and nobody else's is lost.
\<close>

theorem poll_registrations_roundtrip:
  assumes "table_inv r" "\<forall>x \<in> set xs. fits_short (fst (snd x))"
    and "register_many (register_watch jh jp) r xs = (hs, r1)"
    and "table_inv r2" "\<forall>h \<in> set hs. registration r2 h = registration r1 h"
  shows "\<exists>r3. unregister_many reactor_unregister r2 hs = Some r3 \<and> table_inv r3 \<and>
    registration r3 = (\<lambda>h. if h \<in> set hs then registration r h else registration r2 h)"
  using assms by (rule handle_registry.sleep_roundtrip)

theorem poll_registrations_roundtrip_witness:
  "case register_many (register_watch (\<lambda>_. \<lparr>offset = 9, hfn = 0, hdata = 0\<rparr>) (\<lambda>_. \<lparr>fd = 0, events = 0, revents = 4\<rparr>))
      two_handles [(5, 1, 7, 8), (9, 1, 7, 8)] of
    (hs, r1) \<Rightarrow> \<exists>r3. unregister_many reactor_unregister r1 hs = Some r3 \<and> table_inv r3 \<and>
      registration r3 = (\<lambda>h. if h \<in> set hs then registration two_handles h else registration r1 h)"
proof -
  let ?reg = "register_watch (\<lambda>_. \<lparr>offset = 9, hfn = 0 :: nat, hdata = 0 :: nat\<rparr>) (\<lambda>_. \<lparr>fd = 0, events = 0, revents = 4\<rparr>)"
  obtain hs r1 where e: "register_many ?reg two_handles [(5, 1, 7, 8), (9, 1, 7, 8)] = (hs, r1)"
    by fastforce
  have ok: "\<forall>x \<in> set [(5 :: int, 1 :: int, 7 :: nat, 8 :: nat), (9, 1, 7, 8)]. fits_short (fst (snd x))"
    by (simp add: fits_short_def)
  have "table_inv r1" using handle_registry.register_many_spec [OF two_handles_inv ok e] by blast
  then show ?thesis
    using poll_registrations_roundtrip [OF two_handles_inv ok e] unfolding e by simp
qed

end
