(* ===== verification/Reactor_Timers.thy ===== *)
theory Reactor_Timers
  imports Prelude "HOL-Library.Monad_Syntax"
begin

text \<open>
  The timer queue of the reactor (\<open>src/src/pthr_reactor.c\<close>): a doubly linked list on the heap, kept
  in time order as a delta queue. Every timer stores the difference of its trigger time to that of
  its predecessor, the head stores its absolute trigger time, all in \<open>unsigned long long\<close>. The
  theory relates the linked list to a plain list of (timer, trigger time) pairs and proves that
  insertion and removal refine the list operations: the queue stays sorted and no other timer
  changes its trigger time.
\<close>

section \<open>State\<close>

record ('f, 'd) timer =
  tpool :: pool
  tprev :: "addr option"
  tnext :: "addr option"
  delta :: "64 word"
  tfn :: 'f
  tdata :: 'd

record ('f, 'd) timer_queue =
  head_timer :: "addr option"
  theap :: "addr \<Rightarrow> ('f, 'd) timer option"

definition empty_queue :: "('f, 'd) timer_queue" where
  "empty_queue = \<lparr>head_timer = None, theap = Map.empty\<rparr>"

section \<open>Operations\<close>

text \<open>
  \<open>trigger_time = reactor_time + timeout\<close>: the \<open>int\<close> is converted to \<open>unsigned long long\<close>, so a
  negative timeout counts back from the current time.
\<close>

definition trigger_time :: "64 word \<Rightarrow> int \<Rightarrow> 64 word" where
  "trigger_time now timeout = now + word_of_int timeout"

text \<open>
  The search loop of \<open>reactor_set_timer\<close>: it stops before the first timer that is not earlier than
  the new one. The result is the element \<open>p\<close> at which it stops (null at the end), the element before
  it and the accumulated time; \<open>None\<close> is a loop that does not end or follows a dangling pointer.
\<close>

partial_function (option) timer_walk ::
  "(addr \<Rightarrow> ('f, 'd) timer option) \<Rightarrow> 64 word \<Rightarrow> addr option \<Rightarrow> addr option \<Rightarrow> 64 word
     \<Rightarrow> (addr option \<times> addr option \<times> 64 word) option" where
  "timer_walk H trig p last_p this_time =
     (case p of
        None \<Rightarrow> Some (None, last_p, this_time)
      | Some a \<Rightarrow>
          (case H a of
             None \<Rightarrow> None
           | Some x \<Rightarrow>
               if this_time + delta x \<ge> trig then Some (Some a, last_p, this_time + delta x)
               else timer_walk H trig (tnext x) (Some a) (this_time + delta x)))"

text \<open>
  Linking the new timer \<open>t\<close> (already filled in with pool, function and data) into the queue:
  before the element at which the search stopped, or at the end.
\<close>

definition insert_before ::
  "('f, 'd) timer_queue \<Rightarrow> addr \<Rightarrow> ('f, 'd) timer \<Rightarrow> 64 word \<Rightarrow> addr \<Rightarrow> 64 word
     \<Rightarrow> ('f, 'd) timer_queue option" where
  "insert_before q t x trig p this_time =
     do {
       y \<leftarrow> theap q p;
       let H1 = (theap q)(t \<mapsto> x\<lparr>tprev := tprev y, tnext := Some p,
                              delta := trig - (this_time - delta y)\<rparr>);
       (hd, H2) \<leftarrow>
         (case tprev y of
            Some b \<Rightarrow> do { z \<leftarrow> H1 b; Some (head_timer q, H1(b \<mapsto> z\<lparr>tnext := Some t\<rparr>)) }
          | None \<Rightarrow> Some (Some t, H1));
       Some \<lparr>head_timer = hd,
             theap = H2(p \<mapsto> y\<lparr>tprev := Some t, delta := this_time - trig\<rparr>)\<rparr>
     }"

definition enqueue_timer ::
  "('f, 'd) timer_queue \<Rightarrow> addr \<Rightarrow> ('f, 'd) timer \<Rightarrow> 64 word \<Rightarrow> ('f, 'd) timer_queue option" where
  "enqueue_timer q t x trig =
     (if head_timer q = None
      then Some \<lparr>head_timer = Some t,
                 theap = (theap q)(t \<mapsto> x\<lparr>tprev := None, tnext := None, delta := trig\<rparr>)\<rparr>
      else do {
        (p, last_p, this_time) \<leftarrow> timer_walk (theap q) trig (head_timer q) None 0;
        case p of
          Some a \<Rightarrow> insert_before q t x trig a this_time
        | None \<Rightarrow> do {
            l \<leftarrow> last_p;
            z \<leftarrow> theap q l;
            Some (q\<lparr>theap := (theap q)(l \<mapsto> z\<lparr>tnext := Some t\<rparr>,
                     t \<mapsto> x\<lparr>tprev := Some l, tnext := None, delta := trig - this_time\<rparr>)\<rparr>)
          }
      })"

definition remove_timer :: "('f, 'd) timer_queue \<Rightarrow> addr \<Rightarrow> ('f, 'd) timer_queue option" where
  "remove_timer q t =
     do {
       x \<leftarrow> theap q t;
       (hd, H1) \<leftarrow>
         (case tprev x of
            Some b \<Rightarrow> do { z \<leftarrow> theap q b; Some (head_timer q, (theap q)(b \<mapsto> z\<lparr>tnext := tnext x\<rparr>)) }
          | None \<Rightarrow> Some (tnext x, theap q));
       case tnext x of
         None \<Rightarrow> Some \<lparr>head_timer = hd, theap = H1\<rparr>
       | Some n \<Rightarrow> do {
           y \<leftarrow> H1 n;
           Some \<lparr>head_timer = hd,
                 theap = H1(n \<mapsto> y\<lparr>tprev := tprev x, delta := delta y + delta x\<rparr>)\<rparr>
         }
     }"

section \<open>The linked list as a schedule\<close>

text \<open>
  \<open>seg H pv p base q pv' p' base'\<close>: starting at pointer \<open>p\<close>, behind \<open>pv\<close>, with accumulated time
  \<open>base\<close>, the heap holds the timers of \<open>q\<close> (address and absolute trigger time), and the walk ends at
  \<open>p'\<close> behind \<open>pv'\<close> with accumulated time \<open>base'\<close>.
\<close>

fun seg ::
  "(addr \<Rightarrow> ('f, 'd) timer option) \<Rightarrow> addr option \<Rightarrow> addr option \<Rightarrow> nat \<Rightarrow> (addr \<times> nat) list
     \<Rightarrow> addr option \<Rightarrow> addr option \<Rightarrow> nat \<Rightarrow> bool" where
  "seg H pv p base [] pv' p' base' \<longleftrightarrow> pv = pv' \<and> p = p' \<and> base = base'"
| "seg H pv p base ((a, tr) # q) pv' p' base' \<longleftrightarrow>
     p = Some a \<and> base \<le> tr \<and> tr < 2 ^ 64 \<and>
     (\<exists>x. H a = Some x \<and> tprev x = pv \<and> unat (delta x) = tr - base \<and>
          seg H (Some a) (tnext x) tr q pv' p' base')"

text \<open>The queue holds the schedule \<open>q\<close>.\<close>

definition holds_schedule :: "('f, 'd) timer_queue \<Rightarrow> (addr \<times> nat) list \<Rightarrow> bool" where
  "holds_schedule s q \<longleftrightarrow>
     distinct (map fst q) \<and> (\<exists>pv b. seg (theap s) None (head_timer s) 0 q pv None b)"

text \<open>The abstract operations on schedules.\<close>

definition sched_insert :: "addr \<Rightarrow> nat \<Rightarrow> (addr \<times> nat) list \<Rightarrow> (addr \<times> nat) list" where
  "sched_insert t tr q =
     takeWhile (\<lambda>e. snd e < tr) q @ (t, tr) # dropWhile (\<lambda>e. snd e < tr) q"

definition sched_remove :: "addr \<Rightarrow> (addr \<times> nat) list \<Rightarrow> (addr \<times> nat) list" where
  "sched_remove t q = filter (\<lambda>e. fst e \<noteq> t) q"

subsection \<open>Segments\<close>

lemma seg_append:
  "seg H pv p base (q1 @ q2) pv' p' base' \<longleftrightarrow>
     (\<exists>pm m b. seg H pv p base q1 pm m b \<and> seg H pm m b q2 pv' p' base')"
  by (induction q1 arbitrary: pv p base) (auto; blast)+

lemma seg_frame [simp]:
  "a \<notin> fst ` set q \<Longrightarrow> seg (H(a := v)) pv p base q pv' p' base' = seg H pv p base q pv' p' base'"
  by (induction q arbitrary: pv p base) auto

lemma seg_base_le: "seg H pv p base q pv' p' base' \<Longrightarrow> base \<le> base'"
  by (induction q arbitrary: pv p base) (auto, fastforce)

lemma seg_bounded: "seg H pv p base q pv' p' base' \<Longrightarrow> base < 2 ^ 64 \<Longrightarrow> base' < 2 ^ 64"
  by (induction q arbitrary: pv p base) auto

lemma seg_times: "seg H pv p base q pv' p' base' \<Longrightarrow> e \<in> set q \<Longrightarrow> base \<le> snd e \<and> snd e \<le> base'"
proof (induction q arbitrary: pv p base)
  case (Cons h q)
  obtain a tr where h: "h = (a, tr)" by fastforce
  from Cons.prems(1) obtain n where s: "base \<le> tr" "seg H (Some a) n tr q pv' p' base'"
    by (auto simp: h)
  show ?case
    using Cons.IH [OF s(2)] Cons.prems(2) s(1) seg_base_le [OF s(2)] by (auto simp: h)
qed simp

lemma seg_sorted: "seg H pv p base q pv' p' base' \<Longrightarrow> sorted (map snd q)"
proof (induction q arbitrary: pv p base)
  case (Cons h q)
  obtain a tr where h: "h = (a, tr)" by fastforce
  from Cons.prems obtain n where s: "seg H (Some a) n tr q pv' p' base'"
    by (auto simp: h)
  then show ?case using Cons.IH [OF s] seg_times [OF s] by (auto simp: h)
qed simp

lemma seg_end:
  "seg H pv p base q pv' p' base' \<Longrightarrow>
     pv' = (if q = [] then pv else Some (fst (last q))) \<and> base' = (if q = [] then base else snd (last q))"
  by (induction q arbitrary: pv p base) auto

text \<open>The pointer behind a segment is stored in its last element.\<close>

lemma seg_relink:
  assumes "seg H pv p base q (Some b) p' base'" "q \<noteq> []" "distinct (map fst q)" "H b = Some z"
  shows "seg (H(b \<mapsto> z\<lparr>tnext := p''\<rparr>)) pv p base q (Some b) p'' base'"
proof -
  have b: "fst (last q) = b" using seg_end [OF assms(1)] assms(2) by simp
  obtain q1 tr where q: "q = q1 @ [(b, tr)]"
    using assms(2) b by (metis append_butlast_last_id prod.collapse)
  have "b \<notin> fst ` set q1" using assms(3) q by auto
  then show ?thesis using assms(1,4) unfolding q by (auto simp: seg_append)
qed

lemma seg_alloc: "seg H pv p base q pv' p' base' \<Longrightarrow> c \<in> fst ` set q \<Longrightarrow> \<exists>z. H c = Some z"
  by (induction q arbitrary: pv p base) (auto, force)

lemma seg_head:
  assumes "seg H pv p base q pv' p' base'" "q \<noteq> []"
  shows "p = Some (fst (hd q))"
  using assms by (cases q) auto

subsection \<open>The search loop\<close>

lemma delta_step:
  assumes "unat (d :: 64 word) = tr - base" "base \<le> tr"
  shows "word_of_nat base + d = word_of_nat tr"
proof -
  have "d = word_of_nat (tr - base)" using assms(1) by (metis unsigned_word_eqI unat_of_nat unsigned_less mod_less)
  then show ?thesis using assms(2) by (metis le_add_diff_inverse of_nat_add)
qed

lemma time_le_iff:
  "tr < 2 ^ 64 \<Longrightarrow> trig \<le> (word_of_nat tr :: 64 word) \<longleftrightarrow> unat trig \<le> tr"
  by (simp add: word_le_nat_alt unat_of_nat)

lemma timer_walk_spec:
  assumes "seg H pv p base (q1 @ q2) e None b" "base < 2 ^ 64"
    "\<forall>en \<in> set q1. snd en < unat trig" "q2 \<noteq> [] \<longrightarrow> unat trig \<le> snd (hd q2)"
  shows "timer_walk H trig p pv (word_of_nat base) =
     Some (if q2 = [] then None else Some (fst (hd q2)),
           if q1 = [] then pv else Some (fst (last q1)),
           word_of_nat (if q2 = [] then (if q1 = [] then base else snd (last q1)) else snd (hd q2)))"
  using assms
proof (induction q1 arbitrary: pv p base)
  case Nil
  show ?case
  proof (cases q2)
    case Nil
    then show ?thesis using Nil.prems(1) by (simp add: timer_walk.simps)
  next
    case (Cons h q)
    obtain a tr where h: "h = (a, tr)" by fastforce
    obtain x where x: "p = Some a" "base \<le> tr" "tr < 2 ^ 64" "H a = Some x" "unat (delta x) = tr - base"
      using Nil.prems(1) unfolding Cons h by auto
    then show ?thesis
      using Nil.prems(4) delta_step [OF x(5,2)] time_le_iff [OF x(3), of trig]
      by (simp add: timer_walk.simps Cons h)
  qed
next
  case (Cons h q1)
  obtain a tr where h: "h = (a, tr)" by fastforce
  obtain x where x: "p = Some a" "base \<le> tr" "tr < 2 ^ 64" "H a = Some x" "unat (delta x) = tr - base"
    "seg H (Some a) (tnext x) tr (q1 @ q2) e None b"
    using Cons.prems(1) unfolding h by auto
  have "timer_walk H trig p pv (word_of_nat base) = timer_walk H trig (tnext x) (Some a) (word_of_nat tr)"
    using x Cons.prems(3) delta_step [OF x(5,2)] time_le_iff [OF x(3), of trig]
    by (subst timer_walk.simps) (simp add: h)
  also have "\<dots> = Some (if q2 = [] then None else Some (fst (hd q2)),
           if q1 = [] then Some a else Some (fst (last q1)),
           word_of_nat (if q2 = [] then (if q1 = [] then tr else snd (last q1)) else snd (hd q2)))"
    by (rule Cons.IH) (use x Cons.prems in auto)
  finally show ?case by (simp add: h)
qed

subsection \<open>Insertion\<close>

lemma schedule_split:
  fixes trig :: nat
  obtains q1 q2 where "q = q1 @ q2" "\<forall>e \<in> set q1. snd e < trig"
    "q2 \<noteq> [] \<longrightarrow> trig \<le> snd (hd q2)" "sched_insert t trig q = q1 @ (t, trig) # q2"
proof
  show "q = takeWhile (\<lambda>e. snd e < trig) q @ dropWhile (\<lambda>e. snd e < trig) q" by simp
  show "\<forall>e \<in> set (takeWhile (\<lambda>e. snd e < trig) q). snd e < trig"
    using set_takeWhileD by fastforce
  show "dropWhile (\<lambda>e. snd e < trig) q \<noteq> [] \<longrightarrow> trig \<le> snd (hd (dropWhile (\<lambda>e. snd e < trig) q))"
    using hd_dropWhile [of "\<lambda>e. snd e < trig" q] by (metis (no_types, lifting) not_less)
qed (simp add: sched_insert_def)

lemma insert_before_refines:
  assumes s1: "seg (theap s) None (head_timer s) 0 q1 pv (Some p) b1"
    and y: "theap s p = Some y" "tprev y = pv" "unat (delta y) = tr - b1" "b1 \<le> tr" "tr < 2 ^ 64"
    and s2: "seg (theap s) (Some p) (tnext y) tr q2 e None b"
    and d: "distinct (map fst (q1 @ (p, tr) # q2))" and t: "t \<notin> fst ` set (q1 @ (p, tr) # q2)"
    and tr: "unat trig \<le> tr" "\<forall>en \<in> set q1. snd en < unat trig"
  shows "\<exists>s'. insert_before s t x trig p (word_of_nat tr) = Some s' \<and>
     holds_schedule s' (q1 @ (t, unat trig) # (p, tr) # q2)"
proof -
  have b1: "b1 \<le> unat trig" using seg_end [OF s1] tr(2) last_in_set [of q1] by (cases "q1 = []") (auto simp: less_imp_le)
  have w: "word_of_nat tr - delta y = (word_of_nat b1 :: 64 word)"
    using delta_step [OF y(3,4)] by (metis add_diff_cancel_right')
  have lt: "unat trig < 2 ^ 64" using unsigned_less [of trig, where 'a = nat] by simp
  have d1: "unat (trig - word_of_nat b1) = unat trig - b1"
    using b1 lt by (subst unat_sub) (auto simp: word_le_nat_alt unat_of_nat)
  have d2: "unat (word_of_nat tr - trig) = tr - unat trig"
    using tr(1) y(5) by (subst unat_sub) (auto simp: word_le_nat_alt unat_of_nat)
  let ?x = "x\<lparr>tprev := pv, tnext := Some p, delta := trig - word_of_nat b1\<rparr>"
  let ?y = "y\<lparr>tprev := Some t, delta := word_of_nat tr - trig\<rparr>"
  have tp: "t \<noteq> p" "t \<notin> fst ` set q1" "t \<notin> fst ` set q2" "p \<notin> fst ` set q1" "p \<notin> fst ` set q2"
    using t d by auto
  show ?thesis
  proof (cases "q1 = []")
    case True
    then have pv: "pv = None" "head_timer s = Some p" "b1 = 0" using s1 by auto
    then have "insert_before s t x trig p (word_of_nat tr) =
        Some \<lparr>head_timer = Some t, theap = (theap s)(t \<mapsto> ?x, p \<mapsto> ?y)\<rparr>"
      using y w tp by (simp add: insert_before_def)
    then show ?thesis
      using True tp d s2 d1 d2 tr y lt pv by (auto simp: holds_schedule_def)
  next
    case False
    then obtain c where pv: "pv = Some c" "c = fst (last q1)"
      using seg_end [OF s1] by simp
    have c: "c \<in> fst ` set q1" using False pv by simp
    then have ct: "c \<noteq> t" "c \<noteq> p" "c \<notin> fst ` set q2" using tp d by auto
    obtain z where z: "theap s c = Some z" using seg_alloc [OF s1 c] by blast
    let ?H = "(theap s)(t \<mapsto> ?x, c \<mapsto> z\<lparr>tnext := Some t\<rparr>, p \<mapsto> ?y)"
    have res: "insert_before s t x trig p (word_of_nat tr) = Some \<lparr>head_timer = head_timer s, theap = ?H\<rparr>"
      using y w tp pv z ct by (simp add: insert_before_def)
    have "seg ((theap s)(c \<mapsto> z\<lparr>tnext := Some t\<rparr>)) None (head_timer s) 0 q1 (Some c) (Some t) b1"
      using seg_relink [OF s1 [unfolded pv(1)] False _ z] d by simp
    moreover have "?H = ((theap s)(c \<mapsto> z\<lparr>tnext := Some t\<rparr>))(t \<mapsto> ?x, p \<mapsto> ?y)"
      using ct by (auto simp: fun_eq_iff)
    ultimately have "seg ?H None (head_timer s) 0 q1 (Some c) (Some t) b1"
      using tp by simp
    moreover have "seg ?H (Some c) (Some t) b1 ((t, unat trig) # (p, tr) # q2) e None b"
      using tp ct y(5) s2 d1 d2 tr b1 lt pv(1) by simp
    ultimately have "seg ?H None (head_timer s) 0 (q1 @ (t, unat trig) # (p, tr) # q2) e None b"
      unfolding seg_append by blast
    then show ?thesis using res tp d by (auto simp: holds_schedule_def)
  qed
qed

lemma append_timer_refines:
  assumes sg: "seg (theap s) None (head_timer s) 0 q e None b" and d: "distinct (map fst q)" and t: "t \<notin> fst ` set q"
    and ne: "q \<noteq> []" and late: "\<forall>en \<in> set q. snd en < unat trig"
    and walk: "timer_walk (theap s) trig (head_timer s) None 0 = Some (None, Some (fst (last q)), word_of_nat (snd (last q)))"
  shows "\<exists>s'. enqueue_timer s t x trig = Some s' \<and> holds_schedule s' (q @ [(t, unat trig)])"
proof -
  have lt: "unat trig < 2 ^ 64" using unsigned_less [of trig, where 'a = nat] by simp
  let ?c = "fst (last q)"
  have e: "e = Some ?c" "b = snd (last q)" using seg_end [OF sg] ne by simp_all
  have c: "?c \<in> fst ` set q" using ne by simp
  obtain z where z: "theap s ?c = Some z" using seg_alloc [OF sg c] by blast
  have b: "b \<le> unat trig" using e(2) late ne by (auto intro: less_imp_le)
  have dl: "unat (trig - word_of_nat b) = unat trig - b"
    using b lt by (subst unat_sub) (auto simp: word_le_nat_alt unat_of_nat)
  let ?H = "(theap s)(?c \<mapsto> z\<lparr>tnext := Some t\<rparr>,
      t \<mapsto> x\<lparr>tprev := Some ?c, tnext := None, delta := trig - word_of_nat b\<rparr>)"
  have res: "enqueue_timer s t x trig = Some (s\<lparr>theap := ?H\<rparr>)"
    using walk seg_head [OF sg] z e(2) ne by (auto simp: enqueue_timer_def)
  have "seg ((theap s)(?c \<mapsto> z\<lparr>tnext := Some t\<rparr>)) None (head_timer s) 0 q (Some ?c) (Some t) b"
    using seg_relink [OF sg [unfolded e(1)] ne d z] by simp
  then have "seg ?H None (head_timer s) 0 q (Some ?c) (Some t) b" using t by simp
  moreover have "seg ?H (Some ?c) (Some t) b [(t, unat trig)] (Some t) None (unat trig)"
    using b lt dl by simp
  ultimately have "seg ?H None (head_timer s) 0 (q @ [(t, unat trig)]) (Some t) None (unat trig)"
    unfolding seg_append by blast
  then show ?thesis using res d t by (auto simp: holds_schedule_def)
qed

lemma enqueue_timer_refines:
  assumes h: "holds_schedule s q" and t: "t \<notin> fst ` set q"
  shows "\<exists>s'. enqueue_timer s t x trig = Some s' \<and> holds_schedule s' (sched_insert t (unat trig) q)"
proof -
  obtain e b where sg: "seg (theap s) None (head_timer s) 0 q e None b" and d: "distinct (map fst q)"
    using h by (auto simp: holds_schedule_def)
  obtain q1 q2 where q: "q = q1 @ q2" "\<forall>en \<in> set q1. snd en < unat trig"
    "q2 \<noteq> [] \<longrightarrow> unat trig \<le> snd (hd q2)" "sched_insert t (unat trig) q = q1 @ (t, unat trig) # q2"
    by (rule schedule_split)
  have lt: "unat trig < 2 ^ 64" using unsigned_less [of trig, where 'a = nat] by simp
  have walk: "timer_walk (theap s) trig (head_timer s) None 0 =
     Some (if q2 = [] then None else Some (fst (hd q2)),
           if q1 = [] then None else Some (fst (last q1)),
           word_of_nat (if q2 = [] then (if q1 = [] then 0 else snd (last q1)) else snd (hd q2)))"
    using timer_walk_spec [of "theap s" None "head_timer s" 0 q1 q2 e b trig] sg q by simp
  show ?thesis
  proof (cases q2)
    case (Cons en q2')
    obtain p tr where en: "en = (p, tr)" by fastforce
    obtain pv m b1 where s1: "seg (theap s) None (head_timer s) 0 q1 pv m b1"
      and s2: "seg (theap s) pv m b1 ((p, tr) # q2') e None b"
      using sg unfolding q(1) Cons en seg_append by blast
    obtain y where y: "theap s p = Some y" "tprev y = pv" "unat (delta y) = tr - b1" "b1 \<le> tr"
      "tr < 2 ^ 64" "seg (theap s) (Some p) (tnext y) tr q2' e None b" and m: "m = Some p"
      using s2 by auto
    have "head_timer s \<noteq> None" using seg_head [OF sg] q(1) Cons by auto
    then have "enqueue_timer s t x trig = insert_before s t x trig p (word_of_nat tr)"
      using walk by (auto simp: enqueue_timer_def Cons en)
    then show ?thesis
      using insert_before_refines [OF s1 [unfolded m] y, of t trig] d t q
      unfolding Cons en by auto
  next
    case Nil
    show ?thesis
    proof (cases "q1 = []")
      case True
      then show ?thesis
        using sg q(1,4) Nil lt by (auto simp: enqueue_timer_def holds_schedule_def)
    next
      case False
      then show ?thesis using append_timer_refines [OF sg d t] q walk Nil by simp
    qed
  qed
qed

subsection \<open>Removal\<close>

lemma sched_remove_absent: "t \<notin> fst ` set q \<Longrightarrow> sched_remove t q = q"
  by (induction q) (auto simp: sched_remove_def)

lemma sched_remove_split:
  assumes "distinct (map fst (q1 @ (t, tr) # q2))"
  shows "sched_remove t (q1 @ (t, tr) # q2) = q1 @ q2"
proof -
  have "t \<notin> fst ` set q1" "t \<notin> fst ` set q2" using assms by auto
  then show ?thesis
    using sched_remove_absent [of t q1] sched_remove_absent [of t q2] by (simp add: sched_remove_def)
qed

lemma seg_unlink_tail:
  assumes s: "seg H (Some t) (tnext x) tr q2 e None b" and t: "t \<notin> fst ` set q2"
    and x: "unat (delta x) = tr - base" "base \<le> tr" "tr < 2 ^ 64" and d: "distinct (map fst q2)"
    and n: "tnext x = Some n" "H n = Some y"
  shows "\<exists>e' b'. seg (H(n \<mapsto> y\<lparr>tprev := pv, delta := delta y + delta x\<rparr>)) pv (Some n) base q2 e' None b'"
proof -
  obtain tr2 q3 where q2: "q2 = (n, tr2) # q3"
    using s n(1) by (cases q2) auto
  have y: "tr \<le> tr2" "tr2 < 2 ^ 64" "unat (delta y) = tr2 - tr" "seg H (Some n) (tnext y) tr2 q3 e None b"
    using s n unfolding q2 by auto
  have "unat (delta y + delta x) = tr2 - base"
    using y x by (subst unat_add_lem [THEN iffD1]) auto
  then show ?thesis
    using y x(2) d unfolding q2 by (intro exI [of _ e] exI [of _ b]) auto
qed

lemma unlink_pred:
  assumes s1: "seg H None h 0 q1 pv (Some t) b1" and x: "tprev x = pv" and s3: "seg H (Some t) (tnext x) tr q2 e None b"
    and d: "distinct (map fst q1)" "fst ` set q1 \<inter> fst ` set q2 = {}"
  obtains hd H1 where "(case tprev x of
        Some b \<Rightarrow> do { z \<leftarrow> H b; Some (h, H(b \<mapsto> z\<lparr>tnext := tnext x\<rparr>)) }
      | None \<Rightarrow> Some (tnext x, H)) = Some (hd, H1)"
    "seg H1 None hd 0 q1 pv (tnext x) b1" "seg H1 (Some t) (tnext x) tr q2 e None b"
proof (cases "q1 = []")
  case True
  then show ?thesis using that s1 x s3 by auto
next
  case False
  then obtain c where c: "pv = Some c" "c = fst (last q1)" using seg_end [OF s1] by simp
  have c1: "c \<in> fst ` set q1" using False c by simp
  obtain z where z: "H c = Some z" using seg_alloc [OF s1 c1] by blast
  have "c \<notin> fst ` set q2" using c1 d(2) by blast
  then show ?thesis
    using that [of h "H(c \<mapsto> z\<lparr>tnext := tnext x\<rparr>)"] x c z s3
      seg_relink [OF s1 [unfolded c(1)] False d(1) z] by simp
qed

lemma remove_timer_refines:
  assumes h: "holds_schedule s q" and t: "t \<in> fst ` set q"
  shows "\<exists>s'. remove_timer s t = Some s' \<and> holds_schedule s' (sched_remove t q)"
proof -
  obtain e b where sg: "seg (theap s) None (head_timer s) 0 q e None b" and d: "distinct (map fst q)"
    using h by (auto simp: holds_schedule_def)
  obtain q1 tr q2 where q: "q = q1 @ (t, tr) # q2"
    using t by (metis imageE prod.collapse split_list)
  obtain pv m b1 where s1: "seg (theap s) None (head_timer s) 0 q1 pv m b1"
    and s2: "seg (theap s) pv m b1 ((t, tr) # q2) e None b"
    using sg unfolding q seg_append by blast
  obtain x where x: "theap s t = Some x" "tprev x = pv" "unat (delta x) = tr - b1" "b1 \<le> tr"
    "tr < 2 ^ 64" and s3: "seg (theap s) (Some t) (tnext x) tr q2 e None b" and m: "m = Some t"
    using s2 by auto
  have nt: "t \<notin> fst ` set q1" "t \<notin> fst ` set q2" "distinct (map fst q1)" "distinct (map fst q2)"
    "fst ` set q1 \<inter> fst ` set q2 = {}"
    using d unfolding q by auto
  obtain hd H1 where step: "(case tprev x of
        Some b \<Rightarrow> do { z \<leftarrow> theap s b; Some (head_timer s, (theap s)(b \<mapsto> z\<lparr>tnext := tnext x\<rparr>)) }
      | None \<Rightarrow> Some (tnext x, theap s)) = Some (hd, H1)"
    and H1: "seg H1 None hd 0 q1 pv (tnext x) b1" "seg H1 (Some t) (tnext x) tr q2 e None b"
    by (rule unlink_pred [OF s1 [unfolded m] x(2) s3 nt(3,5)])
  have rm: "sched_remove t q = q1 @ q2" "distinct (map fst (q1 @ q2))"
    using sched_remove_split [of q1 t tr q2] d q nt by auto
  show ?thesis
  proof (cases "tnext x")
    case None
    then have "q2 = []" using H1(2) by (cases q2) auto
    then show ?thesis
      using x step H1(1) None rm by (auto simp: remove_timer_def holds_schedule_def)
  next
    case (Some n)
    then have n2: "n \<in> fst ` set q2" using H1(2) by (cases q2) auto
    then obtain y where y: "H1 n = Some y" using seg_alloc [OF H1(2)] by blast
    let ?H = "H1(n \<mapsto> y\<lparr>tprev := pv, delta := delta y + delta x\<rparr>)"
    obtain e' b' where "seg ?H pv (Some n) b1 q2 e' None b'"
      using seg_unlink_tail [OF H1(2) nt(2) x(3-5) nt(4) Some y] by blast
    moreover have "seg ?H None hd 0 q1 pv (Some n) b1"
      using H1(1) n2 nt(5) Some by (subst seg_frame) auto
    ultimately have "seg ?H None hd 0 (q1 @ q2) e' None b'" unfolding seg_append by blast
    moreover have "remove_timer s t = Some \<lparr>head_timer = hd, theap = ?H\<rparr>"
      using x step Some y by (simp add: remove_timer_def)
    ultimately show ?thesis using rm by (auto simp: holds_schedule_def)
  qed
qed

lemma holds_schedule_empty [simp]: "holds_schedule empty_queue []"
  by (simp add: holds_schedule_def empty_queue_def)

lemma holds_schedule_sorted: "holds_schedule s q \<Longrightarrow> sorted (map snd q) \<and> distinct (map fst q)"
  using seg_sorted by (fastforce simp: holds_schedule_def)

lemma holds_schedule_forget:
  "holds_schedule s q \<Longrightarrow> t \<notin> fst ` set q \<Longrightarrow> holds_schedule (s\<lparr>theap := (theap s)(t := None)\<rparr>) q"
  by (auto simp: holds_schedule_def)

lemma holds_schedule_head:
  assumes "holds_schedule s ((a, tr) # q)"
  shows "head_timer s = Some a" "\<exists>x. theap s a = Some x \<and> delta x = word_of_nat tr" "tr < 2 ^ 64"
proof -
  obtain x where "head_timer s = Some a" "theap s a = Some x" "unat (delta x) = tr" "tr < 2 ^ 64"
    using assms by (auto simp: holds_schedule_def)
  then show "head_timer s = Some a" "\<exists>x. theap s a = Some x \<and> delta x = word_of_nat tr" "tr < 2 ^ 64"
    using delta_step [of "delta x" tr 0] by auto
qed

lemma holds_schedule_nil: "holds_schedule s [] \<longleftrightarrow> head_timer s = None"
  by (auto simp: holds_schedule_def)

lemma sched_remove_head: "distinct (map fst ((a, tr) # q)) \<Longrightarrow> sched_remove a ((a, tr) # q) = q"
  using sched_remove_split [of "[]" a tr q] by simp

section \<open>Properties\<close>

text \<open>
  inserting a timer into the delta queue refines insertion into the schedule sorted by trigger
  time: the search loop ends, the pointers and the 64 bit deltas are those of the new schedule, no
  other timer changes its trigger time, and the result is sorted.
\<close>

theorem enqueue_timer_schedule:
  assumes "holds_schedule s q" "t \<notin> fst ` set q"
  shows "\<exists>s'. enqueue_timer s t x trig = Some s' \<and> holds_schedule s' (sched_insert t (unat trig) q) \<and>
    sorted (map snd (sched_insert t (unat trig) q))"
  using enqueue_timer_refines [OF assms, of x trig] holds_schedule_sorted by blast

theorem enqueue_timer_schedule_witness:
  "\<exists>s'. enqueue_timer empty_queue 3 \<lparr>tpool = 0, tprev = None, tnext = None, delta = 9, tfn = (0 :: nat), tdata = (0 :: nat)\<rparr> 500
      = Some s' \<and> holds_schedule s' (sched_insert 3 (unat (500 :: 64 word)) []) \<and>
    sorted (map snd (sched_insert 3 (unat (500 :: 64 word)) []))"
  by (rule enqueue_timer_schedule) simp_all

text \<open>
  removing a timer of the queue refines removal from the schedule: its delta goes to its
  successor, so every other timer keeps its trigger time.
\<close>

theorem remove_timer_schedule:
  assumes "holds_schedule s q" "t \<in> fst ` set q"
  shows "\<exists>s'. remove_timer s t = Some s' \<and> holds_schedule s' (sched_remove t q)"
  using assms by (rule remove_timer_refines)

definition two_timers :: "(nat, nat) timer_queue" where
  "two_timers = \<lparr>head_timer = Some 1, theap =
     [1 \<mapsto> \<lparr>tpool = 1, tprev = None, tnext = Some 2, delta = 10, tfn = 0, tdata = 0\<rparr>,
      2 \<mapsto> \<lparr>tpool = 2, tprev = Some 1, tnext = None, delta = 5, tfn = 0, tdata = 0\<rparr>]\<rparr>"

lemma two_timers_schedule: "holds_schedule two_timers [(1, 10), (2, 15)]"
  by (simp add: holds_schedule_def two_timers_def)

theorem remove_timer_schedule_witness:
  "\<exists>s'. remove_timer two_timers 1 = Some s' \<and> holds_schedule s' (sched_remove 1 [(1, 10), (2, 15)])"
  by (rule remove_timer_schedule [OF two_timers_schedule]) simp

end
