(* ===== verification/C2lib.thy ===== *)
theory C2lib
  imports Prelude "HOL-Library.Multiset"
begin

text \<open>
  The interface to c2lib (vectors, hashes and memory pools), which pthrlib is linked against and
  whose source is not part of the repository. The operations are parameters of the model: records
  of functions that the definitions of the components take as an argument. What the components
  rely on is stated as the locales \<open>c2_vector\<close>, \<open>c2_hash\<close> and \<open>c2_pool\<close>, one law per documented
  behaviour. Each locale is interpreted on a concrete instance at the end, so the laws can hold
  together.
\<close>

section \<open>Vectors\<close>

record ('v, 'a) vec_ops =
  vec_new :: 'v
  vec_size :: "'v \<Rightarrow> nat"
  vec_get :: "'v \<Rightarrow> nat \<Rightarrow> 'a"
  vec_push_back :: "'v \<Rightarrow> 'a \<Rightarrow> 'v"
  vec_pop_back :: "'v \<Rightarrow> 'v \<times> 'a"
  vec_pop_front :: "'v \<Rightarrow> 'v \<times> 'a"
  vec_replace :: "'v \<Rightarrow> nat \<Rightarrow> 'a \<Rightarrow> 'v"
  vec_erase :: "'v \<Rightarrow> nat \<Rightarrow> 'v"
  vec_clear :: "'v \<Rightarrow> 'v"
  vec_copy :: "'v \<Rightarrow> 'v"

text \<open>
  What the loop \<open>for (i = 0; i < vector_size (v); ++i) vector_get (v, i, x)\<close> sees, in order.
\<close>

definition elems :: "('v, 'a) vec_ops \<Rightarrow> 'v \<Rightarrow> 'a list" where
  "elems V v = map (vec_get V v) [0..<vec_size V v]"

locale c2_vector =
  fixes V :: "('v, 'a) vec_ops"
  assumes elems_new: "elems V (vec_new V) = []"
    and elems_push_back: "elems V (vec_push_back V v x) = elems V v @ [x]"
    and pop_back: "elems V v \<noteq> [] \<Longrightarrow> vec_pop_back V v = (v', x) \<Longrightarrow> elems V v = elems V v' @ [x]"
    and pop_front: "elems V v \<noteq> [] \<Longrightarrow> vec_pop_front V v = (v', x) \<Longrightarrow> elems V v = x # elems V v'"
    and elems_replace: "i < vec_size V v \<Longrightarrow> elems V (vec_replace V v i x) = (elems V v)[i := x]"
    and elems_erase: "i < vec_size V v \<Longrightarrow> elems V (vec_erase V v i) = remove_at i (elems V v)"
    and elems_clear: "elems V (vec_clear V v) = []"
    and elems_copy: "elems V (vec_copy V v) = elems V v"
begin

lemma length_elems [simp]: "length (elems V v) = vec_size V v"
  by (simp add: elems_def)

lemma elems_nth: "i < vec_size V v \<Longrightarrow> elems V v ! i = vec_get V v i"
  by (simp add: elems_def)

lemma size_0_iff: "vec_size V v = 0 \<longleftrightarrow> elems V v = []"
  by (metis length_elems length_0_conv)

lemmas elems_simps =
  elems_new elems_push_back elems_replace elems_erase elems_clear elems_copy

end

text \<open>Lists with the operations of the HOL library satisfy the laws.\<close>

definition list_vec :: "('a list, 'a) vec_ops" where
  "list_vec = \<lparr>vec_new = [], vec_size = length, vec_get = (!),
     vec_push_back = (\<lambda>v x. v @ [x]), vec_pop_back = (\<lambda>v. (butlast v, last v)),
     vec_pop_front = (\<lambda>v. (tl v, hd v)), vec_replace = (\<lambda>v i x. v[i := x]),
     vec_erase = (\<lambda>v i. remove_at i v), vec_clear = (\<lambda>_. []), vec_copy = (\<lambda>v. v)\<rparr>"

lemma elems_list_vec [simp]: "elems list_vec v = v"
  by (simp add: elems_def list_vec_def map_nth)

lemma list_vec_sel [simp]:
  "vec_new list_vec = []" "vec_size list_vec = length" "vec_get list_vec = (!)"
  "vec_push_back list_vec v x = v @ [x]" "vec_pop_back list_vec v = (butlast v, last v)"
  "vec_pop_front list_vec v = (tl v, hd v)" "vec_replace list_vec v i x = v[i := x]"
  "vec_erase list_vec v i = remove_at i v" "vec_clear list_vec v = []" "vec_copy list_vec v = v"
  by (simp_all add: list_vec_def)

interpretation list_vec: c2_vector list_vec
  by unfold_locales auto

section \<open>Hashes\<close>

record ('h, 'k, 'x) hash_ops =
  hash_new :: 'h
  hash_get :: "'h \<Rightarrow> 'k \<Rightarrow> 'x option"
  hash_insert :: "'h \<Rightarrow> 'k \<Rightarrow> 'x \<Rightarrow> 'h"
  hash_erase :: "'h \<Rightarrow> 'k \<Rightarrow> 'h \<times> bool"
  hash_keys :: "'h \<Rightarrow> 'k list"

locale c2_hash =
  fixes HO :: "('h, 'k, 'x) hash_ops"
  assumes get_new: "hash_get HO (hash_new HO) = Map.empty"
    and get_insert: "hash_get HO (hash_insert HO h k x) = (hash_get HO h)(k \<mapsto> x)"
    and get_erase: "hash_get HO (fst (hash_erase HO h k)) = (hash_get HO h)(k := None)"
    and erase_found: "snd (hash_erase HO h k) \<longleftrightarrow> hash_get HO h k \<noteq> None"
    and keys_set: "set (hash_keys HO h) = dom (hash_get HO h)"
    and keys_distinct: "distinct (hash_keys HO h)"

text \<open>Association lists satisfy the laws.\<close>

fun alist_upd :: "('k \<times> 'x) list \<Rightarrow> 'k \<Rightarrow> 'x \<Rightarrow> ('k \<times> 'x) list" where
  "alist_upd [] k x = [(k, x)]"
| "alist_upd ((k', x') # h) k x = (if k = k' then (k, x) # h else (k', x') # alist_upd h k x)"

definition alist_hash :: "(('k \<times> 'x) list, 'k, 'x) hash_ops" where
  "alist_hash = \<lparr>hash_new = [], hash_get = map_of, hash_insert = alist_upd,
     hash_erase = (\<lambda>h k. (filter (\<lambda>e. fst e \<noteq> k) h, k \<in> fst ` set h)),
     hash_keys = (\<lambda>h. remdups (map fst h))\<rparr>"

lemma alist_hash_sel [simp]:
  "hash_new alist_hash = []" "hash_get alist_hash = map_of" "hash_insert alist_hash = alist_upd"
  "hash_erase alist_hash h k = (filter (\<lambda>e. fst e \<noteq> k) h, k \<in> fst ` set h)"
  "hash_keys alist_hash h = remdups (map fst h)"
  by (simp_all add: alist_hash_def)

lemma map_of_alist_upd: "map_of (alist_upd h k x) = (map_of h)(k \<mapsto> x)"
  by (induction h k x rule: alist_upd.induct) (auto simp: fun_eq_iff)

lemma map_of_filter_key: "map_of (filter (\<lambda>e. fst e \<noteq> k) h) = (map_of h)(k := None)"
  by (induction h) (auto simp: fun_eq_iff)

interpretation alist_hash: c2_hash alist_hash
proof (unfold_locales, goal_cases)
  case (4 h k)
  show ?case by (simp add: map_of_eq_None_iff)
next
  case (5 h)
  show ?case by (auto simp: dom_map_of_conv_image_fst)
qed (simp_all add: map_of_alist_upd map_of_filter_key)

section \<open>Pools\<close>

text \<open>
  The cleanup functions that pthrlib registers in pools, each with the object it is called on.
\<close>

datatype cleanup =
    Remove_timer addr
  | Remove_prepoll addr
  | Mutex_do_release addr
  | Rwlock_do_release tid addr
  | Delete_mutex addr
  | Delete_rwlock addr
  | Io_do_close addr
  | Db_disconnect addr
  | St_finish_handle addr

text \<open>
  \<open>delete_pool\<close> gives the cleanups that the deletion runs, in the order in which it runs them.
\<close>

record 'P pool_ops =
  new_subpool :: "'P \<Rightarrow> pool \<Rightarrow> pool \<times> 'P"
  register_cleanup_fn :: "'P \<Rightarrow> pool \<Rightarrow> cleanup \<Rightarrow> 'P"
  delete_pool :: "'P \<Rightarrow> pool \<Rightarrow> cleanup list \<times> 'P"

text \<open>
  \<open>sub P p\<close> are the live pools that deleting \<open>p\<close> deletes (\<open>p\<close> itself and the subpools below it),
  \<open>own P p\<close> the cleanups registered in \<open>p\<close> itself.
\<close>

text \<open>A pool without subpools that holds one cleanup: deleting it runs exactly that cleanup.\<close>

definition single ::
  "('P \<Rightarrow> pool set) \<Rightarrow> ('P \<Rightarrow> pool \<Rightarrow> pool set) \<Rightarrow> ('P \<Rightarrow> pool \<Rightarrow> cleanup multiset)
     \<Rightarrow> 'P \<Rightarrow> pool \<Rightarrow> cleanup \<Rightarrow> bool" where
  "single live sub own P p c \<longleftrightarrow> p \<in> live P \<and> sub P p = {p} \<and> own P p = {#c#}"

locale c2_pool =
  fixes PO :: "'P pool_ops"
    and pinv :: "'P \<Rightarrow> bool" and live :: "'P \<Rightarrow> pool set"
    and sub :: "'P \<Rightarrow> pool \<Rightarrow> pool set" and own :: "'P \<Rightarrow> pool \<Rightarrow> cleanup multiset"
  assumes sub_live: "pinv P \<Longrightarrow> p \<in> live P \<Longrightarrow> p \<in> sub P p \<and> sub P p \<subseteq> live P \<and> finite (sub P p)"
    and sub_trans: "pinv P \<Longrightarrow> p \<in> live P \<Longrightarrow> q \<in> sub P p \<Longrightarrow> sub P q \<subseteq> sub P p"
    and new_subpool: "pinv P \<Longrightarrow> p \<in> live P \<Longrightarrow> new_subpool PO P p = (q, P') \<Longrightarrow>
      pinv P' \<and> q \<notin> live P \<and> live P' = insert q (live P) \<and> sub P' q = {q} \<and> own P' q = {#} \<and>
      (\<forall>r \<in> live P. own P' r = own P r \<and>
         sub P' r = (if p \<in> sub P r then insert q (sub P r) else sub P r))"
    and register_cleanup: "pinv P \<Longrightarrow> p \<in> live P \<Longrightarrow>
      pinv (register_cleanup_fn PO P p c) \<and> live (register_cleanup_fn PO P p c) = live P \<and>
      (\<forall>r \<in> live P. sub (register_cleanup_fn PO P p c) r = sub P r \<and>
         own (register_cleanup_fn PO P p c) r = (if r = p then add_mset c (own P r) else own P r))"
    and delete_pool: "pinv P \<Longrightarrow> p \<in> live P \<Longrightarrow> delete_pool PO P p = (cs, P') \<Longrightarrow>
      pinv P' \<and> mset cs = (\<Sum>q \<in> sub P p. own P q) \<and> live P' = live P - sub P p \<and>
      (\<forall>r \<in> live P'. own P' r = own P r \<and> sub P' r = sub P r - sub P p)"
begin

lemma delete_single:
  assumes "pinv P" "single live sub own P p c" "delete_pool PO P p = (cs, P')"
  shows "cs = [c]" "pinv P'" "live P' = live P - {p}"
    "\<And>r. r \<in> live P' \<Longrightarrow> own P' r = own P r"
    "\<And>r. r \<in> live P' \<Longrightarrow> sub P' r = sub P r - {p}"
proof -
  have "mset cs = {#c#}" and r: "pinv P'" "live P' = live P - {p}"
    "\<forall>r \<in> live P'. own P' r = own P r \<and> sub P' r = sub P r - {p}"
    using delete_pool [OF assms(1) _ assms(3)] assms(2) unfolding single_def by auto
  then show "cs = [c]" by simp
  show "pinv P'" "live P' = live P - {p}" "\<And>r. r \<in> live P' \<Longrightarrow> own P' r = own P r"
    "\<And>r. r \<in> live P' \<Longrightarrow> sub P' r = sub P r - {p}" using r by auto
qed

lemma single_after_delete:
  assumes "pinv P" "single live sub own P p c" "delete_pool PO P p = (cs, P')" "single live sub own P r d" "r \<noteq> p"
  shows "single live sub own P' r d"
  using delete_single [OF assms(1-3)] assms(4,5) by (auto simp: single_def)

lemma single_new:
  assumes "pinv P" "p \<in> live P" "new_subpool PO P p = (q, P')"
  shows "single live sub own (register_cleanup_fn PO P' q c) q c"
    and "r \<in> live P \<Longrightarrow> p \<notin> sub P r \<Longrightarrow> single live sub own P r d \<Longrightarrow> single live sub own (register_cleanup_fn PO P' q c) r d"
    and "pinv (register_cleanup_fn PO P' q c)"
    and "live (register_cleanup_fn PO P' q c) = insert q (live P)"
proof -
  have n: "pinv P'" "q \<notin> live P" "live P' = insert q (live P)" "sub P' q = {q}" "own P' q = {#}"
    "\<forall>r \<in> live P. own P' r = own P r \<and> sub P' r = (if p \<in> sub P r then insert q (sub P r) else sub P r)"
    using new_subpool [OF assms] by auto
  have q: "q \<in> live P'" using n by simp
  note rc = register_cleanup [OF n(1) q, of c]
  show "single live sub own (register_cleanup_fn PO P' q c) q c"
    using rc n q by (auto simp: single_def)
  show "pinv (register_cleanup_fn PO P' q c)" "live (register_cleanup_fn PO P' q c) = insert q (live P)"
    using rc n by auto
  assume "r \<in> live P" "p \<notin> sub P r" "single live sub own P r d"
  then show "single live sub own (register_cleanup_fn PO P' q c) r d"
    using rc n by (auto simp: single_def)
qed

end

text \<open>
  A pool manager that satisfies the laws: every pool records its ancestors (itself included) and
  its cleanups.
\<close>

record cpools =
  pnext :: nat
  palive :: "nat \<Rightarrow> bool"
  panc :: "nat \<Rightarrow> nat list"
  pown :: "nat \<Rightarrow> cleanup list"

definition cpool_under :: "cpools \<Rightarrow> pool \<Rightarrow> pool list" where
  "cpool_under P p = filter (\<lambda>q. palive P q \<and> p \<in> set (panc P q)) [0..<pnext P]"

definition cpool_ops :: "cpools pool_ops" where
  "cpool_ops = \<lparr>
     new_subpool = (\<lambda>P p. (pnext P,
        P\<lparr>pnext := Suc (pnext P), palive := (palive P)(pnext P := True),
          panc := (panc P)(pnext P := pnext P # panc P p), pown := (pown P)(pnext P := [])\<rparr>)),
     register_cleanup_fn = (\<lambda>P p c. P\<lparr>pown := (pown P)(p := c # pown P p)\<rparr>),
     delete_pool = (\<lambda>P p. (concat (map (pown P) (cpool_under P p)),
        P\<lparr>palive := (\<lambda>q. palive P q \<and> p \<notin> set (panc P q))\<rparr>))\<rparr>"

definition cpool_inv :: "cpools \<Rightarrow> bool" where
  "cpool_inv P \<longleftrightarrow>
     (\<forall>q. palive P q \<longrightarrow> q < pnext P \<and> q \<in> set (panc P q) \<and>
        (\<forall>p \<in> set (panc P q). p < pnext P \<and> set (panc P p) \<subseteq> set (panc P q)))"

definition cpool_live :: "cpools \<Rightarrow> pool set" where
  "cpool_live P = {q. palive P q}"

definition cpool_own :: "cpools \<Rightarrow> pool \<Rightarrow> cleanup multiset" where
  "cpool_own P p = mset (pown P p)"

lemma mset_concat_distinct: "distinct xs \<Longrightarrow> mset (concat (map f xs)) = (\<Sum>x \<in> set xs. mset (f x))"
  by (induction xs) auto

lemma cpool_under_set: "cpool_inv P \<Longrightarrow> set (cpool_under P p) = {q. palive P q \<and> p \<in> set (panc P q)}"
  by (auto simp: cpool_under_def cpool_inv_def)

interpretation cpool:
  c2_pool cpool_ops cpool_inv cpool_live "\<lambda>P p. set (cpool_under P p)" cpool_own
proof (unfold_locales, goal_cases)
  case (1 P p)
  then show ?case
    by (intro conjI finite_set) (auto simp: cpool_under_set cpool_live_def cpool_inv_def)
next
  case (2 P p q)
  then have "p \<in> set (panc P q)" by (simp add: cpool_under_set)
  with 2 show ?case by (auto simp: cpool_under_set) (auto simp: cpool_inv_def)
next
  case (3 P p q P')
  let ?P = "P\<lparr>pnext := Suc (pnext P), palive := (palive P)(pnext P := True),
     panc := (panc P)(pnext P := pnext P # panc P p), pown := (pown P)(pnext P := [])\<rparr>"
  have q: "q = pnext P" "P' = ?P" using 3(3) by (auto simp: cpool_ops_def)
  have inv: "cpool_inv ?P"
    using 3(1,2) unfolding cpool_inv_def cpool_live_def by (auto simp: less_Suc_eq)
  show ?case
    using 3(1,2) unfolding q cpool_under_set [OF 3(1)] cpool_under_set [OF inv]
    by (intro conjI inv) (auto simp: cpool_live_def cpool_inv_def cpool_own_def)
next
  case (4 P p c)
  then have "cpool_inv (P\<lparr>pown := (pown P)(p := c # pown P p)\<rparr>)" by (simp add: cpool_inv_def)
  then show ?case by (auto simp: cpool_ops_def cpool_live_def cpool_own_def cpool_under_def)
next
  case (5 P p cs P')
  have P': "P' = P\<lparr>palive := (\<lambda>q. palive P q \<and> p \<notin> set (panc P q))\<rparr>"
    and cs: "cs = concat (map (pown P) (cpool_under P p))"
    using 5(3) by (auto simp: cpool_ops_def)
  have inv: "cpool_inv P'" using 5(1) by (auto simp: P' cpool_inv_def)
  have "mset cs = (\<Sum>q \<in> set (cpool_under P p). cpool_own P q)"
    unfolding cs cpool_own_def by (rule mset_concat_distinct) (simp add: cpool_under_def)
  then show ?case
    using inv by (auto simp: P' cpool_live_def cpool_own_def cpool_under_set 5(1))
qed

end
