(* ===== verification/Reactor.thy ===== *)
theory Reactor
  imports Reactor_Handles Reactor_Timers C2lib "HOL-Library.Sublist"
begin

text \<open>
  The reactor as a whole (\<open>src/src/pthr_reactor.c\<close>): the global state, timers and prepoll handlers
  with the subpools that own them, \<open>reactor_invoke\<close> and \<open>reactor_stop\<close>. Callback functions are values
  of type \<open>'f\<close> with data of type \<open>'d\<close>; what a call does is a parameter, since callbacks are code of
  the reactor's clients and may call the reactor again. \<open>None\<close> is a crash (null or dangling pointer,
  failed assertion) or a loop that does not end.
\<close>

section \<open>State\<close>

text \<open>The handlers of the singly linked list \<open>head_prepoll\<close>, first element first.\<close>

record ('f, 'd) prepoll =
  pp_id :: addr
  pp_pool :: pool
  pp_fn :: 'f
  pp_data :: 'd
  fired :: bool

text \<open>\<open>r_user\<close> is the rest of the program: operating system and the clients' own state.\<close>

record ('f, 'd, 'P, 'u) reactor =
  r_table :: "('f, 'd) handle_table"
  r_timers :: "('f, 'd) timer_queue"
  head_prepoll :: "('f, 'd) prepoll list"
  reactor_time :: "64 word"
  r_pools :: 'P
  r_user :: 'u

section \<open>Timers and prepoll handlers in their subpools\<close>

definition remove_prepoll ::
  "('f, 'd, 'P, 'u) reactor \<Rightarrow> addr \<Rightarrow> ('f, 'd, 'P, 'u) reactor option" where
  "remove_prepoll s h =
     (let i = first_index (\<lambda>p. pp_id p = h) (head_prepoll s)
      in if i < length (head_prepoll s)
         then Some (s\<lparr>head_prepoll := remove_at i (head_prepoll s)\<rparr>) else None)"

text \<open>
  A cleanup of this module; \<open>X\<close> runs the cleanups that other modules registered. The timer itself
  lies in the pool that is being deleted, so it is gone afterwards.
\<close>

definition run_cleanup ::
  "(cleanup \<Rightarrow> ('f, 'd, 'P, 'u) reactor \<Rightarrow> ('f, 'd, 'P, 'u) reactor option)
     \<Rightarrow> cleanup \<Rightarrow> ('f, 'd, 'P, 'u) reactor \<Rightarrow> ('f, 'd, 'P, 'u) reactor option" where
  "run_cleanup X c s =
     (case c of
        Remove_timer t \<Rightarrow> do {
          q \<leftarrow> remove_timer (r_timers s) t;
          Some (s\<lparr>r_timers := q\<lparr>theap := (theap q)(t := None)\<rparr>\<rparr>)
        }
      | Remove_prepoll h \<Rightarrow> remove_prepoll s h
      | _ \<Rightarrow> X c s)"

fun run_cleanups ::
  "(cleanup \<Rightarrow> ('f, 'd, 'P, 'u) reactor \<Rightarrow> ('f, 'd, 'P, 'u) reactor option)
     \<Rightarrow> cleanup list \<Rightarrow> ('f, 'd, 'P, 'u) reactor \<Rightarrow> ('f, 'd, 'P, 'u) reactor option" where
  "run_cleanups X [] s = Some s"
| "run_cleanups X (c # cs) s = do { s1 \<leftarrow> run_cleanup X c s; run_cleanups X cs s1 }"

definition do_delete_pool ::
  "'P pool_ops \<Rightarrow> (cleanup \<Rightarrow> ('f, 'd, 'P, 'u) reactor \<Rightarrow> ('f, 'd, 'P, 'u) reactor option)
     \<Rightarrow> ('f, 'd, 'P, 'u) reactor \<Rightarrow> pool \<Rightarrow> ('f, 'd, 'P, 'u) reactor option" where
  "do_delete_pool PO X s p =
     (let (cs, P) = delete_pool PO (r_pools s) p in run_cleanups X cs (s\<lparr>r_pools := P\<rparr>))"

text \<open>
  \<open>t\<close> and \<open>x0\<close> are the address and the indeterminate contents of the block that \<open>pmalloc\<close> returns.
\<close>

definition reactor_set_timer ::
  "'P pool_ops \<Rightarrow> ('f, 'd, 'P, 'u) reactor \<Rightarrow> pool \<Rightarrow> int \<Rightarrow> 'f \<Rightarrow> 'd \<Rightarrow> addr \<Rightarrow> ('f, 'd) timer
     \<Rightarrow> (addr \<times> ('f, 'd, 'P, 'u) reactor) option" where
  "reactor_set_timer PO s pp timeout f d t x0 =
     (let (sp, P1) = new_subpool PO (r_pools s) pp;
          P2 = register_cleanup_fn PO P1 sp (Remove_timer t)
      in do {
        q \<leftarrow> enqueue_timer (r_timers s) t (x0\<lparr>tpool := sp, tfn := f, tdata := d\<rparr>)
               (trigger_time (reactor_time s) timeout);
        Some (t, s\<lparr>r_timers := q, r_pools := P2\<rparr>)
      })"

definition reactor_unset_timer_early ::
  "'P pool_ops \<Rightarrow> (cleanup \<Rightarrow> ('f, 'd, 'P, 'u) reactor \<Rightarrow> ('f, 'd, 'P, 'u) reactor option)
     \<Rightarrow> ('f, 'd, 'P, 'u) reactor \<Rightarrow> addr \<Rightarrow> ('f, 'd, 'P, 'u) reactor option" where
  "reactor_unset_timer_early PO X s t =
     do { x \<leftarrow> theap (r_timers s) t; do_delete_pool PO X s (tpool x) }"

text \<open>\<open>j\<close> is what the uninitialised field \<open>fired\<close> of the new handler happens to hold.\<close>

definition reactor_register_prepoll ::
  "'P pool_ops \<Rightarrow> bool \<Rightarrow> ('f, 'd, 'P, 'u) reactor \<Rightarrow> pool \<Rightarrow> 'f \<Rightarrow> 'd \<Rightarrow> addr
     \<Rightarrow> addr \<times> ('f, 'd, 'P, 'u) reactor" where
  "reactor_register_prepoll PO j s pp f d h =
     (let (sp, P1) = new_subpool PO (r_pools s) pp;
          P2 = register_cleanup_fn PO P1 sp (Remove_prepoll h)
      in (h, s\<lparr>head_prepoll :=
                 \<lparr>pp_id = h, pp_pool = sp, pp_fn = f, pp_data = d, fired = j\<rparr> # head_prepoll s,
               r_pools := P2\<rparr>))"

definition reactor_unregister_prepoll ::
  "'P pool_ops \<Rightarrow> (cleanup \<Rightarrow> ('f, 'd, 'P, 'u) reactor \<Rightarrow> ('f, 'd, 'P, 'u) reactor option)
     \<Rightarrow> ('f, 'd, 'P, 'u) reactor \<Rightarrow> addr \<Rightarrow> ('f, 'd, 'P, 'u) reactor option" where
  "reactor_unregister_prepoll PO X s h =
     (case find (\<lambda>p. pp_id p = h) (head_prepoll s) of
        None \<Rightarrow> None
      | Some p \<Rightarrow> do_delete_pool PO X s (pp_pool p))"

section \<open>The event loop\<close>

text \<open>The operating system: \<open>poll\<close> gives its result and the new \<open>revents\<close>, \<open>gettimeofday\<close> seconds and
  microseconds.\<close>

record 'u sys_ops =
  sys_poll :: "pollfd list \<Rightarrow> int \<Rightarrow> 'u \<Rightarrow> int \<times> int list \<times> 'u"
  sys_gettimeofday :: "'u \<Rightarrow> int \<times> int"

text \<open>What the clients' callbacks do: timer and prepoll functions, and handle functions.\<close>

record ('f, 'd, 's) callbacks =
  call_fn :: "'f \<Rightarrow> 'd \<Rightarrow> 's \<Rightarrow> 's option"
  call_handle :: "'f \<Rightarrow> int \<Rightarrow> int \<Rightarrow> 'd \<Rightarrow> 's \<Rightarrow> 's option"

definition fire_head ::
  "'P pool_ops \<Rightarrow> (cleanup \<Rightarrow> ('f, 'd, 'P, 'u) reactor \<Rightarrow> ('f, 'd, 'P, 'u) reactor option)
     \<Rightarrow> ('f, 'd, ('f, 'd, 'P, 'u) reactor) callbacks
     \<Rightarrow> ('f, 'd, 'P, 'u) reactor \<Rightarrow> ('f, 'd, 'P, 'u) reactor option" where
  "fire_head PO X C s =
     do {
       t \<leftarrow> head_timer (r_timers s);
       x \<leftarrow> theap (r_timers s) t;
       s1 \<leftarrow> reactor_unset_timer_early PO X s t;
       call_fn C (tfn x) (tdata x) s1
     }"

definition head_due :: "('f, 'd, 'P, 'u) reactor \<Rightarrow> bool" where
  "head_due s =
     (case head_timer (r_timers s) of
        None \<Rightarrow> False
      | Some t \<Rightarrow> (case theap (r_timers s) t of
                    None \<Rightarrow> True | Some x \<Rightarrow> delta x \<le> reactor_time s))"

partial_function (option) fire_timers ::
  "'P pool_ops \<Rightarrow> (cleanup \<Rightarrow> ('f, 'd, 'P, 'u) reactor \<Rightarrow> ('f, 'd, 'P, 'u) reactor option)
     \<Rightarrow> ('f, 'd, ('f, 'd, 'P, 'u) reactor) callbacks
     \<Rightarrow> ('f, 'd, 'P, 'u) reactor \<Rightarrow> ('f, 'd, 'P, 'u) reactor option" where
  "fire_timers PO X C s =
     (if head_due s then Option.bind (fire_head PO X C s) (fire_timers PO X C) else Some s)"

definition clear_fired :: "('f, 'd, 'P, 'u) reactor \<Rightarrow> ('f, 'd, 'P, 'u) reactor" where
  "clear_fired s = s\<lparr>head_prepoll := map (\<lambda>p. p\<lparr>fired := False\<rparr>) (head_prepoll s)\<rparr>"

definition mark_fired :: "nat \<Rightarrow> ('f, 'd, 'P, 'u) reactor \<Rightarrow> ('f, 'd, 'P, 'u) reactor" where
  "mark_fired i s = s\<lparr>head_prepoll := (head_prepoll s)[i := (head_prepoll s ! i)\<lparr>fired := True\<rparr>]\<rparr>"

partial_function (option) run_prepolls ::
  "('f, 'd, ('f, 'd, 'P, 'u) reactor) callbacks
     \<Rightarrow> ('f, 'd, 'P, 'u) reactor \<Rightarrow> ('f, 'd, 'P, 'u) reactor option" where
  "run_prepolls C s =
     (let i = first_index (\<lambda>p. \<not> fired p) (head_prepoll s)
      in if i < length (head_prepoll s)
         then Option.bind (call_fn C (pp_fn (head_prepoll s ! i)) (pp_data (head_prepoll s ! i))
                (mark_fired i s)) (run_prepolls C)
         else Some s)"

text \<open>
  The dispatch loop runs over the handles, not over the descriptors, and reads the size of the
  table again in every round: callbacks may register and unregister handles.
\<close>

partial_function (option) dispatch ::
  "('f, 'd, ('f, 'd, 'P, 'u) reactor) callbacks \<Rightarrow> nat
     \<Rightarrow> ('f, 'd, 'P, 'u) reactor \<Rightarrow> ('f, 'd, 'P, 'u) reactor option" where
  "dispatch C i s =
     (if i < length (handles (r_table s))
      then
        (let h = handles (r_table s) ! i; a = offset h
         in if a \<ge> 0
            then (if nat a < length (poll_array (r_table s))
                  then (let p = poll_array (r_table s) ! nat a
                        in if revents p \<noteq> 0
                           then Option.bind (call_handle C (hfn h) (fd p) (revents p) (hdata h) s)
                                  (dispatch C (Suc i))
                           else dispatch C (Suc i) s)
                  else None)
            else dispatch C (Suc i) s)
      else Some s)"

definition poll_timeout_arg :: "('f, 'd, 'P, 'u) reactor \<Rightarrow> int option" where
  "poll_timeout_arg s =
     (case head_timer (r_timers s) of
        None \<Rightarrow> Some (-1)
      | Some t \<Rightarrow> map_option (\<lambda>x. c_int (uint (delta x - reactor_time s))) (theap (r_timers s) t))"

fun set_revents :: "int list \<Rightarrow> pollfd list \<Rightarrow> pollfd list" where
  "set_revents (e # es) (p # ps) = p\<lparr>revents := e\<rparr> # set_revents es ps"
| "set_revents _ ps = ps"

definition poll_phase ::
  "'u sys_ops \<Rightarrow> ('f, 'd, 'P, 'u) reactor \<Rightarrow> (int \<times> ('f, 'd, 'P, 'u) reactor) option" where
  "poll_phase K s =
     do {
       timeout \<leftarrow> poll_timeout_arg s;
       let (r, evs, u) = sys_poll K (used_array (r_table s)) timeout (r_user s);
       let (sec, usec) = sys_gettimeofday K u;
       Some (r, s\<lparr>r_table := (r_table s)\<lparr>poll_array :=
                    set_revents (take (nr_array_used (r_table s)) evs) (poll_array (r_table s))\<rparr>,
                  r_user := u,
                  reactor_time := word_of_int (sec * 1000 + usec div 1000)\<rparr>)
     }"

definition reactor_invoke ::
  "'P pool_ops \<Rightarrow> (cleanup \<Rightarrow> ('f, 'd, 'P, 'u) reactor \<Rightarrow> ('f, 'd, 'P, 'u) reactor option)
     \<Rightarrow> 'u sys_ops \<Rightarrow> ('f, 'd, ('f, 'd, 'P, 'u) reactor) callbacks
     \<Rightarrow> ('f, 'd, 'P, 'u) reactor \<Rightarrow> ('f, 'd, 'P, 'u) reactor option" where
  "reactor_invoke PO X K C s =
     do {
       s1 \<leftarrow> fire_timers PO X C s;
       s2 \<leftarrow> run_prepolls C (clear_fired s1);
       (r, s3) \<leftarrow> poll_phase K s2;
       if r > 0 then dispatch C 0 s3
       else if r = 0 then fire_head PO X C s3
       else Some s3
     }"

section \<open>Start and stop\<close>

text \<open>\<open>reactor_init\<close> runs as a constructor, before anything is registered.\<close>

definition reactor_init :: "'u sys_ops \<Rightarrow> 'P \<Rightarrow> 'u \<Rightarrow> ('f, 'd, 'P, 'u) reactor" where
  "reactor_init K P u =
     (let (sec, usec) = sys_gettimeofday K u
      in \<lparr>r_table = empty_table, r_timers = empty_queue, head_prepoll = [],
          reactor_time = word_of_int (sec * 1000 + usec div 1000), r_pools = P, r_user = u\<rparr>)"

text \<open>
  The first loop of \<open>reactor_stop\<close>: after freeing a handler it continues with that same handler
  (\<open>prepoll_next = prepoll\<close>), whose memory is gone; reading it is the \<open>None\<close> of the lookup.
\<close>

partial_function (option) stop_prepolls ::
  "'P pool_ops \<Rightarrow> (cleanup \<Rightarrow> ('f, 'd, 'P, 'u) reactor \<Rightarrow> ('f, 'd, 'P, 'u) reactor option)
     \<Rightarrow> addr option \<Rightarrow> ('f, 'd, 'P, 'u) reactor \<Rightarrow> ('f, 'd, 'P, 'u) reactor option" where
  "stop_prepolls PO X p s =
     (case p of
        None \<Rightarrow> Some s
      | Some h \<Rightarrow>
          (case find (\<lambda>p. pp_id p = h) (head_prepoll s) of
             None \<Rightarrow> None
           | Some x \<Rightarrow> Option.bind (do_delete_pool PO X s (pp_pool x)) (stop_prepolls PO X (Some h))))"

partial_function (option) stop_timers ::
  "'P pool_ops \<Rightarrow> (cleanup \<Rightarrow> ('f, 'd, 'P, 'u) reactor \<Rightarrow> ('f, 'd, 'P, 'u) reactor option)
     \<Rightarrow> addr option \<Rightarrow> ('f, 'd, 'P, 'u) reactor \<Rightarrow> ('f, 'd, 'P, 'u) reactor option" where
  "stop_timers PO X p s =
     (case p of
        None \<Rightarrow> Some s
      | Some t \<Rightarrow>
          (case theap (r_timers s) t of
             None \<Rightarrow> None
           | Some x \<Rightarrow> Option.bind (do_delete_pool PO X s (tpool x)) (stop_timers PO X (tnext x))))"

definition reactor_stop ::
  "'P pool_ops \<Rightarrow> (cleanup \<Rightarrow> ('f, 'd, 'P, 'u) reactor \<Rightarrow> ('f, 'd, 'P, 'u) reactor option)
     \<Rightarrow> ('f, 'd, 'P, 'u) reactor \<Rightarrow> ('f, 'd, 'P, 'u) reactor option" where
  "reactor_stop PO X s =
     do {
       s1 \<leftarrow> stop_prepolls PO X (case head_prepoll s of [] \<Rightarrow> None | p # _ \<Rightarrow> Some (pp_id p)) s;
       s2 \<leftarrow> stop_timers PO X (head_timer (r_timers s1)) s1;
       Some (s2\<lparr>r_table := empty_table\<rparr>)
     }"

section \<open>Timers and their pools\<close>

definition timer_info :: "('f, 'd) timer \<Rightarrow> pool \<times> 'f \<times> 'd" where
  "timer_info x = (tpool x, tfn x, tdata x)"

lemma remove_timer_info:
  assumes "remove_timer q t = Some q'"
  shows "map_option timer_info (theap q' a) = map_option timer_info (theap q a)"
  using assms
  by (auto simp: remove_timer_def timer_info_def bind_eq_Some_conv split: option.splits if_splits)

lemma insert_before_info:
  assumes "insert_before q t x trig p tt = Some q'" "theap q t = None"
  shows "map_option timer_info (theap q' a) =
    (if a = t then Some (timer_info x) else map_option timer_info (theap q a))"
proof -
  obtain y where y: "theap q p = Some y"
    using assms(1) by (auto simp: insert_before_def bind_eq_Some_conv)
  show ?thesis
  proof (cases "tprev y")
    case None
    then show ?thesis
      using assms y by (auto simp: insert_before_def timer_info_def)
  next
    case (Some b)
    then show ?thesis
      using assms y
      by (cases "b = t") (auto simp: insert_before_def timer_info_def bind_eq_Some_conv)
  qed
qed

lemma enqueue_timer_info:
  assumes "enqueue_timer q t x trig = Some q'" "theap q t = None"
  shows "map_option timer_info (theap q' a) =
    (if a = t then Some (timer_info x) else map_option timer_info (theap q a))"
proof (cases "head_timer q = None")
  case True
  then show ?thesis using assms by (auto simp: enqueue_timer_def timer_info_def)
next
  case False
  then obtain p l tt where w: "timer_walk (theap q) trig (head_timer q) None 0 = Some (p, l, tt)"
    using assms by (auto simp: enqueue_timer_def bind_eq_Some_conv)
  show ?thesis
  proof (cases p)
    case (Some a')
    then show ?thesis
      using assms w False by (intro insert_before_info) (auto simp: enqueue_timer_def)
  next
    case None
    then show ?thesis
      using assms w False
      by (auto simp: enqueue_timer_def bind_eq_Some_conv timer_info_def)
  qed
qed

text \<open>
  The timers of the queue are those of the schedule, each alone in a subpool whose only cleanup
  removes it.
\<close>

definition timers_ok ::
  "('P \<Rightarrow> bool) \<Rightarrow> ('P \<Rightarrow> pool set) \<Rightarrow> ('P \<Rightarrow> pool \<Rightarrow> pool set) \<Rightarrow> ('P \<Rightarrow> pool \<Rightarrow> cleanup multiset)
     \<Rightarrow> ('f, 'd, 'P, 'u) reactor \<Rightarrow> (addr \<times> nat) list \<Rightarrow> bool" where
  "timers_ok pinv live sub own s q \<longleftrightarrow>
     pinv (r_pools s) \<and> holds_schedule (r_timers s) q \<and>
     (\<forall>a \<in> fst ` set q. \<exists>x. theap (r_timers s) a = Some x \<and>
        single live sub own (r_pools s) (tpool x) (Remove_timer a))"

lemma map_option_infoD:
  "map_option timer_info m = map_option timer_info (Some x) \<Longrightarrow>
     \<exists>y. m = Some y \<and> tpool y = tpool x \<and> tfn y = tfn x \<and> tdata y = tdata x"
  by (cases m) (auto simp: timer_info_def)

context c2_pool
begin

lemma single_inj: "single live sub own P p (Remove_timer a) \<Longrightarrow> single live sub own P p (Remove_timer b) \<Longrightarrow> a = b"
  by (simp add: single_def)

lemma unset_timer_spec:
  assumes ok: "timers_ok pinv live sub own s q" and a: "a \<in> fst ` set q"
  shows "\<exists>s'. reactor_unset_timer_early PO X s a = Some s' \<and> timers_ok pinv live sub own s' (sched_remove a q) \<and>
     r_table s' = r_table s \<and> head_prepoll s' = head_prepoll s \<and> reactor_time s' = reactor_time s \<and>
     r_user s' = r_user s \<and>
     (\<forall>b. b \<noteq> a \<longrightarrow> map_option timer_info (theap (r_timers s') b) = map_option timer_info (theap (r_timers s) b))"
proof -
  have inv: "pinv (r_pools s)" and h: "holds_schedule (r_timers s) q" using ok by (auto simp: timers_ok_def)
  obtain x where x: "theap (r_timers s) a = Some x" "single live sub own (r_pools s) (tpool x) (Remove_timer a)"
    using ok a by (auto simp: timers_ok_def)
  obtain cs P where d: "delete_pool PO (r_pools s) (tpool x) = (cs, P)" by fastforce
  note del = delete_single [OF inv x(2) d]
  obtain q1 where q1: "remove_timer (r_timers s) a = Some q1" "holds_schedule q1 (sched_remove a q)"
    using remove_timer_refines [OF h a] by blast
  let ?q = "q1\<lparr>theap := (theap q1)(a := None)\<rparr>"
  let ?s = "s\<lparr>r_pools := P, r_timers := ?q\<rparr>"
  have res: "reactor_unset_timer_early PO X s a = Some ?s"
    using x d del(1) q1 by (simp add: reactor_unset_timer_early_def do_delete_pool_def run_cleanup_def)
  have na: "a \<notin> fst ` set (sched_remove a q)" by (auto simp: sched_remove_def)
  have info: "map_option timer_info (theap ?q b) = map_option timer_info (theap (r_timers s) b)" if "b \<noteq> a" for b
    using remove_timer_info [OF q1(1), of b] that by simp
  have pools: "\<exists>y. theap ?q b = Some y \<and> single live sub own P (tpool y) (Remove_timer b)"
    if b: "b \<in> fst ` set (sched_remove a q)" for b
  proof -
    have bq: "b \<in> fst ` set q" "b \<noteq> a" using b by (auto simp: sched_remove_def)
    obtain y where y: "theap (r_timers s) b = Some y" "single live sub own (r_pools s) (tpool y) (Remove_timer b)"
      using ok bq(1) by (auto simp: timers_ok_def)
    have "tpool y \<noteq> tpool x" using y(2) x(2) bq(2) single_inj by metis
    then have "single live sub own P (tpool y) (Remove_timer b)"
      using single_after_delete [OF inv x(2) d y(2)] by simp
    then show ?thesis using map_option_infoD [of "theap ?q b" y] info [OF bq(2)] y(1) by auto
  qed
  have "timers_ok pinv live sub own ?s (sched_remove a q)"
    unfolding timers_ok_def using del(2) holds_schedule_forget [OF q1(2) na] pools by simp
  then show ?thesis using res info by auto
qed

lemma set_timer_spec:
  assumes ok: "timers_ok pinv live sub own s q" and t: "theap (r_timers s) t = None"
    and pp: "pp \<in> live (r_pools s)"
    and apart: "\<forall>a \<in> fst ` set q. \<forall>x. theap (r_timers s) a = Some x \<longrightarrow> pp \<noteq> tpool x"
  shows "\<exists>s'. reactor_set_timer PO s pp timeout f d t x0 = Some (t, s') \<and>
     timers_ok pinv live sub own s' (sched_insert t (unat (trigger_time (reactor_time s) timeout)) q) \<and>
     (\<exists>x. theap (r_timers s') t = Some x \<and> tfn x = f \<and> tdata x = d)"
proof -
  let ?tr = "trigger_time (reactor_time s) timeout"
  have inv: "pinv (r_pools s)" and h: "holds_schedule (r_timers s) q" using ok by (auto simp: timers_ok_def)
  have tq: "t \<notin> fst ` set q"
    using ok t by (auto simp: timers_ok_def)
  obtain sp P1 where n: "new_subpool PO (r_pools s) pp = (sp, P1)" by fastforce
  let ?P = "register_cleanup_fn PO P1 sp (Remove_timer t)"
  let ?x = "x0\<lparr>tpool := sp, tfn := f, tdata := d\<rparr>"
  note sn = single_new [OF inv pp n, where c = "Remove_timer t"]
  obtain q1 where q1: "enqueue_timer (r_timers s) t ?x ?tr = Some q1"
    "holds_schedule q1 (sched_insert t (unat ?tr) q)"
    using enqueue_timer_refines [OF h tq] by blast
  note info = enqueue_timer_info [OF q1(1) t]
  have set: "fst ` set (sched_insert t (unat ?tr) q) = insert t (fst ` set q)"
    by (rule schedule_split [of q "unat ?tr" t]) auto
  have "\<exists>y. theap q1 b = Some y \<and> single live sub own ?P (tpool y) (Remove_timer b)"
    if b: "b \<in> insert t (fst ` set q)" for b
  proof (cases "b = t")
    case True
    then show ?thesis
      using map_option_infoD [of "theap q1 b" ?x] info [of b] sn(1) by auto
  next
    case False
    then obtain y where y: "theap (r_timers s) b = Some y" "single live sub own (r_pools s) (tpool y) (Remove_timer b)"
      using ok b by (auto simp: timers_ok_def)
    then have "pp \<noteq> tpool y" using apart b False by blast
    then have "pp \<notin> sub (r_pools s) (tpool y)" "tpool y \<in> live (r_pools s)" using y(2) by (auto simp: single_def)
    then have "single live sub own ?P (tpool y) (Remove_timer b)" using sn(2) y(2) by blast
    then show ?thesis using map_option_infoD [of "theap q1 b" y] info [of b] False y(1) by auto
  qed
  then have "timers_ok pinv live sub own (s\<lparr>r_timers := q1, r_pools := ?P\<rparr>) (sched_insert t (unat ?tr) q)"
    unfolding timers_ok_def using sn(3) q1(2) set by auto
  moreover have "\<exists>x. theap q1 t = Some x \<and> tfn x = f \<and> tdata x = d"
    using map_option_infoD [of "theap q1 t" ?x] info [of t] by auto
  moreover have "reactor_set_timer PO s pp timeout f d t x0 = Some (t, s\<lparr>r_timers := q1, r_pools := ?P\<rparr>)"
    using n q1(1) by (simp add: reactor_set_timer_def)
  ultimately show ?thesis by auto
qed

end

context c2_pool
begin

lemma unset_timer_pools:
  assumes ok: "timers_ok pinv live sub own s q" and a: "a \<in> fst ` set q" "theap (r_timers s) a = Some x"
    and un: "reactor_unset_timer_early PO X s a = Some s'"
  shows "live (r_pools s') = live (r_pools s) - {tpool x}" "theap (r_timers s') a = None"
proof -
  have inv: "pinv (r_pools s)" "single live sub own (r_pools s) (tpool x) (Remove_timer a)"
    using ok a by (auto simp: timers_ok_def)
  obtain cs P where d: "delete_pool PO (r_pools s) (tpool x) = (cs, P)" by fastforce
  note del = delete_single [OF inv d]
  obtain q1 where "s' = s\<lparr>r_pools := P, r_timers := q1\<lparr>theap := (theap q1)(a := None)\<rparr>\<rparr>"
    using un a(2) d del(1)
    by (auto simp: reactor_unset_timer_early_def do_delete_pool_def run_cleanup_def bind_eq_Some_conv)
  then show "live (r_pools s') = live (r_pools s) - {tpool x}" "theap (r_timers s') a = None" using del(3) by simp_all
qed

end

section \<open>One turn of the event loop\<close>

text \<open>The entries of a schedule that are due.\<close>

definition due :: "('f, 'd, 'P, 'u) reactor \<Rightarrow> addr \<times> nat \<Rightarrow> bool" where
  "due s e \<longleftrightarrow> snd e \<le> unat (reactor_time s)"

lemma head_due_iff:
  "holds_schedule (r_timers s) q \<Longrightarrow> head_due s \<longleftrightarrow> q \<noteq> [] \<and> due s (hd q)"
proof (cases q)
  case (Cons e q')
  assume h: "holds_schedule (r_timers s) q"
  obtain a tr where e: "e = (a, tr)" by fastforce
  obtain x where x: "head_timer (r_timers s) = Some a" "theap (r_timers s) a = Some x"
    "delta x = word_of_nat tr" "tr < 2 ^ 64"
    using holds_schedule_head h unfolding Cons e by blast
  then show ?thesis
    by (simp add: head_due_def due_def Cons e word_le_nat_alt unat_of_nat)
qed (simp add: holds_schedule_nil head_due_def)

text \<open>
  What the loop does is told as a sequence of calls of the clients' functions. \<open>R l s r\<close> says that
  the call \<open>l\<close> can be made in the state \<open>s\<close> and that \<open>r\<close> is what it returns; a call that does not return
  (\<open>None\<close>) ends the sequence.
\<close>

inductive call_trace :: "('l \<Rightarrow> 's \<Rightarrow> 's option \<Rightarrow> bool) \<Rightarrow> 'l list \<Rightarrow> 's \<Rightarrow> 's option \<Rightarrow> bool"
  for R where
  none: "call_trace R [] s (Some s)"
| call: "R l s (Some s1) \<Longrightarrow> call_trace R tr s1 r \<Longrightarrow> call_trace R (l # tr) s r"
| lost: "R l s None \<Longrightarrow> call_trace R [l] s None"

text \<open>
  The head timer \<open>a\<close> of the schedule is called after it has been taken out of it; handles, prepoll
  handlers, the time and the program's state are then as they were.
\<close>

definition timer_call ::
  "('P \<Rightarrow> bool) \<Rightarrow> ('P \<Rightarrow> pool set) \<Rightarrow> ('P \<Rightarrow> pool \<Rightarrow> pool set) \<Rightarrow> ('P \<Rightarrow> pool \<Rightarrow> cleanup multiset)
     \<Rightarrow> ('f, 'd, ('f, 'd, 'P, 'u) reactor) callbacks
     \<Rightarrow> addr \<Rightarrow> ('f, 'd, 'P, 'u) reactor \<Rightarrow> ('f, 'd, 'P, 'u) reactor option \<Rightarrow> bool" where
  "timer_call pinv live sub own C a s r \<longleftrightarrow>
     (\<exists>x t q s1. timers_ok pinv live sub own s ((a, t) # q) \<and> theap (r_timers s) a = Some x \<and>
        timers_ok pinv live sub own s1 q \<and> r_table s1 = r_table s \<and> head_prepoll s1 = head_prepoll s \<and>
        reactor_time s1 = reactor_time s \<and> r_user s1 = r_user s \<and> r = call_fn C (tfn x) (tdata x) s1)"

definition due_timer_call ::
  "('P \<Rightarrow> bool) \<Rightarrow> ('P \<Rightarrow> pool set) \<Rightarrow> ('P \<Rightarrow> pool \<Rightarrow> pool set) \<Rightarrow> ('P \<Rightarrow> pool \<Rightarrow> cleanup multiset)
     \<Rightarrow> ('f, 'd, ('f, 'd, 'P, 'u) reactor) callbacks
     \<Rightarrow> addr \<Rightarrow> ('f, 'd, 'P, 'u) reactor \<Rightarrow> ('f, 'd, 'P, 'u) reactor option \<Rightarrow> bool" where
  "due_timer_call pinv live sub own C a s r \<longleftrightarrow>
     timer_call pinv live sub own C a s r \<and>
     (\<exists>t q. timers_ok pinv live sub own s ((a, t) # q) \<and> t \<le> unat (reactor_time s))"

text \<open>The first prepoll handler of the list that has not run yet is marked and called.\<close>

definition prepoll_call ::
  "('f, 'd, ('f, 'd, 'P, 'u) reactor) callbacks
     \<Rightarrow> addr \<Rightarrow> ('f, 'd, 'P, 'u) reactor \<Rightarrow> ('f, 'd, 'P, 'u) reactor option \<Rightarrow> bool" where
  "prepoll_call C a s r \<longleftrightarrow>
     (\<exists>ps p ps'. head_prepoll s = ps @ p # ps' \<and> (\<forall>x \<in> set ps. fired x) \<and> \<not> fired p \<and> pp_id p = a \<and>
        r = call_fn C (pp_fn p) (pp_data p) (s\<lparr>head_prepoll := ps @ p\<lparr>fired := True\<rparr> # ps'\<rparr>))"

text \<open>A live handle with events is called with its function, data, descriptor and events.\<close>

definition handle_call ::
  "('f, 'd, ('f, 'd, 'P, 'u) reactor) callbacks
     \<Rightarrow> nat \<Rightarrow> ('f, 'd, 'P, 'u) reactor \<Rightarrow> ('f, 'd, 'P, 'u) reactor option \<Rightarrow> bool" where
  "handle_call C h s r \<longleftrightarrow>
     (\<exists>p f d. watched (r_table s) h = Some (p, f, d) \<and> revents p \<noteq> 0 \<and>
        r = call_handle C f (fd p) (revents p) d s)"

text \<open>
  What the reactor asks of the functions of its clients. They may set and unset timers, register
  and unregister handles and prepoll handlers, also their own; when they return, the tables are
  well formed, no more timers are due and no more prepoll handlers have still to run than before,
  and the table of handles has not grown beyond \<open>N\<close>.
\<close>

definition reactor_ok ::
  "('P \<Rightarrow> bool) \<Rightarrow> ('P \<Rightarrow> pool set) \<Rightarrow> ('P \<Rightarrow> pool \<Rightarrow> pool set) \<Rightarrow> ('P \<Rightarrow> pool \<Rightarrow> cleanup multiset)
     \<Rightarrow> nat \<Rightarrow> ('f, 'd, 'P, 'u) reactor \<Rightarrow> (addr \<times> nat) list \<Rightarrow> bool" where
  "reactor_ok pinv live sub own N s q \<longleftrightarrow>
     timers_ok pinv live sub own s q \<and> table_inv (r_table s) \<and> length (handles (r_table s)) \<le> N"

definition unfired :: "('f, 'd, 'P, 'u) reactor \<Rightarrow> ('f, 'd) prepoll list" where
  "unfired s = filter (\<lambda>p. \<not> fired p) (head_prepoll s)"

definition client_callbacks ::
  "('P \<Rightarrow> bool) \<Rightarrow> ('P \<Rightarrow> pool set) \<Rightarrow> ('P \<Rightarrow> pool \<Rightarrow> pool set) \<Rightarrow> ('P \<Rightarrow> pool \<Rightarrow> cleanup multiset)
     \<Rightarrow> nat \<Rightarrow> ('f, 'd, ('f, 'd, 'P, 'u) reactor) callbacks \<Rightarrow> bool" where
  "client_callbacks pinv live sub own N C \<longleftrightarrow>
     (\<forall>f d s q s'. call_fn C f d s = Some s' \<longrightarrow> reactor_ok pinv live sub own N s q \<longrightarrow>
        length (unfired s') \<le> length (unfired s) \<and>
        (\<exists>q'. reactor_ok pinv live sub own N s' q' \<and>
              length (filter (due s') q') \<le> length (filter (due s) q))) \<and>
     (\<forall>f n e d s q s'. call_handle C f n e d s = Some s' \<longrightarrow> reactor_ok pinv live sub own N s q \<longrightarrow>
        (\<exists>q'. reactor_ok pinv live sub own N s' q'))"

lemma reactor_ok_frame:
  "reactor_ok pinv live sub own N s q \<Longrightarrow> r_table s' = r_table s \<Longrightarrow> r_timers s' = r_timers s \<Longrightarrow>
     r_pools s' = r_pools s \<Longrightarrow> reactor_ok pinv live sub own N s' q"
  by (simp add: reactor_ok_def timers_ok_def)

context c2_pool
begin

lemma fire_head_calls:
  assumes ok: "timers_ok pinv live sub own s ((a, t) # q)"
  shows "\<exists>x s1. timers_ok pinv live sub own s1 q \<and> r_table s1 = r_table s \<and> head_prepoll s1 = head_prepoll s \<and>
     reactor_time s1 = reactor_time s \<and> r_user s1 = r_user s \<and> theap (r_timers s) a = Some x \<and>
     fire_head PO X C s = call_fn C (tfn x) (tdata x) s1"
proof -
  have h: "holds_schedule (r_timers s) ((a, t) # q)" using ok by (simp add: timers_ok_def)
  obtain x where x: "head_timer (r_timers s) = Some a" "theap (r_timers s) a = Some x"
    using holds_schedule_head [OF h] by blast
  have rm: "sched_remove a ((a, t) # q) = q"
    using holds_schedule_sorted [OF h] sched_remove_head by auto
  show ?thesis
    using unset_timer_spec [OF ok, of a X] x unfolding rm by (auto simp: fire_head_def)
qed

lemma fire_timers_calls:
  assumes C: "client_callbacks pinv live sub own N C" and ok: "reactor_ok pinv live sub own N s q"
  shows "\<exists>tr. call_trace (due_timer_call pinv live sub own C) tr s (fire_timers PO X C s) \<and>
     (\<forall>s'. fire_timers PO X C s = Some s' \<longrightarrow>
        (\<exists>q'. reactor_ok pinv live sub own N s' q' \<and> (\<forall>e \<in> set q'. \<not> due s' e)))"
  using ok
proof (induction "length (filter (due s) q)" arbitrary: s q rule: less_induct)
  case less
  have h: "holds_schedule (r_timers s) q" and tok: "timers_ok pinv live sub own s q"
    using less.prems by (simp_all add: timers_ok_def reactor_ok_def)
  show ?case
  proof (cases "q \<noteq> [] \<and> due s (hd q)")
    case False
    have "\<forall>e \<in> set q. \<not> due s e"
      using False holds_schedule_sorted [OF h] by (cases q) (auto simp: due_def)
    moreover have "fire_timers PO X C s = Some s"
      using head_due_iff [OF h] False by (simp add: fire_timers.simps)
    ultimately show ?thesis using less.prems by (auto intro: call_trace.none)
  next
    case True
    then obtain a t q1 where q: "q = (a, t) # q1" "t \<le> unat (reactor_time s)"
      by (cases q) (auto simp: due_def)
    obtain x s1 where s1: "timers_ok pinv live sub own s1 q1" "r_table s1 = r_table s"
       "head_prepoll s1 = head_prepoll s" "reactor_time s1 = reactor_time s" "r_user s1 = r_user s"
       "theap (r_timers s) a = Some x" "fire_head PO X C s = call_fn C (tfn x) (tdata x) s1"
      using fire_head_calls [OF tok [unfolded q(1)]] by blast
    have ev: "due_timer_call pinv live sub own C a s (call_fn C (tfn x) (tdata x) s1)"
      unfolding due_timer_call_def timer_call_def using s1 tok q by blast
    have ft: "fire_timers PO X C s = Option.bind (call_fn C (tfn x) (tdata x) s1) (fire_timers PO X C)"
      using head_due_iff [OF h] True s1(7) by (subst fire_timers.simps) simp
    have ok1: "reactor_ok pinv live sub own N s1 q1"
      using less.prems s1(1,2) by (simp add: reactor_ok_def)
    have "due s1 = due s" using s1(4) by (simp add: fun_eq_iff due_def)
    then have fewer: "length (filter (due s1) q1) < length (filter (due s) q)"
      using True unfolding q(1) by simp
    show ?thesis
    proof (cases "call_fn C (tfn x) (tdata x) s1")
      case None
      then show ?thesis using ev ft by (auto intro: call_trace.lost)
    next
      case (Some s2)
      obtain q2 where q2: "reactor_ok pinv live sub own N s2 q2"
        "length (filter (due s2) q2) \<le> length (filter (due s1) q1)"
        using C Some ok1 unfolding client_callbacks_def by blast
      then have "length (filter (due s2) q2) < length (filter (due s) q)" using fewer by simp
      then show ?thesis
        using less.hyps [OF _ q2(1)] ev ft Some by (auto intro: call_trace.call)
    qed
  qed
qed

end

text \<open>The prepoll loop: it ends, and calls every handler that no callback takes away.\<close>

lemma run_prepolls_step:
  assumes "unfired s \<noteq> []"
  obtains ps p ps' s1 where "head_prepoll s = ps @ p # ps'" "\<forall>x \<in> set ps. fired x" "\<not> fired p"
    "s1 = s\<lparr>head_prepoll := ps @ p\<lparr>fired := True\<rparr> # ps'\<rparr>"
    "run_prepolls C s = Option.bind (call_fn C (pp_fn p) (pp_data p) s1) (run_prepolls C)"
proof -
  obtain ps p ps' where sp: "head_prepoll s = ps @ p # ps'" "\<forall>x \<in> set ps. fired x" "\<not> fired p"
    using assms split_list_first_prop [of "head_prepoll s" "\<lambda>p. \<not> fired p"]
    by (auto simp: unfired_def filter_empty_conv)
  have i: "first_index (\<lambda>p. \<not> fired p) (head_prepoll s) = length ps"
    using sp by (simp add: first_index_append_cons)
  show thesis
    by (rule that [OF sp refl], subst run_prepolls.simps)
      (use sp(1) i in \<open>simp add: mark_fired_def list_update_append\<close>)
qed

lemma unfired_mark:
  "head_prepoll s = ps @ p # ps' \<Longrightarrow> \<forall>x \<in> set ps. fired x \<Longrightarrow> \<not> fired p \<Longrightarrow>
     s1 = s\<lparr>head_prepoll := ps @ p\<lparr>fired := True\<rparr> # ps'\<rparr> \<Longrightarrow> unfired s = p # unfired s1"
  by (auto simp: unfired_def)

lemma run_prepolls_done: "unfired s = [] \<Longrightarrow> run_prepolls C s = Some s"
  by (subst run_prepolls.simps) (auto simp: unfired_def filter_empty_conv first_index_less_iff)

definition kept_prepoll ::
  "('f, 'd, ('f, 'd, 'P, 'u) reactor) callbacks \<Rightarrow> ('f, 'd) prepoll \<Rightarrow> bool" where
  "kept_prepoll C p \<longleftrightarrow>
     (\<forall>f d s s'. call_fn C f d s = Some s' \<longrightarrow> p \<in> set (head_prepoll s) \<longrightarrow> p \<in> set (head_prepoll s'))"

lemma run_prepolls_calls:
  assumes C: "\<forall>f d s s'. call_fn C f d s = Some s' \<longrightarrow> I s \<longrightarrow> I s' \<and> length (unfired s') \<le> length (unfired s)"
    and mark: "\<forall>s ps. I s \<longrightarrow> I (s\<lparr>head_prepoll := ps\<rparr>)" and I: "I s"
  shows "\<exists>tr. call_trace (prepoll_call C) tr s (run_prepolls C s) \<and>
     (\<forall>s'. run_prepolls C s = Some s' \<longrightarrow> I s' \<and> unfired s' = [] \<and>
        (\<forall>p \<in> set (unfired s). kept_prepoll C p \<longrightarrow> pp_id p \<in> set tr))"
  using I
proof (induction "length (unfired s)" arbitrary: s rule: less_induct)
  case less
  show ?case
  proof (cases "unfired s = []")
    case True
    then show ?thesis using less.prems by (auto simp: run_prepolls_done intro: call_trace.none)
  next
    case False
    obtain ps p ps' s1 where sp: "head_prepoll s = ps @ p # ps'" "\<forall>x \<in> set ps. fired x" "\<not> fired p"
      "s1 = s\<lparr>head_prepoll := ps @ p\<lparr>fired := True\<rparr> # ps'\<rparr>"
      and run: "run_prepolls C s = Option.bind (call_fn C (pp_fn p) (pp_data p) s1) (run_prepolls C)"
      using run_prepolls_step [OF False] by blast
    note uf = unfired_mark [OF sp]
    have ev: "prepoll_call C (pp_id p) s (call_fn C (pp_fn p) (pp_data p) s1)"
      unfolding prepoll_call_def using sp by blast
    show ?thesis
    proof (cases "call_fn C (pp_fn p) (pp_data p) s1")
      case None
      then show ?thesis using ev run by (auto intro: call_trace.lost)
    next
      case (Some s2)
      have "I s1" using mark less.prems sp(4) by blast
      then have s2: "I s2" "length (unfired s2) < length (unfired s)"
        using C Some uf by fastforce+
      obtain tr where tr: "call_trace (prepoll_call C) tr s2 (run_prepolls C s2)"
        "\<forall>s'. run_prepolls C s2 = Some s' \<longrightarrow> I s' \<and> unfired s' = [] \<and>
           (\<forall>p \<in> set (unfired s2). kept_prepoll C p \<longrightarrow> pp_id p \<in> set tr)"
        using less.hyps [OF s2(2,1)] by blast
      have keep: "p' \<in> set (unfired s2)" if "p' \<in> set (unfired s1)" "kept_prepoll C p'" for p'
        using that Some unfolding unfired_def kept_prepoll_def by auto
      show ?thesis
        using ev run Some tr uf keep by (intro exI [of _ "pp_id p # tr"]) (auto intro: call_trace.call)
    qed
  qed
qed

lemma prepoll_trace_returns:
  "call_trace (prepoll_call C) tr s r \<Longrightarrow> \<forall>f d s. call_fn C f d s \<noteq> None \<Longrightarrow> r \<noteq> None"
  by (induction rule: call_trace.induct) (auto simp: prepoll_call_def, metis option.simps(3))

text \<open>Handlers that only unregister handlers: those called are called once each, in list order.\<close>

lemma prepoll_trace_order:
  assumes "call_trace (prepoll_call C) tr s r" "r = Some s'" "unfired s' = []"
    and C: "\<forall>f d s s'. call_fn C f d s = Some s' \<longrightarrow> subseq (head_prepoll s') (head_prepoll s)"
  shows "subseq tr (map pp_id (unfired s)) \<and>
     pp_id ` set (head_prepoll s') \<subseteq> set tr \<union> pp_id ` {p \<in> set (head_prepoll s). fired p}"
  using assms(1-3)
proof induction
  case (none s)
  then show ?case by (auto simp: unfired_def filter_empty_conv)
next
  case (call a s s2 tr r)
  obtain ps p ps' s1 where sp: "head_prepoll s = ps @ p # ps'" "\<forall>x \<in> set ps. fired x" "\<not> fired p"
    "s1 = s\<lparr>head_prepoll := ps @ p\<lparr>fired := True\<rparr> # ps'\<rparr>"
    and p: "pp_id p = a" "call_fn C (pp_fn p) (pp_data p) s1 = Some s2"
    using call.hyps(1) unfolding prepoll_call_def by metis
  have sub: "subseq (head_prepoll s2) (head_prepoll s1)" using C p(2) by blast
  have IH: "subseq tr (map pp_id (unfired s2))"
    "pp_id ` set (head_prepoll s') \<subseteq> set tr \<union> pp_id ` {p \<in> set (head_prepoll s2). fired p}"
    using call.IH call.prems by auto
  have "subseq (map pp_id (unfired s2)) (map pp_id (unfired s1))"
    unfolding unfired_def by (rule subseq_map [OF subseq_filter [OF sub]])
  with IH(1) have "subseq (a # tr) (map pp_id (unfired s))"
    unfolding unfired_mark [OF sp] using p(1) by (auto intro: subseq_order.trans)
  moreover have "set (head_prepoll s2) \<subseteq> set (head_prepoll s1)"
    using sub by (auto elim: list_emb_set)
  then have "set (head_prepoll s2) \<subseteq> insert (p\<lparr>fired := True\<rparr>) (set (head_prepoll s))"
    using sp(1,4) by auto
  then have B: "pp_id ` {x \<in> set (head_prepoll s2). fired x} \<subseteq> insert a (pp_id ` {x \<in> set (head_prepoll s). fired x})"
    using p(1) by auto
  ultimately show ?case
    using order_trans [OF IH(2) Un_mono [OF subset_refl B]] by simp
qed simp

text \<open>
  The dispatch loop: handles are called in table order, each with what the table holds when the loop
  reaches it, and every ready handle is reached that no callback touches.
\<close>

definition handle_ready :: "('f, 'd) handle_table \<Rightarrow> nat \<Rightarrow> bool" where
  "handle_ready t h \<longleftrightarrow> (\<exists>p f d. watched t h = Some (p, f, d) \<and> revents p \<noteq> 0)"

definition kept_handle ::
  "('f, 'd, ('f, 'd, 'P, 'u) reactor) callbacks \<Rightarrow> nat \<Rightarrow> bool" where
  "kept_handle C h \<longleftrightarrow>
     (\<forall>f n e d s s'. call_handle C f n e d s = Some s' \<longrightarrow> table_inv (r_table s) \<longrightarrow>
        watched (r_table s) h \<noteq> None \<longrightarrow> watched (r_table s') h = watched (r_table s) h)"

lemma dispatch_watched:
  assumes "table_inv (r_table s)" "i < length (handles (r_table s))"
  shows "dispatch C i s =
    (case watched (r_table s) i of
       Some (p, f, d) \<Rightarrow>
         if revents p \<noteq> 0 then Option.bind (call_handle C f (fd p) (revents p) d s) (dispatch C (Suc i))
         else dispatch C (Suc i) s
     | None \<Rightarrow> dispatch C (Suc i) s)"
  using table_inv_offset [OF assms] table_inv_used [OF assms(1)] assms(2)
  by (subst dispatch.simps) (auto simp: watched_def Let_def)

lemma dispatch_calls:
  assumes C: "client_callbacks pinv live sub own N C" and ok: "reactor_ok pinv live sub own N s q"
  shows "\<exists>tr. call_trace (handle_call C) tr s (dispatch C i s) \<and> sorted_wrt (<) tr \<and> (\<forall>h \<in> set tr. i \<le> h) \<and>
     (\<forall>s'. dispatch C i s = Some s' \<longrightarrow> (\<exists>q'. reactor_ok pinv live sub own N s' q') \<and>
        (\<forall>h \<ge> i. handle_ready (r_table s) h \<longrightarrow> kept_handle C h \<longrightarrow> h \<in> set tr))"
  using ok
proof (induction "N - i" arbitrary: i s q rule: less_induct)
  case less
  have inv: "table_inv (r_table s)" and len: "length (handles (r_table s)) \<le> N"
    using less.prems by (simp_all add: reactor_ok_def)
  show ?case
  proof (cases "i < length (handles (r_table s))")
    case False
    then have "dispatch C i s = Some s" by (simp add: dispatch.simps)
    moreover have "\<not> handle_ready (r_table s) h" if "i \<le> h" for h
      using False that by (simp add: handle_ready_def watched_def)
    ultimately show ?thesis using less.prems by (intro exI [of _ "[]"]) (auto intro: call_trace.none)
  next
    case True
    have IH: "\<exists>tr. call_trace (handle_call C) tr s1 (dispatch C (Suc i) s1) \<and> sorted_wrt (<) tr \<and> (\<forall>h \<in> set tr. Suc i \<le> h) \<and>
       (\<forall>s'. dispatch C (Suc i) s1 = Some s' \<longrightarrow> (\<exists>q'. reactor_ok pinv live sub own N s' q') \<and>
          (\<forall>h \<ge> Suc i. handle_ready (r_table s1) h \<longrightarrow> kept_handle C h \<longrightarrow> h \<in> set tr))"
      if "reactor_ok pinv live sub own N s1 q1" for s1 q1
      using less.hyps [of "Suc i" s1 q1] True len that by simp
    note step = dispatch_watched [OF inv True, of C]
    show ?thesis
    proof (cases "handle_ready (r_table s) i")
      case False
      have "dispatch C i s = dispatch C (Suc i) s"
        unfolding step using False by (auto simp: handle_ready_def split: option.split)
      then show ?thesis
        using IH [OF less.prems] False by (metis Suc_leD not_less_eq_eq order_antisym)
    next
      case True
      then obtain p f d where w: "watched (r_table s) i = Some (p, f, d)" "revents p \<noteq> 0"
        by (auto simp: handle_ready_def)
      have ev: "handle_call C i s (call_handle C f (fd p) (revents p) d s)" using w by (auto simp: handle_call_def)
      have run: "dispatch C i s = Option.bind (call_handle C f (fd p) (revents p) d s) (dispatch C (Suc i))"
        unfolding step using w by simp
      show ?thesis
      proof (cases "call_handle C f (fd p) (revents p) d s")
        case None
        then show ?thesis using ev run by (intro exI [of _ "[i]"]) (auto intro: call_trace.lost)
      next
        case (Some s1)
        obtain q1 where q1: "reactor_ok pinv live sub own N s1 q1"
          using C Some less.prems unfolding client_callbacks_def by blast
        have keep: "handle_ready (r_table s1) h" if "handle_ready (r_table s) h" "kept_handle C h" for h
          using that Some inv unfolding kept_handle_def handle_ready_def by fastforce
        obtain tr where tr: "call_trace (handle_call C) tr s1 (dispatch C (Suc i) s1)" "sorted_wrt (<) tr" "\<forall>h \<in> set tr. Suc i \<le> h"
          "\<forall>s'. dispatch C (Suc i) s1 = Some s' \<longrightarrow> (\<exists>q'. reactor_ok pinv live sub own N s' q') \<and>
             (\<forall>h \<ge> Suc i. handle_ready (r_table s1) h \<longrightarrow> kept_handle C h \<longrightarrow> h \<in> set tr)"
          using IH [OF q1] by blast
        have "h \<in> set (i # tr)" if "i \<le> h" "handle_ready (r_table s) h" "kept_handle C h" "dispatch C (Suc i) s1 = Some s'" for h s'
          using tr(4) keep [OF that(2,3)] that by (cases "h = i") auto
        moreover have "call_trace (handle_call C) (i # tr) s (dispatch C i s)"
          using run Some call_trace.call [of "handle_call C" i s s1, OF _ tr(1)] ev by simp
        ultimately show ?thesis
          using tr(2-4) run Some by (intro exI [of _ "i # tr"]) auto
      qed
    qed
  qed
qed

text \<open>Storing the result of \<open>poll\<close> keeps the table.\<close>

lemma length_set_revents [simp]: "length (set_revents es ps) = length ps"
  by (induction es ps rule: set_revents.induct) auto

lemma map_pkey_set_revents: "map pkey (set_revents es ps) = map pkey ps"
  by (induction es ps rule: set_revents.induct) (auto simp: pkey_def)

lemma table_inv_set_revents:
  "table_inv t \<Longrightarrow> table_inv (t\<lparr>poll_array := set_revents es (poll_array t)\<rparr>)"
  by (simp add: table_inv_def used_array_def take_map [symmetric] map_pkey_set_revents)

text \<open>
  What one turn passes to \<open>poll\<close>: for ever without timers, otherwise the time until the head timer,
  computed in 64 bits and cut to an \<open>int\<close>.
\<close>

definition wait_time :: "('f, 'd, 'P, 'u) reactor \<Rightarrow> (addr \<times> nat) list \<Rightarrow> int" where
  "wait_time s q = (case q of [] \<Rightarrow> -1 | e # _ \<Rightarrow> c_int (int (snd e) - int (unat (reactor_time s))))"

lemma c_int_mod64: "c_int (x mod 18446744073709551616) = c_int x"
proof -
  have "x mod 18446744073709551616 mod 4294967296 = x mod 4294967296"
    by (rule mod_mod_cancel) simp
  then have "(x mod 18446744073709551616 + 2147483648) mod 4294967296 = (x + 2147483648) mod 4294967296"
    by (rule mod_add_cong) simp
  then show ?thesis by (simp add: c_int_def)
qed

lemma poll_timeout_arg_wait:
  assumes "holds_schedule (r_timers s) q"
  shows "poll_timeout_arg s = Some (wait_time s q)"
proof (cases q)
  case Nil
  then show ?thesis using assms by (simp add: holds_schedule_nil poll_timeout_arg_def wait_time_def)
next
  case (Cons e q')
  obtain a t where e: "e = (a, t)" by fastforce
  obtain x where x: "head_timer (r_timers s) = Some a" "theap (r_timers s) a = Some x"
    "delta x = word_of_nat t" "t < 2 ^ 64"
    using holds_schedule_head assms unfolding Cons e by blast
  have "unat (delta x) = t" using x(4) by (simp add: x(3) unat_of_nat)
  then have "uint (delta x - reactor_time s) = (int t - int (unat (reactor_time s))) mod 18446744073709551616"
    unfolding uint_word_ariths(2) [of "delta x" "reactor_time s"] uint_nat [of "reactor_time s"] uint_nat [of "delta x"]
    by simp
  then show ?thesis
    using x by (simp add: poll_timeout_arg_def wait_time_def Cons e c_int_mod64)
qed

text \<open>The state after \<open>poll\<close> has returned with the events \<open>evs\<close>.\<close>

definition after_poll ::
  "'u sys_ops \<Rightarrow> int list \<Rightarrow> 'u \<Rightarrow> ('f, 'd, 'P, 'u) reactor \<Rightarrow> ('f, 'd, 'P, 'u) reactor" where
  "after_poll K evs u s =
     s\<lparr>r_table := (r_table s)\<lparr>poll_array :=
         set_revents (take (nr_array_used (r_table s)) evs) (poll_array (r_table s))\<rparr>,
       r_user := u,
       reactor_time := word_of_int (fst (sys_gettimeofday K u) * 1000 + snd (sys_gettimeofday K u) div 1000)\<rparr>"

text \<open>
  What follows \<open>poll\<close>: the ready handles are called, in table order, or the head timer when the wait
  has timed out, or nobody after an error.
\<close>

definition poll_answer ::
  "('P \<Rightarrow> bool) \<Rightarrow> ('P \<Rightarrow> pool set) \<Rightarrow> ('P \<Rightarrow> pool \<Rightarrow> pool set) \<Rightarrow> ('P \<Rightarrow> pool \<Rightarrow> cleanup multiset)
     \<Rightarrow> ('f, 'd, ('f, 'd, 'P, 'u) reactor) callbacks
     \<Rightarrow> int \<Rightarrow> ('f, 'd, 'P, 'u) reactor \<Rightarrow> ('f, 'd, 'P, 'u) reactor option \<Rightarrow> bool" where
  "poll_answer pinv live sub own C n s r \<longleftrightarrow>
     (if n > 0 then \<exists>tr. call_trace (handle_call C) tr s r \<and> sorted_wrt (<) tr \<and>
        (r \<noteq> None \<longrightarrow> (\<forall>h. handle_ready (r_table s) h \<and> kept_handle C h \<longrightarrow> h \<in> set tr))
      else if n = 0 then \<exists>a. timer_call pinv live sub own C a s r
      else r = Some s)"

context c2_pool
begin

lemma poll_answer_ok:
  assumes C: "client_callbacks pinv live sub own N C" and ok: "reactor_ok pinv live sub own N s q"
    and zero: "n = 0 \<Longrightarrow> q \<noteq> []"
    and r: "r = (if n > 0 then dispatch C 0 s else if n = 0 then fire_head PO X C s else Some s)"
  shows "poll_answer pinv live sub own C n s r \<and>
    pred_option (\<lambda>s'. \<exists>q'. reactor_ok pinv live sub own N s' q') r"
proof -
  consider "n > 0" | "n = 0" | "n < 0" by linarith
  then show ?thesis
  proof cases
    case 1
    then show ?thesis
      using dispatch_calls [OF C ok, of 0] r by (auto simp: poll_answer_def option.pred_set)
  next
    case 2
    then obtain a t q1 where q: "q = (a, t) # q1" using zero by (cases q) auto
    have tok: "timers_ok pinv live sub own s ((a, t) # q1)" using ok q by (simp add: reactor_ok_def)
    obtain x s1 where s1: "timers_ok pinv live sub own s1 q1" "r_table s1 = r_table s"
       "head_prepoll s1 = head_prepoll s" "reactor_time s1 = reactor_time s" "r_user s1 = r_user s"
       "theap (r_timers s) a = Some x" "fire_head PO X C s = call_fn C (tfn x) (tdata x) s1"
      using fire_head_calls [OF tok] by blast
    have "timer_call pinv live sub own C a s r"
      unfolding timer_call_def using s1 tok r 2 by auto
    moreover have "reactor_ok pinv live sub own N s1 q1" using ok s1(1,2) by (simp add: reactor_ok_def)
    then have "\<exists>q'. reactor_ok pinv live sub own N s' q'" if "r = Some s'" for s'
      using C that r 2 s1(7) unfolding client_callbacks_def by (metis less_irrefl)
    ultimately show ?thesis using 2 by (auto simp: poll_answer_def option.pred_set)
  next
    case 3
    then show ?thesis using r ok by (auto simp: poll_answer_def)
  qed
qed

end

text \<open>
  The specification of a turn. It ends without a result only when a client's function does.
  \<open>lost_timer\<close> and \<open>lost_prepoll\<close>: that happens before \<open>poll\<close>. Otherwise, after all timers that are due
  and all prepoll handlers, \<open>poll\<close> is called with the used descriptors and the time to wait.
\<close>

inductive reactor_turn ::
  "('P \<Rightarrow> bool) \<Rightarrow> ('P \<Rightarrow> pool set) \<Rightarrow> ('P \<Rightarrow> pool \<Rightarrow> pool set) \<Rightarrow> ('P \<Rightarrow> pool \<Rightarrow> cleanup multiset)
     \<Rightarrow> 'u sys_ops \<Rightarrow> ('f, 'd, ('f, 'd, 'P, 'u) reactor) callbacks
     \<Rightarrow> ('f, 'd, 'P, 'u) reactor \<Rightarrow> ('f, 'd, 'P, 'u) reactor option \<Rightarrow> bool"
  for pinv live sub own K C where
  lost_timer: "call_trace (due_timer_call pinv live sub own C) tr s None \<Longrightarrow>
     reactor_turn pinv live sub own K C s None"
| lost_prepoll: "call_trace (due_timer_call pinv live sub own C) tr s (Some s1) \<Longrightarrow>
     timers_ok pinv live sub own s1 q1 \<Longrightarrow> \<forall>e \<in> set q1. \<not> due s1 e \<Longrightarrow>
     call_trace (prepoll_call C) tr1 (clear_fired s1) None \<Longrightarrow>
     reactor_turn pinv live sub own K C s None"
| polled: "call_trace (due_timer_call pinv live sub own C) tr s (Some s1) \<Longrightarrow>
     timers_ok pinv live sub own s1 q1 \<Longrightarrow> \<forall>e \<in> set q1. \<not> due s1 e \<Longrightarrow>
     call_trace (prepoll_call C) tr1 (clear_fired s1) (Some s2) \<Longrightarrow>
     \<forall>p \<in> set (head_prepoll s2). fired p \<Longrightarrow>
     \<forall>p \<in> set (head_prepoll s1). kept_prepoll C (p\<lparr>fired := False\<rparr>) \<longrightarrow> pp_id p \<in> set tr1 \<Longrightarrow>
     timers_ok pinv live sub own s2 q2 \<Longrightarrow>
     sys_poll K (used_array (r_table s2)) (wait_time s2 q2) (r_user s2) = (n, evs, u) \<Longrightarrow>
     s3 = after_poll K evs u s2 \<Longrightarrow>
     poll_answer pinv live sub own C n s3 r \<Longrightarrow> reactor_turn pinv live sub own K C s r"

context c2_pool
begin

lemma reactor_invoke_calls:
  assumes C: "client_callbacks pinv live sub own N C" and ok: "reactor_ok pinv live sub own N s q"
    and poll: "\<forall>fds u. fst (sys_poll K fds (-1) u) \<noteq> 0"
  shows "reactor_turn pinv live sub own K C s (reactor_invoke PO X K C s) \<and>
    pred_option (\<lambda>s'. \<exists>q'. reactor_ok pinv live sub own N s' q') (reactor_invoke PO X K C s)"
proof (cases "fire_timers PO X C s")
  case None
  then show ?thesis
    using fire_timers_calls [OF C ok, of X] reactor_turn.lost_timer by (fastforce simp: reactor_invoke_def)
next
  case (Some s1)
  obtain tr q1 where t: "call_trace (due_timer_call pinv live sub own C) tr s (Some s1)"
    "reactor_ok pinv live sub own N s1 q1" "\<forall>e \<in> set q1. \<not> due s1 e"
    using fire_timers_calls [OF C ok, of X] Some by auto
  note t' = t(1) t(2) [unfolded reactor_ok_def, THEN conjunct1] t(3)
  let ?I = "\<lambda>s. \<exists>q. reactor_ok pinv live sub own N s q"
  have call1: "\<forall>f d s s'. call_fn C f d s = Some s' \<longrightarrow> ?I s \<longrightarrow> ?I s' \<and> length (unfired s') \<le> length (unfired s)"
    using C unfolding client_callbacks_def by blast
  have mark: "\<forall>s ps. ?I s \<longrightarrow> ?I (s\<lparr>head_prepoll := ps\<rparr>)"
    by (simp add: reactor_ok_def timers_ok_def)
  have I1: "?I (clear_fired s1)" using reactor_ok_frame [OF t(2), of "clear_fired s1"] by (auto simp: clear_fired_def)
  obtain tr1 where p: "call_trace (prepoll_call C) tr1 (clear_fired s1) (run_prepolls C (clear_fired s1))"
    "\<forall>s'. run_prepolls C (clear_fired s1) = Some s' \<longrightarrow> ?I s' \<and> unfired s' = [] \<and>
       (\<forall>p \<in> set (unfired (clear_fired s1)). kept_prepoll C p \<longrightarrow> pp_id p \<in> set tr1)"
    using run_prepolls_calls [of C ?I, OF call1 mark I1] by blast
  show ?thesis
  proof (cases "run_prepolls C (clear_fired s1)")
    case None
    then show ?thesis using Some p(1) reactor_turn.lost_prepoll [OF t'] by (simp add: reactor_invoke_def)
  next
    case s2: (Some s2)
    obtain q2 where q2: "reactor_ok pinv live sub own N s2 q2" using p(2) s2 by blast
    have tq2: "timers_ok pinv live sub own s2 q2" using q2 by (simp add: reactor_ok_def)
    obtain n evs u where sp: "sys_poll K (used_array (r_table s2)) (wait_time s2 q2) (r_user s2) = (n, evs, u)"
      using prod_cases3 by blast
    let ?s3 = "after_poll K evs u s2"
    have "poll_timeout_arg s2 = Some (wait_time s2 q2)"
      using tq2 by (intro poll_timeout_arg_wait) (simp add: timers_ok_def)
    then have pp: "poll_phase K s2 = Some (n, ?s3)"
      using sp by (simp add: poll_phase_def after_poll_def split: prod.split)
    have ok3: "reactor_ok pinv live sub own N ?s3 q2"
      using q2 table_inv_set_revents [of "r_table s2"] by (simp add: reactor_ok_def after_poll_def timers_ok_def)
    have run: "reactor_invoke PO X K C s =
        (if n > 0 then dispatch C 0 ?s3 else if n = 0 then fire_head PO X C ?s3 else Some ?s3)"
      using Some s2 pp by (simp add: reactor_invoke_def)
    have zero: "q2 \<noteq> []" if "n = 0"
      using poll [rule_format, of "used_array (r_table s2)" "r_user s2"] sp that by (auto simp: wait_time_def)
    note ans = poll_answer_ok [where X = X, OF C ok3 zero refl]
    have "\<forall>p \<in> set (head_prepoll s2). fired p" using p(2) s2 by (auto simp: unfired_def filter_empty_conv)
    moreover have "\<forall>p \<in> set (head_prepoll s1). kept_prepoll C (p\<lparr>fired := False\<rparr>) \<longrightarrow> pp_id p \<in> set tr1"
      using p(2) s2 by (force simp: unfired_def clear_fired_def)
    ultimately show ?thesis
      using reactor_turn.polled [OF t' p(1) [unfolded s2] _ _ tq2 sp refl] ans unfolding run by blast
  qed
qed

end

section \<open>Stopping\<close>

context c2_pool
begin

lemma head_after_unset:
  assumes ok: "timers_ok pinv live sub own s ((a, tr) # q)"
    and un: "reactor_unset_timer_early PO X s a = Some s'"
    and x: "head_timer (r_timers s) = Some a" "theap (r_timers s) a = Some x" "tprev x = None"
  shows "head_timer (r_timers s') = tnext x"
proof -
  have inv: "pinv (r_pools s)" "single live sub own (r_pools s) (tpool x) (Remove_timer a)"
    using ok x(2) by (auto simp: timers_ok_def)
  obtain cs P where d: "delete_pool PO (r_pools s) (tpool x) = (cs, P)" by fastforce
  have "cs = [Remove_timer a]" using delete_single(1) [OF inv d] .
  then have "\<exists>q1. remove_timer (r_timers s) a = Some q1 \<and> head_timer (r_timers s') = head_timer q1"
    using un x d
    by (auto simp: reactor_unset_timer_early_def do_delete_pool_def run_cleanup_def bind_eq_Some_conv)
  then show ?thesis
    using x(2,3) by (auto simp: remove_timer_def bind_eq_Some_conv split: option.splits)
qed

lemma stop_timers_spec:
  assumes "timers_ok pinv live sub own s q"
  shows "\<exists>s'. stop_timers PO X (head_timer (r_timers s)) s = Some s' \<and>
    timers_ok pinv live sub own s' [] \<and> head_prepoll s' = head_prepoll s \<and> r_user s' = r_user s"
  using assms
proof (induction q arbitrary: s)
  case Nil
  then have "head_timer (r_timers s) = None" by (simp add: timers_ok_def holds_schedule_nil)
  with Nil show ?case by (simp add: stop_timers.simps)
next
  case (Cons e q)
  obtain a tr where e: "e = (a, tr)" by fastforce
  have h: "holds_schedule (r_timers s) ((a, tr) # q)" using Cons.prems e by (simp add: timers_ok_def)
  then obtain x where x: "head_timer (r_timers s) = Some a" "theap (r_timers s) a = Some x" "tprev x = None"
    by (auto simp: holds_schedule_def)
  have rm: "sched_remove a ((a, tr) # q) = q"
    using holds_schedule_sorted [OF h] sched_remove_head by auto
  obtain s1 where s1: "reactor_unset_timer_early PO X s a = Some s1" "timers_ok pinv live sub own s1 q"
     "head_prepoll s1 = head_prepoll s" "r_user s1 = r_user s"
    using unset_timer_spec [OF Cons.prems, of a X] unfolding e rm by auto
  have "head_timer (r_timers s1) = tnext x"
    using head_after_unset [OF _ s1(1) x(1,2,3)] Cons.prems unfolding e by blast
  moreover have "do_delete_pool PO X s (tpool x) = Some s1"
    using s1(1) x(2) by (simp add: reactor_unset_timer_early_def)
  ultimately show ?case
    using Cons.IH [OF s1(2)] s1 x by (subst stop_timers.simps) auto
qed

end

text \<open>
  \<open>reactor_stop\<close> when a prepoll handler is left: the loop goes on with the handler it has just freed.
\<close>

context c2_pool
begin

lemma stop_prepolls_leftover:
  assumes inv: "pinv (r_pools s)" and hp: "head_prepoll s = p # ps" "distinct (map pp_id (p # ps))"
    and sg: "single live sub own (r_pools s) (pp_pool p) (Remove_prepoll (pp_id p))"
  shows "stop_prepolls PO X (Some (pp_id p)) s = None"
proof -
  obtain cs P where d: "delete_pool PO (r_pools s) (pp_pool p) = (cs, P)" by fastforce
  have "cs = [Remove_prepoll (pp_id p)]" using delete_single(1) [OF inv sg d] .
  then have del: "do_delete_pool PO X s (pp_pool p) = Some (s\<lparr>r_pools := P, head_prepoll := ps\<rparr>)"
    using d hp by (simp add: do_delete_pool_def run_cleanup_def remove_prepoll_def remove_at_def)
  have "find (\<lambda>q. pp_id q = pp_id p) ps = None"
    using hp(2) by (auto simp: find_None_iff) (metis image_eqI)
  then have "stop_prepolls PO X (Some (pp_id p)) (s\<lparr>r_pools := P, head_prepoll := ps\<rparr>) = None"
    by (subst stop_prepolls.simps) simp
  with del hp show ?thesis by (subst stop_prepolls.simps) simp
qed

end

section \<open>Deleting a pool with many cleanups\<close>

text \<open>
  \<open>other_cleanups\<close> is what deleting a pool asks of the cleanups of other modules (files, locks, database
  handles): as long as each is run as often as it was registered (\<open>M\<close> are those still to be run, and
  \<open>J\<close> the condition under which they work), it returns, leaves the timers alone and neither adds nor
  removes a prepoll handler among those at \<open>D\<close>.
\<close>

fun is_other :: "cleanup \<Rightarrow> bool" where
  "is_other (Remove_timer a) = False"
| "is_other (Remove_prepoll h) = False"
| "is_other c = True"

definition other_cleanups ::
  "(cleanup multiset \<Rightarrow> 'u \<Rightarrow> bool) \<Rightarrow> addr set
     \<Rightarrow> (cleanup \<Rightarrow> ('f, 'd, 'P, 'u) reactor \<Rightarrow> ('f, 'd, 'P, 'u) reactor option) \<Rightarrow> bool" where
  "other_cleanups J D X \<longleftrightarrow>
     (\<forall>M c s. is_other c \<longrightarrow> J (add_mset c M) (r_user s) \<longrightarrow> distinct (map pp_id (head_prepoll s)) \<longrightarrow>
        (\<exists>s'. X c s = Some s' \<and> J M (r_user s') \<and> r_timers s' = r_timers s \<and>
              distinct (map pp_id (head_prepoll s')) \<and>
              pp_id ` set (head_prepoll s') \<inter> D = pp_id ` set (head_prepoll s) \<inter> D))"

lemma remove_prepoll_spec:
  assumes "distinct (map pp_id (head_prepoll s))" "h \<in> pp_id ` set (head_prepoll s)"
  shows "\<exists>s'. remove_prepoll s h = Some s' \<and> r_timers s' = r_timers s \<and> r_user s' = r_user s \<and>
    distinct (map pp_id (head_prepoll s')) \<and> pp_id ` set (head_prepoll s') = pp_id ` set (head_prepoll s) - {h}"
proof -
  obtain ps p ps' where sp: "head_prepoll s = ps @ p # ps'" "pp_id p = h"
    using assms(2) by (metis imageE split_list)
  have "first_index (\<lambda>p. pp_id p = h) (head_prepoll s) = length ps"
    unfolding sp(1) by (rule first_index_append_cons) (use assms(1) sp in \<open>auto simp: image_iff\<close>)
  then have "remove_prepoll s h = Some (s\<lparr>head_prepoll := ps @ ps'\<rparr>)"
    using sp(1) by (simp add: remove_prepoll_def remove_at_def)
  moreover have "pp_id ` set (ps @ ps') = pp_id ` set (head_prepoll s) - {h}" "distinct (map pp_id (ps @ ps'))"
    using assms(1) sp by (auto simp: image_iff)
  ultimately show ?thesis by simp
qed

lemma run_cleanups_spec:
  assumes X: "other_cleanups J D X"
    and "J (mset (filter is_other cs)) (r_user s)" "distinct (filter (\<lambda>c. \<not> is_other c) cs)"
    and "holds_schedule (r_timers s) q" "\<forall>a. Remove_timer a \<in> set cs \<longrightarrow> a \<in> fst ` set q"
    and "distinct (map pp_id (head_prepoll s))"
    and "\<forall>h. Remove_prepoll h \<in> set cs \<longrightarrow> h \<in> D \<inter> pp_id ` set (head_prepoll s)"
  shows "\<exists>s'. run_cleanups X cs s = Some s' \<and>
    holds_schedule (r_timers s') (filter (\<lambda>e. Remove_timer (fst e) \<notin> set cs) q) \<and>
    pp_id ` set (head_prepoll s') \<inter> D = {h \<in> pp_id ` set (head_prepoll s) \<inter> D. Remove_prepoll h \<notin> set cs}"
  using assms(2-)
proof (induction cs arbitrary: s q)
  case Nil
  then show ?case by auto
next
  case (Cons c cs)
  show ?case
  proof (cases "is_other c")
    case True
    then obtain s1 where s1: "X c s = Some s1" "J (mset (filter is_other cs)) (r_user s1)" "r_timers s1 = r_timers s"
      "distinct (map pp_id (head_prepoll s1))" "pp_id ` set (head_prepoll s1) \<inter> D = pp_id ` set (head_prepoll s) \<inter> D"
      using X Cons.prems(1,5) unfolding other_cleanups_def by fastforce
    have run: "run_cleanups X (c # cs) s = run_cleanups X cs s1"
      using True s1(1) by (cases c) (simp_all add: run_cleanup_def)
    have ne: "Remove_timer a \<noteq> c" "Remove_prepoll a \<noteq> c" for a using True by auto
    have h: "\<forall>h. Remove_prepoll h \<in> set cs \<longrightarrow> h \<in> D \<inter> pp_id ` set (head_prepoll s1)"
      using Cons.prems(6) s1(5) by auto
    show ?thesis
      unfolding run using Cons.IH [OF s1(2) _ Cons.prems(3) [folded s1(3)] _ s1(4) h] Cons.prems(2,4) True ne s1(5) by simp
  next
    case False
    then consider (timer) a where "c = Remove_timer a" | (prepoll) h where "c = Remove_prepoll h" by (cases c) auto
    then show ?thesis
    proof cases
      case timer
      obtain q1 where q1: "remove_timer (r_timers s) a = Some q1" "holds_schedule q1 (sched_remove a q)"
        using remove_timer_refines [OF Cons.prems(3), of a] Cons.prems(4) timer by auto
      let ?s = "s\<lparr>r_timers := q1\<lparr>theap := (theap q1)(a := None)\<rparr>\<rparr>"
      have h: "holds_schedule (r_timers ?s) (sched_remove a q)"
        using holds_schedule_forget [OF q1(2), of a] by (auto simp: sched_remove_def)
      have "\<forall>b. Remove_timer b \<in> set cs \<longrightarrow> b \<in> fst ` set (sched_remove a q)"
        using Cons.prems(2,4) timer by (fastforce simp: sched_remove_def)
      then obtain s' where "run_cleanups X cs ?s = Some s'"
        "holds_schedule (r_timers s') (filter (\<lambda>e. Remove_timer (fst e) \<notin> set cs) (sched_remove a q))"
        "pp_id ` set (head_prepoll s') \<inter> D = {h \<in> pp_id ` set (head_prepoll s) \<inter> D. Remove_prepoll h \<notin> set cs}"
        using Cons.IH [of ?s, OF _ _ h] Cons.prems(1,2,5,6) timer by auto
      moreover have "filter (\<lambda>e. Remove_timer (fst e) \<notin> set cs) (sched_remove a q) =
          filter (\<lambda>e. Remove_timer (fst e) \<notin> set (c # cs)) q"
        unfolding sched_remove_def filter_filter timer by (rule filter_cong) auto
      ultimately show ?thesis using q1(1) timer by (simp add: run_cleanup_def)
    next
      case prepoll
      obtain s1 where s1: "remove_prepoll s h = Some s1" "r_timers s1 = r_timers s" "r_user s1 = r_user s"
        "distinct (map pp_id (head_prepoll s1))" "pp_id ` set (head_prepoll s1) = pp_id ` set (head_prepoll s) - {h}"
        using remove_prepoll_spec [OF Cons.prems(5), of h] Cons.prems(6) prepoll by auto
      have k: "\<forall>k. Remove_prepoll k \<in> set cs \<longrightarrow> k \<in> D \<inter> pp_id ` set (head_prepoll s1)"
        using Cons.prems(2,6) prepoll unfolding s1(5) by auto
      obtain s' where "run_cleanups X cs s1 = Some s'"
        "holds_schedule (r_timers s') (filter (\<lambda>e. Remove_timer (fst e) \<notin> set cs) q)"
        "pp_id ` set (head_prepoll s') \<inter> D = {k \<in> (pp_id ` set (head_prepoll s) - {h}) \<inter> D. Remove_prepoll k \<notin> set cs}"
        using Cons.IH [OF _ _ Cons.prems(3) [folded s1(2)] _ s1(4) k] Cons.prems(1,2,4) prepoll s1(3) unfolding s1(5) by auto
      then show ?thesis using s1(1) prepoll by (auto simp: run_cleanup_def)
    qed
  qed
qed

section \<open>Properties\<close>

text \<open>
  C4: setting a timer from a live pool puts it into the schedule at \<open>reactor_time + timeout\<close>
  (computed in 64 bits) with its callback, in a subpool of its own whose deletion removes it.
\<close>

theorem reactor_set_timer_schedules:
  assumes "c2_pool PO pinv live sub own"
    and "timers_ok pinv live sub own s q" "theap (r_timers s) t = None" "pp \<in> live (r_pools s)"
    and "\<forall>a \<in> fst ` set q. \<forall>x. theap (r_timers s) a = Some x \<longrightarrow> pp \<noteq> tpool x"
  shows "\<exists>s'. reactor_set_timer PO s pp timeout f d t x0 = Some (t, s') \<and>
     timers_ok pinv live sub own s' (sched_insert t (unat (reactor_time s + word_of_int timeout)) q) \<and>
     (\<exists>x. theap (r_timers s') t = Some x \<and> tfn x = f \<and> tdata x = d)"
  using c2_pool.set_timer_spec [OF assms] by (simp add: trigger_time_def)

text \<open>A reactor with two timers, in pools 1 and 2 below the root pool 0, and one ready handle.\<close>

definition demo_pools :: cpools where
  "demo_pools = \<lparr>pnext = 4, palive = (\<lambda>q. q < 4), panc = (\<lambda>q. if q = 0 then [0] else [q, 0]),
     pown = (\<lambda>q. if q = 1 then [Remove_timer 1] else if q = 2 then [Remove_timer 2]
                 else if q = 3 then [Remove_prepoll 9] else [])\<rparr>"

definition demo :: "(nat, nat, cpools, nat list) reactor" where
  "demo = \<lparr>r_table = two_handles, r_timers = two_timers,
     head_prepoll = [\<lparr>pp_id = 9, pp_pool = 3, pp_fn = 5, pp_data = 6, fired = True\<rparr>],
     reactor_time = 12, r_pools = demo_pools, r_user = []\<rparr>"

lemma demo_pools_inv: "cpool_inv demo_pools"
  by (auto simp: cpool_inv_def demo_pools_def)

lemma demo_single:
  "p \<in> {1, 2, 3} \<Longrightarrow> single cpool_live (\<lambda>P p. set (cpool_under P p)) cpool_own demo_pools p
     (if p = 1 then Remove_timer 1 else if p = 2 then Remove_timer 2 else Remove_prepoll 9)"
  unfolding single_def cpool_under_set [OF demo_pools_inv]
  by (auto simp: cpool_live_def cpool_own_def demo_pools_def split: if_splits)

lemma demo_timers_ok:
  "timers_ok cpool_inv cpool_live (\<lambda>P p. set (cpool_under P p)) cpool_own demo [(1, 10), (2, 15)]"
  using demo_pools_inv two_timers_schedule demo_single [of 1] demo_single [of 2]
  by (simp add: timers_ok_def demo_def two_timers_def)

theorem reactor_set_timer_schedules_witness:
  "\<exists>s'. reactor_set_timer cpool_ops demo 0 (-5) 7 8 4 \<lparr>tpool = 0, tprev = None, tnext = None, delta = 0, tfn = 0, tdata = 0\<rparr>
       = Some (4, s') \<and>
     timers_ok cpool_inv cpool_live (\<lambda>P p. set (cpool_under P p)) cpool_own s'
       (sched_insert 4 (unat (reactor_time demo + word_of_int (-5))) [(1, 10), (2, 15)]) \<and>
     (\<exists>x. theap (r_timers s') 4 = Some x \<and> tfn x = 7 \<and> tdata x = 8)"
  by (rule reactor_set_timer_schedules [OF cpool.c2_pool_axioms demo_timers_ok])
    (auto simp: demo_def two_timers_def cpool_live_def demo_pools_def)

text \<open>
  unsetting a timer, by deleting its subpool, removes exactly that timer from the schedule and
  touches nothing else: handles, prepoll handlers, time and the program's own state stay.
\<close>

theorem reactor_unset_timer_unschedules:
  assumes "c2_pool PO pinv live sub own" "timers_ok pinv live sub own s q" "a \<in> fst ` set q"
  shows "\<exists>s'. reactor_unset_timer_early PO X s a = Some s' \<and>
     timers_ok pinv live sub own s' (sched_remove a q) \<and>
     r_table s' = r_table s \<and> head_prepoll s' = head_prepoll s \<and> reactor_time s' = reactor_time s \<and>
     r_user s' = r_user s"
  using c2_pool.unset_timer_spec [OF assms] by blast

theorem reactor_unset_timer_unschedules_witness:
  "\<exists>s'. reactor_unset_timer_early cpool_ops (\<lambda>_. Some) demo 1 = Some s' \<and>
     timers_ok cpool_inv cpool_live (\<lambda>P p. set (cpool_under P p)) cpool_own s' (sched_remove 1 [(1, 10), (2, 15)]) \<and>
     r_table s' = r_table demo \<and> head_prepoll s' = head_prepoll demo \<and>
     reactor_time s' = reactor_time demo \<and> r_user s' = r_user demo"
  by (rule reactor_unset_timer_unschedules [OF cpool.c2_pool_axioms demo_timers_ok]) simp

text \<open>
  C1: one turn of the event loop, with callbacks that may use the reactor themselves (\<open>client_callbacks\<close>:
  they keep the tables well formed and the handle table bounded, and leave no more due timers and no
  more unfired prepoll handlers than they found). As long as the callbacks return, the turn ends. It
  calls the head timer, taken off the schedule first, until no timer is due; then the prepoll
  handlers, all those that no callback removes; then \<open>poll\<close> with the used descriptors and the time
  until the next timer; then in table order the handles that have events when the loop reaches
  them, among them every ready handle that no callback touches, or the head timer when \<open>poll\<close>
  timed out. The tables are well formed afterwards.
\<close>

theorem reactor_invoke_turn:
  assumes "c2_pool PO pinv live sub own"
    and "client_callbacks pinv live sub own N C" "reactor_ok pinv live sub own N s q"
    and "\<forall>fds u. fst (sys_poll K fds (-1) u) \<noteq> 0"
  shows "reactor_turn pinv live sub own K C s (reactor_invoke PO X K C s) \<and>
    pred_option (\<lambda>s'. \<exists>q'. reactor_ok pinv live sub own N s' q') (reactor_invoke PO X K C s)"
  using assms by (rule c2_pool.reactor_invoke_calls)

text \<open>Callbacks that note their arguments; those of handles also unregister handle 2.\<close>

definition demo_callbacks :: "(nat, nat, (nat, nat, cpools, nat list) reactor) callbacks" where
  "demo_callbacks = \<lparr>call_fn = (\<lambda>f d s. Some (s\<lparr>r_user := f # d # r_user s\<rparr>)),
     call_handle = (\<lambda>f n e d s. map_option (\<lambda>t. s\<lparr>r_table := t, r_user := f # d # r_user s\<rparr>)
                      (reactor_unregister (r_table s) 2))\<rparr>"

definition demo_sys :: "nat list sys_ops" where
  "demo_sys = \<lparr>sys_poll = (\<lambda>_ _ u. (1, [0, 4], 100 # u)), sys_gettimeofday = (\<lambda>_. (0, 13000))\<rparr>"

lemma reactor_unregister_length:
  "reactor_unregister t h = Some t' \<Longrightarrow> length (handles t') = length (handles t)"
  by (auto simp: reactor_unregister_def reactor_unregister_with_def Let_def split: if_splits)

lemma demo_client: "client_callbacks pinv live sub own N demo_callbacks"
proof -
  have keep: "reactor_ok pinv live sub own N (s\<lparr>r_user := u\<rparr>) q" "due (s\<lparr>r_user := u\<rparr>) = due s"
    "unfired (s\<lparr>r_user := u\<rparr>) = unfired s"
    if "reactor_ok pinv live sub own N s q" for s :: "(nat, nat, cpools, nat list) reactor" and u q
    using that by (simp_all add: reactor_ok_def timers_ok_def due_def fun_eq_iff unfired_def)
  have table: "reactor_ok pinv live sub own N (s\<lparr>r_table := t, r_user := u\<rparr>) q"
    if "reactor_ok pinv live sub own N s q" "reactor_unregister (r_table s) 2 = Some t"
    for s :: "(nat, nat, cpools, nat list) reactor" and t u q
    using that reactor_unregister_inv reactor_unregister_length [OF that(2)]
    by (auto simp: reactor_ok_def timers_ok_def)
  show ?thesis
    unfolding client_callbacks_def demo_callbacks_def using keep table by fastforce
qed

lemma demo_kept: "kept_handle demo_callbacks h" if "h \<noteq> 2"
  using that reactor_unregister_watched unfolding kept_handle_def demo_callbacks_def by fastforce

theorem reactor_invoke_turn_witness:
  "reactor_turn cpool_inv cpool_live (\<lambda>P p. set (cpool_under P p)) cpool_own demo_sys demo_callbacks demo
       (reactor_invoke cpool_ops (\<lambda>_. Some) demo_sys demo_callbacks demo) \<and>
    pred_option (\<lambda>s'. \<exists>q'. reactor_ok cpool_inv cpool_live (\<lambda>P p. set (cpool_under P p)) cpool_own 8 s' q')
      (reactor_invoke cpool_ops (\<lambda>_. Some) demo_sys demo_callbacks demo)"
proof (rule reactor_invoke_turn [OF cpool.c2_pool_axioms demo_client])
  show "reactor_ok cpool_inv cpool_live (\<lambda>P p. set (cpool_under P p)) cpool_own 8 demo [(1, 10), (2, 15)]"
    using demo_timers_ok two_handles_inv unfolding reactor_ok_def by (simp add: demo_def two_handles_def)
  show "\<forall>fds u. fst (sys_poll demo_sys fds (-1) u) \<noteq> 0" by (simp add: demo_sys_def)
qed

text \<open>
  That turn in full: timer 1 is due and fires, the prepoll handler runs, \<open>poll\<close> reports events for
  the descriptor that handles 1 and 2 share, and the callback of handle 1 unregisters handle 2,
  which is then not called.
\<close>

lemmas loop_code [code] = fire_timers.simps run_prepolls.simps dispatch.simps

lemma demo_turn_result:
  "map_option (\<lambda>s'. (r_user s', reactor_time s')) (reactor_invoke cpool_ops (\<lambda>_. Some) demo_sys demo_callbacks demo) =
     Some ([3, 4, 100, 5, 6, 0, 0], 13)"
  by code_simp

text \<open>
  C5: with handlers that may unregister themselves or others, but register none, the prepoll loop
  ends, and the calls it has made are calls of registered handlers, at most once each and in the
  order of the list; every handler that is still registered at the end is among them.
\<close>

theorem run_prepolls_complete:
  assumes "\<forall>f d s. \<exists>s'. call_fn C f d s = Some s' \<and> subseq (head_prepoll s') (head_prepoll s)"
  shows "\<exists>s' tr. run_prepolls C (clear_fired s) = Some s' \<and>
     call_trace (prepoll_call C) tr (clear_fired s) (Some s') \<and>
     subseq tr (map pp_id (head_prepoll s)) \<and>
     set (map pp_id (head_prepoll s')) \<subseteq> set tr \<and> (\<forall>p \<in> set (head_prepoll s'). fired p)"
proof -
  have sub: "\<forall>f d s s'. call_fn C f d s = Some s' \<longrightarrow> subseq (head_prepoll s') (head_prepoll s)"
    using assms by (metis option.inject)
  have fewer: "\<forall>f d s s'. call_fn C f d s = Some s' \<longrightarrow> True \<longrightarrow> True \<and> length (unfired s') \<le> length (unfired s)"
    using sub list_emb_length [OF subseq_filter] unfolding unfired_def by blast
  obtain tr where tr: "call_trace (prepoll_call C) tr (clear_fired s) (run_prepolls C (clear_fired s))"
    "\<forall>s'. run_prepolls C (clear_fired s) = Some s' \<longrightarrow> unfired s' = []"
    using run_prepolls_calls [OF fewer, of "clear_fired s"] by auto
  have "run_prepolls C (clear_fired s) \<noteq> None"
    using prepoll_trace_returns [OF tr(1)] assms by blast
  then obtain s' where s': "run_prepolls C (clear_fired s) = Some s'" "unfired s' = []" using tr(2) by blast
  have all: "map pp_id (unfired (clear_fired s)) = map pp_id (head_prepoll s)"
    "{p \<in> set (head_prepoll (clear_fired s)). fired p} = {}"
    by (auto simp: unfired_def clear_fired_def filter_map comp_def)
  show ?thesis
    using prepoll_trace_order [OF tr(1) s' sub] s' tr(1) unfolding all
    by (intro exI [of _ s'] exI [of _ tr]) (auto simp: unfired_def filter_empty_conv)
qed

theorem run_prepolls_complete_witness:
  "\<exists>s' tr. run_prepolls \<lparr>call_fn = (\<lambda>f d s. Some (s\<lparr>head_prepoll := tl (head_prepoll s)\<rparr>)),
       call_handle = (\<lambda>_ _ _ _ s. Some s)\<rparr> (clear_fired demo) = Some s' \<and>
     call_trace (prepoll_call \<lparr>call_fn = (\<lambda>f d s. Some (s\<lparr>head_prepoll := tl (head_prepoll s)\<rparr>)),
       call_handle = (\<lambda>_ _ _ _ s. Some s)\<rparr>) tr (clear_fired demo) (Some s') \<and>
     subseq tr (map pp_id (head_prepoll demo)) \<and>
     set (map pp_id (head_prepoll s')) \<subseteq> set tr \<and> (\<forall>p \<in> set (head_prepoll s'). fired p)"
  by (rule run_prepolls_complete) (simp add: suffix_imp_subseq suffix_tl)

text \<open>
  at shutdown, when no prepoll handler is registered, \<open>reactor_stop\<close> ends, has removed all
  timers that were left and has freed the tables.
\<close>

theorem reactor_stop_clean:
  assumes "c2_pool PO pinv live sub own" "timers_ok pinv live sub own s q" "head_prepoll s = []"
  shows "\<exists>s'. reactor_stop PO X s = Some s' \<and> head_timer (r_timers s') = None \<and>
    r_table s' = empty_table \<and> r_user s' = r_user s"
proof -
  obtain s2 where "stop_timers PO X (head_timer (r_timers s)) s = Some s2"
    "timers_ok pinv live sub own s2 []" "r_user s2 = r_user s"
    using c2_pool.stop_timers_spec [OF assms(1,2)] by blast
  then show ?thesis
    using assms(3) by (simp add: reactor_stop_def stop_prepolls.simps timers_ok_def holds_schedule_nil)
qed

theorem reactor_stop_clean_witness:
  "\<exists>s'. reactor_stop cpool_ops (\<lambda>_. Some) (demo\<lparr>head_prepoll := []\<rparr>) = Some s' \<and>
    head_timer (r_timers s') = None \<and> r_table s' = empty_table \<and> r_user s' = r_user (demo\<lparr>head_prepoll := []\<rparr>)"
  by (rule reactor_stop_clean [OF cpool.c2_pool_axioms, of _ "[(1, 10), (2, 15)]"])
    (use demo_timers_ok in \<open>simp_all add: timers_ok_def\<close>)

text \<open>
  when a prepoll handler is still registered at shutdown, \<open>reactor_stop\<close> does not complete:
  after freeing the handler it reads the freed handler again (\<open>prepoll_next = prepoll\<close>).
\<close>

theorem reactor_stop_leftover_prepoll:
  assumes "c2_pool PO pinv live sub own" "pinv (r_pools s)"
    and "head_prepoll s = p # ps" "distinct (map pp_id (p # ps))"
    and "single live sub own (r_pools s) (pp_pool p) (Remove_prepoll (pp_id p))"
  shows "reactor_stop PO X s = None"
  using c2_pool.stop_prepolls_leftover [OF assms] assms(3) by (simp add: reactor_stop_def)

theorem reactor_stop_leftover_prepoll_witness: "reactor_stop cpool_ops (\<lambda>_. Some) demo = None"
  by (rule reactor_stop_leftover_prepoll [OF cpool.c2_pool_axioms,
        where p = "\<lparr>pp_id = 9, pp_pool = 3, pp_fn = 5, pp_data = 6, fired = True\<rparr>" and ps = "[]"])
    (use demo_pools_inv demo_single [of 3] in \<open>simp_all add: demo_def\<close>)

end
