(* ===== verification/Wait_Queue.thy ===== *)
theory Wait_Queue
  imports Reactor
begin

text \<open>
  Wait queues (\<open>src/src/pthr_wait_queue.c\<close>): threads put themselves on the vector \<open>sleepers\<close> and
  switch to the reactor; waking takes a private copy of all or some of the sleepers and registers a
  prepoll handler that switches to each of them later. The vector is c2lib's, so its operations \<open>V\<close>
  are a parameter. The second half is what locks share: which live pool holds a release cleanup,
  and the pools of the threads.
\<close>

section \<open>The queue\<close>

record 'v wait_queue =
  sleepers :: 'v

definition new_wait_queue :: "('v, tid) vec_ops \<Rightarrow> 'v wait_queue" where
  "new_wait_queue V = \<lparr>sleepers = vec_new V\<rparr>"

definition wq_nr_sleepers :: "('v, tid) vec_ops \<Rightarrow> 'v wait_queue \<Rightarrow> nat" where
  "wq_nr_sleepers V wq = vec_size V (sleepers wq)"

text \<open>\<open>wq_sleep_on\<close> up to the switch to the calling context.\<close>

definition wq_sleep_on :: "('v, tid) vec_ops \<Rightarrow> 'v wait_queue \<Rightarrow> tid \<Rightarrow> 'v wait_queue" where
  "wq_sleep_on V wq t = wq\<lparr>sleepers := vec_push_back V (sleepers wq) t\<rparr>"

text \<open>
  \<open>wq_sleep_on\<close> from the point where the thread runs again: it returns, or on an alarm it takes
  itself off the queue and exits, or it aborts because it is not on the queue.
\<close>

datatype 'v wq_outcome = Woken "'v wait_queue" | Exits "'v wait_queue" | Aborts

definition wq_resume :: "('v, tid) vec_ops \<Rightarrow> 'v wait_queue \<Rightarrow> tid \<Rightarrow> bool \<Rightarrow> 'v wq_outcome" where
  "wq_resume V wq t alarm =
     (if alarm
      then (let i = first_index (\<lambda>p. p = t) (elems V (sleepers wq))
            in if i < vec_size V (sleepers wq)
               then Exits (wq\<lparr>sleepers := vec_erase V (sleepers wq) i\<rparr>) else Aborts)
      else Woken wq)"

text \<open>The loop that moves the first \<open>n\<close> sleepers to the private copy.\<close>

fun pop_sleepers :: "('v, tid) vec_ops \<Rightarrow> nat \<Rightarrow> 'v \<Rightarrow> 'v \<Rightarrow> 'v \<times> 'v" where
  "pop_sleepers V 0 ss v = (ss, v)"
| "pop_sleepers V (Suc n) ss v =
     (let (ss1, p) = vec_pop_front V ss in pop_sleepers V n ss1 (vec_push_back V v p))"

text \<open>
  \<open>wake_up\<close>: the queue afterwards and the private copy for the prepoll handler, if it registers one.
\<close>

definition wake_up :: "('v, tid) vec_ops \<Rightarrow> 'v wait_queue \<Rightarrow> int \<Rightarrow> 'v wait_queue \<times> 'v option" where
  "wake_up V wq n =
     (if vec_size V (sleepers wq) = 0 then (wq, None)
      else if n = -1 then (wq\<lparr>sleepers := vec_clear V (sleepers wq)\<rparr>, Some (vec_copy V (sleepers wq)))
      else (let (ss, v) = pop_sleepers V (nat n) (sleepers wq) (vec_new V)
            in (wq\<lparr>sleepers := ss\<rparr>, Some v)))"

definition wq_wake_up :: "('v, tid) vec_ops \<Rightarrow> 'v wait_queue \<Rightarrow> 'v wait_queue \<times> 'v option" where
  "wq_wake_up V wq = wake_up V wq (-1)"

text \<open>\<open>None\<close> is the \<open>abort\<close> on an empty queue.\<close>

definition wq_wake_up_one ::
  "('v, tid) vec_ops \<Rightarrow> 'v wait_queue \<Rightarrow> ('v wait_queue \<times> 'v option) option" where
  "wq_wake_up_one V wq =
     (if vec_size V (sleepers wq) < 1 then None else Some (wake_up V wq 1))"

text \<open>
  The registration at the end of \<open>wake_up\<close> and the handler that it registers. The information block
  lives in pool \<open>p\<close>; \<open>h\<close> is the handler's address; \<open>switch\<close> runs a thread until it gives control back.
\<close>

definition register_wake_up ::
  "'P pool_ops \<Rightarrow> bool \<Rightarrow> ('f, 'd, 'P, 'u) reactor \<Rightarrow> pool \<Rightarrow> 'f \<Rightarrow> (pool \<Rightarrow> 'd) \<Rightarrow> addr
     \<Rightarrow> pool \<times> ('f, 'd, 'P, 'u) reactor" where
  "register_wake_up PO j s global_pool f info h =
     (let (p, P) = new_subpool PO (r_pools s) global_pool;
          (_, s1) = reactor_register_prepoll PO j (s\<lparr>r_pools := P\<rparr>) p f (info p) h
      in (p, s1))"

fun switch_all ::
  "(tid \<Rightarrow> 's \<Rightarrow> 's option) \<Rightarrow> tid list \<Rightarrow> 's \<Rightarrow> 's option" where
  "switch_all switch [] s = Some s"
| "switch_all switch (t # ts) s = Option.bind (switch t s) (switch_all switch ts)"

definition do_wake_up ::
  "'P pool_ops \<Rightarrow> (cleanup \<Rightarrow> ('f, 'd, 'P, 'u) reactor \<Rightarrow> ('f, 'd, 'P, 'u) reactor option)
     \<Rightarrow> ('v, tid) vec_ops \<Rightarrow> (tid \<Rightarrow> ('f, 'd, 'P, 'u) reactor \<Rightarrow> ('f, 'd, 'P, 'u) reactor option)
     \<Rightarrow> 'v \<Rightarrow> addr \<Rightarrow> pool \<Rightarrow> ('f, 'd, 'P, 'u) reactor \<Rightarrow> ('f, 'd, 'P, 'u) reactor option" where
  "do_wake_up PO X V switch v h p s =
     do {
       s1 \<leftarrow> switch_all switch (elems V v) s;
       s2 \<leftarrow> reactor_unregister_prepoll PO X s1 h;
       do_delete_pool PO X s2 p
     }"

section \<open>What the queue operations do to the list of sleepers\<close>

abbreviation sleeping :: "('v, tid) vec_ops \<Rightarrow> 'v wait_queue \<Rightarrow> tid list" where
  "sleeping V wq \<equiv> elems V (sleepers wq)"

text \<open>The threads of a batch handed to a prepoll handler.\<close>

definition batch :: "('v, tid) vec_ops \<Rightarrow> 'v option \<Rightarrow> tid list" where
  "batch V b = (case b of None \<Rightarrow> [] | Some v \<Rightarrow> elems V v)"

text \<open>
  The contract the locks rely on: \<open>queue\<close> is a FIFO of sleeping threads, \<open>one\<close> moves the first
  sleeper to a batch, \<open>leave\<close> takes one thread out.
\<close>

locale sleep_queue =
  fixes ids :: "'q \<Rightarrow> tid list" and nr :: "'q \<Rightarrow> nat" and enqueue :: "'q \<Rightarrow> tid \<Rightarrow> 'q"
    and one :: "'q \<Rightarrow> ('q \<times> 'v option) option" and members :: "'v option \<Rightarrow> tid list"
  assumes nr_ids: "nr q = length (ids q)"
    and ids_enqueue: "ids (enqueue q t) = ids q @ [t]"
    and one_ok: "ids q \<noteq> [] \<Longrightarrow>
      \<exists>q' v. one q = Some (q', Some v) \<and> ids q = hd (ids q) # ids q' \<and> members (Some v) = [hd (ids q)]"
    and members_None: "members None = []"
begin

text \<open>\<open>if (wq_nr_sleepers (q) > 0) wq_wake_up_one (q)\<close>, the idiom of both locks.\<close>

definition wake_if_any :: "'q \<Rightarrow> ('q \<times> 'v option) option" where
  "wake_if_any q = (if nr q > 0 then one q else Some (q, None))"

lemma wake_if_any_spec:
  "\<exists>q' b. wake_if_any q = Some (q', b) \<and> ids q = members b @ ids q' \<and>
     (ids q \<noteq> [] \<longrightarrow> b \<noteq> None \<and> members b = [hd (ids q)]) \<and> (ids q = [] \<longrightarrow> b = None)"
proof (cases "ids q = []")
  case True
  then show ?thesis by (simp add: wake_if_any_def nr_ids members_None)
next
  case False
  obtain q' v where "one q = Some (q', Some v)" "ids q = hd (ids q) # ids q'" "members (Some v) = [hd (ids q)]"
    using one_ok [OF False] by blast
  with False show ?thesis by (auto simp: wake_if_any_def nr_ids)
qed

end

text \<open>Vectors of threads.\<close>

locale tid_vector = c2_vector V for V :: "('v, tid) vec_ops"
begin

lemma pop_sleepers_spec:
  "n \<le> vec_size V ss \<Longrightarrow> pop_sleepers V n ss v = (ss', v') \<Longrightarrow>
     elems V ss = take n (elems V ss) @ elems V ss' \<and> elems V v' = elems V v @ take n (elems V ss)"
proof (induction n arbitrary: ss v)
  case (Suc n)
  obtain ss1 p where pf: "vec_pop_front V ss = (ss1, p)" by fastforce
  have ne: "elems V ss \<noteq> []" using Suc.prems(1) by (metis length_elems list.size(3) not_less_eq_eq zero_le)
  have e: "elems V ss = p # elems V ss1" using pop_front [OF ne pf] .
  then have "n \<le> vec_size V ss1" using Suc.prems(1) by (metis length_Cons length_elems Suc_le_mono)
  moreover have "pop_sleepers V n ss1 (vec_push_back V v p) = (ss', v')" using Suc.prems(2) pf by simp
  ultimately have IH: "elems V ss1 = take n (elems V ss1) @ elems V ss'"
    "elems V v' = (elems V v @ [p]) @ take n (elems V ss1)"
    using Suc.IH [of ss1 "vec_push_back V v p"] unfolding elems_push_back by blast+
  show ?case unfolding e IH(2) using IH(1) [symmetric] by simp
qed simp

lemma wake_up_all:
  assumes "wake_up V wq (-1) = (wq', b)"
  shows "sleeping V wq' = [] \<and> batch V b = sleeping V wq"
proof (cases "vec_size V (sleepers wq) = 0")
  case True
  then show ?thesis using assms size_0_iff [THEN iffD1, OF True] by (simp add: wake_up_def batch_def)
next
  case False
  then show ?thesis using assms by (auto simp: wake_up_def batch_def elems_clear elems_copy)
qed

lemma wake_up_one:
  assumes "sleeping V wq \<noteq> []"
  shows "\<exists>wq' v. wake_up V wq 1 = (wq', Some v) \<and>
    sleeping V wq = hd (sleeping V wq) # sleeping V wq' \<and> elems V v = [hd (sleeping V wq)]"
proof -
  obtain ss v where p: "pop_sleepers V 1 (sleepers wq) (vec_new V) = (ss, v)" by fastforce
  have n: "vec_size V (sleepers wq) \<noteq> 0" using assms size_0_iff by metis
  then have "elems V (sleepers wq) = take 1 (elems V (sleepers wq)) @ elems V ss"
    "elems V v = take 1 (elems V (sleepers wq))"
    using pop_sleepers_spec [OF _ p] by (auto simp: elems_new)
  moreover have "take 1 (elems V (sleepers wq)) = [hd (sleeping V wq)]"
    using assms by (cases "elems V (sleepers wq)") auto
  ultimately show ?thesis
    using p n by (auto simp: wake_up_def)
qed

lemma wq_resume_alarm:
  "t \<in> set (sleeping V wq) \<Longrightarrow> \<exists>wq'. wq_resume V wq t True = Exits wq' \<and>
     sleeping V wq' = remove1 t (sleeping V wq)"
  "t \<notin> set (sleeping V wq) \<Longrightarrow> wq_resume V wq t True = Aborts"
proof -
  let ?i = "first_index (\<lambda>p. p = t) (sleeping V wq)"
  have lt: "?i < vec_size V (sleepers wq) \<longleftrightarrow> t \<in> set (sleeping V wq)"
    using first_index_less_iff [of "\<lambda>p. p = t" "sleeping V wq"] by auto
  show "t \<in> set (sleeping V wq) \<Longrightarrow> \<exists>wq'. wq_resume V wq t True = Exits wq' \<and>
     sleeping V wq' = remove1 t (sleeping V wq)"
    using lt by (simp add: wq_resume_def elems_erase remove_at_first_index)
  show "t \<notin> set (sleeping V wq) \<Longrightarrow> wq_resume V wq t True = Aborts"
    using lt by (simp add: wq_resume_def)
qed

end

sublocale tid_vector < wq: sleep_queue "sleeping V" "wq_nr_sleepers V" "wq_sleep_on V" "wq_wake_up_one V" "batch V"
proof (unfold_locales, goal_cases)
  case (3 q)
  then have "vec_size V (sleepers q) \<noteq> 0" using size_0_iff by metis
  then show ?case using wake_up_one [OF 3] by (auto simp: wq_wake_up_one_def batch_def)
qed (simp_all add: wq_nr_sleepers_def wq_sleep_on_def elems_push_back batch_def)

interpretation tid_list: tid_vector list_vec
  by unfold_locales

section \<open>Properties\<close>

text \<open>
  wait queues are first in, first out. Waking one thread hands exactly the longest sleeper to
  the wake-up handler and leaves the others in order; waking all hands over everyone in order.
\<close>

theorem wait_queue_fifo:
  assumes "tid_vector V"
  shows "(sleeping V wq \<noteq> [] \<longrightarrow>
      (\<exists>wq' v. wq_wake_up_one V (wq_sleep_on V wq t) = Some (wq', Some v) \<and>
        elems V v = [hd (sleeping V wq)] \<and> sleeping V wq' = tl (sleeping V wq) @ [t])) \<and>
    (\<exists>wq' b. wq_wake_up V (wq_sleep_on V wq t) = (wq', b) \<and>
        sleeping V wq' = [] \<and> batch V b = sleeping V wq @ [t])"
proof -
  let ?q = "wq_sleep_on V wq t"
  have c: "c2_vector V" using assms by (simp add: tid_vector_def)
  have sl: "sleeping V ?q = sleeping V wq @ [t]"
    using c2_vector.elems_push_back [OF c] by (simp add: wq_sleep_on_def)
  then have ne: "sleeping V ?q \<noteq> []" by simp
  obtain wq1 v where one: "wake_up V ?q 1 = (wq1, Some v)"
    "sleeping V ?q = hd (sleeping V ?q) # sleeping V wq1" "elems V v = [hd (sleeping V ?q)]"
    using tid_vector.wake_up_one [OF assms ne] by blast
  have "vec_size V (sleepers ?q) \<noteq> 0" using c2_vector.size_0_iff [OF c] ne by metis
  then have "wq_wake_up_one V ?q = Some (wq1, Some v)" using one(1) by (simp add: wq_wake_up_one_def)
  moreover have "sleeping V wq1 = tl (sleeping V wq) @ [t] \<and> hd (sleeping V ?q) = hd (sleeping V wq)"
    if "sleeping V wq \<noteq> []"
    using one(2) that unfolding sl by (cases "sleeping V wq") auto
  moreover obtain wq2 b where all: "wake_up V ?q (-1) = (wq2, b)" by fastforce
  ultimately show ?thesis
    using one(3) tid_vector.wake_up_all [OF assms all] sl by (auto simp: wq_wake_up_def)
qed

theorem wait_queue_fifo_witness:
  "\<exists>wq' v wq'' b. wq_wake_up_one list_vec (wq_sleep_on list_vec \<lparr>sleepers = [4, 5]\<rparr> 6) = Some (wq', Some v) \<and>
     elems list_vec v = [4] \<and> sleeping list_vec wq' = [5, 6] \<and>
     wq_wake_up list_vec (wq_sleep_on list_vec \<lparr>sleepers = [4, 5]\<rparr> 6) = (wq'', b) \<and>
     sleeping list_vec wq'' = [] \<and> batch list_vec b = [4, 5, 6]"
proof -
  have "sleeping list_vec \<lparr>sleepers = [4, 5]\<rparr> = [4, 5]" by simp
  with wait_queue_fifo [OF tid_list.tid_vector_axioms, of "\<lparr>sleepers = [4, 5]\<rparr>" 6] show ?thesis by auto
qed

end
