(* ===== verification/Lock_Pools.thy ===== *)
theory Lock_Pools
  imports C2lib
begin

text \<open>
  How locks use memory pools, shared by \<open>Mutex\<close> and \<open>Rwlock\<close>: a thread that takes a lock creates a
  subpool of its own pool and registers the release function there as a cleanup. Leaving deletes
  that subpool; the end of the thread deletes the thread's pool and the subpool with it.
\<close>

text \<open>The pools of the threads: live, and not nested in each other.\<close>

definition threads_ok ::
  "('P \<Rightarrow> pool set) \<Rightarrow> ('P \<Rightarrow> pool \<Rightarrow> pool set) \<Rightarrow> 'P \<Rightarrow> (tid \<rightharpoonup> pool) \<Rightarrow> bool" where
  "threads_ok live sub P tp \<longleftrightarrow>
     (\<forall>t p. tp t = Some p \<longrightarrow> p \<in> live P) \<and>
     (\<forall>t t' p p'. tp t = Some p \<longrightarrow> tp t' = Some p' \<longrightarrow> t \<noteq> t' \<longrightarrow> sub P p \<inter> sub P p' = {})"

text \<open>
  Cleanup \<open>c\<close> is registered nowhere (\<open>h = None\<close>), or once, in the pool \<open>p\<close> that the lock
  remembers and that lies below the thread's pool \<open>tpool\<close>.
\<close>

definition held_in ::
  "('P \<Rightarrow> pool set) \<Rightarrow> ('P \<Rightarrow> pool \<Rightarrow> pool set) \<Rightarrow> ('P \<Rightarrow> pool \<Rightarrow> cleanup multiset)
     \<Rightarrow> 'P \<Rightarrow> cleanup \<Rightarrow> pool option \<Rightarrow> bool" where
  "held_in live sub own P c h \<longleftrightarrow>
     (\<forall>q \<in> live P. count (own P q) c = (if h = Some q then 1 else 0)) \<and>
     (\<forall>p. h = Some p \<longrightarrow> single live sub own P p c)"

lemma held_inD:
  "held_in live sub own P c h \<Longrightarrow> q \<in> live P \<Longrightarrow> count (own P q) c = (if h = Some q then 1 else 0)"
  "held_in live sub own P c (Some p) \<Longrightarrow> single live sub own P p c"
  by (auto simp: held_in_def)

context c2_pool
begin

lemma sub_refl: "pinv P \<Longrightarrow> p \<in> live P \<Longrightarrow> p \<in> sub P p"
  using sub_live by blast

text \<open>What taking a lock does to the pools: thread \<open>t\<close> gets the subpool \<open>q\<close> with cleanup \<open>c\<close>.\<close>

lemma take_lock:
  assumes inv: "pinv P" and th: "threads_ok live sub P tp" and t: "tp t = Some pp"
    and new: "new_subpool PO P pp = (q, P1)" and P': "P' = register_cleanup_fn PO P1 q c"
  shows "pinv P'" "threads_ok live sub P' tp"
    "\<And>r t'. r \<in> live P \<Longrightarrow> tp t' = Some r \<Longrightarrow> sub P r \<subseteq> sub P' r"
    "q \<in> sub P' pp"
    "held_in live sub own P c None \<Longrightarrow> held_in live sub own P' c (Some q)"
    "\<And>d h. c \<noteq> d \<Longrightarrow> held_in live sub own P d h \<Longrightarrow> \<forall>p. h = Some p \<longrightarrow> p \<noteq> pp \<Longrightarrow> held_in live sub own P' d h"
proof -
  have pp: "pp \<in> live P" using th t by (auto simp: threads_ok_def)
  note n = new_subpool [OF inv pp new]
  have q1: "q \<in> live P1" and inv1: "pinv P1" using n by auto
  note r = register_cleanup [OF inv1 q1, of c]
  have q: "q \<notin> live P" "live P1 = insert q (live P)" "sub P1 q = {q}" "own P1 q = {#}"
    and old: "\<And>x. x \<in> live P \<Longrightarrow> own P1 x = own P x \<and>
      sub P1 x = (if pp \<in> sub P x then insert q (sub P x) else sub P x)" using n by auto
  have live': "live P' = insert q (live P)" using q r P' by simp
  have r': "\<And>x. x \<in> live P1 \<Longrightarrow> sub P' x = sub P1 x \<and>
      own P' x = (if x = q then add_mset c (own P1 x) else own P1 x)" using r P' by simp
  have own': "own P' x = (if x = q then {#c#} else own P x)" if "x \<in> live P'" for x
    using r' [of x] old [of x] q that live' by (cases "x = q") auto
  have sub': "sub P' x = (if x = q then {q} else if pp \<in> sub P x then insert q (sub P x) else sub P x)"
    if "x \<in> live P'" for x
    using r' [of x] old [of x] q that live' by (cases "x = q") auto
  show "pinv P'" using r P' by simp
  have qn: "q \<notin> live P" using n by simp
  show "q \<in> sub P' pp" using sub' [of pp] pp live' qn sub_refl [OF inv pp] by auto
  show "sub P r \<subseteq> sub P' r" if "r \<in> live P" for r t'
    using sub' [of r] that live' qn by auto
  have notin: "pp \<notin> sub P p'" if "tp t' = Some p'" "t' \<noteq> t" for t' p'
    using th t that sub_refl [OF inv pp] unfolding threads_ok_def by blast
  show "threads_ok live sub P' tp"
    unfolding threads_ok_def
  proof (intro conjI allI impI)
    fix t1 p1 assume 1: "tp t1 = Some p1"
    then have p1: "p1 \<in> live P" using th by (auto simp: threads_ok_def)
    then show "p1 \<in> live P'" using live' by simp
    fix t2 p2 assume 2: "tp t2 = Some p2" "t1 \<noteq> t2"
    then have p2: "p2 \<in> live P" using th by (auto simp: threads_ok_def)
    have "sub P p1 \<inter> sub P p2 = {}" using th 1 2 by (auto simp: threads_ok_def)
    moreover have "sub P p1 \<subseteq> live P" "sub P p2 \<subseteq> live P" using sub_live [OF inv] p1 p2 by auto
    moreover have "p1 \<noteq> q" "p2 \<noteq> q" using qn p1 p2 by auto
    moreover have "pp \<notin> sub P p1 \<or> pp \<notin> sub P p2" using notin 1 2 by blast
    ultimately show "sub P' p1 \<inter> sub P' p2 = {}"
      using sub' [of p1] sub' [of p2] live' p1 p2 qn by auto
  qed
  show "held_in live sub own P' c (Some q)" if h: "held_in live sub own P c None"
    using h own' sub' live' qn by (auto simp: held_in_def single_def)
  fix d h assume d: "c \<noteq> d" "held_in live sub own P d h" "\<forall>p. h = Some p \<longrightarrow> p \<noteq> pp"
  then show "held_in live sub own P' d h"
    using own' sub' live' qn unfolding held_in_def single_def by auto
qed

text \<open>What deleting a pool does: the cleanup runs once if its pool goes, otherwise never.\<close>

lemma delete_holder:
  assumes inv: "pinv P" and p: "p \<in> live P" and del: "delete_pool PO P p = (cs, P')"
    and h: "held_in live sub own P c h"
  shows "count (mset cs) c = (if \<exists>q. h = Some q \<and> q \<in> sub P p then 1 else 0)"
    "held_in live sub own P' c (if \<exists>q. h = Some q \<and> q \<in> sub P p then None else h)"
proof -
  note d = delete_pool [OF inv p del]
  note s = sub_live [OF inv p]
  have "count (mset cs) c = (\<Sum>q \<in> sub P p. count (own P q) c)" using d by (simp add: count_sum)
  also have "\<dots> = (\<Sum>q \<in> sub P p. if h = Some q then 1 else 0)"
    using held_inD(1) [OF h] s by (intro sum.cong) auto
  also have "\<dots> = (if \<exists>q. h = Some q \<and> q \<in> sub P p then 1 else 0)"
    using s by (cases h) (auto simp: sum.delta)
  finally show "count (mset cs) c = (if \<exists>q. h = Some q \<and> q \<in> sub P p then 1 else 0)" .
  show "held_in live sub own P' c (if \<exists>q. h = Some q \<and> q \<in> sub P p then None else h)"
    using h d unfolding held_in_def single_def by auto
qed

lemma sub_disjoint:
  "threads_ok live sub P tp \<Longrightarrow> tp t = Some p \<Longrightarrow> tp t' = Some p' \<Longrightarrow> t \<noteq> t' \<Longrightarrow> sub P p \<inter> sub P p' = {}"
  unfolding threads_ok_def by blast

lemma delete_threads_ok:
  assumes inv: "pinv P" and p: "p \<in> live P" and del: "delete_pool PO P p = (cs, P')"
    and th: "threads_ok live sub P tp" and out: "\<forall>t q. tp' t = Some q \<longrightarrow> tp t = Some q \<and> q \<notin> sub P p"
  shows "threads_ok live sub P' tp'" "\<forall>t q. tp' t = Some q \<longrightarrow> sub P' q = sub P q - sub P p"
proof -
  note d = delete_pool [OF inv p del]
  have lv: "q \<in> live P'" "sub P' q = sub P q - sub P p" if "tp' t = Some q" for t q
  proof -
    have "tp t = Some q" "q \<notin> sub P p" using out that by auto
    then show "q \<in> live P'" using th d by (auto simp: threads_ok_def)
    then show "sub P' q = sub P q - sub P p" using d by blast
  qed
  then show "\<forall>t q. tp' t = Some q \<longrightarrow> sub P' q = sub P q - sub P p" by blast
  have "sub P' q1 \<inter> sub P' q2 = {}" if "tp' t1 = Some q1" "tp' t2 = Some q2" "t1 \<noteq> t2" for t1 t2 q1 q2
    using lv(2) [OF that(1)] lv(2) [OF that(2)] sub_disjoint [OF th _ _ that(3)] out that(1,2) by blast
  with lv(1) show "threads_ok live sub P' tp'" unfolding threads_ok_def by blast
qed

lemma others_outside:
  assumes "pinv P" "threads_ok live sub P tp" "tp t = Some pp"
  shows "\<forall>u q. (tp(t := None)) u = Some q \<longrightarrow> tp u = Some q \<and> q \<notin> sub P pp"
proof (intro allI impI)
  fix u q assume "(tp(t := None)) u = Some q"
  then have u: "tp u = Some q" "u \<noteq> t" by (auto split: if_splits)
  then have "q \<in> live P" using assms(2) by (auto simp: threads_ok_def)
  then show "tp u = Some q \<and> q \<notin> sub P pp"
    using sub_disjoint [OF assms(2) u(1) assms(3) u(2)] sub_refl [OF assms(1)] u(1) by blast
qed

text \<open>A new thread with a pool below one that belongs to no thread.\<close>

lemma spawn_thread:
  assumes inv: "pinv P" and th: "threads_ok live sub P tp" and pp: "pp \<in> live P"
    and out: "\<forall>t p. tp t = Some p \<longrightarrow> pp \<notin> sub P p" and new: "new_subpool PO P pp = (q, P')"
  shows "pinv P'" "threads_ok live sub P' (tp(t \<mapsto> q))"
    "\<And>t' p. tp t' = Some p \<Longrightarrow> sub P' p = sub P p" "sub P' q = {q}"
    "\<And>d h. held_in live sub own P d h \<Longrightarrow> \<forall>p. h = Some p \<longrightarrow> p \<noteq> pp \<Longrightarrow> held_in live sub own P' d h"
proof -
  note n = new_subpool [OF inv pp new]
  show "pinv P'" "sub P' q = {q}" using n by auto
  show same: "\<And>t' p. tp t' = Some p \<Longrightarrow> sub P' p = sub P p"
    using n out th by (auto simp: threads_ok_def)
  have lv: "\<And>t' p. tp t' = Some p \<Longrightarrow> p \<in> live P \<and> sub P p \<subseteq> live P"
    using th sub_live [OF inv] by (auto simp: threads_ok_def)
  show "threads_ok live sub P' (tp(t \<mapsto> q))"
    unfolding threads_ok_def
  proof (intro conjI allI impI)
    fix t1 p1 assume 1: "(tp(t \<mapsto> q)) t1 = Some p1"
    then show "p1 \<in> live P'" using n lv by (auto split: if_splits)
    fix t2 p2 assume 2: "(tp(t \<mapsto> q)) t2 = Some p2" "t1 \<noteq> t2"
    show "sub P' p1 \<inter> sub P' p2 = {}"
    proof (cases "t1 = t \<or> t2 = t")
      case True
      have "q \<notin> sub P' p" if "tp t' = Some p" for t' p using n lv [OF that] same [OF that] by blast
      then show ?thesis using True 1 2 \<open>sub P' q = {q}\<close> by (auto split: if_splits)
    next
      case False
      then show ?thesis using 1 2 same sub_disjoint [OF th] by simp
    qed
  qed
  fix d h assume "held_in live sub own P d h" "\<forall>p. h = Some p \<longrightarrow> p \<noteq> pp"
  then show "held_in live sub own P' d h"
    using n unfolding held_in_def single_def by (auto split: if_splits)
qed

end

end
