(* ===== verification/Mutex.thy ===== *)
theory Mutex
  imports Wait_Queue Lock_Pools
begin

text \<open>
  Mutexes (\<open>src/src/pthr_mutex.c\<close>). The functions are those of the source over the lock, the pools
  and the wait queue; the system they run in is a step relation over all threads that use one
  mutex: entering, leaving, being resumed by a wake-up handler, being hit by an alarm while
  waiting, ending inside or outside the critical section, and being created.
\<close>

section \<open>The lock\<close>

record 'v mutex =
  m_pth :: "tid option"
  m_wq :: "'v wait_queue"
  m_pool :: "pool option"

text \<open>\<open>a\<close> is the address of the mutex, \<open>p\<close> the pool it is allocated in.\<close>

definition new_mutex :: "('v, tid) vec_ops \<Rightarrow> 'P pool_ops \<Rightarrow> 'P \<Rightarrow> pool \<Rightarrow> addr \<Rightarrow> 'v mutex \<times> 'P" where
  "new_mutex V PO P p a =
     (\<lparr>m_pth = None, m_wq = new_wait_queue V, m_pool = None\<rparr>, register_cleanup_fn PO P p (Delete_mutex a))"

text \<open>The cleanup of the mutex itself is an assertion; \<open>None\<close> is its failure.\<close>

definition delete_mutex :: "'v mutex \<Rightarrow> unit option" where
  "delete_mutex m = (if m_pth m = None then Some () else None)"

definition mutex_try_enter ::
  "'P pool_ops \<Rightarrow> addr \<Rightarrow> tid \<Rightarrow> pool \<Rightarrow> 'v mutex \<Rightarrow> 'P \<Rightarrow> bool \<times> 'v mutex \<times> 'P" where
  "mutex_try_enter PO a current_pth pth_pool m P =
     (if m_pth m = None
      then (let (q, P1) = new_subpool PO P pth_pool;
                P2 = register_cleanup_fn PO P1 q (Mutex_do_release a)
            in (True, m\<lparr>m_pth := Some current_pth, m_pool := Some q\<rparr>, P2))
      else (False, m, P))"

text \<open>The lock after the release, and the batch that is to be woken.\<close>

definition mutex_do_release ::
  "('v, tid) vec_ops \<Rightarrow> 'v mutex \<Rightarrow> ('v mutex \<times> 'v option) option" where
  "mutex_do_release V m =
     (let m1 = m\<lparr>m_pth := None, m_pool := None\<rparr>
      in if wq_nr_sleepers V (m_wq m1) > 0
         then do { (wq, b) \<leftarrow> wq_wake_up_one V (m_wq m1); Some (m1\<lparr>m_wq := wq\<rparr>, b) }
         else Some (m1, None))"

definition mutex_nr_sleepers :: "('v, tid) vec_ops \<Rightarrow> 'v mutex \<Rightarrow> nat" where
  "mutex_nr_sleepers V m = wq_nr_sleepers V (m_wq m)"

section \<open>The threads around it\<close>

datatype phase = Outside | Waiting | Critical

text \<open>
  \<open>wakes\<close> lists, for every registered wake-up handler, the threads it has still to switch to.
\<close>

record ('v, 'P) msys =
  mtx :: "'v mutex"
  wakes :: "tid list list"
  mpools :: 'P
  tpools :: "tid \<rightharpoonup> pool"
  phase :: "tid \<Rightarrow> phase"

definition release :: "('v, tid) vec_ops \<Rightarrow> ('v, 'P) msys \<Rightarrow> ('v, 'P) msys option" where
  "release V s =
     do {
       (m, b) \<leftarrow> mutex_do_release V (mtx s);
       Some (s\<lparr>mtx := m, wakes := (case b of None \<Rightarrow> wakes s | Some v \<Rightarrow> elems V v # wakes s)\<rparr>)
     }"

text \<open>The cleanups that a deleted pool runs; those of other objects do not touch this mutex.\<close>

fun release_cleanups ::
  "('v, tid) vec_ops \<Rightarrow> addr \<Rightarrow> cleanup list \<Rightarrow> ('v, 'P) msys \<Rightarrow> ('v, 'P) msys option" where
  "release_cleanups V a [] s = Some s"
| "release_cleanups V a (c # cs) s =
     do {
       s1 \<leftarrow> (if c = Mutex_do_release a then release V s else Some s);
       release_cleanups V a cs s1
     }"

text \<open>
  \<open>mutex_enter\<close> from the test of the loop to the point where the thread owns the lock or sleeps; a
  thread that is woken comes back to the test.
\<close>

definition mutex_enter ::
  "'P pool_ops \<Rightarrow> ('v, tid) vec_ops \<Rightarrow> addr \<Rightarrow> ('v, 'P) msys \<Rightarrow> tid \<Rightarrow> ('v, 'P) msys option" where
  "mutex_enter PO V a s t =
     do {
       pp \<leftarrow> tpools s t;
       let (ok, m, P) = mutex_try_enter PO a t pp (mtx s) (mpools s);
       Some (if ok then s\<lparr>mtx := m, mpools := P, phase := (phase s)(t := Critical)\<rparr>
             else s\<lparr>mtx := m\<lparr>m_wq := wq_sleep_on V (m_wq m) t\<rparr>, mpools := P,
                    phase := (phase s)(t := Waiting)\<rparr>)
     }"

definition mutex_leave ::
  "'P pool_ops \<Rightarrow> ('v, tid) vec_ops \<Rightarrow> addr \<Rightarrow> ('v, 'P) msys \<Rightarrow> tid \<Rightarrow> ('v, 'P) msys option" where
  "mutex_leave PO V a s t =
     (if m_pth (mtx s) = Some t
      then do {
        p \<leftarrow> m_pool (mtx s);
        let (cs, P) = delete_pool PO (mpools s) p;
        release_cleanups V a cs (s\<lparr>mpools := P, phase := (phase s)(t := Outside)\<rparr>)
      }
      else None)"

text \<open>The end of a thread (\<open>thread_trampoline\<close>) as far as it concerns the mutex.\<close>

definition thread_exit ::
  "'P pool_ops \<Rightarrow> ('v, tid) vec_ops \<Rightarrow> addr \<Rightarrow> ('v, 'P) msys \<Rightarrow> tid \<Rightarrow> ('v, 'P) msys option" where
  "thread_exit PO V a s t =
     do {
       pp \<leftarrow> tpools s t;
       let (cs, P) = delete_pool PO (mpools s) pp;
       release_cleanups V a cs
         (s\<lparr>mpools := P, tpools := (tpools s)(t := None), phase := (phase s)(t := Outside)\<rparr>)
     }"

text \<open>\<open>g\<close> is the pool in which threads are created; it belongs to no thread.\<close>

inductive mutex_step ::
  "'P pool_ops \<Rightarrow> ('v, tid) vec_ops \<Rightarrow> addr \<Rightarrow> pool \<Rightarrow> ('v, 'P) msys \<Rightarrow> ('v, 'P) msys \<Rightarrow> bool"
  for PO V a g where
  Spawn: "tpools s t = None \<Longrightarrow> phase s t = Outside \<Longrightarrow> new_subpool PO (mpools s) g = (q, P) \<Longrightarrow>
    mutex_step PO V a g s (s\<lparr>mpools := P, tpools := (tpools s)(t \<mapsto> q)\<rparr>)"
| Enter: "phase s t = Outside \<Longrightarrow> mutex_enter PO V a s t = Some s' \<Longrightarrow> mutex_step PO V a g s s'"
| Try_enter: "phase s t = Outside \<Longrightarrow> tpools s t = Some pp \<Longrightarrow>
    mutex_try_enter PO a t pp (mtx s) (mpools s) = (ok, m, P) \<Longrightarrow>
    mutex_step PO V a g s (s\<lparr>mtx := m, mpools := P, phase := (phase s)(t := if ok then Critical else Outside)\<rparr>)"
| Leave: "mutex_leave PO V a s t = Some s' \<Longrightarrow> mutex_step PO V a g s s'"
| Resume: "wakes s = ws1 @ (t # ts) # ws2 \<Longrightarrow> wq_resume V (m_wq (mtx s)) t False = Woken wq \<Longrightarrow>
    mutex_enter PO V a (s\<lparr>wakes := ws1 @ ts # ws2, mtx := (mtx s)\<lparr>m_wq := wq\<rparr>\<rparr>) t = Some s' \<Longrightarrow>
    mutex_step PO V a g s s'"
| Handler_done: "wakes s = ws1 @ [] # ws2 \<Longrightarrow> mutex_step PO V a g s (s\<lparr>wakes := ws1 @ ws2\<rparr>)"
| Alarm: "phase s t = Waiting \<Longrightarrow> wq_resume V (m_wq (mtx s)) t True = Exits wq \<Longrightarrow>
    thread_exit PO V a (s\<lparr>mtx := (mtx s)\<lparr>m_wq := wq\<rparr>\<rparr>) t = Some s' \<Longrightarrow> mutex_step PO V a g s s'"
| Exit: "phase s t \<noteq> Waiting \<Longrightarrow> thread_exit PO V a s t = Some s' \<Longrightarrow> mutex_step PO V a g s s'"

text \<open>A fresh mutex and no threads yet.\<close>

definition mutex_init :: "('v, tid) vec_ops \<Rightarrow> 'P \<Rightarrow> ('v, 'P) msys" where
  "mutex_init V P = \<lparr>mtx = \<lparr>m_pth = None, m_wq = new_wait_queue V, m_pool = None\<rparr>, wakes = [],
     mpools = P, tpools = Map.empty, phase = (\<lambda>_. Outside)\<rparr>"

definition mutex_reachable ::
  "'P pool_ops \<Rightarrow> ('v, tid) vec_ops \<Rightarrow> addr \<Rightarrow> pool \<Rightarrow> 'P \<Rightarrow> ('v, 'P) msys \<Rightarrow> bool" where
  "mutex_reachable PO V a g P s \<longleftrightarrow> (mutex_step PO V a g)\<^sup>*\<^sup>* (mutex_init V P) s"

section \<open>Invariant\<close>

text \<open>The pools: the release cleanup sits in the lock's subpool below the owner's pool, only there.\<close>

definition mutex_pools_inv ::
  "('P \<Rightarrow> bool) \<Rightarrow> ('P \<Rightarrow> pool set) \<Rightarrow> ('P \<Rightarrow> pool \<Rightarrow> pool set) \<Rightarrow> ('P \<Rightarrow> pool \<Rightarrow> cleanup multiset)
     \<Rightarrow> addr \<Rightarrow> pool \<Rightarrow> ('v, 'P) msys \<Rightarrow> bool" where
  "mutex_pools_inv pinv live sub own a g s \<longleftrightarrow>
     pinv (mpools s) \<and> threads_ok live sub (mpools s) (tpools s) \<and> g \<in> live (mpools s) \<and>
     (\<forall>t p. tpools s t = Some p \<longrightarrow> g \<notin> sub (mpools s) p) \<and>
     held_in live sub own (mpools s) (Mutex_do_release a) (m_pool (mtx s)) \<and>
     (case m_pth (mtx s) of
        None \<Rightarrow> m_pool (mtx s) = None
      | Some t \<Rightarrow> (\<exists>p pp. m_pool (mtx s) = Some p \<and> tpools s t = Some pp \<and> p \<in> sub (mpools s) pp \<and>
                     (\<forall>t' p'. tpools s t' = Some p' \<longrightarrow> p \<noteq> p')))"

text \<open>The threads: who is inside, who waits, and that a free lock with sleepers has a wake-up pending.\<close>

definition mutex_base_inv :: "('v, tid) vec_ops \<Rightarrow> ('v, 'P) msys \<Rightarrow> bool" where
  "mutex_base_inv V s \<longleftrightarrow>
     (\<forall>t. phase s t = Critical \<longleftrightarrow> m_pth (mtx s) = Some t) \<and>
     distinct (sleeping V (m_wq (mtx s)) @ concat (wakes s)) \<and>
     set (sleeping V (m_wq (mtx s)) @ concat (wakes s)) = {t. phase s t = Waiting} \<and>
     (\<forall>t. phase s t = Waiting \<longrightarrow> tpools s t \<noteq> None)"

definition mutex_queue_inv :: "('v, tid) vec_ops \<Rightarrow> ('v, 'P) msys \<Rightarrow> bool" where
  "mutex_queue_inv V s \<longleftrightarrow> mutex_base_inv V s \<and>
     (m_pth (mtx s) = None \<longrightarrow> sleeping V (m_wq (mtx s)) \<noteq> [] \<longrightarrow> concat (wakes s) \<noteq> [])"

locale mutex_env = tid_vector V + c2_pool PO pinv live sub own
  for V :: "('v, tid) vec_ops" and PO :: "'P pool_ops" and pinv live sub own
begin

lemma release_spec:
  "\<exists>m ws. release V s = Some (s\<lparr>mtx := m, wakes := ws\<rparr>) \<and> m_pth m = None \<and> m_pool m = None \<and>
     (sleeping V (m_wq (mtx s)) = [] \<longrightarrow> sleeping V (m_wq m) = [] \<and> ws = wakes s) \<and>
     (\<forall>t ts. sleeping V (m_wq (mtx s)) = t # ts \<longrightarrow> sleeping V (m_wq m) = ts \<and> ws = [t] # wakes s)"
proof -
  let ?q = "m_wq (mtx s)"
  obtain q' b where w: "wq.wake_if_any ?q = Some (q', b)" "sleeping V ?q = batch V b @ sleeping V q'"
    "sleeping V ?q \<noteq> [] \<longrightarrow> b \<noteq> None \<and> batch V b = [hd (sleeping V ?q)]" "sleeping V ?q = [] \<longrightarrow> b = None"
    using wq.wake_if_any_spec [of ?q] by blast
  let ?m = "(mtx s)\<lparr>m_pth := None, m_pool := None, m_wq := q'\<rparr>"
  have "mutex_do_release V (mtx s) = Some (?m, b)"
    using w(1) by (auto simp: mutex_do_release_def wq.wake_if_any_def split: if_splits)
  then have rel: "release V s = Some (s\<lparr>mtx := ?m, wakes := (case b of None \<Rightarrow> wakes s | Some v \<Rightarrow> elems V v # wakes s)\<rparr>)"
    by (simp add: release_def)
  show ?thesis
  proof (cases "sleeping V ?q")
    case Nil
    with w(2,4) have "sleeping V q' = []" "b = None" by simp_all
    with rel Nil show ?thesis by (intro exI [of _ ?m] exI [of _ "wakes s"]) simp
  next
    case (Cons t ts)
    then have b: "b \<noteq> None" "batch V b = [t]" using w(3) by simp_all
    moreover have "sleeping V q' = ts" using w(2) unfolding Cons b(2) by simp
    ultimately obtain v where "b = Some v" "elems V v = [t]" "sleeping V q' = ts"
      by (cases b) (auto simp: batch_def)
    with rel Cons show ?thesis by (intro exI [of _ ?m] exI [of _ "[t] # wakes s"]) simp
  qed
qed

lemma release_cleanups_none:
  "count (mset cs) (Mutex_do_release a) = 0 \<Longrightarrow> release_cleanups V a cs s = Some s"
  by (induction cs arbitrary: s) auto

lemma release_cleanups_once:
  "count (mset cs) (Mutex_do_release a) = 1 \<Longrightarrow> release_cleanups V a cs s = release V s"
proof (induction cs arbitrary: s)
  case (Cons c cs)
  then show ?case
    using release_spec [of s] by (cases "c = Mutex_do_release a") (auto simp: release_cleanups_none)
qed simp

abbreviation (input) pools_inv where "pools_inv \<equiv> mutex_pools_inv pinv live sub own"

text \<open>Taking the free lock.\<close>

lemma take_free:
  assumes p: "pools_inv a g s" and q: "mutex_base_inv V s" and free: "m_pth (mtx s) = None"
    and t: "tpools s t = Some pp" "phase s t = Outside"
    and tre: "mutex_try_enter PO a t pp (mtx s) (mpools s) = (ok, m, P)"
  shows "ok" "pools_inv a g (s\<lparr>mtx := m, mpools := P, phase := (phase s)(t := Critical)\<rparr>)"
    "mutex_queue_inv V (s\<lparr>mtx := m, mpools := P, phase := (phase s)(t := Critical)\<rparr>)"
proof -
  obtain n P1 where new: "new_subpool PO (mpools s) pp = (n, P1)" by fastforce
  have m: "ok" "m = (mtx s)\<lparr>m_pth := Some t, m_pool := Some n\<rparr>"
    "P = register_cleanup_fn PO P1 n (Mutex_do_release a)"
    using tre free new by (auto simp: mutex_try_enter_def)
  have inv: "pinv (mpools s)" "threads_ok live sub (mpools s) (tpools s)" "g \<in> live (mpools s)"
    "\<And>t p. tpools s t = Some p \<Longrightarrow> g \<notin> sub (mpools s) p"
    "held_in live sub own (mpools s) (Mutex_do_release a) None"
    using p free by (auto simp: mutex_pools_inv_def)
  have pp: "pp \<in> live (mpools s)" using inv(2) t(1) by (auto simp: threads_ok_def)
  note ns = new_subpool [OF inv(1) pp new]
  note tl = take_lock [OF inv(1,2) t(1) new m(3)]
  have gl: "g \<in> live P" "g \<noteq> n" using ns register_cleanup [of P1 n "Mutex_do_release a"] inv(3) m(3) by auto
  have gs: "g \<notin> sub P p'" if "tpools s t' = Some p'" for t' p'
  proof -
    have "p' \<in> live (mpools s)" using inv(2) that by (auto simp: threads_ok_def)
    then have "sub P p' \<subseteq> insert n (sub (mpools s) p')"
      using ns register_cleanup [of P1 n "Mutex_do_release a"] m(3) by auto
    then show ?thesis using inv(4) [OF that] gl(2) by auto
  qed
  have fresh: "n \<noteq> p'" if "tpools s t' = Some p'" for t' p'
    using ns inv(2) that by (auto simp: threads_ok_def)
  show "ok" by (rule m(1))
  show "pools_inv a g (s\<lparr>mtx := m, mpools := P, phase := (phase s)(t := Critical)\<rparr>)"
    using tl(1,2,4) tl(5) [OF inv(5)] gl(1) gs t(1) fresh m(2)
    by (simp add: mutex_pools_inv_def)
  show "mutex_queue_inv V (s\<lparr>mtx := m, mpools := P, phase := (phase s)(t := Critical)\<rparr>)"
    using q free t(2) m(2) by (auto simp: mutex_queue_inv_def mutex_base_inv_def)
qed

text \<open>Entering, whether the thread gets the lock or goes to sleep.\<close>

lemma enter_inv:
  assumes p: "pools_inv a g s" and q: "mutex_base_inv V s" and t: "phase s t = Outside"
    and e: "mutex_enter PO V a s t = Some s'"
  shows "pools_inv a g s' \<and> mutex_queue_inv V s'"
proof -
  obtain pp where pp: "tpools s t = Some pp" using e by (auto simp: mutex_enter_def bind_eq_Some_conv)
  obtain ok m P where tr: "mutex_try_enter PO a t pp (mtx s) (mpools s) = (ok, m, P)"
    using prod_cases3 by blast
  show ?thesis
  proof (cases "m_pth (mtx s)")
    case None
    note tf = take_free [OF p q None pp t tr]
    have "s' = s\<lparr>mtx := m, mpools := P, phase := (phase s)(t := Critical)\<rparr>"
      using e pp tr tf(1) by (simp add: mutex_enter_def)
    with tf show ?thesis by simp
  next
    case (Some u)
    have s': "s' = s\<lparr>mtx := (mtx s)\<lparr>m_wq := wq_sleep_on V (m_wq (mtx s)) t\<rparr>,
        phase := (phase s)(t := Waiting)\<rparr>"
      using e pp Some by (simp add: mutex_enter_def mutex_try_enter_def)
    have "phase s u = Critical" using q Some by (simp add: mutex_base_inv_def)
    then have "t \<noteq> u" using t by auto
    moreover have "t \<notin> set (sleeping V (m_wq (mtx s)) @ concat (wakes s))"
      using q t by (simp add: mutex_base_inv_def)
    ultimately have "mutex_queue_inv V s'"
      using q Some t pp unfolding s' mutex_queue_inv_def mutex_base_inv_def
      by (auto simp: wq.ids_enqueue)
    moreover have "pools_inv a g s'" using p Some unfolding s' by (simp add: mutex_pools_inv_def)
    ultimately show ?thesis by blast
  qed
qed

text \<open>Deleting a pool that is not above the thread pools' parent.\<close>

lemma delete_inv:
  assumes p: "pools_inv a g s" and x: "x \<in> live (mpools s)" "g \<notin> sub (mpools s) x"
    and del: "delete_pool PO (mpools s) x = (cs, P)"
    and tp: "\<forall>u q. tp u = Some q \<longrightarrow> tpools s u = Some q \<and> q \<notin> sub (mpools s) x"
  shows "pinv P" "threads_ok live sub P tp" "g \<in> live P"
    "\<And>u q. tp u = Some q \<Longrightarrow> g \<notin> sub P q"
    "\<And>u q r. tp u = Some q \<Longrightarrow> r \<in> sub (mpools s) q \<Longrightarrow> r \<notin> sub (mpools s) x \<Longrightarrow> r \<in> sub P q"
proof -
  have inv: "pinv (mpools s)" "threads_ok live sub (mpools s) (tpools s)" "g \<in> live (mpools s)"
    "\<And>t p. tpools s t = Some p \<Longrightarrow> g \<notin> sub (mpools s) p"
    using p by (auto simp: mutex_pools_inv_def)
  note d = delete_pool [OF inv(1) x(1) del]
  note th = delete_threads_ok [OF inv(1) x(1) del inv(2) tp]
  show "pinv P" "g \<in> live P" using d inv(3) x(2) by auto
  show "threads_ok live sub P tp" by (rule th(1))
  show "g \<notin> sub P q" if "tp u = Some q" for u q using th(2) that tp inv(4) by blast
  show "r \<in> sub P q" if "tp u = Some q" "r \<in> sub (mpools s) q" "r \<notin> sub (mpools s) x" for u q r
    using th(2) that by blast
qed

lemma release_queue_inv:
  assumes "\<forall>t. phase s t \<noteq> Critical" "distinct (sleeping V (m_wq (mtx s)) @ concat (wakes s))"
    "set (sleeping V (m_wq (mtx s)) @ concat (wakes s)) = {t. phase s t = Waiting}"
    "\<forall>t. phase s t = Waiting \<longrightarrow> tpools s t \<noteq> None"
  shows "\<exists>m ws. release V s = Some (s\<lparr>mtx := m, wakes := ws\<rparr>) \<and> m_pth m = None \<and> m_pool m = None \<and>
    mutex_queue_inv V (s\<lparr>mtx := m, wakes := ws\<rparr>)"
proof -
  obtain m ws where r: "release V s = Some (s\<lparr>mtx := m, wakes := ws\<rparr>)" "m_pth m = None" "m_pool m = None"
    "sleeping V (m_wq (mtx s)) = [] \<longrightarrow> sleeping V (m_wq m) = [] \<and> ws = wakes s"
    "\<forall>t ts. sleeping V (m_wq (mtx s)) = t # ts \<longrightarrow> sleeping V (m_wq m) = ts \<and> ws = [t] # wakes s"
    using release_spec [of s] by blast
  have "mutex_queue_inv V (s\<lparr>mtx := m, wakes := ws\<rparr>)"
  proof (cases "sleeping V (m_wq (mtx s))")
    case Nil
    with r(4) have "sleeping V (m_wq m) = []" "ws = wakes s" by simp_all
    with Nil assms r(2) show ?thesis by (simp add: mutex_queue_inv_def mutex_base_inv_def)
  next
    case (Cons t ts)
    with r(5) have "sleeping V (m_wq m) = ts" "ws = [t] # wakes s" by simp_all
    with Cons assms r(2) show ?thesis by (auto simp: mutex_queue_inv_def mutex_base_inv_def)
  qed
  with r show ?thesis by blast
qed

lemma leave_inv:
  assumes p: "pools_inv a g s" and q: "mutex_base_inv V s" and l: "mutex_leave PO V a s t = Some s'"
  shows "pools_inv a g s' \<and> mutex_queue_inv V s'" "m_pth (mtx s') = None"
proof -
  have own: "m_pth (mtx s) = Some t" using l by (auto simp: mutex_leave_def split: if_splits)
  obtain x pp where x: "m_pool (mtx s) = Some x" "tpools s t = Some pp" "x \<in> sub (mpools s) pp"
    "\<forall>t' p'. tpools s t' = Some p' \<longrightarrow> x \<noteq> p'" and g: "g \<notin> sub (mpools s) pp"
    and h: "held_in live sub own (mpools s) (Mutex_do_release a) (Some x)" and inv: "pinv (mpools s)"
    using p own by (auto simp: mutex_pools_inv_def)
  have sx: "x \<in> live (mpools s)" "sub (mpools s) x = {x}" using held_inD(2) [OF h] by (auto simp: single_def)
  obtain cs P where del: "delete_pool PO (mpools s) x = (cs, P)" by fastforce
  have gx: "g \<notin> sub (mpools s) x" using g x(3) sx by auto
  have tpx: "\<forall>u q. tpools s u = Some q \<longrightarrow> tpools s u = Some q \<and> q \<notin> sub (mpools s) x"
    using x(4) sx by auto
  note d = delete_inv [OF p sx(1) gx del tpx] and dh = delete_holder [OF inv sx(1) del h]
  let ?s = "s\<lparr>mpools := P, phase := (phase s)(t := Outside)\<rparr>"
  have "phase s t = Critical" using q own by (simp add: mutex_base_inv_def)
  then have nw: "phase s t \<noteq> Waiting" by simp
  have ph: "\<forall>u. phase ?s u \<noteq> Critical" "distinct (sleeping V (m_wq (mtx ?s)) @ concat (wakes ?s))"
    "set (sleeping V (m_wq (mtx ?s)) @ concat (wakes ?s)) = {u. phase ?s u = Waiting}"
    "\<forall>u. phase ?s u = Waiting \<longrightarrow> tpools ?s u \<noteq> None"
    using q nw by (auto simp: mutex_base_inv_def own)
  obtain m ws where r: "release V ?s = Some (?s\<lparr>mtx := m, wakes := ws\<rparr>)" "m_pth m = None" "m_pool m = None"
    "mutex_queue_inv V (?s\<lparr>mtx := m, wakes := ws\<rparr>)"
    using release_queue_inv [OF ph] by blast
  have s': "s' = ?s\<lparr>mtx := m, wakes := ws\<rparr>"
    using l own x(1) del dh(1) release_cleanups_once [of cs a ?s] r(1) sx by (simp add: mutex_leave_def)
  have "pools_inv a g s'"
    using d(1-4) dh(2) sx r(2,3) unfolding s' by (simp add: mutex_pools_inv_def)
  with r show "pools_inv a g s' \<and> mutex_queue_inv V s'" "m_pth (mtx s') = None" by (simp_all add: s')
qed

text \<open>A thread that does not hold the mutex: its end leaves the pool of the lock alone.\<close>

lemma foreign_pool:
  assumes p: "pools_inv a g s" and t: "tpools s t = Some pp" "m_pth (mtx s) \<noteq> Some t"
  shows "\<not> (\<exists>x. m_pool (mtx s) = Some x \<and> x \<in> sub (mpools s) pp)"
proof (cases "m_pth (mtx s)")
  case (Some u)
  then obtain x pu where "m_pool (mtx s) = Some x" "tpools s u = Some pu" "x \<in> sub (mpools s) pu"
    using p by (auto simp: mutex_pools_inv_def)
  moreover have "threads_ok live sub (mpools s) (tpools s)" using p by (simp add: mutex_pools_inv_def)
  ultimately show ?thesis using sub_disjoint [of "mpools s" "tpools s" u pu t pp] Some t by auto
qed (use p in \<open>auto simp: mutex_pools_inv_def\<close>)

lemma exit_other_pools:
  assumes p: "pools_inv a g s" and t: "tpools s t = Some pp" "m_pth (mtx s) \<noteq> Some t"
    and P: "pinv P" "threads_ok live sub P ((tpools s)(t := None))" "g \<in> live P" "\<And>u q. ((tpools s)(t := None)) u = Some q \<Longrightarrow> g \<notin> sub P q"
      "\<And>u q r. ((tpools s)(t := None)) u = Some q \<Longrightarrow> r \<in> sub (mpools s) q \<Longrightarrow> r \<notin> sub (mpools s) pp \<Longrightarrow> r \<in> sub P q"
    and h: "held_in live sub own P (Mutex_do_release a) (m_pool (mtx s))"
  shows "pools_inv a g (s\<lparr>mpools := P, tpools := (tpools s)(t := None), phase := ph\<rparr>)"
proof (cases "m_pth (mtx s)")
  case None
  then show ?thesis using P(1-4) h p by (simp add: mutex_pools_inv_def)
next
  case (Some u)
  then obtain x pu where x: "m_pool (mtx s) = Some x" "tpools s u = Some pu" "x \<in> sub (mpools s) pu"
    "\<forall>t' p'. tpools s t' = Some p' \<longrightarrow> x \<noteq> p'"
    using p by (auto simp: mutex_pools_inv_def)
  have u: "((tpools s)(t := None)) u = Some pu" "x \<notin> sub (mpools s) pp" using x foreign_pool [OF p t] Some t(2) by auto
  then have "x \<in> sub P pu" using P(5) x(3) by blast
  with P(1-4) h x Some u(1) show ?thesis by (simp add: mutex_pools_inv_def)
qed

lemma exit_inv:
  assumes p: "pools_inv a g s" and q: "mutex_queue_inv V s" and w: "phase s t \<noteq> Waiting"
    and e: "thread_exit PO V a s t = Some s'"
  shows "pools_inv a g s' \<and> mutex_queue_inv V s'" "m_pth (mtx s') \<noteq> Some t" "tpools s' t = None"
    "m_pth (mtx s) = Some t \<Longrightarrow> m_pth (mtx s') = None"
proof -
  obtain pp where pp: "tpools s t = Some pp" using e by (auto simp: thread_exit_def bind_eq_Some_conv)
  have inv: "pinv (mpools s)" "threads_ok live sub (mpools s) (tpools s)"
    "g \<notin> sub (mpools s) pp" "held_in live sub own (mpools s) (Mutex_do_release a) (m_pool (mtx s))"
    using p pp by (auto simp: mutex_pools_inv_def)
  have lv: "\<And>u q. tpools s u = Some q \<Longrightarrow> q \<in> live (mpools s)" using inv(2) by (auto simp: threads_ok_def)
  obtain cs P where del: "delete_pool PO (mpools s) pp = (cs, P)" by fastforce
  let ?tp = "(tpools s)(t := None)"
  have tpx: "\<forall>u q. ?tp u = Some q \<longrightarrow> tpools s u = Some q \<and> q \<notin> sub (mpools s) pp"
    by (rule others_outside [OF inv(1,2) pp])
  note d = delete_inv [OF p lv [OF pp] inv(3) del, of ?tp, OF tpx] and dh = delete_holder [OF inv(1) lv [OF pp] del inv(4)]
  let ?s = "s\<lparr>mpools := P, tpools := ?tp, phase := (phase s)(t := Outside)\<rparr>"
  have "(pools_inv a g s' \<and> mutex_queue_inv V s') \<and> m_pth (mtx s') \<noteq> Some t \<and> tpools s' t = None \<and>
    (m_pth (mtx s) = Some t \<longrightarrow> m_pth (mtx s') = None)"
  proof (cases "m_pth (mtx s) = Some t")
    case True
    then obtain x where x: "m_pool (mtx s) = Some x" "x \<in> sub (mpools s) pp"
      using p pp by (auto simp: mutex_pools_inv_def)
    have ph: "\<forall>u. phase ?s u \<noteq> Critical" "distinct (sleeping V (m_wq (mtx ?s)) @ concat (wakes ?s))"
      "set (sleeping V (m_wq (mtx ?s)) @ concat (wakes ?s)) = {u. phase ?s u = Waiting}"
    "\<forall>u. phase ?s u = Waiting \<longrightarrow> tpools ?s u \<noteq> None"
      using q True w by (auto simp: mutex_queue_inv_def mutex_base_inv_def)
    obtain m ws where r: "release V ?s = Some (?s\<lparr>mtx := m, wakes := ws\<rparr>)" "m_pth m = None" "m_pool m = None"
      "mutex_queue_inv V (?s\<lparr>mtx := m, wakes := ws\<rparr>)"
      using release_queue_inv [OF ph] by blast
    have s': "s' = ?s\<lparr>mtx := m, wakes := ws\<rparr>"
      using e pp del dh(1) x release_cleanups_once [of cs a ?s] r(1) by (simp add: thread_exit_def)
    have "pools_inv a g s'"
      using d(1-4) dh(2) x r(2,3) unfolding s' by (simp add: mutex_pools_inv_def)
    then show ?thesis using r by (simp add: s')
  next
    case False
    note out = foreign_pool [OF p pp False]
    have s': "s' = ?s"
      using e pp del dh(1) out release_cleanups_none [of cs a ?s] by (simp add: thread_exit_def)
    have h: "held_in live sub own P (Mutex_do_release a) (m_pool (mtx s))" using dh(2) out by simp
    have "pools_inv a g s'" unfolding s' by (rule exit_other_pools [OF p pp False d h])
    moreover have "mutex_queue_inv V s'"
      using q False w unfolding s' mutex_queue_inv_def mutex_base_inv_def by auto
    ultimately show ?thesis using False by (simp add: s')
  qed
  then show "pools_inv a g s' \<and> mutex_queue_inv V s'" "m_pth (mtx s') \<noteq> Some t" "tpools s' t = None"
    "m_pth (mtx s) = Some t \<Longrightarrow> m_pth (mtx s') = None" by blast+
qed

end

section \<open>Every step keeps the invariant\<close>

lemma mutex_enter_phase:
  "mutex_enter PO V a (s\<lparr>phase := (phase s)(t := x)\<rparr>) t = mutex_enter PO V a s t"
  by (cases "tpools s t") (auto simp: mutex_enter_def split: prod.splits)

lemma release_cleanups_frame:
  "release_cleanups V a cs s = Some s' \<Longrightarrow> tpools s' = tpools s \<and> phase s' = phase s"
proof (induction cs arbitrary: s)
  case (Cons c cs)
  then obtain s1 where "release_cleanups V a cs s1 = Some s'"
    "(if c = Mutex_do_release a then release V s else Some s) = Some s1"
    by (auto simp: bind_eq_Some_conv)
  with Cons.IH [of s1] show ?case by (auto simp: release_def bind_eq_Some_conv split: if_splits)
qed simp

lemma thread_exit_phase:
  "thread_exit PO V a (s\<lparr>phase := (phase s)(t := x)\<rparr>) t = thread_exit PO V a s t"
  by (cases "tpools s t") (auto simp: thread_exit_def split: prod.splits)

lemma pools_inv_frame:
  "mutex_pools_inv pinv live sub own a g s \<Longrightarrow> mpools s' = mpools s \<Longrightarrow> tpools s' = tpools s \<Longrightarrow>
     m_pth (mtx s') = m_pth (mtx s) \<Longrightarrow> m_pool (mtx s') = m_pool (mtx s) \<Longrightarrow>
     mutex_pools_inv pinv live sub own a g s'"
  unfolding mutex_pools_inv_def by (simp only:) blast

lemma queue_inv_base: "mutex_queue_inv V s \<Longrightarrow> mutex_base_inv V s"
  by (simp add: mutex_queue_inv_def)

lemma waiting_not_owner: "mutex_base_inv V s \<Longrightarrow> phase s t = Waiting \<Longrightarrow> m_pth (mtx s) \<noteq> Some t"
  unfolding mutex_base_inv_def by (metis phase.distinct(5))

lemma waiting_iff:
  "mutex_base_inv V s \<Longrightarrow> phase s t = Waiting \<longleftrightarrow> t \<in> set (sleeping V (m_wq (mtx s))) \<or> t \<in> set (concat (wakes s))"
  unfolding mutex_base_inv_def by (metis (mono_tags, lifting) Un_iff mem_Collect_eq set_append)

lemma waiting_pending:
  assumes "mutex_queue_inv V s" "m_pth (mtx s) = None" "phase s t = Waiting"
  shows "concat (wakes s) \<noteq> []"
proof -
  have "mutex_base_inv V s" "sleeping V (m_wq (mtx s)) \<noteq> [] \<longrightarrow> concat (wakes s) \<noteq> []"
    using assms(1,2) by (auto simp: mutex_queue_inv_def)
  then show ?thesis using waiting_iff [of V s t] assms(3) by force
qed

context mutex_env
begin

lemma spawn_inv:
  assumes p: "pools_inv a g s" and q: "mutex_queue_inv V s" and t: "tpools s t = None" "phase s t = Outside"
    and n: "new_subpool PO (mpools s) g = (r, P)"
  shows "pools_inv a g (s\<lparr>mpools := P, tpools := (tpools s)(t \<mapsto> r)\<rparr>) \<and>
    mutex_queue_inv V (s\<lparr>mpools := P, tpools := (tpools s)(t \<mapsto> r)\<rparr>)"
proof -
  have inv: "pinv (mpools s)" "threads_ok live sub (mpools s) (tpools s)" "g \<in> live (mpools s)"
    "\<forall>t p. tpools s t = Some p \<longrightarrow> g \<notin> sub (mpools s) p"
    "held_in live sub own (mpools s) (Mutex_do_release a) (m_pool (mtx s))"
    using p by (auto simp: mutex_pools_inv_def)
  note sp = spawn_thread [OF inv(1-4) n] and ns = new_subpool [OF inv(1,3) n]
  have gr: "g \<in> live P" "g \<noteq> r" "r \<notin> live (mpools s)" using ns inv(3) by auto
  have gs: "g \<notin> sub P p'" if "((tpools s)(t \<mapsto> r)) t' = Some p'" for t' p'
    using that sp(3) [of t' p'] sp(4) inv(4) gr by (cases "t' = t") auto
  have "pools_inv a g (s\<lparr>mpools := P, tpools := (tpools s)(t \<mapsto> r)\<rparr>)"
  proof (cases "m_pth (mtx s)")
    case None
    then have h: "m_pool (mtx s) = None" using p by (simp add: mutex_pools_inv_def)
    have "held_in live sub own P (Mutex_do_release a) None" using sp(5) [of _ None] inv(5) h by simp
    then show ?thesis using None sp(1,2) gr(1) gs h by (simp add: mutex_pools_inv_def)
  next
    case (Some u)
    then obtain x pu where x: "m_pool (mtx s) = Some x" "tpools s u = Some pu" "x \<in> sub (mpools s) pu"
      "\<forall>t' p'. tpools s t' = Some p' \<longrightarrow> x \<noteq> p'"
      using p by (auto simp: mutex_pools_inv_def)
    have xl: "x \<in> live (mpools s)" using held_inD(2) inv(5) x(1) by (metis single_def)
    have "x \<noteq> g" using inv(4) x by blast
    then have h: "held_in live sub own P (Mutex_do_release a) (Some x)"
      using sp(5) [of _ "Some x"] inv(5) x(1) by simp
    have "u \<noteq> t" "x \<in> sub P pu" "x \<noteq> r" using x t sp(3) [OF x(2)] xl gr by auto
    then show ?thesis
      using Some sp(1,2) gr(1) gs h x by (simp add: mutex_pools_inv_def)
  qed
  moreover have "mutex_queue_inv V (s\<lparr>mpools := P, tpools := (tpools s)(t \<mapsto> r)\<rparr>)"
    using q by (simp add: mutex_queue_inv_def mutex_base_inv_def)
  ultimately show ?thesis by blast
qed

lemma resume_base:
  assumes q: "mutex_base_inv V s" and w: "wakes s = ws1 @ (t # ts) # ws2"
  shows "mutex_base_inv V (s\<lparr>wakes := ws1 @ ts # ws2, phase := (phase s)(t := Outside)\<rparr>)"
proof -
  have "phase s t = Waiting" using q w by (auto simp: mutex_base_inv_def)
  then have "m_pth (mtx s) \<noteq> Some t" using waiting_not_owner [OF q] by blast
  then show ?thesis using q w by (auto simp: mutex_base_inv_def)
qed

lemma alarm_base:
  assumes q: "mutex_queue_inv V s" and w: "phase s t = Waiting" and r: "wq_resume V (m_wq (mtx s)) t True = Exits wq'"
  shows "mutex_queue_inv V (s\<lparr>mtx := (mtx s)\<lparr>m_wq := wq'\<rparr>, phase := (phase s)(t := Outside)\<rparr>)"
proof -
  have t: "t \<in> set (sleeping V (m_wq (mtx s)))" using r wq_resume_alarm(2) by fastforce
  have sl: "sleeping V wq' = remove1 t (sleeping V (m_wq (mtx s)))"
    using wq_resume_alarm(1) [OF t] r by auto
  have "m_pth (mtx s) \<noteq> Some t" using waiting_not_owner [OF queue_inv_base [OF q] w] .
  then show ?thesis
    using q t by (auto simp: mutex_queue_inv_def mutex_base_inv_def sl)
qed

lemma step_inv:
  assumes "mutex_step PO V a g s s'" "pools_inv a g s" "mutex_queue_inv V s"
  shows "pools_inv a g s' \<and> mutex_queue_inv V s'"
  using assms
proof (cases rule: mutex_step.cases)
  case (Spawn t r P)
  then show ?thesis using spawn_inv [OF assms(2,3)] by blast
next
  case (Enter t)
  then show ?thesis using enter_inv [OF assms(2) queue_inv_base [OF assms(3)]] by blast
next
  case (Try_enter t pp ok m P)
  show ?thesis
  proof (cases "m_pth (mtx s)")
    case None
    have "mutex_base_inv V s" using assms by (simp add: mutex_queue_inv_def)
    from take_free [OF assms(2) this None Try_enter(3,2,4)] show ?thesis by (simp add: Try_enter(1))
  next
    case (Some u)
    then have "s' = s\<lparr>phase := (phase s)(t := Outside)\<rparr>"
      using Try_enter by (auto simp: mutex_try_enter_def)
    moreover have "(phase s)(t := Outside) = phase s" using Try_enter(2) by auto
    ultimately show ?thesis using assms(2,3) by simp
  qed
next
  case (Leave t)
  then show ?thesis using leave_inv(1) [OF assms(2) queue_inv_base [OF assms(3)]] by blast
next
  case (Resume ws1 t ts ws2 wq')
  have b: "mutex_base_inv V s" using assms by (simp add: mutex_queue_inv_def)
  let ?s = "s\<lparr>wakes := ws1 @ ts # ws2, phase := (phase s)(t := Outside)\<rparr>"
  have wq': "wq' = m_wq (mtx s)" using Resume(2) by (simp add: wq_resume_def)
  then have "mutex_enter PO V a (?s) t = Some s'"
    using Resume(3) mutex_enter_phase [of PO V a "s\<lparr>wakes := ws1 @ ts # ws2\<rparr>" t Outside] by simp
  moreover have "pools_inv a g ?s"
    by (rule pools_inv_frame [OF assms(2)]) simp_all
  ultimately show ?thesis using enter_inv [OF _ resume_base [OF b Resume(1)], of a g t s'] by simp
next
  case (Handler_done ws1 ws2)
  have "pools_inv a g s'" by (rule pools_inv_frame [OF assms(2)]) (simp_all add: Handler_done(1))
  with Handler_done show ?thesis
    using assms(3) by (simp add: mutex_queue_inv_def mutex_base_inv_def)
next
  case (Alarm t wq')
  let ?s = "s\<lparr>mtx := (mtx s)\<lparr>m_wq := wq'\<rparr>, phase := (phase s)(t := Outside)\<rparr>"
  have p: "pools_inv a g ?s"
    by (rule pools_inv_frame [OF assms(2)]) simp_all
  have e: "thread_exit PO V a ?s t = Some s'"
    using Alarm(3) thread_exit_phase [of PO V a "s\<lparr>mtx := (mtx s)\<lparr>m_wq := wq'\<rparr>\<rparr>" t Outside] by simp
  have "phase ?s t \<noteq> Waiting" by simp
  then show ?thesis by (rule exit_inv(1) [OF p alarm_base [OF assms(3) Alarm(1,2)] _ e])
next
  case (Exit t)
  then show ?thesis using exit_inv assms by blast
qed

lemma init_inv:
  assumes "pinv P" "g \<in> live P" "held_in live sub own P (Mutex_do_release a) None"
  shows "pools_inv a g (mutex_init V P) \<and> mutex_queue_inv V (mutex_init V P)"
  using assms
  by (simp add: mutex_init_def mutex_pools_inv_def threads_ok_def mutex_queue_inv_def mutex_base_inv_def
      new_wait_queue_def elems_new)

lemma reachable_inv:
  assumes "mutex_reachable PO V a g P s"
    and "pinv P" "g \<in> live P" "held_in live sub own P (Mutex_do_release a) None"
  shows "pools_inv a g s \<and> mutex_queue_inv V s"
  using assms(1) unfolding mutex_reachable_def
proof (induction rule: rtranclp_induct)
  case base
  show ?case by (rule init_inv [OF assms(2-4)])
next
  case (step y z)
  then show ?case using step_inv by blast
qed

lemma thread_exit_total:
  assumes "tpools s t = Some pp"
  shows "\<exists>s'. thread_exit PO V a s t = Some s'"
proof -
  have "\<exists>s'. release_cleanups V a cs s = Some s'" for cs and s :: "('v, 'P) msys"
  proof (induction cs arbitrary: s)
    case (Cons c cs)
    show ?case using release_spec [of s] Cons.IH by (cases "c = Mutex_do_release a") auto
  qed simp
  then show ?thesis using assms by (simp add: thread_exit_def split: prod.splits)
qed

end

section \<open>Properties\<close>

interpretation mutex_list: mutex_env list_vec cpool_ops cpool_inv cpool_live "\<lambda>P p. set (cpool_under P p)" cpool_own
  by unfold_locales

text \<open>
  A run on the concrete pools: threads 1 and 2 are created, 1 enters, 2 has to wait, 1 leaves.
\<close>

definition root_pools :: cpools where
  "root_pools = \<lparr>pnext = 1, palive = (\<lambda>q. q = 0), panc = (\<lambda>_. [0]), pown = (\<lambda>_. [])\<rparr>"

definition demo_spawn :: "(tid list, cpools) msys \<Rightarrow> tid \<Rightarrow> (tid list, cpools) msys" where
  "demo_spawn s t = (let (q, P) = new_subpool cpool_ops (mpools s) 0
     in s\<lparr>mpools := P, tpools := (tpools s)(t \<mapsto> q)\<rparr>)"

definition demo_contended :: "(tid list, cpools) msys" where
  "demo_contended = (let s2 = demo_spawn (demo_spawn (mutex_init list_vec root_pools) 1) 2;
     s3 = the (mutex_enter cpool_ops list_vec 77 s2 1)
     in the (mutex_enter cpool_ops list_vec 77 s3 2))"

definition demo_released :: "(tid list, cpools) msys" where
  "demo_released = the (mutex_leave cpool_ops list_vec 77 demo_contended 1)"

lemmas demo_eval = demo_contended_def demo_spawn_def mutex_init_def root_pools_def
  new_wait_queue_def mutex_enter_def mutex_try_enter_def wq_sleep_on_def cpool_ops_def Let_def

lemma root_pools_ok:
  "cpool_inv root_pools" "0 \<in> cpool_live root_pools"
  "held_in cpool_live (\<lambda>P p. set (cpool_under P p)) cpool_own root_pools c None"
  by (auto simp: cpool_inv_def root_pools_def cpool_live_def held_in_def cpool_own_def)

lemma demo_contended_reachable: "mutex_reachable cpool_ops list_vec 77 0 root_pools demo_contended"
proof -
  let ?step = "mutex_step cpool_ops list_vec 77 0"
  let ?s0 = "mutex_init list_vec root_pools"
  let ?s1 = "demo_spawn ?s0 1"
  let ?s2 = "demo_spawn ?s1 2"
  let ?s3 = "the (mutex_enter cpool_ops list_vec 77 ?s2 1)"
  have spawn: "?step s (demo_spawn s t)" if "tpools s t = None" "phase s t = Outside" for s t
    using mutex_step.Spawn [OF that, of cpool_ops 0] by (simp add: demo_spawn_def split: prod.split)
  have 1: "?step ?s0 ?s1" "?step ?s1 ?s2"
    by (rule spawn; simp add: demo_eval)+
  have 2: "?step ?s2 ?s3" by (rule mutex_step.Enter [of _ 1]) (simp_all add: demo_eval)
  have 3: "?step ?s3 demo_contended" by (rule mutex_step.Enter [of _ 2]) (simp_all add: demo_eval)
  have "?step\<^sup>*\<^sup>* ?s0 ?s1" using 1(1) by (rule r_into_rtranclp)
  from this 1(2) have "?step\<^sup>*\<^sup>* ?s0 ?s2" by (rule rtranclp.rtrancl_into_rtrancl)
  from this 2 have "?step\<^sup>*\<^sup>* ?s0 ?s3" by (rule rtranclp.rtrancl_into_rtrancl)
  from this 3 show ?thesis unfolding mutex_reachable_def by (rule rtranclp.rtrancl_into_rtrancl)
qed

lemma demo_contended_state:
  "m_pth (mtx demo_contended) = Some 1" "phase demo_contended 1 = Critical" "phase demo_contended 2 = Waiting"
  "sleepers (m_wq (mtx demo_contended)) = [2]" "wakes demo_contended = []"
  "tpools demo_contended 1 = Some 1" "tpools demo_contended 2 = Some 2" "m_pool (mtx demo_contended) = Some 3"
  by (simp_all add: demo_eval)

lemma demo_contended_pools: "delete_pool cpool_ops (mpools demo_contended) 3 = 
   ([Mutex_do_release 77], snd (delete_pool cpool_ops (mpools demo_contended) 3))"
  by (simp add: demo_eval cpool_under_def)

lemma demo_leave: "mutex_leave cpool_ops list_vec 77 demo_contended 1 = Some demo_released"
  "concat (wakes demo_released) = [2]" "m_pth (mtx demo_released) = None" "phase demo_released 2 = Waiting"
proof -
  have "\<exists>s. mutex_leave cpool_ops list_vec 77 demo_contended 1 = Some s \<and> concat (wakes s) = [2] \<and>
    m_pth (mtx s) = None \<and> phase s 2 = Waiting"
    using demo_contended_pools demo_contended_state
    by (subst mutex_leave_def)
      (auto simp: release_def mutex_do_release_def wq_nr_sleepers_def wq_wake_up_one_def wake_up_def
         split: prod.split)
  then show "mutex_leave cpool_ops list_vec 77 demo_contended 1 = Some demo_released"
    "concat (wakes demo_released) = [2]" "m_pth (mtx demo_released) = None" "phase demo_released 2 = Waiting"
    unfolding demo_released_def by auto
qed

lemma demo_released_reachable: "mutex_reachable cpool_ops list_vec 77 0 root_pools demo_released"
  using demo_contended_reachable mutex_step.Leave [OF demo_leave(1)] unfolding mutex_reachable_def
  by (rule rtranclp.rtrancl_into_rtrancl)

text \<open>
  C6: mutual exclusion. In every reachable state of the threads that use a mutex at most one of
  them is in the critical section, and the lock's owner field names it.
\<close>

theorem mutex_mutual_exclusion:
  assumes "mutex_env V PO pinv live sub own" "pinv P" "g \<in> live P"
    and "held_in live sub own P (Mutex_do_release a) None" "mutex_reachable PO V a g P s"
  shows "(\<forall>t u. phase s t = Critical \<longrightarrow> phase s u = Critical \<longrightarrow> t = u) \<and>
    (\<forall>t. phase s t = Critical \<longleftrightarrow> m_pth (mtx s) = Some t)"
  using mutex_env.reachable_inv [OF assms(1,5,2,3,4)]
  by (simp add: mutex_queue_inv_def mutex_base_inv_def)

theorem mutex_mutual_exclusion_witness:
  "phase demo_contended 1 = Critical \<and> phase demo_contended 2 = Waiting \<and> {t. phase demo_contended t = Critical} = {1}"
proof -
  from mutex_mutual_exclusion [OF mutex_list.mutex_env_axioms root_pools_ok demo_contended_reachable]
  have "phase demo_contended t = Critical \<longleftrightarrow> t = 1" for t by (simp add: demo_contended_state(1) eq_commute)
  then show ?thesis by (simp add: demo_contended_state)
qed

text \<open>
  C7: no wake-up is lost. Whenever the mutex is free and some thread waits for it, a registered
  wake-up handler has a thread to resume, and resuming it gives that thread the lock.
\<close>

theorem mutex_no_lost_wakeup:
  assumes env: "mutex_env V PO pinv live sub own" and P: "pinv P" "g \<in> live P"
      "held_in live sub own P (Mutex_do_release a) None"
    and r: "mutex_reachable PO V a g P s" and free: "m_pth (mtx s) = None" and w: "phase s t = Waiting"
  shows "\<exists>u s'. phase s u = Waiting \<and> u \<in> set (concat (wakes s)) \<and> mutex_step PO V a g s s' \<and> phase s' u = Critical"
proof -
  have inv: "mutex_queue_inv V s" using mutex_env.reachable_inv [OF env r P] by blast
  note b = queue_inv_base [OF inv]
  have "concat (wakes s) \<noteq> []" by (rule waiting_pending [OF inv free w])
  then obtain us where "us \<in> set (wakes s)" "us \<noteq> []" by auto
  then obtain ws1 u ts ws2 where ws: "wakes s = ws1 @ (u # ts) # ws2"
    by (metis list.exhaust split_list)
  then have u: "u \<in> set (concat (wakes s))" "phase s u = Waiting" using waiting_iff [OF b, of u] by auto
  then obtain pp where pp: "tpools s u = Some pp" using b by (auto simp: mutex_base_inv_def)
  have "\<exists>s'. mutex_enter PO V a (s\<lparr>wakes := ws1 @ ts # ws2, mtx := (mtx s)\<lparr>m_wq := m_wq (mtx s)\<rparr>\<rparr>) u = Some s' \<and>
    phase s' u = Critical"
    using pp free by (simp add: mutex_enter_def mutex_try_enter_def split: prod.split)
  then show ?thesis
    using mutex_step.Resume [OF ws, of V "m_wq (mtx s)" PO a _ g] u by (auto simp: wq_resume_def)
qed

theorem mutex_no_lost_wakeup_witness:
  "\<exists>u s'. phase demo_released u = Waiting \<and> u \<in> set (concat (wakes demo_released)) \<and>
     mutex_step cpool_ops list_vec 77 0 demo_released s' \<and> phase s' u = Critical"
  by (rule mutex_no_lost_wakeup [OF mutex_list.mutex_env_axioms root_pools_ok demo_released_reachable demo_leave(3,4)])

text \<open>
  C8: a thread that ends inside the critical section releases the mutex: the deletion of its pool
  runs the release function exactly once, and the first sleeper is handed to a wake-up handler.
\<close>

theorem mutex_released_on_exit:
  assumes env: "mutex_env V PO pinv live sub own" and P: "pinv P" "g \<in> live P"
      "held_in live sub own P (Mutex_do_release a) None"
    and r: "mutex_reachable PO V a g P s" and c: "phase s t = Critical"
  shows "\<exists>s'. thread_exit PO V a s t = Some s' \<and> m_pth (mtx s') = None \<and> tpools s' t = None \<and>
    (\<forall>u. phase s u = Waiting \<longrightarrow> concat (wakes s') \<noteq> [] \<and> phase s' u = Waiting)"
proof -
  have inv: "mutex_pools_inv pinv live sub own a g s" "mutex_queue_inv V s"
    using mutex_env.reachable_inv [OF env r P] by auto
  have own: "m_pth (mtx s) = Some t" using inv(2) c by (simp add: mutex_queue_inv_def mutex_base_inv_def)
  then obtain pp where "tpools s t = Some pp" using inv(1) by (auto simp: mutex_pools_inv_def)
  then obtain s' where e: "thread_exit PO V a s t = Some s'" using mutex_env.thread_exit_total [OF env] by blast
  have nw: "phase s t \<noteq> Waiting" using c by simp
  note ei = mutex_env.exit_inv [OF env inv nw e]
  have ph: "phase s' u = Waiting" if "phase s u = Waiting" for u
  proof -
    obtain pp cs P where "tpools s t = Some pp" "delete_pool PO (mpools s) pp = (cs, P)"
      "release_cleanups V a cs (s\<lparr>mpools := P, tpools := (tpools s)(t := None), phase := (phase s)(t := Outside)\<rparr>) = Some s'"
      using e by (cases "tpools s t"; cases "delete_pool PO (mpools s) (the (tpools s t))") (auto simp: thread_exit_def)
    then have "phase s' = (phase s)(t := Outside)" using release_cleanups_frame by fastforce
    then show ?thesis using that nw by auto
  qed
  have "concat (wakes s') \<noteq> []" if "phase s u = Waiting" for u
    by (rule waiting_pending [OF conjunct2 [OF ei(1)] ei(4) [OF own] ph [OF that]])
  with e ei own ph show ?thesis by blast
qed

theorem mutex_released_on_exit_witness:
  "\<exists>s'. thread_exit cpool_ops list_vec 77 demo_contended 1 = Some s' \<and> m_pth (mtx s') = None \<and> tpools s' 1 = None \<and>
    concat (wakes s') \<noteq> [] \<and> phase s' 2 = Waiting"
  using mutex_released_on_exit [OF mutex_list.mutex_env_axioms root_pools_ok demo_contended_reachable demo_contended_state(2)]
    demo_contended_state(3) by blast

text \<open>
  an alarm that hits a thread after a wake-up has taken it off the queue and before the
  prepoll handler has run makes \<open>wq_sleep_on\<close> abort the whole process.
\<close>

theorem wq_alarm_after_wakeup_aborts:
  assumes "mutex_env V PO pinv live sub own" "pinv P" "g \<in> live P"
    and "held_in live sub own P (Mutex_do_release a) None" "mutex_reachable PO V a g P s"
    and "t \<in> set (concat (wakes s))"
  shows "phase s t = Waiting \<and> wq_resume V (m_wq (mtx s)) t True = Aborts"
proof -
  have b: "mutex_base_inv V s" using mutex_env.reachable_inv [OF assms(1,5,2,3,4)] by (simp add: mutex_queue_inv_def)
  then have "t \<notin> set (sleeping V (m_wq (mtx s)))" using assms(6) by (auto simp: mutex_base_inv_def)
  then have "wq_resume V (m_wq (mtx s)) t True = Aborts"
    using tid_vector.wq_resume_alarm(2) [OF mutex_env.axioms(1) [OF assms(1)]] by blast
  then show ?thesis using waiting_iff [OF b, of t] assms(6) by blast
qed

theorem wq_alarm_after_wakeup_aborts_witness:
  "phase demo_released 2 = Waiting \<and> wq_resume list_vec (m_wq (mtx demo_released)) 2 True = Aborts"
  by (rule wq_alarm_after_wakeup_aborts [OF mutex_list.mutex_env_axioms root_pools_ok demo_released_reachable])
    (simp only: demo_leave(2) list.set insertI1)

end
