(* ===== verification/Rwlock.thy ===== *)
theory Rwlock
  imports Wait_Queue Lock_Pools
begin

text \<open>
  Multiple reader / single writer locks (\<open>src/src/pthr_rwlock.c\<close>): the functions of the source over
  the lock, its two wait queues, the hash from threads to subpools and the pools, and a step
  relation for all threads that use one lock. Exclusion and the release at thread exit are proved
  for every reachable state; so is that a reader can be left sleeping on a free lock.
\<close>

section \<open>The lock\<close>

text \<open>\<open>rw_n\<close> is 0 when the lock is free, the number of readers, or -1 for a writer.\<close>

record ('v, 'h) rwlock =
  rw_n :: int
  writers_wq :: "'v wait_queue"
  readers_wq :: "'v wait_queue"
  rw_pools :: 'h
  writers_have_priority :: bool

definition new_rwlock ::
  "('v, tid) vec_ops \<Rightarrow> ('h, tid, pool) hash_ops \<Rightarrow> 'P pool_ops \<Rightarrow> 'P \<Rightarrow> pool \<Rightarrow> addr \<Rightarrow> ('v, 'h) rwlock \<times> 'P" where
  "new_rwlock V HO PO P p a =
     (\<lparr>rw_n = 0, writers_wq = new_wait_queue V, readers_wq = new_wait_queue V, rw_pools = hash_new HO,
       writers_have_priority = True\<rparr>, register_cleanup_fn PO P p (Delete_rwlock a))"

definition delete_rwlock :: "('v, 'h) rwlock \<Rightarrow> unit option" where
  "delete_rwlock rw = (if rw_n rw = 0 then Some () else None)"

definition rwlock_writers_have_priority :: "('v, 'h) rwlock \<Rightarrow> ('v, 'h) rwlock" where
  "rwlock_writers_have_priority rw = rw\<lparr>writers_have_priority := True\<rparr>"

definition rwlock_readers_have_priority :: "('v, 'h) rwlock \<Rightarrow> ('v, 'h) rwlock" where
  "rwlock_readers_have_priority rw = rw\<lparr>writers_have_priority := False\<rparr>"

definition rw_do_enter ::
  "'P pool_ops \<Rightarrow> ('h, tid, pool) hash_ops \<Rightarrow> addr \<Rightarrow> tid \<Rightarrow> pool \<Rightarrow> ('v, 'h) rwlock \<Rightarrow> 'P
     \<Rightarrow> ('v, 'h) rwlock \<times> 'P" where
  "rw_do_enter PO HO a current_pth pth_pool rw P =
     (let (q, P1) = new_subpool PO P pth_pool
      in (rw\<lparr>rw_pools := hash_insert HO (rw_pools rw) current_pth q\<rparr>,
          register_cleanup_fn PO P1 q (Rwlock_do_release current_pth a)))"

definition rwlock_try_enter_read ::
  "'P pool_ops \<Rightarrow> ('v, tid) vec_ops \<Rightarrow> ('h, tid, pool) hash_ops \<Rightarrow> addr \<Rightarrow> tid \<Rightarrow> pool
     \<Rightarrow> ('v, 'h) rwlock \<Rightarrow> 'P \<Rightarrow> bool \<times> ('v, 'h) rwlock \<times> 'P" where
  "rwlock_try_enter_read PO V HO a t pp rw P =
     (if rw_n rw \<ge> 0 \<and> (\<not> writers_have_priority rw \<or> wq_nr_sleepers V (writers_wq rw) = 0)
      then (let (rw1, P1) = rw_do_enter PO HO a t pp rw P in (True, rw1\<lparr>rw_n := rw_n rw1 + 1\<rparr>, P1))
      else (False, rw, P))"

definition rwlock_try_enter_write ::
  "'P pool_ops \<Rightarrow> ('h, tid, pool) hash_ops \<Rightarrow> addr \<Rightarrow> tid \<Rightarrow> pool
     \<Rightarrow> ('v, 'h) rwlock \<Rightarrow> 'P \<Rightarrow> bool \<times> ('v, 'h) rwlock \<times> 'P" where
  "rwlock_try_enter_write PO HO a t pp rw P =
     (if rw_n rw = 0
      then (let (rw1, P1) = rw_do_enter PO HO a t pp rw P in (True, rw1\<lparr>rw_n := -1\<rparr>, P1))
      else (False, rw, P))"

text \<open>
  The release function for thread \<open>t\<close>: the lock afterwards and the batch to be woken; \<open>None\<close> is a
  failed assertion or an \<open>abort\<close>.
\<close>

definition rw_do_release ::
  "('v, tid) vec_ops \<Rightarrow> ('h, tid, pool) hash_ops \<Rightarrow> tid \<Rightarrow> ('v, 'h) rwlock
     \<Rightarrow> (('v, 'h) rwlock \<times> 'v option) option" where
  "rw_do_release V HO t rw =
     (if rw_n rw = 0 then None
      else
        (let (h, found) = hash_erase HO (rw_pools rw) t; rw1 = rw\<lparr>rw_pools := h\<rparr>
         in if \<not> found then None
            else if rw_n rw1 > 0
            then
              (let rw2 = rw1\<lparr>rw_n := rw_n rw1 - 1\<rparr>
               in if rw_n rw2 = 0 \<and> wq_nr_sleepers V (writers_wq rw2) > 0
                  then do { (wq, b) \<leftarrow> wq_wake_up_one V (writers_wq rw2); Some (rw2\<lparr>writers_wq := wq\<rparr>, b) }
                  else Some (rw2, None))
            else
              (let rw2 = rw1\<lparr>rw_n := 0\<rparr>
               in if wq_nr_sleepers V (writers_wq rw2) > 0
                  then do { (wq, b) \<leftarrow> wq_wake_up_one V (writers_wq rw2); Some (rw2\<lparr>writers_wq := wq\<rparr>, b) }
                  else if wq_nr_sleepers V (readers_wq rw2) > 0
                  then do { (wq, b) \<leftarrow> wq_wake_up_one V (readers_wq rw2); Some (rw2\<lparr>readers_wq := wq\<rparr>, b) }
                  else Some (rw2, None))))"

section \<open>The threads around it\<close>

datatype rw_phase = Rw_outside | Wait_read | Wait_write | Reading | Writing

record ('v, 'h, 'P) rsys =
  rw :: "('v, 'h) rwlock"
  rwakes :: "tid list list"
  rpools :: 'P
  rtpools :: "tid \<rightharpoonup> pool"
  rphase :: "tid \<Rightarrow> rw_phase"

definition rw_release ::
  "('v, tid) vec_ops \<Rightarrow> ('h, tid, pool) hash_ops \<Rightarrow> tid \<Rightarrow> ('v, 'h, 'P) rsys \<Rightarrow> ('v, 'h, 'P) rsys option" where
  "rw_release V HO t s =
     do {
       (l, b) \<leftarrow> rw_do_release V HO t (rw s);
       Some (s\<lparr>rw := l, rwakes := (case b of None \<Rightarrow> rwakes s | Some v \<Rightarrow> elems V v # rwakes s)\<rparr>)
     }"

fun rw_release_cleanups ::
  "('v, tid) vec_ops \<Rightarrow> ('h, tid, pool) hash_ops \<Rightarrow> addr \<Rightarrow> cleanup list \<Rightarrow> ('v, 'h, 'P) rsys
     \<Rightarrow> ('v, 'h, 'P) rsys option" where
  "rw_release_cleanups V HO a [] s = Some s"
| "rw_release_cleanups V HO a (c # cs) s =
     do {
       s1 \<leftarrow> (case c of Rwlock_do_release t b \<Rightarrow> if a = b then rw_release V HO t s else Some s | _ \<Rightarrow> Some s);
       rw_release_cleanups V HO a cs s1
     }"

text \<open>The two blocking functions, from the test of their loop on; a woken thread comes back to it.\<close>

definition rwlock_enter_read ::
  "'P pool_ops \<Rightarrow> ('v, tid) vec_ops \<Rightarrow> ('h, tid, pool) hash_ops \<Rightarrow> addr \<Rightarrow> ('v, 'h, 'P) rsys \<Rightarrow> tid
     \<Rightarrow> ('v, 'h, 'P) rsys option" where
  "rwlock_enter_read PO V HO a s t =
     do {
       pp \<leftarrow> rtpools s t;
       let (ok, l, P) = rwlock_try_enter_read PO V HO a t pp (rw s) (rpools s);
       Some (if ok then s\<lparr>rw := l, rpools := P, rphase := (rphase s)(t := Reading)\<rparr>
             else s\<lparr>rw := l\<lparr>readers_wq := wq_sleep_on V (readers_wq l) t\<rparr>, rpools := P,
                    rphase := (rphase s)(t := Wait_read)\<rparr>)
     }"

definition rwlock_enter_write ::
  "'P pool_ops \<Rightarrow> ('v, tid) vec_ops \<Rightarrow> ('h, tid, pool) hash_ops \<Rightarrow> addr \<Rightarrow> ('v, 'h, 'P) rsys \<Rightarrow> tid
     \<Rightarrow> ('v, 'h, 'P) rsys option" where
  "rwlock_enter_write PO V HO a s t =
     do {
       pp \<leftarrow> rtpools s t;
       let (ok, l, P) = rwlock_try_enter_write PO HO a t pp (rw s) (rpools s);
       Some (if ok then s\<lparr>rw := l, rpools := P, rphase := (rphase s)(t := Writing)\<rparr>
             else s\<lparr>rw := l\<lparr>writers_wq := wq_sleep_on V (writers_wq l) t\<rparr>, rpools := P,
                    rphase := (rphase s)(t := Wait_write)\<rparr>)
     }"

definition rwlock_leave ::
  "'P pool_ops \<Rightarrow> ('v, tid) vec_ops \<Rightarrow> ('h, tid, pool) hash_ops \<Rightarrow> addr \<Rightarrow> ('v, 'h, 'P) rsys \<Rightarrow> tid
     \<Rightarrow> ('v, 'h, 'P) rsys option" where
  "rwlock_leave PO V HO a s t =
     do {
       p \<leftarrow> hash_get HO (rw_pools (rw s)) t;
       let (cs, P) = delete_pool PO (rpools s) p;
       rw_release_cleanups V HO a cs (s\<lparr>rpools := P, rphase := (rphase s)(t := Rw_outside)\<rparr>)
     }"

definition rw_thread_exit ::
  "'P pool_ops \<Rightarrow> ('v, tid) vec_ops \<Rightarrow> ('h, tid, pool) hash_ops \<Rightarrow> addr \<Rightarrow> ('v, 'h, 'P) rsys \<Rightarrow> tid
     \<Rightarrow> ('v, 'h, 'P) rsys option" where
  "rw_thread_exit PO V HO a s t =
     do {
       pp \<leftarrow> rtpools s t;
       let (cs, P) = delete_pool PO (rpools s) pp;
       rw_release_cleanups V HO a cs
         (s\<lparr>rpools := P, rtpools := (rtpools s)(t := None), rphase := (rphase s)(t := Rw_outside)\<rparr>)
     }"

inductive rw_step ::
  "'P pool_ops \<Rightarrow> ('v, tid) vec_ops \<Rightarrow> ('h, tid, pool) hash_ops \<Rightarrow> addr \<Rightarrow> pool
     \<Rightarrow> ('v, 'h, 'P) rsys \<Rightarrow> ('v, 'h, 'P) rsys \<Rightarrow> bool"
  for PO V HO a g where
  Spawn: "rtpools s t = None \<Longrightarrow> rphase s t = Rw_outside \<Longrightarrow> new_subpool PO (rpools s) g = (q, P) \<Longrightarrow>
    rw_step PO V HO a g s (s\<lparr>rpools := P, rtpools := (rtpools s)(t \<mapsto> q)\<rparr>)"
| Priority: "f \<in> {rwlock_writers_have_priority, rwlock_readers_have_priority} \<Longrightarrow>
    rw_step PO V HO a g s (s\<lparr>rw := f (rw s)\<rparr>)"
| Enter_read: "rphase s t = Rw_outside \<Longrightarrow> rwlock_enter_read PO V HO a s t = Some s' \<Longrightarrow> rw_step PO V HO a g s s'"
| Enter_write: "rphase s t = Rw_outside \<Longrightarrow> rwlock_enter_write PO V HO a s t = Some s' \<Longrightarrow> rw_step PO V HO a g s s'"
| Try_read: "rphase s t = Rw_outside \<Longrightarrow> rtpools s t = Some pp \<Longrightarrow>
    rwlock_try_enter_read PO V HO a t pp (rw s) (rpools s) = (ok, l, P) \<Longrightarrow>
    rw_step PO V HO a g s (s\<lparr>rw := l, rpools := P, rphase := (rphase s)(t := if ok then Reading else Rw_outside)\<rparr>)"
| Try_write: "rphase s t = Rw_outside \<Longrightarrow> rtpools s t = Some pp \<Longrightarrow>
    rwlock_try_enter_write PO HO a t pp (rw s) (rpools s) = (ok, l, P) \<Longrightarrow>
    rw_step PO V HO a g s (s\<lparr>rw := l, rpools := P, rphase := (rphase s)(t := if ok then Writing else Rw_outside)\<rparr>)"
| Leave: "rwlock_leave PO V HO a s t = Some s' \<Longrightarrow> rw_step PO V HO a g s s'"
| Resume_read: "rwakes s = ws1 @ (t # ts) # ws2 \<Longrightarrow> rphase s t = Wait_read \<Longrightarrow>
    rwlock_enter_read PO V HO a (s\<lparr>rwakes := ws1 @ ts # ws2\<rparr>) t = Some s' \<Longrightarrow> rw_step PO V HO a g s s'"
| Resume_write: "rwakes s = ws1 @ (t # ts) # ws2 \<Longrightarrow> rphase s t = Wait_write \<Longrightarrow>
    rwlock_enter_write PO V HO a (s\<lparr>rwakes := ws1 @ ts # ws2\<rparr>) t = Some s' \<Longrightarrow> rw_step PO V HO a g s s'"
| Handler_done: "rwakes s = ws1 @ [] # ws2 \<Longrightarrow> rw_step PO V HO a g s (s\<lparr>rwakes := ws1 @ ws2\<rparr>)"
| Alarm_read: "rphase s t = Wait_read \<Longrightarrow> wq_resume V (readers_wq (rw s)) t True = Exits wq \<Longrightarrow>
    rw_thread_exit PO V HO a (s\<lparr>rw := (rw s)\<lparr>readers_wq := wq\<rparr>\<rparr>) t = Some s' \<Longrightarrow> rw_step PO V HO a g s s'"
| Alarm_write: "rphase s t = Wait_write \<Longrightarrow> wq_resume V (writers_wq (rw s)) t True = Exits wq \<Longrightarrow>
    rw_thread_exit PO V HO a (s\<lparr>rw := (rw s)\<lparr>writers_wq := wq\<rparr>\<rparr>) t = Some s' \<Longrightarrow> rw_step PO V HO a g s s'"
| Exit: "rphase s t \<notin> {Wait_read, Wait_write} \<Longrightarrow> rw_thread_exit PO V HO a s t = Some s' \<Longrightarrow> rw_step PO V HO a g s s'"

definition rw_init :: "('v, tid) vec_ops \<Rightarrow> ('h, tid, pool) hash_ops \<Rightarrow> 'P \<Rightarrow> ('v, 'h, 'P) rsys" where
  "rw_init V HO P = \<lparr>rw = \<lparr>rw_n = 0, writers_wq = new_wait_queue V, readers_wq = new_wait_queue V,
     rw_pools = hash_new HO, writers_have_priority = True\<rparr>, rwakes = [], rpools = P,
     rtpools = Map.empty, rphase = (\<lambda>_. Rw_outside)\<rparr>"

definition rw_reachable ::
  "'P pool_ops \<Rightarrow> ('v, tid) vec_ops \<Rightarrow> ('h, tid, pool) hash_ops \<Rightarrow> addr \<Rightarrow> pool \<Rightarrow> 'P \<Rightarrow> ('v, 'h, 'P) rsys \<Rightarrow> bool" where
  "rw_reachable PO V HO a g P s \<longleftrightarrow> (rw_step PO V HO a g)\<^sup>*\<^sup>* (rw_init V HO P) s"

section \<open>Invariant\<close>

text \<open>
  The pools: every thread that holds the lock has its release cleanup in the subpool that the
  hash \<open>hp\<close> records for it, below its own pool, and nowhere else.
\<close>

definition rw_pools_ok ::
  "('P \<Rightarrow> bool) \<Rightarrow> ('P \<Rightarrow> pool set) \<Rightarrow> ('P \<Rightarrow> pool \<Rightarrow> pool set) \<Rightarrow> ('P \<Rightarrow> pool \<Rightarrow> cleanup multiset)
     \<Rightarrow> addr \<Rightarrow> pool \<Rightarrow> 'P \<Rightarrow> (tid \<rightharpoonup> pool) \<Rightarrow> (tid \<rightharpoonup> pool) \<Rightarrow> bool" where
  "rw_pools_ok pinv live sub own a g P tp hp \<longleftrightarrow>
     pinv P \<and> threads_ok live sub P tp \<and> g \<in> live P \<and> (\<forall>t p. tp t = Some p \<longrightarrow> g \<notin> sub P p) \<and>
     (\<forall>t. held_in live sub own P (Rwlock_do_release t a) (hp t)) \<and>
     (\<forall>t p. hp t = Some p \<longrightarrow> (\<exists>pp. tp t = Some pp \<and> p \<in> sub P pp) \<and> (\<forall>t' p'. tp t' = Some p' \<longrightarrow> p \<noteq> p'))"

text \<open>The counter agrees with what the threads are doing.\<close>

definition rw_count_ok :: "int \<Rightarrow> (tid \<Rightarrow> rw_phase) \<Rightarrow> bool" where
  "rw_count_ok n ph \<longleftrightarrow>
     finite {t. ph t = Reading} \<and>
     (if n = -1 then {t. ph t = Reading} = {} \<and> (\<exists>w. {t. ph t = Writing} = {w})
      else n = int (card {t. ph t = Reading}) \<and> {t. ph t = Writing} = {})"

definition holds_rw :: "rw_phase \<Rightarrow> bool" where
  "holds_rw x \<longleftrightarrow> x = Reading \<or> x = Writing"

definition rw_inv ::
  "('P \<Rightarrow> bool) \<Rightarrow> ('P \<Rightarrow> pool set) \<Rightarrow> ('P \<Rightarrow> pool \<Rightarrow> pool set) \<Rightarrow> ('P \<Rightarrow> pool \<Rightarrow> cleanup multiset)
     \<Rightarrow> ('h, tid, pool) hash_ops \<Rightarrow> addr \<Rightarrow> pool \<Rightarrow> ('v, 'h, 'P) rsys \<Rightarrow> bool" where
  "rw_inv pinv live sub own HO a g s \<longleftrightarrow>
     rw_pools_ok pinv live sub own a g (rpools s) (rtpools s) (hash_get HO (rw_pools (rw s))) \<and>
     rw_count_ok (rw_n (rw s)) (rphase s) \<and>
     (\<forall>t. hash_get HO (rw_pools (rw s)) t \<noteq> None \<longleftrightarrow> holds_rw (rphase s t))"

lemma rw_count_enter_read:
  "rw_count_ok n ph \<Longrightarrow> 0 \<le> n \<Longrightarrow> \<not> holds_rw (ph t) \<Longrightarrow> rw_count_ok (n + 1) (ph(t := Reading))"
proof -
  assume a: "rw_count_ok n ph" "0 \<le> n" "\<not> holds_rw (ph t)"
  have "{u. (ph(t := Reading)) u = Reading} = insert t {u. ph u = Reading}" by auto
  moreover have "{u. (ph(t := Reading)) u = Writing} = {u. ph u = Writing}" using a(3) by (auto simp: holds_rw_def)
  ultimately show ?thesis using a by (auto simp: rw_count_ok_def holds_rw_def split: if_splits)
qed

lemma rw_count_enter_write:
  assumes "rw_count_ok 0 ph" shows "rw_count_ok (-1) (ph(t := Writing))"
proof -
  have "{u. ph u = Reading} = {}" "{u. ph u = Writing} = {}"
    using assms by (auto simp: rw_count_ok_def)
  then have "{u. (ph(t := Writing)) u = Reading} = {}" "{u. (ph(t := Writing)) u = Writing} = {t}" by auto
  then show ?thesis by (simp add: rw_count_ok_def)
qed

lemma rw_count_other:
  assumes "rw_count_ok n ph" "\<not> holds_rw (ph t)" "\<not> holds_rw x"
  shows "rw_count_ok n (ph(t := x))"
proof -
  have "{u. (ph(t := x)) u = Reading} = {u. ph u = Reading}" "{u. (ph(t := x)) u = Writing} = {u. ph u = Writing}"
    using assms(2,3) by (auto simp: holds_rw_def)
  then show ?thesis using assms(1) by (simp add: rw_count_ok_def)
qed

lemma rw_count_leave:
  assumes "rw_count_ok n ph" "holds_rw (ph t)" "\<not> holds_rw x"
  shows "n \<noteq> 0" "0 < n \<Longrightarrow> rw_count_ok (n - 1) (ph(t := x))" "n < 0 \<Longrightarrow> rw_count_ok 0 (ph(t := x))"
    "0 < n \<longleftrightarrow> ph t = Reading"
proof -
  have r: "{u. (ph(t := x)) u = Reading} = {u. ph u = Reading} - {t}"
    and w: "{u. (ph(t := x)) u = Writing} = {u. ph u = Writing} - {t}"
    using assms(3) by (auto simp: holds_rw_def)
  have "0 < n \<and> ph t = Reading \<and> rw_count_ok (n - 1) (ph(t := x)) \<or>
        n < 0 \<and> ph t = Writing \<and> rw_count_ok 0 (ph(t := x))"
  proof (cases "n = -1")
    case True
    then obtain v where v: "{u. ph u = Reading} = {}" "{u. ph u = Writing} = {v}"
      using assms(1) by (auto simp: rw_count_ok_def)
    then have "ph t = Writing" "t = v" using assms(2) by (auto simp: holds_rw_def)
    then show ?thesis using v r w True by (simp add: rw_count_ok_def)
  next
    case False
    then have c: "finite {u. ph u = Reading}" "n = int (card {u. ph u = Reading})" "{u. ph u = Writing} = {}"
      using assms(1) by (auto simp: rw_count_ok_def)
    then have t: "ph t = Reading" using assms(2) by (auto simp: holds_rw_def)
    then have "card {u. ph u = Reading} = Suc (card ({u. ph u = Reading} - {t}))"
      using c(1) by (intro card.remove) auto
    then show ?thesis using c r w t by (auto simp: rw_count_ok_def)
  qed
  then show "n \<noteq> 0" "0 < n \<Longrightarrow> rw_count_ok (n - 1) (ph(t := x))" "n < 0 \<Longrightarrow> rw_count_ok 0 (ph(t := x))"
    "0 < n \<longleftrightarrow> ph t = Reading" by auto
qed

context c2_pool
begin

abbreviation (input) pools_ok where "pools_ok \<equiv> rw_pools_ok pinv live sub own"

lemma rw_take:
  assumes p: "pools_ok a g P tp hp" and t: "tp t = Some pp" "hp t = None"
    and new: "new_subpool PO P pp = (q, P1)" and P': "P' = register_cleanup_fn PO P1 q (Rwlock_do_release t a)"
  shows "pools_ok a g P' tp (hp(t \<mapsto> q))"
proof -
  have inv: "pinv P" "threads_ok live sub P tp" "g \<in> live P" "\<And>t p. tp t = Some p \<Longrightarrow> g \<notin> sub P p"
    "\<And>t. held_in live sub own P (Rwlock_do_release t a) (hp t)"
    "\<And>t p. hp t = Some p \<Longrightarrow> (\<exists>pp. tp t = Some pp \<and> p \<in> sub P pp)"
    "\<And>t p t' p'. hp t = Some p \<Longrightarrow> tp t' = Some p' \<Longrightarrow> p \<noteq> p'"
    using p unfolding rw_pools_ok_def by blast+
  have lv: "\<And>u p. tp u = Some p \<Longrightarrow> p \<in> live P" using inv(2) unfolding threads_ok_def by blast
  have pp: "pp \<in> live P" using lv t(1) .
  note ns = new_subpool [OF inv(1) pp new]
  note tl = take_lock [OF inv(1,2) t(1) new P']
  have q1: "q \<in> live P1" "pinv P1" using ns by auto
  note rc = register_cleanup [OF q1(2,1), of "Rwlock_do_release t a"]
  have g: "g \<in> live P'" "g \<noteq> q" using ns rc inv(3) P' by auto
  have up: "sub P p \<subseteq> sub P' p \<and> sub P' p \<subseteq> insert q (sub P p)" if "p \<in> live P" for p
    using ns rc that P' by auto
  have gs: "g \<notin> sub P' p" if "tp u = Some p" for u p
    using up [OF lv [OF that]] inv(4) [OF that] g(2) by blast
  have hl: "held_in live sub own P' (Rwlock_do_release u a) ((hp(t \<mapsto> q)) u)" for u
  proof (cases "u = t")
    case True
    then show ?thesis using tl(5) inv(5) [of t] t(2) by simp
  next
    case False
    have "\<forall>p. hp u = Some p \<longrightarrow> p \<noteq> pp" using inv(7) t(1) by blast
    then show ?thesis using tl(6) [of "Rwlock_do_release u a" "hp u"] inv(5) False by simp
  qed
  have hs: "(\<exists>pp. tp u = Some pp \<and> p \<in> sub P' pp) \<and> (\<forall>t' p'. tp t' = Some p' \<longrightarrow> p \<noteq> p')"
    if "(hp(t \<mapsto> q)) u = Some p" for u p
  proof (cases "u = t")
    case True
    then show ?thesis using that tl(4) t(1) ns lv by fastforce
  next
    case False
    then have h: "hp u = Some p" using that by simp
    then obtain r where r: "tp u = Some r" "p \<in> sub P r" using inv(6) by blast
    then show ?thesis using up [OF lv [OF r(1)]] inv(7) [OF h] by blast
  qed
  show ?thesis unfolding rw_pools_ok_def using tl(1,2) g(1) gs hl hs by blast
qed

lemma rw_delete:
  assumes p: "pools_ok a g P tp hp" and x: "x \<in> live P" "g \<notin> sub P x" and del: "delete_pool PO P x = (cs, P')"
    and tp': "\<forall>u q. tp' u = Some q \<longrightarrow> tp u = Some q \<and> q \<notin> sub P x"
    and hp': "\<And>u. hp' u = (if \<exists>q. hp u = Some q \<and> q \<in> sub P x then None else hp u)"
    and keep: "\<And>u q. hp' u = Some q \<Longrightarrow> tp' u = tp u"
  shows "pools_ok a g P' tp' hp'"
    "\<And>u. count (mset cs) (Rwlock_do_release u a) = (if \<exists>q. hp u = Some q \<and> q \<in> sub P x then 1 else 0)"
proof -
  have inv: "pinv P" "threads_ok live sub P tp" "g \<in> live P" "\<And>t p. tp t = Some p \<Longrightarrow> g \<notin> sub P p"
    "\<And>t. held_in live sub own P (Rwlock_do_release t a) (hp t)"
    "\<And>t p. hp t = Some p \<Longrightarrow> (\<exists>pp. tp t = Some pp \<and> p \<in> sub P pp)"
    "\<And>t p t' p'. hp t = Some p \<Longrightarrow> tp t' = Some p' \<Longrightarrow> p \<noteq> p'"
    using p unfolding rw_pools_ok_def by blast+
  note d = delete_pool [OF inv(1) x(1) del]
  note th = delete_threads_ok [OF inv(1) x(1) del inv(2) tp']
  show cnt: "\<And>u. count (mset cs) (Rwlock_do_release u a) = (if \<exists>q. hp u = Some q \<and> q \<in> sub P x then 1 else 0)"
    by (rule delete_holder(1) [OF inv(1) x(1) del inv(5)])
  have hl: "held_in live sub own P' (Rwlock_do_release u a) (hp' u)" for u
    using delete_holder(2) [OF inv(1) x(1) del inv(5) [of u]] unfolding hp' .
  have gs: "g \<notin> sub P' q" if "tp' u = Some q" for u q
    using th(2) that tp' inv(4) by blast
  have hs: "(\<exists>pp. tp' u = Some pp \<and> q \<in> sub P' pp) \<and> (\<forall>t' p'. tp' t' = Some p' \<longrightarrow> q \<noteq> p')"
    if "hp' u = Some q" for u q
  proof -
    have h: "hp u = Some q" "q \<notin> sub P x" using that hp' [of u] by (auto split: if_splits)
    obtain r where r: "tp u = Some r" "q \<in> sub P r" using inv(6) [OF h(1)] by blast
    then have "tp' u = Some r" using keep [OF that] by simp
    then have "q \<in> sub P' r" using th(2) r h(2) by blast
    then show ?thesis using \<open>tp' u = Some r\<close> inv(7) [OF h(1)] tp' by blast
  qed
  have "pinv P'" "g \<in> live P'" using d inv(3) x(2) by auto
  then show "pools_ok a g P' tp' hp'" unfolding rw_pools_ok_def using th(1) gs hl hs by blast
qed

end

section \<open>Every step keeps the invariant\<close>

locale rw_env = tid_vector V + c2_hash HO + c2_pool PO pinv live sub own
  for V :: "('v, tid) vec_ops" and HO :: "('h, tid, pool) hash_ops" and PO :: "'P pool_ops" and pinv live sub own
begin

abbreviation (input) inv where "inv \<equiv> rw_inv pinv live sub own HO"
abbreviation (input) held where "held s \<equiv> hash_get HO (rw_pools (rw s))"

lemma wake_one_total:
  assumes "wq_nr_sleepers V q > 0"
  shows "\<exists>q' b. wq_wake_up_one V q = Some (q', b)"
proof -
  have "sleeping V q \<noteq> []" using assms unfolding wq.nr_ids by blast
  then show ?thesis using wq.one_ok by blast
qed

lemma do_release_spec:
  assumes "hash_get HO (rw_pools r) t \<noteq> None" "rw_n r \<noteq> 0"
  shows "\<exists>l b. rw_do_release V HO t r = Some (l, b) \<and> rw_n l = (if rw_n r > 0 then rw_n r - 1 else 0) \<and>
    hash_get HO (rw_pools l) = (hash_get HO (rw_pools r))(t := None)"
proof -
  obtain h found where e: "hash_erase HO (rw_pools r) t = (h, found)" by fastforce
  have f: "found" "hash_get HO h = (hash_get HO (rw_pools r))(t := None)"
    using erase_found [of "rw_pools r" t] get_erase [of "rw_pools r" t] assms(1) e by simp_all
  have w: "\<exists>q' b. wq_wake_up_one V (writers_wq r) = Some (q', b)" if "wq_nr_sleepers V (writers_wq r) > 0"
    using wake_one_total [OF that] .
  have rd: "\<exists>q' b. wq_wake_up_one V (readers_wq r) = Some (q', b)" if "wq_nr_sleepers V (readers_wq r) > 0"
    using wake_one_total [OF that] .
  show ?thesis
  proof (cases "rw_n r > 0")
    case True
    then show ?thesis using e f w assms(2) by (auto simp: rw_do_release_def Let_def)
  next
    case False
    show ?thesis
    proof (cases "wq_nr_sleepers V (writers_wq r) > 0")
      case True
      then show ?thesis using e f w False assms(2) by (auto simp: rw_do_release_def Let_def)
    next
      case wf: False
      then show ?thesis
        using e f rd False assms(2)
        by (cases "wq_nr_sleepers V (readers_wq r) > 0") (auto simp: rw_do_release_def Let_def)
    qed
  qed
qed

lemma cleanups_none:
  "\<forall>u. count (mset cs) (Rwlock_do_release u a) = 0 \<Longrightarrow> rw_release_cleanups V HO a cs s = Some s"
proof (induction cs arbitrary: s)
  case (Cons c cs)
  have "\<forall>u. count (mset cs) (Rwlock_do_release u a) = 0" "\<And>u. c \<noteq> Rwlock_do_release u a"
    using Cons.prems by (auto split: if_splits)
  then show ?case using Cons.IH by (cases c) auto
qed simp

lemma cleanups_once:
  "\<forall>u. count (mset cs) (Rwlock_do_release u a) = (if u = t then 1 else 0) \<Longrightarrow>
     rw_release_cleanups V HO a cs s = rw_release V HO t s"
proof (induction cs arbitrary: s)
  case Nil
  from Nil [rule_format, of t] show ?case by simp
next
  case (Cons c cs)
  show ?case
  proof (cases "\<exists>u. c = Rwlock_do_release u a")
    case True
    then obtain u where u: "c = Rwlock_do_release u a" by blast
    have "u = t" using Cons.prems [rule_format, of u] u by (auto split: if_splits)
    moreover have "\<forall>v. count (mset cs) (Rwlock_do_release v a) = 0"
      using Cons.prems u \<open>u = t\<close> by (auto split: if_splits)
    ultimately show ?thesis using u by (cases "rw_release V HO t s") (simp_all add: cleanups_none)
  next
    case False
    then have "\<forall>u. count (mset cs) (Rwlock_do_release u a) = (if u = t then 1 else 0)"
      using Cons.prems by (auto split: if_splits)
    then show ?thesis using Cons.IH False by (cases c) auto
  qed
qed

lemma do_enter_inv:
  assumes i: "inv a g s" and t: "\<not> holds_rw (rphase s t)" "rtpools s t = Some pp"
    and e: "rw_do_enter PO HO a t pp (rw s) (rpools s) = (l, P)"
    and c: "rw_count_ok n (ph(t := x))" "holds_rw x" and ph: "ph = rphase s"
  shows "inv a g (s\<lparr>rw := l\<lparr>rw_n := n\<rparr>, rpools := P, rphase := ph(t := x)\<rparr>)"
proof -
  obtain q P1 where new: "new_subpool PO (rpools s) pp = (q, P1)" by fastforce
  have l: "l = (rw s)\<lparr>rw_pools := hash_insert HO (rw_pools (rw s)) t q\<rparr>"
    "P = register_cleanup_fn PO P1 q (Rwlock_do_release t a)"
    using e new by (auto simp: rw_do_enter_def)
  have p: "rw_pools_ok pinv live sub own a g (rpools s) (rtpools s) (held s)" and
    h: "\<And>t. held s t \<noteq> None \<longleftrightarrow> holds_rw (rphase s t)"
    using i by (auto simp: rw_inv_def)
  have "held s t = None" using h t(1) by blast
  note tk = rw_take [OF p t(2) this new l(2)]
  have "hash_get HO (rw_pools (l\<lparr>rw_n := n\<rparr>)) = (held s)(t \<mapsto> q)" by (simp add: l get_insert)
  then show ?thesis using tk c h by (simp add: rw_inv_def ph)
qed

lemma rw_inv_frame:
  assumes i: "inv a g s" and "rw_pools l = rw_pools (rw s)" "rw_n l = rw_n (rw s)"
    and "\<not> holds_rw (rphase s t)" "\<not> holds_rw x"
  shows "inv a g (s\<lparr>rw := l, rwakes := ws, rphase := (rphase s)(t := x)\<rparr>)"
  using assms rw_count_other [of "rw_n (rw s)" "rphase s" t x] by (auto simp: rw_inv_def)

lemma try_read_inv:
  assumes i: "inv a g s" and t: "\<not> holds_rw (rphase s t)" "rtpools s t = Some pp"
    and e: "rwlock_try_enter_read PO V HO a t pp (rw s) (rpools s) = (ok, l, P)"
  shows "if ok then inv a g (s\<lparr>rw := l, rpools := P, rphase := (rphase s)(t := Reading)\<rparr>)
         else l = rw s \<and> P = rpools s"
proof (cases ok)
  case True
  obtain l1 P1 where d: "rw_do_enter PO HO a t pp (rw s) (rpools s) = (l1, P1)" by fastforce
  have n: "rw_n (rw s) \<ge> 0" using e True by (auto simp: rwlock_try_enter_read_def split: if_splits)
  have l: "l = l1\<lparr>rw_n := rw_n l1 + 1\<rparr>" "P = P1" "rw_n l1 = rw_n (rw s)"
    using e True d by (auto simp: rwlock_try_enter_read_def rw_do_enter_def split: if_splits prod.splits)
  have "rw_count_ok (rw_n (rw s) + 1) ((rphase s)(t := Reading))"
    using i n t(1) by (intro rw_count_enter_read) (auto simp: rw_inv_def)
  then show ?thesis
    using do_enter_inv [OF i t d _ _ refl, of "rw_n (rw s) + 1" Reading] True l by (simp add: holds_rw_def)
next
  case False
  then show ?thesis using e by (auto simp: rwlock_try_enter_read_def split: if_splits prod.splits)
qed

lemma try_write_inv:
  assumes i: "inv a g s" and t: "\<not> holds_rw (rphase s t)" "rtpools s t = Some pp"
    and e: "rwlock_try_enter_write PO HO a t pp (rw s) (rpools s) = (ok, l, P)"
  shows "if ok then inv a g (s\<lparr>rw := l, rpools := P, rphase := (rphase s)(t := Writing)\<rparr>)
         else l = rw s \<and> P = rpools s"
proof (cases ok)
  case True
  obtain l1 P1 where d: "rw_do_enter PO HO a t pp (rw s) (rpools s) = (l1, P1)" by fastforce
  have n: "rw_n (rw s) = 0" using e True by (auto simp: rwlock_try_enter_write_def split: if_splits)
  have l: "l = l1\<lparr>rw_n := -1\<rparr>" "P = P1"
    using e True d by (auto simp: rwlock_try_enter_write_def split: if_splits prod.splits)
  have "rw_count_ok (-1) ((rphase s)(t := Writing))"
    using i n by (intro rw_count_enter_write) (auto simp: rw_inv_def)
  then show ?thesis
    using do_enter_inv [OF i t d _ _ refl, of "-1" Writing] True l by (simp add: holds_rw_def)
next
  case False
  then show ?thesis using e by (auto simp: rwlock_try_enter_write_def split: if_splits prod.splits)
qed

lemma enter_read_inv:
  assumes i: "inv a g s" and t: "\<not> holds_rw (rphase s t)" and e: "rwlock_enter_read PO V HO a s t = Some s'"
  shows "inv a g s'"
proof -
  obtain pp where pp: "rtpools s t = Some pp" using e by (auto simp: rwlock_enter_read_def bind_eq_Some_conv)
  obtain ok l P where tr: "rwlock_try_enter_read PO V HO a t pp (rw s) (rpools s) = (ok, l, P)"
    using prod_cases3 by blast
  have c: "if ok then inv a g (s\<lparr>rw := l, rpools := P, rphase := (rphase s)(t := Reading)\<rparr>)
         else l = rw s \<and> P = rpools s" by (rule try_read_inv [OF i t pp tr])
  show ?thesis
  proof (cases ok)
    case True
    then show ?thesis using c e pp tr by (simp add: rwlock_enter_read_def)
  next
    case False
    let ?l = "(rw s)\<lparr>readers_wq := wq_sleep_on V (readers_wq (rw s)) t\<rparr>"
    have "s' = s\<lparr>rw := ?l, rwakes := rwakes s, rphase := (rphase s)(t := Wait_read)\<rparr>"
      using c False e pp tr by (simp add: rwlock_enter_read_def)
    then show ?thesis using rw_inv_frame [OF i, of ?l t Wait_read "rwakes s"] t by (simp add: holds_rw_def)
  qed
qed

lemma enter_write_inv:
  assumes i: "inv a g s" and t: "\<not> holds_rw (rphase s t)" and e: "rwlock_enter_write PO V HO a s t = Some s'"
  shows "inv a g s'"
proof -
  obtain pp where pp: "rtpools s t = Some pp" using e by (auto simp: rwlock_enter_write_def bind_eq_Some_conv)
  obtain ok l P where tr: "rwlock_try_enter_write PO HO a t pp (rw s) (rpools s) = (ok, l, P)"
    using prod_cases3 by blast
  have c: "if ok then inv a g (s\<lparr>rw := l, rpools := P, rphase := (rphase s)(t := Writing)\<rparr>)
         else l = rw s \<and> P = rpools s" by (rule try_write_inv [OF i t pp tr])
  show ?thesis
  proof (cases ok)
    case True
    then show ?thesis using c e pp tr by (simp add: rwlock_enter_write_def)
  next
    case False
    let ?l = "(rw s)\<lparr>writers_wq := wq_sleep_on V (writers_wq (rw s)) t\<rparr>"
    have "s' = s\<lparr>rw := ?l, rwakes := rwakes s, rphase := (rphase s)(t := Wait_write)\<rparr>"
      using c False e pp tr by (simp add: rwlock_enter_write_def)
    then show ?thesis using rw_inv_frame [OF i, of ?l t Wait_write "rwakes s"] t by (simp add: holds_rw_def)
  qed
qed

lemma release_inv:
  assumes p: "rw_pools_ok pinv live sub own a g (rpools s1) (rtpools s1) ((held s1)(t := None))"
    and c: "rw_count_ok (rw_n (rw s1)) ph" "holds_rw (ph t)" and h: "\<And>u. held s1 u \<noteq> None \<longleftrightarrow> holds_rw (ph u)"
    and ph: "rphase s1 = ph(t := Rw_outside)"
  shows "\<exists>s'. rw_release V HO t s1 = Some s' \<and> inv a g s' \<and> rtpools s' = rtpools s1 \<and> rphase s' = rphase s1 \<and>
    rw_n (rw s') = (if ph t = Reading then rw_n (rw s1) - 1 else 0)"
proof -
  have o: "\<not> holds_rw Rw_outside" by (simp add: holds_rw_def)
  note cl = rw_count_leave [OF c o]
  have "held s1 t \<noteq> None" using h c(2) by blast
  then obtain l b where r: "rw_do_release V HO t (rw s1) = Some (l, b)"
    "rw_n l = (if rw_n (rw s1) > 0 then rw_n (rw s1) - 1 else 0)"
    "hash_get HO (rw_pools l) = (held s1)(t := None)"
    using do_release_spec cl(1) by blast
  let ?s = "s1\<lparr>rw := l, rwakes := (case b of None \<Rightarrow> rwakes s1 | Some v \<Rightarrow> elems V v # rwakes s1)\<rparr>"
  have "rw_count_ok (rw_n l) (ph(t := Rw_outside))"
    using cl(1-3) r(2) by (cases "rw_n (rw s1) > 0") auto
  then have "inv a g ?s" using p r(3) h o by (simp add: rw_inv_def ph)
  then show ?thesis using r cl(4) by (intro exI [of _ ?s]) (simp add: rw_release_def)
qed

lemma leave_spec:
  assumes i: "inv a g s" and t: "holds_rw (rphase s t)"
  shows "\<exists>s'. rwlock_leave PO V HO a s t = Some s' \<and> inv a g s' \<and> rphase s' = (rphase s)(t := Rw_outside) \<and>
    rw_n (rw s') = (if rphase s t = Reading then rw_n (rw s) - 1 else 0)"
proof -
  have p: "rw_pools_ok pinv live sub own a g (rpools s) (rtpools s) (held s)" and
    c: "rw_count_ok (rw_n (rw s)) (rphase s)" and h: "\<And>t. held s t \<noteq> None \<longleftrightarrow> holds_rw (rphase s t)"
    using i by (auto simp: rw_inv_def)
  obtain x where x: "held s t = Some x" using h t by blast
  have sg: "single live sub own (rpools s) x (Rwlock_do_release u a)" if "held s u = Some x" for u
    using p that held_inD(2) unfolding rw_pools_ok_def by metis
  have sx: "x \<in> live (rpools s)" "sub (rpools s) x = {x}" using sg [OF x] by (auto simp: single_def)
  have other: "u = t" if "held s u = Some x" for u
    using sg [OF x] sg [OF that] by (simp add: single_def)
  have g: "g \<noteq> x" and nt: "\<And>u q. rtpools s u = Some q \<Longrightarrow> q \<noteq> x"
    using p x unfolding rw_pools_ok_def by blast+
  have gx: "g \<notin> sub (rpools s) x" using g sx by simp
  have out: "\<forall>u q. rtpools s u = Some q \<longrightarrow> rtpools s u = Some q \<and> q \<notin> sub (rpools s) x"
    using nt sx by auto
  have in_x: "(\<exists>q. held s u = Some q \<and> q \<in> sub (rpools s) x) \<longleftrightarrow> u = t" for u
    using other x unfolding sx(2) by blast
  have hp: "((held s)(t := None)) u = (if \<exists>q. held s u = Some q \<and> q \<in> sub (rpools s) x then None else held s u)" for u
    unfolding in_x by simp
  obtain cs P where del: "delete_pool PO (rpools s) x = (cs, P)" by fastforce
  have d: "rw_pools_ok pinv live sub own a g P (rtpools s) ((held s)(t := None))"
    "\<And>u. count (mset cs) (Rwlock_do_release u a) = (if \<exists>q. held s u = Some q \<and> q \<in> sub (rpools s) x then 1 else 0)"
    by (rule rw_delete [OF p sx(1) gx del out hp]; simp split: if_splits)+
  have cnt: "\<forall>u. count (mset cs) (Rwlock_do_release u a) = (if u = t then 1 else 0)"
    unfolding d(2) in_x by simp
  let ?s = "s\<lparr>rpools := P, rphase := (rphase s)(t := Rw_outside)\<rparr>"
  have "rwlock_leave PO V HO a s t = rw_release V HO t ?s"
    using x del cleanups_once [OF cnt, of ?s] by (simp add: rwlock_leave_def)
  then show ?thesis using release_inv [of a g ?s t "rphase s"] d(1) c t h by auto
qed

lemma exit_spec:
  assumes i: "inv a g s" and pp: "rtpools s t = Some pp"
  shows "\<exists>s'. rw_thread_exit PO V HO a s t = Some s' \<and> inv a g s' \<and> rphase s' = (rphase s)(t := Rw_outside) \<and>
    rw_n (rw s') = (if rphase s t = Reading then rw_n (rw s) - 1 else if rphase s t = Writing then 0 else rw_n (rw s))"
proof -
  have p: "rw_pools_ok pinv live sub own a g (rpools s) (rtpools s) (held s)" and
    c: "rw_count_ok (rw_n (rw s)) (rphase s)" and h: "\<And>t. held s t \<noteq> None \<longleftrightarrow> holds_rw (rphase s t)"
    using i by (auto simp: rw_inv_def)
  have th: "threads_ok live sub (rpools s) (rtpools s)" and pi: "pinv (rpools s)"
    and g: "g \<notin> sub (rpools s) pp" using p pp unfolding rw_pools_ok_def by blast+
  have lv: "\<And>u q. rtpools s u = Some q \<Longrightarrow> q \<in> live (rpools s)" using th unfolding threads_ok_def by blast
  have in_sub: "(\<exists>q. held s u = Some q \<and> q \<in> sub (rpools s) pp) \<longleftrightarrow> u = t \<and> held s t \<noteq> None" for u
  proof (cases "held s u")
    case (Some q)
    then obtain r where r: "rtpools s u = Some r" "q \<in> sub (rpools s) r"
      using p unfolding rw_pools_ok_def by blast
    then show ?thesis using sub_disjoint [OF th r(1) pp] pp Some by (cases "u = t") auto
  qed auto
  have out: "\<forall>u q. ((rtpools s)(t := None)) u = Some q \<longrightarrow> rtpools s u = Some q \<and> q \<notin> sub (rpools s) pp"
    by (rule others_outside [OF pi th pp])
  have hp: "((held s)(t := None)) u = (if \<exists>q. held s u = Some q \<and> q \<in> sub (rpools s) pp then None else held s u)" for u
    using in_sub [of u] by auto
  obtain cs P where del: "delete_pool PO (rpools s) pp = (cs, P)" by fastforce
  have d: "rw_pools_ok pinv live sub own a g P ((rtpools s)(t := None)) ((held s)(t := None))"
    "\<And>u. count (mset cs) (Rwlock_do_release u a) = (if \<exists>q. held s u = Some q \<and> q \<in> sub (rpools s) pp then 1 else 0)"
    by (rule rw_delete [OF p lv [OF pp] g del out hp]; simp split: if_splits)+
  let ?s = "s\<lparr>rpools := P, rtpools := (rtpools s)(t := None), rphase := (rphase s)(t := Rw_outside)\<rparr>"
  have ex: "rw_thread_exit PO V HO a s t = rw_release_cleanups V HO a cs ?s"
    using pp del by (simp add: rw_thread_exit_def)
  show ?thesis
  proof (cases "holds_rw (rphase s t)")
    case True
    then have "\<forall>u. count (mset cs) (Rwlock_do_release u a) = (if u = t then 1 else 0)"
      unfolding d(2) in_sub using h by auto
    then have "rw_thread_exit PO V HO a s t = rw_release V HO t ?s" using ex cleanups_once by metis
    then show ?thesis using release_inv [of a g ?s t "rphase s"] d(1) c True h by (auto simp: holds_rw_def)
  next
    case False
    then have n: "held s t = None" using h by blast
    then have "\<forall>u. count (mset cs) (Rwlock_do_release u a) = 0" unfolding d(2) in_sub by simp
    then have e: "rw_thread_exit PO V HO a s t = Some ?s" using ex cleanups_none by metis
    have same: "(held s)(t := None) = held s" using n by auto
    have "inv a g ?s"
      using d(1) h False rw_count_other [OF c False, of Rw_outside] unfolding same by (simp add: rw_inv_def holds_rw_def)
    then show ?thesis using e False by (intro exI [of _ ?s]) (simp add: holds_rw_def)
  qed
qed

end

context c2_pool
begin

lemma rw_spawn:
  assumes p: "pools_ok a g P tp hp" and new: "new_subpool PO P g = (q, P')" and t: "tp t = None"
  shows "pools_ok a g P' (tp(t \<mapsto> q)) hp"
proof -
  have inv: "pinv P" "threads_ok live sub P tp" "g \<in> live P" "\<forall>t p. tp t = Some p \<longrightarrow> g \<notin> sub P p"
    "\<And>t. held_in live sub own P (Rwlock_do_release t a) (hp t)"
    "\<And>t p. hp t = Some p \<Longrightarrow> (\<exists>pp. tp t = Some pp \<and> p \<in> sub P pp)"
    "\<And>t p t' p'. hp t = Some p \<Longrightarrow> tp t' = Some p' \<Longrightarrow> p \<noteq> p'"
    using p unfolding rw_pools_ok_def by blast+
  note sp = spawn_thread [OF inv(1-4) new] and ns = new_subpool [OF inv(1,3) new]
  have g: "g \<in> live P'" "g \<noteq> q" "q \<notin> live P" using ns inv(3) by auto
  have gs: "g \<notin> sub P' p'" if "(tp(t \<mapsto> q)) t' = Some p'" for t' p'
    using that sp(3) [of t' p'] sp(4) inv(4) g by (cases "t' = t") auto
  have pl: "p \<in> live P" "p \<noteq> g" if "hp u = Some p" for u p
  proof -
    show "p \<in> live P" using inv(5) [of u] that held_inD(2) unfolding single_def by metis
    show "p \<noteq> g" using inv(4,6) that by blast
  qed
  have hl: "held_in live sub own P' (Rwlock_do_release u a) (hp u)" for u
    using sp(5) [OF inv(5)] pl(2) by blast
  have hs: "(\<exists>pp. (tp(t \<mapsto> q)) u = Some pp \<and> p \<in> sub P' pp) \<and> (\<forall>t' p'. (tp(t \<mapsto> q)) t' = Some p' \<longrightarrow> p \<noteq> p')"
    if "hp u = Some p" for u p
  proof -
    note h = that
    obtain r where r: "tp u = Some r" "p \<in> sub P r" using inv(6) [OF h] by blast
    then have "(tp(t \<mapsto> q)) u = Some r" "p \<in> sub P' r" using t sp(3) [OF r(1)] by auto
    moreover have "p \<noteq> q" using pl(1) [OF h] g(3) by blast
    ultimately show ?thesis using inv(7) [OF h] by auto
  qed
  show ?thesis unfolding rw_pools_ok_def using sp(1,2) g(1) gs hl hs by blast
qed

end

lemma rw_enter_phase:
  "rwlock_enter_read PO V HO a (s\<lparr>rphase := (rphase s)(t := x)\<rparr>) t = rwlock_enter_read PO V HO a s t"
  "rwlock_enter_write PO V HO a (s\<lparr>rphase := (rphase s)(t := x)\<rparr>) t = rwlock_enter_write PO V HO a s t"
  by (cases "rtpools s t"; auto simp: rwlock_enter_read_def rwlock_enter_write_def split: prod.splits)+

context rw_env
begin

lemma init_inv:
  assumes "pinv P" "g \<in> live P" "\<And>t. held_in live sub own P (Rwlock_do_release t a) None"
  shows "inv a g (rw_init V HO P)"
  using assms by (simp add: rw_init_def rw_inv_def rw_pools_ok_def threads_ok_def rw_count_ok_def get_new holds_rw_def)

lemma step_inv:
  assumes st: "rw_step PO V HO a g s s'" and i: "inv a g s"
  shows "inv a g s'"
proof -
  have wait: "inv a g (s\<lparr>rw := l, rwakes := ws\<rparr>)"
    if "rw_pools l = rw_pools (rw s)" "rw_n l = rw_n (rw s)" for l ws
    using i that by (simp add: rw_inv_def)
  have out: "inv a g s1" if "rw_thread_exit PO V HO a s0 t = Some s1" "inv a g s0" for s0 s1 t
  proof -
    note h = that
    obtain pp where "rtpools s0 t = Some pp" using h(1) by (auto simp: rw_thread_exit_def bind_eq_Some_conv)
    then show ?thesis using exit_spec [OF h(2), of t pp] h(1) by auto
  qed
  show ?thesis using st
  proof (cases rule: rw_step.cases)
    case (Spawn t q P)
    then show ?thesis using i rw_spawn by (auto simp: rw_inv_def)
  next
    case (Priority f)
    then show ?thesis
      using i by (auto simp: rw_inv_def rwlock_writers_have_priority_def rwlock_readers_have_priority_def)
  next
    case (Enter_read t)
    show ?thesis using enter_read_inv [OF i _ Enter_read(2)] Enter_read(1) by (simp add: holds_rw_def)
  next
    case (Enter_write t)
    show ?thesis using enter_write_inv [OF i _ Enter_write(2)] Enter_write(1) by (simp add: holds_rw_def)
  next
    case (Try_read t pp ok l P)
    then have "\<not> holds_rw (rphase s t)" by (simp add: holds_rw_def)
    note tr = try_read_inv [OF i this Try_read(3,4)]
    have same: "(rphase s)(t := Rw_outside) = rphase s" using Try_read(2) by auto
    show ?thesis using tr Try_read(1) i same by (cases ok) simp_all
  next
    case (Try_write t pp ok l P)
    then have "\<not> holds_rw (rphase s t)" by (simp add: holds_rw_def)
    note tr = try_write_inv [OF i this Try_write(3,4)]
    have same: "(rphase s)(t := Rw_outside) = rphase s" using Try_write(2) by auto
    show ?thesis using tr Try_write(1) i same by (cases ok) simp_all
  next
    case (Leave t)
    then obtain p where "held s t = Some p" by (auto simp: rwlock_leave_def bind_eq_Some_conv)
    then have "holds_rw (rphase s t)" using i by (force simp: rw_inv_def)
    then show ?thesis using leave_spec [OF i] Leave by fastforce
  next
    case (Resume_read ws1 t ts ws2)
    have "inv a g (s\<lparr>rwakes := ws1 @ ts # ws2\<rparr>)" using wait [of "rw s" "ws1 @ ts # ws2"] by simp
    from enter_read_inv [OF this _ Resume_read(3)] show ?thesis using Resume_read(2) by (simp add: holds_rw_def)
  next
    case (Resume_write ws1 t ts ws2)
    have "inv a g (s\<lparr>rwakes := ws1 @ ts # ws2\<rparr>)" using wait [of "rw s" "ws1 @ ts # ws2"] by simp
    from enter_write_inv [OF this _ Resume_write(3)] show ?thesis using Resume_write(2) by (simp add: holds_rw_def)
  next
    case (Handler_done ws1 ws2)
    then show ?thesis using wait [of "rw s" "ws1 @ ws2"] by simp
  next
    case (Alarm_read t wq')
    then show ?thesis using out wait [of "(rw s)\<lparr>readers_wq := wq'\<rparr>" "rwakes s"] by simp
  next
    case (Alarm_write t wq')
    then show ?thesis using out wait [of "(rw s)\<lparr>writers_wq := wq'\<rparr>" "rwakes s"] by simp
  next
    case (Exit t)
    then show ?thesis using out i by blast
  qed
qed

lemma reachable_inv:
  assumes "rw_reachable PO V HO a g P s"
    and "pinv P" "g \<in> live P" "\<And>t. held_in live sub own P (Rwlock_do_release t a) None"
  shows "inv a g s"
  using assms(1) unfolding rw_reachable_def
proof (induction rule: rtranclp_induct)
  case base
  show ?case by (rule init_inv [OF assms(2-4)])
next
  case (step y z)
  then show ?case using step_inv by blast
qed

end

section \<open>Scripted runs\<close>

text \<open>A script of thread actions, executed with the functions above; every script is a run.\<close>

datatype rw_act = Do_spawn tid | Do_read tid | Do_write tid | Do_leave tid | Do_resume | Do_done

definition do_act ::
  "'P pool_ops \<Rightarrow> ('v, tid) vec_ops \<Rightarrow> ('h, tid, pool) hash_ops \<Rightarrow> addr \<Rightarrow> pool \<Rightarrow> rw_act
     \<Rightarrow> ('v, 'h, 'P) rsys \<Rightarrow> ('v, 'h, 'P) rsys option" where
  "do_act PO V HO a g x s =
     (case x of
        Do_spawn t \<Rightarrow> (if rtpools s t = None \<and> rphase s t = Rw_outside
          then (let (q, P) = new_subpool PO (rpools s) g
                in Some (s\<lparr>rpools := P, rtpools := (rtpools s)(t \<mapsto> q)\<rparr>)) else None)
      | Do_read t \<Rightarrow> (if rphase s t = Rw_outside then rwlock_enter_read PO V HO a s t else None)
      | Do_write t \<Rightarrow> (if rphase s t = Rw_outside then rwlock_enter_write PO V HO a s t else None)
      | Do_leave t \<Rightarrow> rwlock_leave PO V HO a s t
      | Do_resume \<Rightarrow> (case rwakes s of
            (t # ts) # ws \<Rightarrow>
              (if rphase s t = Wait_read then rwlock_enter_read PO V HO a (s\<lparr>rwakes := ts # ws\<rparr>) t
               else if rphase s t = Wait_write then rwlock_enter_write PO V HO a (s\<lparr>rwakes := ts # ws\<rparr>) t
               else None)
          | _ \<Rightarrow> None)
      | Do_done \<Rightarrow> (case rwakes s of [] # ws \<Rightarrow> Some (s\<lparr>rwakes := ws\<rparr>) | _ \<Rightarrow> None))"

fun do_acts ::
  "'P pool_ops \<Rightarrow> ('v, tid) vec_ops \<Rightarrow> ('h, tid, pool) hash_ops \<Rightarrow> addr \<Rightarrow> pool \<Rightarrow> rw_act list
     \<Rightarrow> ('v, 'h, 'P) rsys \<Rightarrow> ('v, 'h, 'P) rsys option" where
  "do_acts PO V HO a g [] s = Some s"
| "do_acts PO V HO a g (x # xs) s = Option.bind (do_act PO V HO a g x s) (do_acts PO V HO a g xs)"

lemma do_act_step: "do_act PO V HO a g x s = Some s' \<Longrightarrow> rw_step PO V HO a g s s'"
  unfolding do_act_def
  by (auto split: rw_act.splits if_splits prod.splits list.splits
      intro: rw_step.Spawn rw_step.Enter_read rw_step.Enter_write rw_step.Leave
        rw_step.Resume_read [of _ "[]", simplified] rw_step.Resume_write [of _ "[]", simplified]
        rw_step.Handler_done [of _ "[]", simplified])

lemma do_acts_reachable:
  assumes "do_acts PO V HO a g xs (rw_init V HO P) = Some s"
  shows "rw_reachable PO V HO a g P s"
proof -
  have "do_acts PO V HO a g xs s0 = Some s \<Longrightarrow> (rw_step PO V HO a g)\<^sup>*\<^sup>* s0 s" for s0
  proof (induction xs arbitrary: s0)
    case (Cons x xs)
    then obtain s1 where "do_act PO V HO a g x s0 = Some s1" "do_acts PO V HO a g xs s1 = Some s"
      by (auto simp: bind_eq_Some_conv)
    then show ?case using do_act_step Cons.IH by (metis converse_rtranclp_into_rtranclp)
  qed simp
  then show ?thesis using assms by (simp add: rw_reachable_def)
qed

section \<open>Properties\<close>

interpretation rw_list: rw_env list_vec alist_hash cpool_ops cpool_inv cpool_live "\<lambda>P p. set (cpool_under P p)" cpool_own
  by unfold_locales

definition rw_root_pools :: cpools where
  "rw_root_pools = \<lparr>pnext = 1, palive = (\<lambda>q. q = 0), panc = (\<lambda>_. [0]), pown = (\<lambda>_. [])\<rparr>"

lemma rw_root_pools_ok:
  "cpool_inv rw_root_pools" "0 \<in> cpool_live rw_root_pools"
  "held_in cpool_live (\<lambda>P p. set (cpool_under P p)) cpool_own rw_root_pools c None"
  by (auto simp: cpool_inv_def rw_root_pools_def cpool_live_def held_in_def cpool_own_def)

definition rw_run :: "rw_act list \<Rightarrow> (tid list, (tid \<times> pool) list, cpools) rsys option" where
  "rw_run xs = do_acts cpool_ops list_vec alist_hash 77 0 xs (rw_init list_vec alist_hash rw_root_pools)"

text \<open>Threads 2 and 3 wait to read while thread 1 writes.\<close>

definition rw_contended :: "(tid list, (tid \<times> pool) list, cpools) rsys" where
  "rw_contended = the (rw_run [Do_spawn 1, Do_spawn 2, Do_spawn 3, Do_write 1, Do_read 2, Do_read 3])"

definition rw_stranded_run :: "rw_act list" where
  "rw_stranded_run = [Do_spawn 1, Do_spawn 2, Do_spawn 3, Do_write 1, Do_read 2, Do_read 3,
     Do_leave 1, Do_resume, Do_done, Do_leave 2]"

lemma rw_contended_run: "rw_run [Do_spawn 1, Do_spawn 2, Do_spawn 3, Do_write 1, Do_read 2, Do_read 3] \<noteq> None"
  by code_simp

lemma rw_stranded_eval:
  "case rw_run rw_stranded_run of None \<Rightarrow> False | Some s \<Rightarrow>
     rw_n (rw s) = 0 \<and> rphase s 3 = Wait_read \<and> rwakes s = [] \<and> sleepers (writers_wq (rw s)) = [] \<and>
     rphase s 1 = Rw_outside \<and> rphase s 2 = Rw_outside"
  by code_simp

lemma rw_contended_reachable: "rw_reachable cpool_ops list_vec alist_hash 77 0 rw_root_pools rw_contended"
  using rw_contended_run unfolding rw_contended_def
  by (intro do_acts_reachable [where xs = "[Do_spawn 1, Do_spawn 2, Do_spawn 3, Do_write 1, Do_read 2, Do_read 3]"])
    (auto simp only: rw_run_def option.collapse option.sel)

text \<open>
  C9: readers and writers exclude each other. In every reachable state a writer is alone, and the
  counter is -1 exactly when there is a writer and otherwise the number of readers.
\<close>

theorem rwlock_exclusion:
  assumes "rw_env V HO PO pinv live sub own" "pinv P" "g \<in> live P"
    and "\<forall>t. held_in live sub own P (Rwlock_do_release t a) None" "rw_reachable PO V HO a g P s"
  shows "(\<forall>t u. rphase s t = Writing \<longrightarrow> rphase s u \<in> {Reading, Writing} \<longrightarrow> u = t) \<and>
    (rw_n (rw s) = -1 \<longleftrightarrow> (\<exists>t. rphase s t = Writing)) \<and>
    (rw_n (rw s) \<noteq> -1 \<longrightarrow> rw_n (rw s) = int (card {t. rphase s t = Reading}))"
proof -
  have "rw_count_ok (rw_n (rw s)) (rphase s)"
    using rw_env.reachable_inv [OF assms(1,5,2,3)] assms(4) by (simp add: rw_inv_def)
  then show ?thesis
    by (cases "rw_n (rw s) = -1") (auto simp: rw_count_ok_def set_eq_iff)
qed

lemma rw_contended_state: "rphase rw_contended 1 = Writing" "rphase rw_contended 2 = Wait_read" "rphase rw_contended 3 = Wait_read"
  unfolding rw_contended_def by code_simp+

theorem rwlock_exclusion_witness:
  "rphase rw_contended 1 = Writing \<and> rphase rw_contended 2 = Wait_read \<and> rw_n (rw rw_contended) = -1 \<and>
    {t. rphase rw_contended t \<in> {Reading, Writing}} = {1}"
proof -
  have "\<forall>t. held_in cpool_live (\<lambda>P p. set (cpool_under P p)) cpool_own rw_root_pools (Rwlock_do_release t 77) None"
    by (simp add: rw_root_pools_ok)
  from rwlock_exclusion [OF rw_list.rw_env_axioms rw_root_pools_ok(1,2) this rw_contended_reachable]
  show ?thesis using rw_contended_state by auto
qed

text \<open>
  a thread that ends while it holds the lock, as reader or writer, releases it: the end of the
  thread neither aborts nor fails an assertion, and the counter is adjusted once.
\<close>

theorem rwlock_released_on_exit:
  assumes "rw_env V HO PO pinv live sub own" "pinv P" "g \<in> live P"
    and "\<forall>t. held_in live sub own P (Rwlock_do_release t a) None" "rw_reachable PO V HO a g P s"
    and "rtpools s t = Some pp"
  shows "\<exists>s'. rw_thread_exit PO V HO a s t = Some s' \<and> rphase s' = (rphase s)(t := Rw_outside) \<and>
    hash_get HO (rw_pools (rw s')) t = None \<and>
    rw_n (rw s') = (if rphase s t = Reading then rw_n (rw s) - 1
                    else if rphase s t = Writing then 0 else rw_n (rw s))"
proof -
  have "rw_inv pinv live sub own HO a g s"
    using rw_env.reachable_inv [OF assms(1,5,2,3)] assms(4) by simp
  then obtain s' where s': "rw_thread_exit PO V HO a s t = Some s'" "rw_inv pinv live sub own HO a g s'"
    "rphase s' = (rphase s)(t := Rw_outside)"
    "rw_n (rw s') = (if rphase s t = Reading then rw_n (rw s) - 1
                    else if rphase s t = Writing then 0 else rw_n (rw s))"
    using rw_env.exit_spec [OF assms(1) _ assms(6)] by blast
  have "\<not> holds_rw (rphase s' t)" using s'(3) by (simp add: holds_rw_def)
  then have "hash_get HO (rw_pools (rw s')) t = None" using s'(2) unfolding rw_inv_def by blast
  with s' show ?thesis by blast
qed

lemma rw_contended_tpool: "rtpools rw_contended 1 = Some 1"
  by code_simp

theorem rwlock_released_on_exit_witness:
  "\<exists>s'. rw_thread_exit cpool_ops list_vec alist_hash 77 rw_contended 1 = Some s' \<and>
    rphase s' = (rphase rw_contended)(1 := Rw_outside) \<and> hash_get alist_hash (rw_pools (rw s')) 1 = None \<and>
    rw_n (rw s') = (if rphase rw_contended 1 = Reading then rw_n (rw rw_contended) - 1
                    else if rphase rw_contended 1 = Writing then 0 else rw_n (rw rw_contended))"
  by (rule rwlock_released_on_exit [OF rw_list.rw_env_axioms rw_root_pools_ok(1,2) _ rw_contended_reachable rw_contended_tpool])
    (simp add: rw_root_pools_ok)

text \<open>
  C10: a reader can be left sleeping on a free lock. When a writer leaves and two readers wait, only
  one of them is woken; when that one leaves, only writers are looked for. In the state that is
  reached no thread holds the lock, no wake-up is pending, and the other reader still waits.
\<close>

theorem rwlock_stranded_reader:
  "\<exists>s. rw_reachable cpool_ops list_vec alist_hash 77 0 rw_root_pools s \<and>
     rw_n (rw s) = 0 \<and> rphase s 3 = Wait_read \<and> rwakes s = [] \<and> sleepers (writers_wq (rw s)) = []"
proof (cases "rw_run rw_stranded_run")
  case None
  with rw_stranded_eval show ?thesis by simp
next
  case (Some s)
  then have "rw_reachable cpool_ops list_vec alist_hash 77 0 rw_root_pools s"
    unfolding rw_run_def by (rule do_acts_reachable)
  then show ?thesis using rw_stranded_eval Some by auto
qed

end
