(* ===== verification/Control.thy ===== *)
theory Control
  imports Prelude "HOL-Library.Monad_Syntax"
begin

text \<open>
  Control flow of code that runs inside a pseudothread. A call returns, or leaves through a
  \<open>longjmp\<close>: \<open>pth_exit\<close> jumps to the trampoline of the thread, \<open>pth_die\<close> to the innermost
  \<open>pth_catch\<close>, whose \<open>jmp_buf\<close> is named by its place on the handler stack. \<open>None\<close> stands for a
  crash, an \<open>abort\<close> or a computation that does not end.
\<close>

datatype 'a outcome = Ret 'a | Exit_thread | Jump nat

type_synonym ('w, 'a) comp = "'w \<Rightarrow> ('a outcome \<times> 'w) option"

definition retW :: "'a \<Rightarrow> ('w, 'a) comp" where
  "retW a w = Some (Ret a, w)"

definition bindW :: "('w, 'a) comp \<Rightarrow> ('a \<Rightarrow> ('w, 'b) comp) \<Rightarrow> ('w, 'b) comp" where
  "bindW m f w =
     (case m w of
        None \<Rightarrow> None
      | Some (r, w1) \<Rightarrow>
          (case r of Ret a \<Rightarrow> f a w1 | Exit_thread \<Rightarrow> Some (Exit_thread, w1) | Jump j \<Rightarrow> Some (Jump j, w1)))"

text \<open>A state change that cannot jump but may crash.\<close>

definition updW :: "('w \<Rightarrow> 'w option) \<Rightarrow> ('w, unit) comp" where
  "updW f w = (case f w of None \<Rightarrow> None | Some w1 \<Rightarrow> Some (Ret (), w1))"

definition getW :: "('w \<Rightarrow> 'a option) \<Rightarrow> ('w, 'a) comp" where
  "getW f w = (case f w of None \<Rightarrow> None | Some a \<Rightarrow> Some (Ret a, w))"

lemma bindW_ret [simp]: "bindW (retW a) f = f a"
  by (simp add: fun_eq_iff bindW_def retW_def)

lemma bindW_Ret: "m w = Some (Ret a, w1) \<Longrightarrow> bindW m f w = f a w1"
  by (simp add: bindW_def)

lemma bindW_Exit: "m w = Some (Exit_thread, w1) \<Longrightarrow> bindW m f w = Some (Exit_thread, w1)"
  by (simp add: bindW_def)

lemma bindW_Jump: "m w = Some (Jump j, w1) \<Longrightarrow> bindW m f w = Some (Jump j, w1)"
  by (simp add: bindW_def)

lemma bindW_None: "m w = None \<Longrightarrow> bindW m f w = None"
  by (simp add: bindW_def)

lemmas bindW_rules = bindW_Ret bindW_Exit bindW_Jump bindW_None

lemma bindW_assoc: "bindW (bindW m f) g = bindW m (\<lambda>a. bindW (f a) g)"
  by (auto simp: fun_eq_iff bindW_def split: option.splits outcome.splits)

lemma bindW_ret_right: "bindW m (\<lambda>a. retW a) = m"
  by (auto simp: fun_eq_iff bindW_def retW_def split: option.splits outcome.splits)

lemma bindW_RetE:
  assumes "bindW m f w = Some (Ret b, w')"
  obtains a w1 where "m w = Some (Ret a, w1)" "f a w1 = Some (Ret b, w')"
  using assms by (auto simp: bindW_def split: option.splits outcome.splits prod.splits)

lemma updW_Ret: "f w = Some w1 \<Longrightarrow> updW f w = Some (Ret (), w1)"
  by (simp add: updW_def)

lemma getW_Ret: "f w = Some a \<Longrightarrow> getW f w = Some (Ret a, w)"
  by (simp add: getW_def)

text \<open>Recursion through \<open>bindW\<close> is monotone, so loops of the sources can be partial functions.\<close>

lemma bindW_mono [partial_function_mono]:
  fixes B :: "('x \<Rightarrow> 'y option) \<Rightarrow> ('w, 'a) comp" and C :: "'a \<Rightarrow> ('x \<Rightarrow> 'y option) \<Rightarrow> ('w, 'b) comp"
  assumes "\<And>w. mono_option (\<lambda>f. B f w)" "\<And>a w. mono_option (\<lambda>f. C a f w)"
  shows "mono_option (\<lambda>f. bindW (B f) (\<lambda>a. C a f) w)"
proof (rule monotoneI)
  fix f g :: "'x \<Rightarrow> 'y option" assume fg: "fun_ord option_ord f g"
  have b: "option_ord (B f w) (B g w)" using assms(1) [of w] fg unfolding monotone_def by blast
  have c: "option_ord (C a f w1) (C a g w1)" for a w1 using assms(2) [of a w1] fg unfolding monotone_def by blast
  show "option_ord (bindW (B f) (\<lambda>a. C a f) w) (bindW (B g) (\<lambda>a. C a g) w)"
  proof (cases "B f w")
    case None
    then show ?thesis by (simp add: bindW_def flat_ord_def)
  next
    case (Some x)
    then have "B g w = Some x" using b by (auto simp: flat_ord_def)
    with Some c show ?thesis
      by (cases x; cases "fst x") (auto simp: bindW_def flat_ord_def)
  qed
qed

lemma ifW_mono [partial_function_mono]:
  assumes "mono_option (\<lambda>f. A f w)" "mono_option (\<lambda>f. B f w)"
  shows "mono_option (\<lambda>f. (if b then A f else B f) w)"
  using assms by (cases b) simp_all

end
