(* ===== verification/Stack.thy ===== *)
theory Stack
  imports Prelude
begin

text \<open>
  Thread stacks (\<open>src/src/pthr_stack.c\<close>). A stack cannot be unmapped while the thread that ends is
  still running on it, so returning a stack only notes it as pending; the next call of either
  function unmaps it. The memory mapping calls are parameters; what they are relied on for is the
  locale \<open>stack_os\<close>.
\<close>

record 'm stack_sys =
  sys_mmap :: "int \<Rightarrow> 'm \<Rightarrow> addr option \<times> 'm"
  sys_mprotect :: "addr \<Rightarrow> int \<Rightarrow> 'm \<Rightarrow> bool \<times> 'm"
  sys_munmap :: "addr \<Rightarrow> int \<Rightarrow> 'm \<Rightarrow> 'm"

record 'm stacks =
  pending_stack_base :: "addr option"
  pending_stack_size :: int
  memory :: 'm

definition GUARD_PAGE_SIZE :: int where
  "GUARD_PAGE_SIZE = 8192"

text \<open>The outer \<open>None\<close> is the \<open>abort\<close> after a failed \<open>mprotect\<close>, the inner one a failed \<open>mmap\<close>.\<close>

definition alloc_stack :: "'m stack_sys \<Rightarrow> int \<Rightarrow> 'm \<Rightarrow> (addr option \<times> 'm) option" where
  "alloc_stack S sz m =
     (case sys_mmap S sz m of
        (None, m1) \<Rightarrow> Some (None, m1)
      | (Some base, m1) \<Rightarrow>
          (let (ok, m2) = sys_mprotect S base GUARD_PAGE_SIZE m1
           in if ok then Some (Some base, m2) else None))"

definition free_stack :: "'m stack_sys \<Rightarrow> addr \<Rightarrow> int \<Rightarrow> 'm \<Rightarrow> 'm" where
  "free_stack S base sz m = sys_munmap S base sz m"

definition free_pending :: "'m stack_sys \<Rightarrow> 'm stacks \<Rightarrow> 'm stacks" where
  "free_pending S s =
     (case pending_stack_base s of
        Some base \<Rightarrow> s\<lparr>memory := free_stack S base (pending_stack_size s) (memory s), pending_stack_base := None\<rparr>
      | None \<Rightarrow> s)"

definition pth_get_stack :: "'m stack_sys \<Rightarrow> int \<Rightarrow> 'm stacks \<Rightarrow> (addr option \<times> 'm stacks) option" where
  "pth_get_stack S sz s =
     (let s1 = free_pending S s
      in case alloc_stack S sz (memory s1) of
           None \<Rightarrow> None
         | Some (base, m) \<Rightarrow> Some (base, s1\<lparr>memory := m\<rparr>))"

definition pth_return_stack :: "'m stack_sys \<Rightarrow> addr \<Rightarrow> int \<Rightarrow> 'm stacks \<Rightarrow> 'm stacks" where
  "pth_return_stack S base sz s =
     (free_pending S s)\<lparr>pending_stack_base := Some base, pending_stack_size := sz\<rparr>"

section \<open>The pending stack\<close>

text \<open>
  \<open>maps m\<close> are the mapped regions by base address. Unmapping a region with its own size removes
  exactly that region.
\<close>

locale stack_os =
  fixes S :: "'m stack_sys" and maps :: "'m \<Rightarrow> addr \<rightharpoonup> int"
  assumes mmap_ok: "sys_mmap S sz m = (Some base, m1) \<Longrightarrow> maps m base = None \<and> maps m1 = (maps m)(base \<mapsto> sz)"
    and mmap_fail: "sys_mmap S sz m = (None, m1) \<Longrightarrow> maps m1 = maps m"
    and mprotect: "sys_mprotect S base n m = (ok, m1) \<Longrightarrow> maps m1 = maps m"
    and munmap: "maps m base = Some sz \<Longrightarrow> maps (sys_munmap S base sz m) = (maps m)(base := None)"
begin

text \<open>The mapped regions are the stacks in use and the pending one.\<close>

definition stacks_inv :: "(addr \<rightharpoonup> int) \<Rightarrow> 'm stacks \<Rightarrow> bool" where
  "stacks_inv used s \<longleftrightarrow>
     (case pending_stack_base s of
        None \<Rightarrow> maps (memory s) = used
      | Some b \<Rightarrow> used b = None \<and> maps (memory s) = used(b \<mapsto> pending_stack_size s))"

lemma free_pending_inv:
  "stacks_inv used s \<Longrightarrow> maps (memory (free_pending S s)) = used \<and> pending_stack_base (free_pending S s) = None"
  by (auto simp: stacks_inv_def free_pending_def free_stack_def munmap fun_eq_iff split: option.splits)

lemma get_stack_inv:
  assumes "stacks_inv used s" "pth_get_stack S sz s = Some (r, s')"
  shows "case r of None \<Rightarrow> stacks_inv used s'
    | Some base \<Rightarrow> used base = None \<and> stacks_inv (used(base \<mapsto> sz)) s'"
proof -
  let ?s = "free_pending S s"
  have f: "maps (memory ?s) = used" "pending_stack_base ?s = None" using free_pending_inv [OF assms(1)] by auto
  obtain m where m: "alloc_stack S sz (memory ?s) = Some (r, m)" "s' = ?s\<lparr>memory := m\<rparr>"
    using assms(2) by (auto simp: pth_get_stack_def Let_def split: option.splits prod.splits)
  obtain b m1 where b: "sys_mmap S sz (memory ?s) = (b, m1)" by fastforce
  show ?thesis
  proof (cases b)
    case None
    then show ?thesis using m b f mmap_fail [of sz "memory ?s" m1] by (auto simp: alloc_stack_def stacks_inv_def)
  next
    case (Some base)
    obtain ok m2 where p: "sys_mprotect S base GUARD_PAGE_SIZE m1 = (ok, m2)" by fastforce
    then have "r = Some base" "m = m2" using m b Some by (auto simp: alloc_stack_def split: if_splits)
    then show ?thesis
      using m f mmap_ok [of sz "memory ?s" base m1] b Some mprotect [OF p] by (auto simp: stacks_inv_def)
  qed
qed

lemma return_stack_inv:
  assumes "stacks_inv used s" "used base = Some sz"
  shows "stacks_inv (used(base := None)) (pth_return_stack S base sz s)"
    "maps (memory (pth_return_stack S base sz s)) base = Some sz"
  using free_pending_inv [OF assms(1)] assms(2)
  by (auto simp: stacks_inv_def pth_return_stack_def fun_eq_iff)

end

text \<open>An address space that hands out increasing addresses.\<close>

definition bump_sys :: "(nat \<times> (addr \<rightharpoonup> int)) stack_sys" where
  "bump_sys = \<lparr>sys_mmap = (\<lambda>sz m. if snd m (fst m) = None then (Some (fst m), (Suc (fst m), (snd m)(fst m \<mapsto> sz))) else (None, m)),
     sys_mprotect = (\<lambda>_ _ m. (True, m)), sys_munmap = (\<lambda>b _ m. (fst m, (snd m)(b := None)))\<rparr>"

interpretation bump: stack_os bump_sys snd
  by unfold_locales (auto simp: bump_sys_def split: if_splits)

section \<open>Properties\<close>

text \<open>
  a stack that a thread hands back stays mapped while that thread is still running on it, and
  is unmapped when the next stack is requested: then exactly the stacks in use are mapped, no
  stack leaks and none is unmapped twice.
\<close>

theorem stack_returned_then_freed:
  assumes "stack_os S maps" "pending_stack_base s = None" "maps (memory s) base = Some sz"
  shows "maps (memory (pth_return_stack S base sz s)) base = Some sz \<and>
    (\<forall>r s'. pth_get_stack S n (pth_return_stack S base sz s) = Some (Some r, s') \<longrightarrow>
       maps (memory s') = ((maps (memory s))(base := None))(r \<mapsto> n) \<and> pending_stack_base s' = None)"
proof -
  have i: "stack_os.stacks_inv maps (maps (memory s)) s"
    using assms(2) stack_os.stacks_inv_def [OF assms(1)] by simp
  note ret = stack_os.return_stack_inv [OF assms(1) i assms(3)]
  have pend: "pending_stack_base s' = None" if "pth_get_stack S n (pth_return_stack S base sz s) = Some (Some r, s')" for r s'
    using that stack_os.free_pending_inv [OF assms(1) ret(1)]
    by (auto simp: pth_get_stack_def Let_def split: option.splits prod.splits)
  have "maps (memory s') = ((maps (memory s))(base := None))(r \<mapsto> n)"
    if "pth_get_stack S n (pth_return_stack S base sz s) = Some (Some r, s')" for r s'
    using stack_os.get_stack_inv [OF assms(1) ret(1) that] pend [OF that] stack_os.stacks_inv_def [OF assms(1)] by simp
  then show ?thesis using ret(2) pend by blast
qed

theorem stack_returned_then_freed_witness:
  "\<exists>s'. snd (memory (pth_return_stack bump_sys 5 65536 \<lparr>pending_stack_base = None, pending_stack_size = 0, memory = (6, [5 \<mapsto> 65536])\<rparr>)) 5
     = Some 65536 \<and>
    pth_get_stack bump_sys 4096 (pth_return_stack bump_sys 5 65536
      \<lparr>pending_stack_base = None, pending_stack_size = 0, memory = (6, [5 \<mapsto> 65536])\<rparr>) = Some (Some 6, s') \<and>
    snd (memory s') = [6 \<mapsto> 4096] \<and> pending_stack_base s' = None"
proof -
  let ?s = "\<lparr>pending_stack_base = None, pending_stack_size = 0, memory = (6 :: nat, [5 \<mapsto> 65536])\<rparr>"
  have get: "\<exists>s'. pth_get_stack bump_sys 4096 (pth_return_stack bump_sys 5 65536 ?s) = Some (Some 6, s')"
    by (simp add: pth_get_stack_def pth_return_stack_def free_pending_def free_stack_def alloc_stack_def bump_sys_def)
  have "snd (memory ?s) 5 = Some 65536" "pending_stack_base ?s = None" by simp_all
  from stack_returned_then_freed [OF bump.stack_os_axioms this(2,1), of 4096] get show ?thesis by (auto simp: fun_eq_iff)
qed

end
