(* ===== verification/Pseudothread.thy ===== *)
theory Pseudothread
  imports Reactor Control Stack
begin

text \<open>
  Pseudothreads (\<open>src/src/pthr_pseudothread.c\<close>): creation and end of threads, the exception stack,
  blocking on descriptors, timers and alarms, and the blocking versions of the system calls. A
  context switch hands control to the rest of the program; what happens until the thread runs again
  is the parameter \<open>k_switch\<close>, what another thread does until it blocks is \<open>k_run\<close>. System calls and
  c2lib are parameters too.
\<close>

section \<open>State\<close>

text \<open>The callbacks that this module registers in the reactor, all with a thread as data.\<close>

datatype pth_fn =
    Return_from_block | Return_from_sleep | Return_from_poll | Return_from_poll_timeout | Return_from_alarm

record 'j pseudothread =
  pth_n :: nat
  pth_stack :: addr
  pth_stack_size :: int
  alarm_received :: bool
  alarm_timer :: "addr option"
  pth_pool :: pool
  pth_name :: string
  exception_jmp_vec :: "'j option"
  exception_msg :: string
  poll_timeout :: bool
  pth_run :: nat
  pth_data :: nat
  lang :: "string option"
  tz :: "string option"

type_synonym ('P, 'u) pth_reactor = "(pth_fn, tid, 'P, 'u) reactor"

record ('v, 'j, 'P, 'm, 'u) world =
  w_re :: "('P, 'u) pth_reactor"
  w_pths :: "tid \<Rightarrow> 'j pseudothread option"
  current_pth :: "tid option"
  w_threads :: 'v
  default_stack_size :: int
  w_stacks :: "'m stacks"
  w_env :: "string \<Rightarrow> string option"

text \<open>
  What the module calls: vectors of threads and of jump buffers, pools, stack memory, other
  modules' cleanups, uninitialised memory, allocation of timers, and the other threads.
\<close>

record ('v, 'j, 'P, 'm, 'u) kernel =
  k_threads :: "('v, tid option) vec_ops"
  k_jumps :: "('j, nat) vec_ops"
  k_pools :: "'P pool_ops"
  k_stack :: "'m stack_sys"
  k_cleanup :: "cleanup \<Rightarrow> ('P, 'u) pth_reactor \<Rightarrow> ('P, 'u) pth_reactor option"
  k_handle_junk :: "nat \<Rightarrow> (pth_fn, tid) reactor_handle"
  k_pollfd_junk :: "nat \<Rightarrow> pollfd"
  k_timer_addr :: "('v, 'j, 'P, 'm, 'u) world \<Rightarrow> addr"
  k_timer_junk :: "(pth_fn, tid) timer"
  k_switch :: "('v, 'j, 'P, 'm, 'u) world \<Rightarrow> ('v, 'j, 'P, 'm, 'u) world option"
  k_run :: "tid \<Rightarrow> ('v, 'j, 'P, 'm, 'u) world \<Rightarrow> ('v, 'j, 'P, 'm, 'u) world option"

definition REACTOR_READ :: int where "REACTOR_READ = 1"
definition REACTOR_WRITE :: int where "REACTOR_WRITE = 4"
definition EWOULDBLOCK :: int where "EWOULDBLOCK = 11"
definition EINPROGRESS :: int where "EINPROGRESS = 115"

text \<open>The structure that \<open>current_pth\<close> points to.\<close>

definition cur :: "('v, 'j, 'P, 'm, 'u) world \<Rightarrow> 'j pseudothread option" where
  "cur w = Option.bind (current_pth w) (w_pths w)"

definition upd_cur ::
  "('j pseudothread \<Rightarrow> 'j pseudothread) \<Rightarrow> ('v, 'j, 'P, 'm, 'u) world \<Rightarrow> ('v, 'j, 'P, 'm, 'u) world option" where
  "upd_cur f w =
     do { t \<leftarrow> current_pth w; p \<leftarrow> w_pths w t; Some (w\<lparr>w_pths := (w_pths w)(t \<mapsto> f p)\<rparr>) }"

abbreviation os :: "('v, 'j, 'P, 'm, 'u) world \<Rightarrow> 'u" where
  "os w \<equiv> r_user (w_re w)"

definition set_os :: "'u \<Rightarrow> ('v, 'j, 'P, 'm, 'u) world \<Rightarrow> ('v, 'j, 'P, 'm, 'u) world" where
  "set_os u w = w\<lparr>w_re := (w_re w)\<lparr>r_user := u\<rparr>\<rparr>"

abbreviation table :: "('v, 'j, 'P, 'm, 'u) world \<Rightarrow> (pth_fn, tid) handle_table" where
  "table w \<equiv> r_table (w_re w)"

definition set_table :: "(pth_fn, tid) handle_table \<Rightarrow> ('v, 'j, 'P, 'm, 'u) world \<Rightarrow> ('v, 'j, 'P, 'm, 'u) world" where
  "set_table t w = w\<lparr>w_re := (w_re w)\<lparr>r_table := t\<rparr>\<rparr>"

section \<open>Creation and end of threads\<close>

definition pseudothread_set_stack_size :: "int \<Rightarrow> ('v, 'j, 'P, 'm, 'u) world \<Rightarrow> int \<times> ('v, 'j, 'P, 'm, 'u) world" where
  "pseudothread_set_stack_size sz w = (sz, w\<lparr>default_stack_size := sz\<rparr>)"

definition pseudothread_get_stack_size :: "('v, 'j, 'P, 'm, 'u) world \<Rightarrow> int" where
  "pseudothread_get_stack_size w = default_stack_size w"

text \<open>The search for a free slot of the global list; the new thread goes to the end if there is none.\<close>

definition alloc_slot :: "('v, tid option) vec_ops \<Rightarrow> 'v \<Rightarrow> tid \<Rightarrow> nat \<times> 'v" where
  "alloc_slot V v t =
     (let i = first_index (\<lambda>p. p = None) (elems V v)
      in if i < vec_size V v then (i, vec_replace V v i (Some t)) else (i, vec_push_back V v (Some t)))"

definition new_pseudothread ::
  "('v, 'j, 'P, 'm, 'u) kernel \<Rightarrow> pool \<Rightarrow> nat \<Rightarrow> nat \<Rightarrow> string \<Rightarrow> tid
     \<Rightarrow> ('v, 'j, 'P, 'm, 'u) world \<Rightarrow> (tid \<times> ('v, 'j, 'P, 'm, 'u) world) option" where
  "new_pseudothread K p run d name t w =
     do {
       (stack_addr, ss) \<leftarrow> pth_get_stack (k_stack K) (default_stack_size w) (w_stacks w);
       stack \<leftarrow> stack_addr;
       let (i, v) = alloc_slot (k_threads K) (w_threads w) t;
       Some (t, w\<lparr>w_stacks := ss, w_threads := v,
         w_pths := (w_pths w)(t \<mapsto>
           \<lparr>pth_n = i, pth_stack = stack, pth_stack_size = default_stack_size w, alarm_received = False,
            alarm_timer = None, pth_pool = p, pth_name = name, exception_jmp_vec = None, exception_msg = [],
            poll_timeout = False, pth_run = run, pth_data = d, lang = None, tz = None\<rparr>)\<rparr>)
     }"

text \<open>
  \<open>thread_trampoline\<close> with the thread's own function as a computation: it returns or leaves by
  \<open>pth_exit\<close>; a jump to an exception handler cannot come back here.
\<close>

definition thread_trampoline ::
  "('v, 'j, 'P, 'm, 'u) kernel \<Rightarrow> (('v, 'j, 'P, 'm, 'u) world, unit) comp \<Rightarrow> tid
     \<Rightarrow> ('v, 'j, 'P, 'm, 'u) world \<Rightarrow> ('v, 'j, 'P, 'm, 'u) world option" where
  "thread_trampoline K run t w =
     do {
       (r, w1) \<leftarrow> run (w\<lparr>current_pth := Some t\<rparr>);
       _ \<leftarrow> (case r of Jump j \<Rightarrow> None | _ \<Rightarrow> Some ());
       p \<leftarrow> w_pths w1 t;
       let w2 = w1\<lparr>w_threads := vec_replace (k_threads K) (w_threads w1) (pth_n p) None\<rparr>;
       re \<leftarrow> do_delete_pool (k_pools K) (k_cleanup K) (w_re w2) (pth_pool p);
       Some (w2\<lparr>w_re := re, w_pths := (w_pths w2)(t := None),
                w_stacks := pth_return_stack (k_stack K) (pth_stack p) (pth_stack_size p) (w_stacks w2)\<rparr>)
     }"

definition pth_start ::
  "('v, 'j, 'P, 'm, 'u) kernel \<Rightarrow> tid \<Rightarrow> ('v, 'j, 'P, 'm, 'u) world \<Rightarrow> ('v, 'j, 'P, 'm, 'u) world option" where
  "pth_start K t w = map_option (\<lambda>w1. w1\<lparr>current_pth := current_pth w\<rparr>) (k_run K t w)"

definition pth_set_name :: "string \<Rightarrow> ('v, 'j, 'P, 'm, 'u) world \<Rightarrow> ('v, 'j, 'P, 'm, 'u) world option" where
  "pth_set_name name w = upd_cur (\<lambda>p. p\<lparr>pth_name := name\<rparr>) w"

text \<open>The accessors read a thread's structure; a thread that is gone has none.\<close>

definition pth_get_name :: "tid \<Rightarrow> ('v, 'j, 'P, 'm, 'u) world \<Rightarrow> string option" where
  "pth_get_name t w = map_option pth_name (w_pths w t)"

definition pth_get_thread_num :: "tid \<Rightarrow> ('v, 'j, 'P, 'm, 'u) world \<Rightarrow> nat option" where
  "pth_get_thread_num t w = map_option pth_n (w_pths w t)"

definition pth_get_run :: "tid \<Rightarrow> ('v, 'j, 'P, 'm, 'u) world \<Rightarrow> nat option" where
  "pth_get_run t w = map_option pth_run (w_pths w t)"

definition pth_get_data :: "tid \<Rightarrow> ('v, 'j, 'P, 'm, 'u) world \<Rightarrow> nat option" where
  "pth_get_data t w = map_option pth_data (w_pths w t)"

definition pth_get_language :: "tid \<Rightarrow> ('v, 'j, 'P, 'm, 'u) world \<Rightarrow> string option option" where
  "pth_get_language t w = map_option lang (w_pths w t)"

definition pth_get_tz :: "tid \<Rightarrow> ('v, 'j, 'P, 'm, 'u) world \<Rightarrow> string option option" where
  "pth_get_tz t w = map_option tz (w_pths w t)"

definition pth_get_stack_addr :: "tid \<Rightarrow> ('v, 'j, 'P, 'm, 'u) world \<Rightarrow> addr option" where
  "pth_get_stack_addr t w = map_option pth_stack (w_pths w t)"

definition pth_get_stack_size :: "tid \<Rightarrow> ('v, 'j, 'P, 'm, 'u) world \<Rightarrow> int option" where
  "pth_get_stack_size t w = map_option pth_stack_size (w_pths w t)"

definition pth_get_pool :: "tid \<Rightarrow> ('v, 'j, 'P, 'm, 'u) world \<Rightarrow> pool option" where
  "pth_get_pool t w = map_option pth_pool (w_pths w t)"

definition pseudothread_init ::
  "('v, 'j, 'P, 'm, 'u) kernel \<Rightarrow> ('v, 'j, 'P, 'm, 'u) world \<Rightarrow> ('v, 'j, 'P, 'm, 'u) world" where
  "pseudothread_init K w = w\<lparr>w_threads := vec_new (k_threads K)\<rparr>"

definition pseudothread_get_threads ::
  "('v, 'j, 'P, 'm, 'u) kernel \<Rightarrow> ('v, 'j, 'P, 'm, 'u) world \<Rightarrow> 'j pseudothread list option" where
  "pseudothread_get_threads K w =
     those (map (\<lambda>t. w_pths w (the t)) (filter (\<lambda>t. t \<noteq> None) (elems (k_threads K) (w_threads w))))"

definition pseudothread_count_threads ::
  "('v, 'j, 'P, 'm, 'u) kernel \<Rightarrow> ('v, 'j, 'P, 'm, 'u) world \<Rightarrow> nat" where
  "pseudothread_count_threads K w =
     length (filter (\<lambda>t. t \<noteq> None) (elems (k_threads K) (w_threads w)))"

section \<open>Exit and exceptions\<close>

definition pth_exit :: "(('v, 'j, 'P, 'm, 'u) world, 'a) comp" where
  "pth_exit w = (case cur w of None \<Rightarrow> None | Some _ \<Rightarrow> Some (Exit_thread, w))"

text \<open>The handler stack of the current thread, created on first use.\<close>

definition push_handler ::
  "('v, 'j, 'P, 'm, 'u) kernel \<Rightarrow> (('v, 'j, 'P, 'm, 'u) world, nat) comp" where
  "push_handler K w =
     (case cur w of
        None \<Rightarrow> None
      | Some p \<Rightarrow>
          (let v = (case exception_jmp_vec p of None \<Rightarrow> vec_new (k_jumps K) | Some v \<Rightarrow> v);
               jb = vec_size (k_jumps K) v
           in map_option (Pair (Ret jb))
                (upd_cur (\<lambda>p. p\<lparr>exception_jmp_vec := Some (vec_push_back (k_jumps K) v jb)\<rparr>) w)))"

definition pop_handler ::
  "('v, 'j, 'P, 'm, 'u) kernel \<Rightarrow> (('v, 'j, 'P, 'm, 'u) world, nat) comp" where
  "pop_handler K w =
     do {
       p \<leftarrow> cur w;
       v \<leftarrow> exception_jmp_vec p;
       let (v1, jb) = vec_pop_back (k_jumps K) v;
       w1 \<leftarrow> upd_cur (\<lambda>p. p\<lparr>exception_jmp_vec := Some v1\<rparr>) w;
       Some (Ret jb, w1)
     }"

definition catch_jump ::
  "nat \<Rightarrow> (('v, 'j, 'P, 'm, 'u) world, unit) comp \<Rightarrow> (('v, 'j, 'P, 'm, 'u) world, bool) comp" where
  "catch_jump jb m w =
     (case m w of
        None \<Rightarrow> None
      | Some (r, w1) \<Rightarrow>
          (case r of
             Ret _ \<Rightarrow> Some (Ret True, w1)
           | Exit_thread \<Rightarrow> Some (Exit_thread, w1)
           | Jump j \<Rightarrow> if j = jb then Some (Ret False, w1) else Some (Jump j, w1)))"

text \<open>The result is the message of the exception, \<open>None\<close> if there was none.\<close>

definition pth_catch ::
  "('v, 'j, 'P, 'm, 'u) kernel \<Rightarrow> (('v, 'j, 'P, 'm, 'u) world, unit) comp
     \<Rightarrow> (('v, 'j, 'P, 'm, 'u) world, string option) comp" where
  "pth_catch K fn =
     bindW (push_handler K) (\<lambda>jb.
     bindW (catch_jump jb (bindW fn (\<lambda>_. bindW (pop_handler K) (\<lambda>_. retW ())))) (\<lambda>ok.
     if ok then retW None else getW (\<lambda>w. map_option (Some \<circ> exception_msg) (cur w))))"

definition pth_die :: "('v, 'j, 'P, 'm, 'u) kernel \<Rightarrow> string \<Rightarrow> (('v, 'j, 'P, 'm, 'u) world, 'a) comp" where
  "pth_die K msg w =
     (case cur w of
        None \<Rightarrow> None
      | Some p \<Rightarrow>
          (case exception_jmp_vec p of
             None \<Rightarrow> pth_exit w
           | Some v \<Rightarrow>
               if vec_size (k_jumps K) v > 0
               then bindW (updW (upd_cur (\<lambda>p. p\<lparr>exception_msg := msg\<rparr>))) (\<lambda>_.
                    bindW (pop_handler K) (\<lambda>jb w1. Some (Jump jb, w1))) w
               else pth_exit w))"

section \<open>Environment variables\<close>

text \<open>The variant with \<open>setenv\<close> and \<open>unsetenv\<close>.\<close>

definition restore_lang :: "('v, 'j, 'P, 'm, 'u) world \<Rightarrow> ('v, 'j, 'P, 'm, 'u) world option" where
  "restore_lang w = map_option (\<lambda>p. w\<lparr>w_env := (w_env w)(''LANGUAGE'' := lang p)\<rparr>) (cur w)"

definition restore_tz :: "('v, 'j, 'P, 'm, 'u) world \<Rightarrow> ('v, 'j, 'P, 'm, 'u) world option" where
  "restore_tz w = map_option (\<lambda>p. w\<lparr>w_env := (w_env w)(''TZ'' := tz p)\<rparr>) (cur w)"

definition pth_set_language :: "string \<Rightarrow> ('v, 'j, 'P, 'm, 'u) world \<Rightarrow> ('v, 'j, 'P, 'm, 'u) world option" where
  "pth_set_language l w = Option.bind (upd_cur (\<lambda>p. p\<lparr>lang := Some l\<rparr>) w) restore_lang"

definition pth_set_tz :: "string \<Rightarrow> ('v, 'j, 'P, 'm, 'u) world \<Rightarrow> ('v, 'j, 'P, 'm, 'u) world option" where
  "pth_set_tz z w = Option.bind (upd_cur (\<lambda>p. p\<lparr>tz := Some z\<rparr>) w) restore_tz"

definition restore_env :: "(('v, 'j, 'P, 'm, 'u) world, unit) comp" where
  "restore_env = bindW (updW restore_lang) (\<lambda>_. updW restore_tz)"

section \<open>Giving up control\<close>

text \<open>\<open>_pth_switch_thread_to_calling_context\<close>, and what the reactor's callbacks do with a thread.\<close>

definition switch_to_calling_context ::
  "('v, 'j, 'P, 'm, 'u) kernel \<Rightarrow> (('v, 'j, 'P, 'm, 'u) world, unit) comp" where
  "switch_to_calling_context K = updW (\<lambda>w. case cur w of None \<Rightarrow> None | Some _ \<Rightarrow> k_switch K w)"

definition switch_to_thread_context ::
  "('v, 'j, 'P, 'm, 'u) kernel \<Rightarrow> tid \<Rightarrow> ('v, 'j, 'P, 'm, 'u) world \<Rightarrow> ('v, 'j, 'P, 'm, 'u) world option" where
  "switch_to_thread_context K t w = k_run K t (w\<lparr>current_pth := Some t\<rparr>)"

definition call_pth_fn ::
  "('v, 'j, 'P, 'm, 'u) kernel \<Rightarrow> pth_fn \<Rightarrow> tid \<Rightarrow> ('v, 'j, 'P, 'm, 'u) world \<Rightarrow> ('v, 'j, 'P, 'm, 'u) world option" where
  "call_pth_fn K f t w =
     (case f of
        Return_from_poll_timeout \<Rightarrow> do {
          p \<leftarrow> w_pths w t;
          switch_to_thread_context K t (w\<lparr>w_pths := (w_pths w)(t \<mapsto> p\<lparr>poll_timeout := True\<rparr>)\<rparr>)
        }
      | Return_from_alarm \<Rightarrow> do {
          p \<leftarrow> w_pths w t;
          switch_to_thread_context K t
            (w\<lparr>w_pths := (w_pths w)(t \<mapsto> p\<lparr>alarm_received := True, alarm_timer := None\<rparr>)\<rparr>)
        }
      | _ \<Rightarrow> switch_to_thread_context K t w)"

definition pth_alarm_received :: "('v, 'j, 'P, 'm, 'u) world \<Rightarrow> bool option" where
  "pth_alarm_received w = map_option alarm_received (cur w)"

text \<open>Registering and unregistering in the reactor on behalf of the current thread.\<close>

definition register_cur ::
  "('v, 'j, 'P, 'm, 'u) kernel \<Rightarrow> pth_fn \<Rightarrow> int \<Rightarrow> int \<Rightarrow> (('v, 'j, 'P, 'm, 'u) world, nat) comp" where
  "register_cur K f sock ops w =
     (case current_pth w of
        None \<Rightarrow> None
      | Some t \<Rightarrow>
          (let (h, tab) = reactor_register (k_handle_junk K) (k_pollfd_junk K) (table w) sock ops f t
           in Some (Ret h, set_table tab w)))"

definition unregister :: "nat \<Rightarrow> (('v, 'j, 'P, 'm, 'u) world, unit) comp" where
  "unregister h = updW (\<lambda>w. map_option (\<lambda>tab. set_table tab w) (reactor_unregister (table w) h))"

definition set_cur_timer ::
  "('v, 'j, 'P, 'm, 'u) kernel \<Rightarrow> pth_fn \<Rightarrow> int \<Rightarrow> (('v, 'j, 'P, 'm, 'u) world, addr) comp" where
  "set_cur_timer K f timeout w =
     do {
       t \<leftarrow> current_pth w;
       p \<leftarrow> w_pths w t;
       (a, re) \<leftarrow> reactor_set_timer (k_pools K) (w_re w) (pth_pool p) timeout f t (k_timer_addr K w) (k_timer_junk K);
       Some (Ret a, w\<lparr>w_re := re\<rparr>)
     }"

definition unset_timer :: "('v, 'j, 'P, 'm, 'u) kernel \<Rightarrow> addr \<Rightarrow> (('v, 'j, 'P, 'm, 'u) world, unit) comp" where
  "unset_timer K a =
     updW (\<lambda>w. map_option (\<lambda>re. w\<lparr>w_re := re\<rparr>) (reactor_unset_timer_early (k_pools K) (k_cleanup K) (w_re w) a))"

definition exit_if_alarmed :: "(('v, 'j, 'P, 'm, 'u) world, unit) comp" where
  "exit_if_alarmed = bindW (getW pth_alarm_received) (\<lambda>b. if b then pth_exit else retW ())"

definition block :: "('v, 'j, 'P, 'm, 'u) kernel \<Rightarrow> int \<Rightarrow> int \<Rightarrow> (('v, 'j, 'P, 'm, 'u) world, unit) comp" where
  "block K sock ops =
     bindW (register_cur K Return_from_block sock ops) (\<lambda>h.
     bindW (switch_to_calling_context K) (\<lambda>_.
     bindW (unregister h) (\<lambda>_.
     bindW exit_if_alarmed (\<lambda>_. restore_env))))"

definition sleep :: "('v, 'j, 'P, 'm, 'u) kernel \<Rightarrow> int \<Rightarrow> (('v, 'j, 'P, 'm, 'u) world, unit) comp" where
  "sleep K timeout =
     bindW (set_cur_timer K Return_from_sleep timeout) (\<lambda>a.
     bindW (switch_to_calling_context K) (\<lambda>_.
     bindW (getW pth_alarm_received) (\<lambda>b.
     if b then bindW (unset_timer K a) (\<lambda>_. pth_exit) else restore_env)))"

fun register_fds ::
  "('v, 'j, 'P, 'm, 'u) kernel \<Rightarrow> pollfd list \<Rightarrow> (('v, 'j, 'P, 'm, 'u) world, nat list) comp" where
  "register_fds K [] = retW []"
| "register_fds K (p # ps) =
     bindW (register_cur K Return_from_poll (fd p) (events p)) (\<lambda>h.
     bindW (register_fds K ps) (\<lambda>hs. retW (h # hs)))"

fun unregister_fds :: "nat list \<Rightarrow> (('v, 'j, 'P, 'm, 'u) world, unit) comp" where
  "unregister_fds [] = retW ()"
| "unregister_fds (h # hs) = bindW (unregister h) (\<lambda>_. unregister_fds hs)"

definition poll_wait ::
  "('v, 'j, 'P, 'm, 'u) kernel \<Rightarrow> pollfd list \<Rightarrow> int \<Rightarrow> (('v, 'j, 'P, 'm, 'u) world, unit) comp" where
  "poll_wait K fds timeout =
     bindW (updW (upd_cur (\<lambda>p. p\<lparr>poll_timeout := False\<rparr>))) (\<lambda>_.
     bindW (register_fds K fds) (\<lambda>hs.
     bindW (if timeout \<ge> 0 then bindW (set_cur_timer K Return_from_poll_timeout timeout) (\<lambda>a. retW (Some a))
            else retW None) (\<lambda>timer.
     bindW (switch_to_calling_context K) (\<lambda>_.
     bindW (unregister_fds hs) (\<lambda>_.
     bindW (getW cur) (\<lambda>p.
     bindW (case timer of Some a \<Rightarrow> if \<not> poll_timeout p then unset_timer K a else retW () | None \<Rightarrow> retW ()) (\<lambda>_.
     bindW exit_if_alarmed (\<lambda>_. restore_env))))))))"

section \<open>Blocking system calls\<close>

text \<open>
  A non-blocking system call gives its result, \<open>errno\<close> and the data it stores. All of \<open>pth_read\<close>,
  \<open>pth_write\<close>, \<open>pth_send\<close> and so on are this loop: call, and block when the call would block.
\<close>

type_synonym ('u, 'x) syscall = "'u \<Rightarrow> (int \<times> int \<times> 'x) \<times> 'u"

definition do_sys :: "('u, 'x) syscall \<Rightarrow> (('v, 'j, 'P, 'm, 'u) world, int \<times> int \<times> 'x) comp" where
  "do_sys f w = (let (r, u) = f (os w) in Some (Ret r, set_os u w))"

partial_function (option) again_loop ::
  "('v, 'j, 'P, 'm, 'u) kernel \<Rightarrow> int \<Rightarrow> int \<Rightarrow> ('u, 'x) syscall
     \<Rightarrow> ('v, 'j, 'P, 'm, 'u) world \<Rightarrow> ((int \<times> 'x) outcome \<times> ('v, 'j, 'P, 'm, 'u) world) option" where
  "again_loop K ops s f w =
     bindW (do_sys f) (\<lambda>(r, e, x).
       if r = -1 \<and> e = EWOULDBLOCK
       then bindW (block K s ops) (\<lambda>_. again_loop K ops s f)
       else retW (r, x)) w"

definition pth_read where "pth_read K s f = again_loop K REACTOR_READ s f"
definition pth_write where "pth_write K s f = again_loop K REACTOR_WRITE s f"
definition pth_send where "pth_send K s f = again_loop K REACTOR_WRITE s f"
definition pth_sendto where "pth_sendto K s f = again_loop K REACTOR_WRITE s f"
definition pth_sendmsg where "pth_sendmsg K s f = again_loop K REACTOR_WRITE s f"
definition pth_recv where "pth_recv K s f = again_loop K REACTOR_READ s f"
definition pth_recvfrom where "pth_recvfrom K s f = again_loop K REACTOR_READ s f"
definition pth_recvmsg where "pth_recvmsg K s f = again_loop K REACTOR_READ s f"

partial_function (option) pth_accept ::
  "('v, 'j, 'P, 'm, 'u) kernel \<Rightarrow> int \<Rightarrow> ('u, 'x) syscall
     \<Rightarrow> ('v, 'j, 'P, 'm, 'u) world \<Rightarrow> ((int \<times> 'x) outcome \<times> ('v, 'j, 'P, 'm, 'u) world) option" where
  "pth_accept K s f w =
     bindW (block K s REACTOR_READ) (\<lambda>_.
     bindW (do_sys f) (\<lambda>(r, e, x).
       if r = -1 \<and> e = EWOULDBLOCK then pth_accept K s f else retW (r, x))) w"

text \<open>\<open>getsockopt\<close> stores the error code of the connection in its data; the result is paired with \<open>errno\<close>.\<close>

definition pth_connect ::
  "('v, 'j, 'P, 'm, 'u) kernel \<Rightarrow> int \<Rightarrow> ('u, unit) syscall \<Rightarrow> ('u, int) syscall
     \<Rightarrow> (('v, 'j, 'P, 'm, 'u) world, int \<times> int) comp" where
  "pth_connect K s conn getsockopt =
     bindW (do_sys conn) (\<lambda>(r, e, _).
       if r = 0 then retW (0, e)
       else if e = EINPROGRESS
       then bindW (block K s REACTOR_WRITE) (\<lambda>_.
            bindW (do_sys getsockopt) (\<lambda>(r1, e1, x).
            if r1 < 0 then retW (-1, e1) else retW (if x = 0 then 0 else -1, x)))
       else retW (-1, e))"

definition pth_sleep :: "('v, 'j, 'P, 'm, 'u) kernel \<Rightarrow> int \<Rightarrow> (('v, 'j, 'P, 'm, 'u) world, int) comp" where
  "pth_sleep K seconds = bindW (sleep K (c_int (seconds * 1000))) (\<lambda>_. retW seconds)"

definition pth_nanosleep :: "('v, 'j, 'P, 'm, 'u) kernel \<Rightarrow> int \<Rightarrow> int \<Rightarrow> (('v, 'j, 'P, 'm, 'u) world, int) comp" where
  "pth_nanosleep K tv_sec tv_nsec = bindW (sleep K (c_int (tv_sec * 1000 + tv_nsec div 1000000))) (\<lambda>_. retW 0)"

definition pth_millisleep :: "('v, 'j, 'P, 'm, 'u) kernel \<Rightarrow> int \<Rightarrow> (('v, 'j, 'P, 'm, 'u) world, int) comp" where
  "pth_millisleep K millis = bindW (sleep K millis) (\<lambda>_. retW 0)"

definition pth_timeout :: "('v, 'j, 'P, 'm, 'u) kernel \<Rightarrow> int \<Rightarrow> (('v, 'j, 'P, 'm, 'u) world, unit) comp" where
  "pth_timeout K seconds =
     bindW (getW cur) (\<lambda>p.
     bindW (case alarm_timer p of Some a \<Rightarrow> unset_timer K a | None \<Rightarrow> retW ()) (\<lambda>_.
     bindW (updW (upd_cur (\<lambda>p. p\<lparr>alarm_timer := None\<rparr>))) (\<lambda>_.
     if seconds \<noteq> 0
     then bindW (set_cur_timer K Return_from_alarm (c_int (seconds * 1000))) (\<lambda>a.
          updW (upd_cur (\<lambda>p. p\<lparr>alarm_timer := Some a\<rparr>)))
     else retW ())))"

text \<open>
  \<open>poll\<close> is called without waiting and gives the number of ready descriptors and their \<open>revents\<close>.
\<close>

partial_function (option) pth_poll ::
  "('v, 'j, 'P, 'm, 'u) kernel \<Rightarrow> pollfd list \<Rightarrow> int \<Rightarrow> (pollfd list \<Rightarrow> ('u, int list) syscall)
     \<Rightarrow> ('v, 'j, 'P, 'm, 'u) world \<Rightarrow> ((int \<times> int list) outcome \<times> ('v, 'j, 'P, 'm, 'u) world) option" where
  "pth_poll K fds timeout poll w =
     bindW (do_sys (poll fds)) (\<lambda>(r, e, revs).
       if r = 0
       then bindW (poll_wait K fds timeout) (\<lambda>_.
            bindW (getW cur) (\<lambda>p.
            if poll_timeout p then retW (0, revs) else pth_poll K fds timeout poll))
       else retW (r, revs)) w"

text \<open>\<open>pth_wait_readable\<close> and \<open>pth_wait_writable\<close> with their descriptor and operation.\<close>

partial_function (option) wait_fd ::
  "('v, 'j, 'P, 'm, 'u) kernel \<Rightarrow> int \<Rightarrow> int \<Rightarrow> ('u, unit) syscall
     \<Rightarrow> ('v, 'j, 'P, 'm, 'u) world \<Rightarrow> (int outcome \<times> ('v, 'j, 'P, 'm, 'u) world) option" where
  "wait_fd K ops s poll w =
     bindW (do_sys poll) (\<lambda>(r, e, _).
       if r = 0 then bindW (block K s ops) (\<lambda>_. wait_fd K ops s poll)
       else retW (if r \<ge> 0 then 1 else -1)) w"

definition pth_wait_readable where "pth_wait_readable K s poll = wait_fd K REACTOR_READ s poll"
definition pth_wait_writable where "pth_wait_writable K s poll = wait_fd K REACTOR_WRITE s poll"

section \<open>Select\<close>

text \<open>Sets of descriptors as \<open>FD_ISSET\<close> sees them; the event bits as predicates on \<open>revents\<close>.\<close>

type_synonym fd_set = "nat \<Rightarrow> bool"

definition POLLIN :: int where "POLLIN = 1"
definition POLLOUT :: int where "POLLOUT = 4"
definition POLLERR :: int where "POLLERR = 8"

definition has_bit :: "int \<Rightarrow> int \<Rightarrow> bool" where
  "has_bit b e \<longleftrightarrow> (e div b) mod 2 = 1"

definition watch_if :: "fd_set option \<Rightarrow> nat \<Rightarrow> int \<Rightarrow> pollfd list" where
  "watch_if S i ev = (case S of None \<Rightarrow> [] | Some A \<Rightarrow>
     if A i then [\<lparr>fd = int i, events = ev, revents = 0\<rparr>] else [])"

definition select_fds :: "nat \<Rightarrow> fd_set option \<Rightarrow> fd_set option \<Rightarrow> fd_set option \<Rightarrow> pollfd list" where
  "select_fds n rs ws es =
     concat (map (\<lambda>i. watch_if rs i POLLIN @ watch_if ws i POLLOUT @ watch_if es i POLLERR) [0..<n])"

text \<open>\<open>FD_SET\<close> on a set that the caller did not pass is a null pointer access.\<close>

definition fd_add :: "bool \<Rightarrow> int \<Rightarrow> fd_set option \<Rightarrow> fd_set option option" where
  "fd_add b i S = (if b then (case S of None \<Rightarrow> None | Some A \<Rightarrow> Some (Some (A(nat i := True)))) else Some S)"

fun collect_sets ::
  "(int \<times> int) list \<Rightarrow> fd_set option \<times> fd_set option \<times> fd_set option
     \<Rightarrow> (fd_set option \<times> fd_set option \<times> fd_set option) option" where
  "collect_sets [] S = Some S"
| "collect_sets ((i, e) # ps) (rs, ws, es) =
     do {
       rs1 \<leftarrow> fd_add (has_bit POLLIN e) i rs;
       ws1 \<leftarrow> fd_add (has_bit POLLOUT e) i ws;
       es1 \<leftarrow> fd_add (has_bit POLLERR e) i es;
       collect_sets ps (rs1, ws1, es1)
     }"

definition fd_zero :: "fd_set option \<Rightarrow> fd_set option" where
  "fd_zero S = map_option (\<lambda>_ _. False) S"

definition pth_select ::
  "('v, 'j, 'P, 'm, 'u) kernel \<Rightarrow> nat \<Rightarrow> fd_set option \<Rightarrow> fd_set option \<Rightarrow> fd_set option \<Rightarrow> (int \<times> int) option
     \<Rightarrow> (pollfd list \<Rightarrow> ('u, int list) syscall)
     \<Rightarrow> (('v, 'j, 'P, 'm, 'u) world, int \<times> fd_set option \<times> fd_set option \<times> fd_set option) comp" where
  "pth_select K n rs ws es timeout poll =
     bindW (getW cur) (\<lambda>c.
     bindW (\<lambda>w. let (p, P) = new_subpool (k_pools K) (r_pools (w_re w)) (pth_pool c)
                in Some (Ret p, w\<lparr>w_re := (w_re w)\<lparr>r_pools := P\<rparr>\<rparr>)) (\<lambda>p.
     let fds = select_fds n rs ws es;
         t = (case timeout of None \<Rightarrow> -1 | Some (sec, usec) \<Rightarrow> c_int (sec * 1000 + usec div 1000));
         free = updW (\<lambda>w. map_option (\<lambda>re. w\<lparr>w_re := re\<rparr>) (do_delete_pool (k_pools K) (k_cleanup K) (w_re w) p))
     in bindW (pth_poll K fds t poll) (\<lambda>(r, revs).
        if r = -1 then bindW free (\<lambda>_. retW (-1, rs, ws, es))
        else if r = 0 then bindW free (\<lambda>_. retW (0, fd_zero rs, fd_zero ws, fd_zero es))
        else bindW (getW (\<lambda>_. collect_sets (zip (map fd fds) revs) (fd_zero rs, fd_zero ws, fd_zero es))) (\<lambda>S.
             bindW free (\<lambda>_. retW (r, S))))))"

section \<open>Blocking leaves nothing behind\<close>

text \<open>The registrations that belong to thread \<open>t\<close>.\<close>

definition own_regs :: "tid \<Rightarrow> (pth_fn, tid) handle_table \<Rightarrow> (nat \<times> int \<times> int \<times> pth_fn) set" where
  "own_regs t tab = {(h, s, e, f). registration tab h = Some (s, e, f, t)}"

text \<open>
  What a thread relies on while it has given up control: it gets control back as the current
  thread, and the others keep the table's invariant and leave its registrations alone.
\<close>

definition polite :: "('v, 'j, 'P, 'm, 'u) kernel \<Rightarrow> bool" where
  "polite K \<longleftrightarrow> (\<forall>w t. current_pth w = Some t \<longrightarrow> w_pths w t \<noteq> None \<longrightarrow> table_inv (table w) \<longrightarrow>
     (\<exists>w'. k_switch K w = Some w' \<and> current_pth w' = Some t \<and> w_pths w' t \<noteq> None \<and>
       table_inv (table w') \<and> own_regs t (table w') = own_regs t (table w)))"

lemma table_set_table [simp]: "table (set_table tab w) = tab" "current_pth (set_table tab w) = current_pth w"
  "w_pths (set_table tab w) = w_pths w" "cur (set_table tab w) = cur w" "w_env (set_table tab w) = w_env w"
  by (simp_all add: set_table_def cur_def)

lemma set_os_simps [simp]:
  "os (set_os u w) = u" "current_pth (set_os u w) = current_pth w" "w_pths (set_os u w) = w_pths w"
  "table (set_os u w) = table w" "cur (set_os u w) = cur w"
  by (simp_all add: set_os_def cur_def)

lemma own_regs_upd:
  "registration tab' = (registration tab)(h \<mapsto> (s, e, f, t)) \<Longrightarrow> registration tab h = None \<Longrightarrow>
     own_regs t tab' = insert (h, s, e, f) (own_regs t tab)"
  "registration tab' = (registration tab)(h := None) \<Longrightarrow> (h, s, e, f) \<in> own_regs t tab \<Longrightarrow>
     own_regs t tab' = own_regs t tab - {(h, s, e, f)}"
  by (auto simp: own_regs_def split: if_splits)

lemma restore_env_spec:
  assumes "cur w = Some p"
  shows "restore_env w = Some (Ret (), w\<lparr>w_env := (w_env w)(''LANGUAGE'' := lang p, ''TZ'' := tz p)\<rparr>)"
proof -
  have "cur (w\<lparr>w_env := e\<rparr>) = Some p" for e using assms by (simp add: cur_def)
  then show ?thesis using assms
    by (simp add: restore_env_def bindW_def updW_def restore_lang_def restore_tz_def)
qed

lemma register_cur_spec:
  assumes "table_inv (table w)" "fits_short ops" "current_pth w = Some t"
  shows "\<exists>h tab. register_cur K f s ops w = Some (Ret h, set_table tab w) \<and> table_inv tab \<and>
    (h, s, ops, f) \<notin> own_regs t (table w) \<and> own_regs t tab = insert (h, s, ops, f) (own_regs t (table w))"
proof -
  obtain h tab where r: "reactor_register (k_handle_junk K) (k_pollfd_junk K) (table w) s ops f t = (h, tab)"
    by fastforce
  note i = reactor_register_inv [OF assms(1,2) r] and rr = reactor_register_registration [OF assms(1,2) r]
  have "register_cur K f s ops w = Some (Ret h, set_table tab w)" using assms(3) r by (simp add: register_cur_def)
  moreover have "(h, s, ops, f) \<notin> own_regs t (table w)" using rr(1) by (simp add: own_regs_def)
  ultimately show ?thesis using i own_regs_upd(1) [OF rr(2,1)] by blast
qed

lemma unregister_spec:
  assumes "table_inv (table w)" "(h, s, e, f) \<in> own_regs t (table w)"
  shows "\<exists>tab. unregister h w = Some (Ret (), set_table tab w) \<and> table_inv tab \<and>
    own_regs t tab = own_regs t (table w) - {(h, s, e, f)}"
proof -
  have "h < length (handles (table w))"
    using assms(2) by (auto simp: own_regs_def registration_def split: if_splits)
  then obtain tab where u: "reactor_unregister (table w) h = Some tab"
    using reactor_unregister_total [OF assms(1)] by blast
  note i = reactor_unregister_inv [OF assms(1) u] and r = reactor_unregister_registration [OF assms(1) u]
  show ?thesis using u i own_regs_upd(2) [OF r assms(2)] by (auto simp: unregister_def updW_def)
qed

lemma switch_spec:
  assumes "polite K" "current_pth w = Some t" "w_pths w t \<noteq> None" "table_inv (table w)"
  shows "\<exists>w'. switch_to_calling_context K w = Some (Ret (), w') \<and> k_switch K w = Some w' \<and> current_pth w' = Some t \<and> w_pths w' t \<noteq> None \<and>
       table_inv (table w') \<and> own_regs t (table w') = own_regs t (table w)"
proof -
  obtain w' where "k_switch K w = Some w'" "current_pth w' = Some t" "w_pths w' t \<noteq> None"
       "table_inv (table w')" "own_regs t (table w') = own_regs t (table w)"
    using assms unfolding polite_def by blast
  then show ?thesis using assms(2,3) by (auto simp: switch_to_calling_context_def updW_def cur_def)
qed

lemma block_polite:
  assumes K: "polite K" and t: "current_pth w = Some t" "w_pths w t \<noteq> None" and inv: "table_inv (table w)"
    and ops: "fits_short ops"
  shows "\<exists>r w' p. block K s ops w = Some (r, w') \<and> current_pth w' = Some t \<and> w_pths w' t = Some p \<and>
    table_inv (table w') \<and> own_regs t (table w') = own_regs t (table w) \<and>
    (if alarm_received p then r = Exit_thread
     else r = Ret () \<and> w_env w' ''LANGUAGE'' = lang p \<and> w_env w' ''TZ'' = tz p) \<and>
    (\<exists>tab ws. table_inv tab \<and> k_switch K (set_table tab w) = Some ws \<and> os w' = os ws \<and> w_pths w' = w_pths ws \<and>
      r_pools (w_re w') = r_pools (w_re ws))"
proof -
  obtain h tab where r: "register_cur K Return_from_block s ops w = Some (Ret h, set_table tab w)" "table_inv tab"
    "(h, s, ops, Return_from_block) \<notin> own_regs t (table w)"
    "own_regs t tab = insert (h, s, ops, Return_from_block) (own_regs t (table w))"
    using register_cur_spec [OF inv ops t(1)] by blast
  obtain w1 where w1: "switch_to_calling_context K (set_table tab w) = Some (Ret (), w1)" "current_pth w1 = Some t"
    "w_pths w1 t \<noteq> None" "table_inv (table w1)" "own_regs t (table w1) = own_regs t tab"
    "k_switch K (set_table tab w) = Some w1"
    using switch_spec [OF K, of "set_table tab w" t] t r(2) by auto
  have "(h, s, ops, Return_from_block) \<in> own_regs t (table w1)" using w1(5) r(4) by simp
  then obtain tab2 where u: "unregister h w1 = Some (Ret (), set_table tab2 w1)" "table_inv tab2"
    "own_regs t tab2 = own_regs t (table w1) - {(h, s, ops, Return_from_block)}"
    using unregister_spec [OF w1(4)] by blast
  have regs: "own_regs t tab2 = own_regs t (table w)" using u(3) w1(5) r(3,4) by auto
  let ?w2 = "set_table tab2 w1"
  obtain p where p: "w_pths w1 t = Some p" using w1(3) by blast
  have c: "cur ?w2 = Some p" using w1(2) p by (simp add: cur_def)
  have b: "block K s ops w = bindW exit_if_alarmed (\<lambda>_. restore_env) ?w2"
    using r(1) w1(1) u(1) by (simp add: block_def bindW_def)
  have al: "pth_alarm_received ?w2 = Some (alarm_received p)" using c by (simp add: pth_alarm_received_def)
  have sw: "\<exists>tab ws. table_inv tab \<and> k_switch K (set_table tab w) = Some ws \<and> r_user (w_re ?w2) = os ws \<and> w_pths w1 = w_pths ws \<and>
      r_pools (w_re ?w2) = r_pools (w_re ws)"
    using w1(6) r(2) by (intro exI [of _ tab] exI [of _ w1]) (simp add: set_table_def)
  show ?thesis
  proof (cases "alarm_received p")
    case True
    then have "block K s ops w = Some (Exit_thread, ?w2)"
      unfolding b using al c by (simp add: bindW_def exit_if_alarmed_def getW_def pth_exit_def)
    then show ?thesis
      using True w1(2) p u(2) regs sw by (intro exI [of _ Exit_thread] exI [of _ ?w2] exI [of _ p]) simp
  next
    case False
    then have "block K s ops w = Some (Ret (), ?w2\<lparr>w_env := (w_env ?w2)(''LANGUAGE'' := lang p, ''TZ'' := tz p)\<rparr>)"
      unfolding b using al restore_env_spec [OF c] by (simp add: bindW_def exit_if_alarmed_def getW_def retW_def)
    then show ?thesis
      using False w1(2) p u(2) regs sw
      by (intro exI [of _ "Ret ()"] exI [of _ "?w2\<lparr>w_env := (w_env ?w2)(''LANGUAGE'' := lang p, ''TZ'' := tz p)\<rparr>"] exI [of _ p]) simp
  qed
qed

text \<open>Thread \<open>t\<close> is running and has no alarm pending.\<close>

definition runs :: "tid \<Rightarrow> ('v, 'j, 'P, 'm, 'u) world \<Rightarrow> bool" where
  "runs t w \<longleftrightarrow> current_pth w = Some t \<and> (\<exists>p. w_pths w t = Some p \<and> \<not> alarm_received p) \<and> table_inv (table w)"

lemma runs_set_os [simp]: "runs t (set_os u w) = runs t w"
  by (simp add: runs_def)

lemma block_runs:
  assumes K: "polite K" and w: "runs t w" and ops: "fits_short ops"
    and al: "\<forall>w1 ws. k_switch K w1 = Some ws \<longrightarrow> runs t w1 \<longrightarrow> map_option alarm_received (w_pths ws t) = Some False"
  shows "\<exists>w' w1 ws. block K s ops w = Some (Ret (), w') \<and> runs t w' \<and> runs t w1 \<and> os w1 = os w \<and>
    k_switch K w1 = Some ws \<and> os w' = os ws \<and> w_pths w1 = w_pths w \<and> r_pools (w_re w1) = r_pools (w_re w) \<and>
    w_pths w' = w_pths ws \<and> r_pools (w_re w') = r_pools (w_re ws)"
proof -
  have t: "current_pth w = Some t" "w_pths w t \<noteq> None" "table_inv (table w)" using w by (auto simp: runs_def)
  obtain r w' p tab ws where b: "block K s ops w = Some (r, w')" "current_pth w' = Some t" "w_pths w' t = Some p"
    "table_inv (table w')" "if alarm_received p then r = Exit_thread else r = Ret ()"
    "k_switch K (set_table tab w) = Some ws" "os w' = os ws" "w_pths w' = w_pths ws" "table_inv tab"
    "r_pools (w_re w') = r_pools (w_re ws)"
    using block_polite [OF K t ops, of s] by (auto split: if_splits)
  have o: "os (set_table tab w) = os w" "w_pths (set_table tab w) = w_pths w"
    "r_pools (w_re (set_table tab w)) = r_pools (w_re w)" by (simp_all add: set_table_def)
  have r: "runs t (set_table tab w)" using w b(9) by (auto simp: runs_def)
  have "\<not> alarm_received p" using al [rule_format, OF b(6) r] b(3,8) by simp
  then have "block K s ops w = Some (Ret (), w')" "runs t w'" using b by (simp_all add: runs_def)
  then show ?thesis using r o b(6,7,8,10) by (intro exI [of _ w'] exI [of _ "set_table tab w"] exI [of _ ws]) simp
qed

section \<open>The retry loop\<close>

text \<open>
  The loop ends with the first result that is not \<open>EWOULDBLOCK\<close>, provided that blocking always
  comes back and the descriptor is ready after finitely many rounds (\<open>mu\<close> counts them).
\<close>

lemma again_loop_returns:
  fixes mu :: "('v, 'j, 'P, 'm, 'u) world \<Rightarrow> nat"
  assumes step: "\<forall>w x u. I w \<longrightarrow> f (os w) = ((-1, EWOULDBLOCK, x), u) \<longrightarrow>
      (\<exists>w1. block K s ops (set_os u w) = Some (Ret (), w1) \<and> I w1 \<and> mu w1 < mu w)"
    and I: "I w"
  shows "\<exists>w1 r e x. I w1 \<and> mu w1 \<le> mu w \<and> f (os w1) = ((r, e, x), snd (f (os w1))) \<and>
    \<not> (r = -1 \<and> e = EWOULDBLOCK) \<and>
    again_loop K ops s f w = Some (Ret (r, x), set_os (snd (f (os w1))) w1)"
  using I
proof (induction "mu w" arbitrary: w rule: less_induct)
  case less
  obtain r e x u where f: "f (os w) = ((r, e, x), u)" by (metis prod.collapse)
  show ?case
  proof (cases "r = -1 \<and> e = EWOULDBLOCK")
    case False
    then have "again_loop K ops s f w = Some (Ret (r, x), set_os u w)"
      using f by (subst again_loop.simps) (auto simp: bindW_def do_sys_def retW_def)
    then show ?thesis using False f less(2) by (intro exI [of _ w] exI [of _ r] exI [of _ e] exI [of _ x]) simp
  next
    case True
    then obtain w1 where w1: "block K s ops (set_os u w) = Some (Ret (), w1)" "I w1" "mu w1 < mu w"
      using step less(2) f by blast
    have "again_loop K ops s f w = again_loop K ops s f w1"
      using f True w1(1) by (subst again_loop.simps) (simp add: bindW_def do_sys_def)
    moreover obtain w2 r e x where "I w2" "mu w2 \<le> mu w1" "f (os w2) = ((r, e, x), snd (f (os w2)))"
      "\<not> (r = -1 \<and> e = EWOULDBLOCK)" "again_loop K ops s f w1 = Some (Ret (r, x), set_os (snd (f (os w2))) w2)"
      using less(1) [OF w1(3,2)] by blast
    ultimately show ?thesis using w1(3)
      by (intro exI [of _ w2] exI [of _ r] exI [of _ e] exI [of _ x]) simp
  qed
qed

section \<open>Exceptions\<close>

text \<open>The handler stack of the current thread; \<open>jmp_buf\<close>s are numbered from the bottom.\<close>

definition handlers :: "('v, 'j, 'P, 'm, 'u) kernel \<Rightarrow> ('v, 'j, 'P, 'm, 'u) world \<Rightarrow> nat list" where
  "handlers K w = (case cur w of None \<Rightarrow> []
     | Some p \<Rightarrow> (case exception_jmp_vec p of None \<Rightarrow> [] | Some v \<Rightarrow> elems (k_jumps K) v))"

text \<open>
  Code that treats the handler stack as pthrlib's own functions do: it returns with the stack as
  it found it, or jumps to the innermost handler, which is then popped.
\<close>

definition balanced :: "('v, 'j, 'P, 'm, 'u) kernel \<Rightarrow> (('v, 'j, 'P, 'm, 'u) world, 'a) comp \<Rightarrow> bool" where
  "balanced K m \<longleftrightarrow> (\<forall>w n r w'. cur w \<noteq> None \<longrightarrow> handlers K w = [0..<n] \<longrightarrow> m w = Some (r, w') \<longrightarrow>
     (case r of Ret _ \<Rightarrow> cur w' \<noteq> None \<and> handlers K w' = [0..<n]
      | Exit_thread \<Rightarrow> True
      | Jump j \<Rightarrow> cur w' \<noteq> None \<and> n = Suc j \<and> handlers K w' = [0..<j]))"

lemma balancedD:
  assumes "balanced K m" "cur w \<noteq> None" "handlers K w = [0..<n]" "m w = Some (r, w')"
  shows "case r of Ret _ \<Rightarrow> cur w' \<noteq> None \<and> handlers K w' = [0..<n]
      | Exit_thread \<Rightarrow> True | Jump j \<Rightarrow> cur w' \<noteq> None \<and> n = Suc j \<and> handlers K w' = [0..<j]"
  using assms unfolding balanced_def by blast

lemma balanced_ret: "balanced K (retW a)"
  by (simp add: balanced_def retW_def)

lemma balanced_bind:
  assumes "balanced K m" "\<And>a. balanced K (f a)"
  shows "balanced K (bindW m f)"
  unfolding balanced_def
proof (intro allI impI)
  fix w n r w' assume w: "cur w \<noteq> None" "handlers K w = [0..<n]" and b: "bindW m f w = Some (r, w')"
  obtain q w1 where m: "m w = Some (q, w1)" using b by (cases "m w") (auto simp: bindW_def)
  note d = balancedD [OF assms(1) w m]
  show "case r of Ret _ \<Rightarrow> cur w' \<noteq> None \<and> handlers K w' = [0..<n]
      | Exit_thread \<Rightarrow> True | Jump j \<Rightarrow> cur w' \<noteq> None \<and> n = Suc j \<and> handlers K w' = [0..<j]"
  proof (cases q)
    case (Ret a)
    then have "f a w1 = Some (r, w')" "cur w1 \<noteq> None" "handlers K w1 = [0..<n]"
      using b m d by (simp_all add: bindW_def)
    then show ?thesis using balancedD [OF assms(2)] by blast
  qed (use b m d in \<open>auto simp: bindW_def\<close>)
qed

lemma cur_upd_cur: "upd_cur f w = Some w' \<Longrightarrow> cur w' = map_option f (cur w)"
  by (auto simp: upd_cur_def cur_def bind_eq_Some_conv)

lemma upd_cur_total: "cur w = Some p \<Longrightarrow> \<exists>w'. upd_cur f w = Some w' \<and> cur w' = Some (f p)"
  by (auto simp: upd_cur_def cur_def bind_eq_Some_conv)

lemma push_handler_spec:
  assumes J: "c2_vector (k_jumps K)" and c: "cur w \<noteq> None" and h: "handlers K w = [0..<n]"
  shows "\<exists>w'. push_handler K w = Some (Ret n, w') \<and> cur w' \<noteq> None \<and> handlers K w' = [0..<Suc n]"
proof -
  obtain p where p: "cur w = Some p" using c by blast
  let ?v = "case exception_jmp_vec p of None \<Rightarrow> vec_new (k_jumps K) | Some v \<Rightarrow> v"
  have e: "elems (k_jumps K) ?v = [0..<n]"
    using h p c2_vector.elems_new [OF J] by (auto simp: handlers_def split: option.splits)
  then have sz: "vec_size (k_jumps K) ?v = n" using c2_vector.length_elems [OF J, of ?v] by simp
  obtain w' where w': "upd_cur (\<lambda>p. p\<lparr>exception_jmp_vec := Some (vec_push_back (k_jumps K) ?v n)\<rparr>) w = Some w'"
    "cur w' = Some (p\<lparr>exception_jmp_vec := Some (vec_push_back (k_jumps K) ?v n)\<rparr>)"
    using upd_cur_total [OF p] by blast
  have "push_handler K w = Some (Ret n, w')"
    using p sz w'(1) by (simp add: push_handler_def Let_def)
  moreover have "handlers K w' = [0..<Suc n]"
    using w'(2) e c2_vector.elems_push_back [OF J] by (simp add: handlers_def)
  ultimately show ?thesis using w'(2) by auto
qed

lemma pop_handler_spec:
  assumes J: "c2_vector (k_jumps K)" and c: "cur w \<noteq> None" and h: "handlers K w = [0..<Suc n]"
  shows "\<exists>w'. pop_handler K w = Some (Ret n, w') \<and> cur w' \<noteq> None \<and> handlers K w' = [0..<n] \<and>
    map_option exception_msg (cur w') = map_option exception_msg (cur w)"
proof -
  obtain p where p: "cur w = Some p" using c by blast
  obtain v where v: "exception_jmp_vec p = Some v" "elems (k_jumps K) v = [0..<Suc n]"
    using h p by (auto simp: handlers_def split: option.splits)
  obtain v1 jb where pb: "vec_pop_back (k_jumps K) v = (v1, jb)" by fastforce
  have "elems (k_jumps K) v \<noteq> []" using v(2) by simp
  then have "elems (k_jumps K) v = elems (k_jumps K) v1 @ [jb]" by (rule c2_vector.pop_back [OF J _ pb])
  then have "elems (k_jumps K) v1 @ [jb] = [0..<n] @ [n]" using v(2) upt_Suc_append [OF le0] by metis
  then have e: "elems (k_jumps K) v1 = [0..<n]" "jb = n" by simp_all
  obtain w' where w': "upd_cur (\<lambda>p. p\<lparr>exception_jmp_vec := Some v1\<rparr>) w = Some w'"
    "cur w' = Some (p\<lparr>exception_jmp_vec := Some v1\<rparr>)"
    using upd_cur_total [OF p] by blast
  then have "pop_handler K w = Some (Ret n, w')" using p v(1) pb e(2) by (simp add: pop_handler_def)
  then show ?thesis using w'(2) e(1) p by (auto simp: handlers_def)
qed

lemma pth_die_spec:
  assumes J: "c2_vector (k_jumps K)" and c: "cur w \<noteq> None" and h: "handlers K w = [0..<Suc n]"
  shows "\<exists>w'. pth_die K msg w = Some (Jump n, w') \<and> handlers K w' = [0..<n] \<and> cur w' \<noteq> None \<and>
    map_option exception_msg (cur w') = Some msg"
proof -
  obtain p where p: "cur w = Some p" using c by blast
  obtain v where v: "exception_jmp_vec p = Some v" "elems (k_jumps K) v = [0..<Suc n]"
    using h p by (auto simp: handlers_def split: option.splits)
  have sz: "vec_size (k_jumps K) v = Suc n" using v(2) c2_vector.length_elems [OF J, of v] by simp
  obtain w1 where w1: "upd_cur (\<lambda>p. p\<lparr>exception_msg := msg\<rparr>) w = Some w1" "cur w1 = Some (p\<lparr>exception_msg := msg\<rparr>)"
    using upd_cur_total [OF p] by blast
  have h1: "cur w1 \<noteq> None" "handlers K w1 = [0..<Suc n]" using w1(2) v by (simp_all add: handlers_def)
  obtain w2 where w2: "pop_handler K w1 = Some (Ret n, w2)" "cur w2 \<noteq> None" "handlers K w2 = [0..<n]"
    "map_option exception_msg (cur w2) = map_option exception_msg (cur w1)"
    using pop_handler_spec [OF J h1] by blast
  have "pth_die K msg w = Some (Jump n, w2)"
    using p v(1) sz w1(1) w2(1) by (simp add: pth_die_def bindW_def updW_def)
  then show ?thesis using w2 w1(2) by (intro exI [of _ w2]) simp
qed

lemma balanced_die:
  assumes J: "c2_vector (k_jumps K)"
  shows "balanced K (pth_die K msg)"
  unfolding balanced_def
proof (intro allI impI)
  fix w n and r :: "'f outcome" and w' assume w: "cur w \<noteq> None" "handlers K w = [0..<n]" "pth_die K msg w = Some (r, w')"
  show "case r of Ret _ \<Rightarrow> cur w' \<noteq> None \<and> handlers K w' = [0..<n]
      | Exit_thread \<Rightarrow> True | Jump j \<Rightarrow> cur w' \<noteq> None \<and> n = Suc j \<and> handlers K w' = [0..<j]"
  proof (cases n)
    case (Suc m)
    obtain w1 where "(pth_die K msg w :: ('f outcome \<times> _) option) = Some (Jump m, w1)" "handlers K w1 = [0..<m]" "cur w1 \<noteq> None"
      using pth_die_spec [OF J w(1) w(2) [unfolded Suc]] by blast
    then show ?thesis using w(3) Suc by simp
  next
    case 0
    obtain p where p: "cur w = Some p" using w(1) by blast
    have "vec_size (k_jumps K) v = 0" if "exception_jmp_vec p = Some v" for v
      using w(2) 0 p that c2_vector.size_0_iff [OF J, of v] by (simp add: handlers_def)
    then have "r = Exit_thread"
      using w(3) p by (cases "exception_jmp_vec p") (auto simp: pth_die_def pth_exit_def)
    then show ?thesis by simp
  qed
qed

text \<open>
  \<open>pth_catch\<close> around balanced code: it returns with the handler stack it was called with, with the
  message when the code died, and never jumps further itself.
\<close>

lemma pth_catch_ret:
  assumes J: "c2_vector (k_jumps K)" and c: "cur w \<noteq> None" and h: "handlers K w = [0..<n]"
    and p: "push_handler K w = Some (Ret n, w1)" and b: "balanced K fn" and f: "fn w1 = Some (r, w2)"
  shows "case r of
      Ret _ \<Rightarrow> (\<exists>w3. pth_catch K fn w = Some (Ret None, w3) \<and> cur w3 \<noteq> None \<and> handlers K w3 = [0..<n])
    | Exit_thread \<Rightarrow> pth_catch K fn w = Some (Exit_thread, w2)
    | Jump j \<Rightarrow> j = n \<and> cur w2 \<noteq> None \<and> handlers K w2 = [0..<n] \<and>
        pth_catch K fn w = Some (Ret (map_option exception_msg (cur w2)), w2)"
proof -
  have w1: "cur w1 \<noteq> None" "handlers K w1 = [0..<Suc n]" using push_handler_spec [OF J c h] p by auto
  note d = balancedD [OF b w1 f]
  show ?thesis
  proof (cases r)
    case (Ret a)
    then have w2: "cur w2 \<noteq> None" "handlers K w2 = [0..<Suc n]" using d by simp_all
    obtain w3 where w3: "pop_handler K w2 = Some (Ret n, w3)" "cur w3 \<noteq> None" "handlers K w3 = [0..<n]"
      using pop_handler_spec [OF J w2] by blast
    have "pth_catch K fn w = Some (Ret None, w3)"
      using p f Ret w3(1) by (simp add: pth_catch_def bindW_def catch_jump_def retW_def)
    then show ?thesis using w3 Ret by simp
  next
    case Exit_thread
    then show ?thesis using p f by (simp add: pth_catch_def bindW_def catch_jump_def)
  next
    case (Jump j)
    then have j: "j = n" "cur w2 \<noteq> None" "handlers K w2 = [0..<n]" using d by simp_all
    then have "pth_catch K fn w = Some (Ret (map_option exception_msg (cur w2)), w2)"
      using p f Jump by (auto simp: pth_catch_def bindW_def catch_jump_def getW_def)
    then show ?thesis using j Jump by simp
  qed
qed

lemma balanced_catch:
  assumes J: "c2_vector (k_jumps K)" and b: "balanced K fn"
  shows "balanced K (pth_catch K fn)"
  unfolding balanced_def
proof (intro allI impI)
  fix w n r w' assume w: "cur w \<noteq> None" "handlers K w = [0..<n]" and c: "pth_catch K fn w = Some (r, w')"
  obtain w1 where p: "push_handler K w = Some (Ret n, w1)" using push_handler_spec [OF J w] by blast
  obtain q w2 where f: "fn w1 = Some (q, w2)"
    using c p by (cases "fn w1") (auto simp: pth_catch_def bindW_def catch_jump_def)
  show "case r of Ret _ \<Rightarrow> cur w' \<noteq> None \<and> handlers K w' = [0..<n]
      | Exit_thread \<Rightarrow> True | Jump j \<Rightarrow> cur w' \<noteq> None \<and> n = Suc j \<and> handlers K w' = [0..<j]"
    using pth_catch_ret [OF J w p b f] c by (cases q) auto
qed

section \<open>Thread slots\<close>

text \<open>Every slot of the global list that is in use names a thread that knows its slot.\<close>

definition slots_ok :: "('v, 'j, 'P, 'm, 'u) kernel \<Rightarrow> ('v, 'j, 'P, 'm, 'u) world \<Rightarrow> bool" where
  "slots_ok K w \<longleftrightarrow> (\<forall>i < vec_size (k_threads K) (w_threads w). \<forall>t.
     elems (k_threads K) (w_threads w) ! i = Some t \<longrightarrow> (\<exists>p. w_pths w t = Some p \<and> pth_n p = i))"

lemma slots_ok_list:
  assumes "c2_vector (k_threads K)"
  shows "slots_ok K w \<longleftrightarrow> (\<forall>i < length (elems (k_threads K) (w_threads w)). \<forall>t.
     elems (k_threads K) (w_threads w) ! i = Some t \<longrightarrow> (\<exists>p. w_pths w t = Some p \<and> pth_n p = i))"
  using c2_vector.length_elems [OF assms] by (simp add: slots_ok_def)

lemma alloc_slot_spec:
  assumes "c2_vector V" "alloc_slot V v t = (i, v')"
  shows "(i < length (elems V v) \<and> elems V v ! i = None \<and> elems V v' = (elems V v)[i := Some t] \<or>
     i = length (elems V v) \<and> elems V v' = elems V v @ [Some t]) \<and>
    (\<forall>j < i. elems V v ! j \<noteq> None)"
proof -
  let ?i = "first_index (\<lambda>p. p = None) (elems V v)"
  have len: "length (elems V v) = vec_size V v" by (rule c2_vector.length_elems [OF assms(1)])
  have before: "\<forall>j < ?i. elems V v ! j \<noteq> None" using first_index_before by fast
  show ?thesis
  proof (cases "?i < vec_size V v")
    case True
    then have "i = ?i" "v' = vec_replace V v ?i (Some t)" using assms(2) by (auto simp: alloc_slot_def Let_def)
    then show ?thesis
      using True before len c2_vector.elems_replace [OF assms(1) True] first_index_hit [of "\<lambda>p. p = None" "elems V v"] by simp
  next
    case False
    then have "i = ?i" "v' = vec_push_back V v (Some t)" using assms(2) by (auto simp: alloc_slot_def Let_def)
    then show ?thesis
      using False before len c2_vector.elems_push_back [OF assms(1)] first_index_miss_eq [of "\<lambda>p. p = None" "elems V v"] by simp
  qed
qed

section \<open>Alarms\<close>

context c2_pool
begin

text \<open>Unsetting a timer leaves the other timers in their pools.\<close>

lemma unset_timer_others:
  assumes ok: "timers_ok pinv live sub own re q" and a: "a \<in> fst ` set q" and un: "reactor_unset_timer_early PO X re a = Some re'"
    and others: "\<forall>b. b \<noteq> a \<longrightarrow> map_option timer_info (theap (r_timers re') b) = map_option timer_info (theap (r_timers re) b)"
  shows "b \<in> fst ` set (sched_remove a q) \<Longrightarrow> theap (r_timers re') b = Some y \<Longrightarrow>
      b \<in> fst ` set q \<and> (\<exists>z. theap (r_timers re) b = Some z \<and> tpool z = tpool y)"
    and "dom (theap (r_timers re')) \<subseteq> dom (theap (r_timers re))"
proof -
  show "b \<in> fst ` set q \<and> (\<exists>z. theap (r_timers re) b = Some z \<and> tpool z = tpool y)"
    if h: "b \<in> fst ` set (sched_remove a q)" "theap (r_timers re') b = Some y" for b y
  proof -
    have b: "b \<in> fst ` set q" "b \<noteq> a" using h(1) by (auto simp: sched_remove_def)
    then have "map_option timer_info (theap (r_timers re) b) = map_option timer_info (Some y)" using others h(2) by metis
    then show ?thesis using b(1) map_option_infoD by blast
  qed
  obtain x where "theap (r_timers re) a = Some x" using ok a by (auto simp: timers_ok_def)
  then have gone: "theap (r_timers re') a = None" using unset_timer_pools(2) [OF ok a _ un] by blast
  show "dom (theap (r_timers re')) \<subseteq> dom (theap (r_timers re))"
  proof
    fix b assume b: "b \<in> dom (theap (r_timers re'))"
    then have "map_option timer_info (theap (r_timers re') b) = map_option timer_info (theap (r_timers re) b)"
      using others gone by (metis domIff)
    then show "b \<in> dom (theap (r_timers re))" using b by (cases "theap (r_timers re) b") auto
  qed
qed

lemma cancel_alarm:
  assumes PO: "k_pools K = PO" and ok: "timers_ok pinv live sub own (w_re w) q" and c: "cur w = Some p"
    and pl: "pth_pool p \<in> live (r_pools (w_re w))"
    and apart: "\<forall>a \<in> fst ` set q. \<forall>x. theap (r_timers (w_re w)) a = Some x \<longrightarrow> pth_pool p \<noteq> tpool x"
    and al: "\<forall>a. alarm_timer p = Some a \<longrightarrow> a \<in> fst ` set q"
    and q1: "q1 = (case alarm_timer p of None \<Rightarrow> q | Some a \<Rightarrow> sched_remove a q)"
  shows "\<exists>w1. (case alarm_timer p of Some a \<Rightarrow> unset_timer K a | None \<Rightarrow> retW ()) w = Some (Ret (), w1) \<and>
      cur w1 = Some p \<and> timers_ok pinv live sub own (w_re w1) q1 \<and>
      pth_pool p \<in> live (r_pools (w_re w1)) \<and> reactor_time (w_re w1) = reactor_time (w_re w) \<and>
      dom (theap (r_timers (w_re w1))) \<subseteq> dom (theap (r_timers (w_re w))) \<and>
      (\<forall>a \<in> fst ` set q1. \<forall>x. theap (r_timers (w_re w1)) a = Some x \<longrightarrow> pth_pool p \<noteq> tpool x)"
proof (cases "alarm_timer p")
  case None
  then show ?thesis using ok c pl apart q1 by (auto simp: retW_def)
next
  case (Some a)
  then have a: "a \<in> fst ` set q" using al by blast
  obtain re where re: "reactor_unset_timer_early PO (k_cleanup K) (w_re w) a = Some re"
    "timers_ok pinv live sub own re (sched_remove a q)" "reactor_time re = reactor_time (w_re w)"
    "\<forall>b. b \<noteq> a \<longrightarrow> map_option timer_info (theap (r_timers re) b) = map_option timer_info (theap (r_timers (w_re w)) b)"
    using unset_timer_spec [OF ok a] by blast
  obtain x where x: "theap (r_timers (w_re w)) a = Some x" using ok a by (auto simp: timers_ok_def)
  note others = unset_timer_others [OF ok a re(1,4)]
  have "\<forall>b \<in> fst ` set q1. \<forall>y. theap (r_timers re) b = Some y \<longrightarrow> pth_pool p \<noteq> tpool y"
    using others(1) apart q1 Some by (metis option.case(2))
  moreover have "cur (w\<lparr>w_re := re\<rparr>) = Some p" using c by (simp add: cur_def)
  moreover have "unset_timer K a w = Some (Ret (), w\<lparr>w_re := re\<rparr>)" using re(1) PO by (simp add: unset_timer_def updW_def)
  moreover have "pth_pool p \<in> live (r_pools re)"
    using unset_timer_pools(1) [OF ok a x re(1)] pl apart a x by blast
  ultimately show ?thesis
    using re(2,3) Some q1 others(2) by (intro exI [of _ "w\<lparr>w_re := re\<rparr>"]) simp
qed

lemma set_alarm:
  assumes PO: "k_pools K = PO" and ok: "timers_ok pinv live sub own (w_re w) q" and c: "current_pth w = Some t" "w_pths w t = Some p"
    and pl: "pth_pool p \<in> live (r_pools (w_re w))" and fresh: "theap (r_timers (w_re w)) (k_timer_addr K w) = None"
    and apart: "\<forall>a \<in> fst ` set q. \<forall>x. theap (r_timers (w_re w)) a = Some x \<longrightarrow> pth_pool p \<noteq> tpool x"
  shows "\<exists>w' p' b x. bindW (set_cur_timer K Return_from_alarm ms) (\<lambda>a. updW (upd_cur (\<lambda>p. p\<lparr>alarm_timer := Some a\<rparr>))) w = Some (Ret (), w') \<and>
    cur w' = Some p' \<and> alarm_timer p' = Some b \<and> theap (r_timers (w_re w')) b = Some x \<and> tfn x = Return_from_alarm \<and>
    timers_ok pinv live sub own (w_re w') (sched_insert b (unat (trigger_time (reactor_time (w_re w)) ms)) q)"
proof -
  let ?b = "k_timer_addr K w"
  obtain re x where re: "reactor_set_timer PO (w_re w) (pth_pool p) ms Return_from_alarm t ?b (k_timer_junk K) = Some (?b, re)"
    "timers_ok pinv live sub own re (sched_insert ?b (unat (trigger_time (reactor_time (w_re w)) ms)) q)"
    "theap (r_timers re) ?b = Some x" "tfn x = Return_from_alarm"
    using set_timer_spec [OF ok fresh pl, of ms Return_from_alarm t "k_timer_junk K"] apart by auto
  let ?w = "w\<lparr>w_re := re, w_pths := (w_pths w)(t \<mapsto> p\<lparr>alarm_timer := Some ?b\<rparr>)\<rparr>"
  have "bindW (set_cur_timer K Return_from_alarm ms) (\<lambda>a. updW (upd_cur (\<lambda>p. p\<lparr>alarm_timer := Some a\<rparr>))) w = Some (Ret (), ?w)"
    using re(1) c PO by (simp add: bindW_def set_cur_timer_def updW_def upd_cur_def)
  then show ?thesis
    using re(2-4) c by (intro exI [of _ ?w] exI [of _ "p\<lparr>alarm_timer := Some ?b\<rparr>"] exI [of _ ?b] exI [of _ x]) (simp add: cur_def)
qed

lemma pth_timeout_spec:
  assumes PO: "k_pools K = PO" and ok: "timers_ok pinv live sub own (w_re w) q" and c: "cur w = Some p"
    and pl: "pth_pool p \<in> live (r_pools (w_re w))"
    and apart: "\<And>a x. a \<in> fst ` set q \<Longrightarrow> theap (r_timers (w_re w)) a = Some x \<Longrightarrow> pth_pool p \<noteq> tpool x"
    and al: "\<And>a. alarm_timer p = Some a \<Longrightarrow> a \<in> fst ` set q"
    and fresh: "\<And>w1. dom (theap (r_timers (w_re w1))) \<subseteq> dom (theap (r_timers (w_re w))) \<Longrightarrow>
      theap (r_timers (w_re w)) (k_timer_addr K w1) = None"
    and q1: "q1 = (case alarm_timer p of None \<Rightarrow> q | Some a \<Rightarrow> sched_remove a q)"
  shows "\<exists>w' p'. pth_timeout K seconds w = Some (Ret (), w') \<and> cur w' = Some p' \<and>
    (if seconds = 0 then alarm_timer p' = None \<and> timers_ok pinv live sub own (w_re w') q1
     else (\<exists>b x. alarm_timer p' = Some b \<and> theap (r_timers (w_re w')) b = Some x \<and> tfn x = Return_from_alarm \<and>
       timers_ok pinv live sub own (w_re w')
         (sched_insert b (unat (reactor_time (w_re w) + word_of_int (c_int (seconds * 1000)))) q1)))"
proof -
  obtain w1 where w1: "(case alarm_timer p of Some a \<Rightarrow> unset_timer K a | None \<Rightarrow> retW ()) w = Some (Ret (), w1)"
    "cur w1 = Some p" "timers_ok pinv live sub own (w_re w1) q1" "pth_pool p \<in> live (r_pools (w_re w1))"
    "reactor_time (w_re w1) = reactor_time (w_re w)" "dom (theap (r_timers (w_re w1))) \<subseteq> dom (theap (r_timers (w_re w)))"
    "\<forall>a \<in> fst ` set q1. \<forall>x. theap (r_timers (w_re w1)) a = Some x \<longrightarrow> pth_pool p \<noteq> tpool x"
    using cancel_alarm [OF PO ok c pl _ _ q1] apart al by blast
  obtain t where t: "current_pth w1 = Some t" "w_pths w1 t = Some p" using w1(2) by (auto simp: cur_def bind_eq_Some_conv)
  let ?p2 = "p\<lparr>alarm_timer := None\<rparr>" and ?w2 = "w1\<lparr>w_pths := (w_pths w1)(t \<mapsto> p\<lparr>alarm_timer := None\<rparr>)\<rparr>"
  have run: "pth_timeout K seconds w = (if seconds \<noteq> 0
      then bindW (set_cur_timer K Return_from_alarm (c_int (seconds * 1000))) (\<lambda>a.
          updW (upd_cur (\<lambda>p. p\<lparr>alarm_timer := Some a\<rparr>))) ?w2 else retW () ?w2)"
    using c w1(1) t by (simp add: pth_timeout_def bindW_def getW_def updW_def upd_cur_def)
  show ?thesis
  proof (cases "seconds = 0")
    case True
    then show ?thesis using run w1(3) t by (simp add: retW_def cur_def)
  next
    case False
    have "theap (r_timers (w_re w)) (k_timer_addr K ?w2) = None" by (rule fresh) (use w1(6) in simp)
    then have f: "theap (r_timers (w_re ?w2)) (k_timer_addr K ?w2) = None" using w1(6) by auto
    obtain w' p' b x where "bindW (set_cur_timer K Return_from_alarm (c_int (seconds * 1000))) (\<lambda>a.
        updW (upd_cur (\<lambda>p. p\<lparr>alarm_timer := Some a\<rparr>))) ?w2 = Some (Ret (), w')" "cur w' = Some p'" "alarm_timer p' = Some b"
      "theap (r_timers (w_re w')) b = Some x" "tfn x = Return_from_alarm"
      "timers_ok pinv live sub own (w_re w') (sched_insert b (unat (trigger_time (reactor_time (w_re ?w2)) (c_int (seconds * 1000)))) q1)"
      using set_alarm [OF PO _ _ _ _ f, of q1 t ?p2 "c_int (seconds * 1000)"] w1(3,4,7) t by auto
    then show ?thesis using run False w1(5) by (intro exI [of _ w'] exI [of _ p']) (auto simp: trigger_time_def)
  qed
qed

end

section \<open>Properties\<close>

text \<open>A kernel over lists in which blocking makes the operating system's count of busy rounds go down.\<close>

definition demo_kernel :: "(tid option list, nat list, cpools, nat \<times> (addr \<rightharpoonup> int), nat) kernel" where
  "demo_kernel = \<lparr>k_threads = list_vec, k_jumps = list_vec, k_pools = cpool_ops, k_stack = bump_sys,
     k_cleanup = (\<lambda>_. Some), k_handle_junk = (\<lambda>_. \<lparr>offset = 9, hfn = Return_from_block, hdata = 0\<rparr>),
     k_pollfd_junk = (\<lambda>_. \<lparr>fd = 0, events = 0, revents = 4\<rparr>), k_timer_addr = (\<lambda>_. 4),
     k_timer_junk = \<lparr>tpool = 0, tprev = None, tnext = None, delta = 0, tfn = Return_from_block, tdata = 0\<rparr>,
     k_switch = (\<lambda>w. Some (set_os (os w - 1) w)), k_run = (\<lambda>_. Some)\<rparr>"

definition demo_pth :: "nat list pseudothread" where
  "demo_pth = \<lparr>pth_n = 0, pth_stack = 5, pth_stack_size = 65536, alarm_received = False, alarm_timer = None,
     pth_pool = 0, pth_name = ''main'', exception_jmp_vec = None, exception_msg = [], poll_timeout = False,
     pth_run = 0, pth_data = 0, lang = Some ''en'', tz = None\<rparr>"

definition demo_world :: "(tid option list, nat list, cpools, nat \<times> (addr \<rightharpoonup> int), nat) world" where
  "demo_world = \<lparr>w_re = \<lparr>r_table = empty_table, r_timers = empty_queue, head_prepoll = [], reactor_time = 1000,
       r_pools = demo_pools, r_user = 2\<rparr>,
     w_pths = [7 \<mapsto> demo_pth], current_pth = Some 7, w_threads = [Some 7, None], default_stack_size = 65536,
     w_stacks = \<lparr>pending_stack_base = None, pending_stack_size = 0, memory = (6, [5 \<mapsto> 65536])\<rparr>, w_env = Map.empty\<rparr>"

lemma demo_polite: "polite demo_kernel"
  by (simp add: polite_def demo_kernel_def)

lemma demo_world_ok: "current_pth demo_world = Some 7" "w_pths demo_world 7 \<noteq> None" "table_inv (table demo_world)"
  "cur demo_world = Some demo_pth"
  by (simp_all add: demo_world_def cur_def)

text \<open>
  C11: a thread that blocks on a descriptor always gets on when it is given control back: it leaves
  no registration behind and loses none, ends itself if an alarm was received, and otherwise runs
  with its own \<open>LANGUAGE\<close> and \<open>TZ\<close>.
\<close>

theorem block_leaves_nothing_behind:
  assumes "polite K" "current_pth w = Some t" "w_pths w t \<noteq> None" "table_inv (table w)" "fits_short ops"
  shows "\<exists>r w' p. block K s ops w = Some (r, w') \<and> current_pth w' = Some t \<and> w_pths w' t = Some p \<and>
    table_inv (table w') \<and> own_regs t (table w') = own_regs t (table w) \<and>
    (if alarm_received p then r = Exit_thread
     else r = Ret () \<and> w_env w' ''LANGUAGE'' = lang p \<and> w_env w' ''TZ'' = tz p)"
  using block_polite [OF assms] by blast

theorem block_leaves_nothing_behind_witness:
  "\<exists>r w' p. block demo_kernel 3 REACTOR_READ demo_world = Some (r, w') \<and> current_pth w' = Some 7 \<and> w_pths w' 7 = Some p \<and>
    table_inv (table w') \<and> own_regs 7 (table w') = own_regs 7 (table demo_world) \<and>
    (if alarm_received p then r = Exit_thread
     else r = Ret () \<and> w_env w' ''LANGUAGE'' = lang p \<and> w_env w' ''TZ'' = tz p)"
  by (rule block_leaves_nothing_behind [OF demo_polite demo_world_ok(1-3)]) (simp add: fits_short_def REACTOR_READ_def)

text \<open>
  \<open>pth_read\<close> (like its siblings, all the same loop) returns the result of the first \<open>read\<close> that
  does not fail with \<open>EWOULDBLOCK\<close>, once the descriptor becomes ready after finitely many rounds.
\<close>

theorem pth_read_returns:
  fixes mu :: "('v, 'j, 'P, 'm, 'u) world \<Rightarrow> nat"
  assumes "\<forall>w x u. I w \<longrightarrow> f (os w) = ((-1, EWOULDBLOCK, x), u) \<longrightarrow>
      (\<exists>w1. block K s REACTOR_READ (set_os u w) = Some (Ret (), w1) \<and> I w1 \<and> mu w1 < mu w)"
    and "I w"
  shows "\<exists>w1 r e x. I w1 \<and> f (os w1) = ((r, e, x), snd (f (os w1))) \<and> \<not> (r = -1 \<and> e = EWOULDBLOCK) \<and>
    pth_read K s f w = Some (Ret (r, x), set_os (snd (f (os w1))) w1)"
  using again_loop_returns [OF assms] unfolding pth_read_def by blast

definition demo_read :: "(nat, string) syscall" where
  "demo_read u = (if u > 0 then ((-1, EWOULDBLOCK, []), u) else ((4, 0, ''data''), u))"

definition demo_inv :: "(tid option list, nat list, cpools, nat \<times> (addr \<rightharpoonup> int), nat) world \<Rightarrow> bool" where
  "demo_inv w \<longleftrightarrow> current_pth w = Some 7 \<and> w_pths w 7 = Some demo_pth \<and> table_inv (table w)"

lemma demo_block:
  assumes "demo_inv w"
  shows "\<exists>w'. block demo_kernel 3 REACTOR_READ w = Some (Ret (), w') \<and> demo_inv w' \<and> os w' = os w - 1"
proof -
  have t: "current_pth w = Some 7" "w_pths w 7 \<noteq> None" "table_inv (table w)" using assms by (auto simp: demo_inv_def)
  have f: "fits_short REACTOR_READ" by (simp add: fits_short_def REACTOR_READ_def)
  obtain r w' p tab ws where b: "block demo_kernel 3 REACTOR_READ w = Some (r, w')" "current_pth w' = Some 7"
    "w_pths w' 7 = Some p" "table_inv (table w')" "if alarm_received p then r = Exit_thread else r = Ret ()"
    "k_switch demo_kernel (set_table tab w) = Some ws" "os w' = os ws" "w_pths w' = w_pths ws"
    using block_polite [OF demo_polite t f, of 3] by (auto split: if_splits)
  have "ws = set_os (os w - 1) (set_table tab w)"
    using b(6) by (simp add: demo_kernel_def set_table_def)
  then have "os w' = os w - 1" "w_pths w' = w_pths w" using b(7,8) by simp_all
  then show ?thesis using b(1-5) assms by (auto simp: demo_inv_def demo_pth_def)
qed

theorem pth_read_returns_witness:
  "\<exists>w1 r e x. demo_inv w1 \<and> demo_read (os w1) = ((r, e, x), snd (demo_read (os w1))) \<and> \<not> (r = -1 \<and> e = EWOULDBLOCK) \<and>
    pth_read demo_kernel 3 demo_read demo_world = Some (Ret (r, x), set_os (snd (demo_read (os w1))) w1)"
proof (rule pth_read_returns [where mu = "os"])
  show "\<forall>w x u. demo_inv w \<longrightarrow> demo_read (os w) = ((-1, EWOULDBLOCK, x), u) \<longrightarrow>
      (\<exists>w1. block demo_kernel 3 REACTOR_READ (set_os u w) = Some (Ret (), w1) \<and> demo_inv w1 \<and> os w1 < os w)"
  proof (intro allI impI)
    fix w x u assume w: "demo_inv w" "demo_read (os w) = ((-1, EWOULDBLOCK, x), u)"
    then have u: "0 < os w" "u = os w" by (auto simp: demo_read_def split: if_splits)
    have "demo_inv (set_os u w)" using w(1) by (simp add: demo_inv_def)
    then show "\<exists>w1. block demo_kernel 3 REACTOR_READ (set_os u w) = Some (Ret (), w1) \<and> demo_inv w1 \<and> os w1 < os w"
      using demo_block [of "set_os u w"] u by auto
  qed
  show "demo_inv demo_world" by (simp add: demo_inv_def demo_world_def)
qed

text \<open>
  C12: exceptions. When code run under \<open>pth_catch\<close> works for a while and then dies, \<open>pth_catch\<close>
  returns exactly the message of that exception, with the handler stack as deep as it was before;
  this nests, since \<open>pth_catch\<close> keeps the handler stack balanced itself.
\<close>

theorem pth_catch_returns_message:
  assumes J: "c2_vector (k_jumps K)" and c: "cur w \<noteq> None" and h: "handlers K w = [0..<n]"
    and b: "balanced K fn" and p: "push_handler K w = Some (Ret n, w1)" and f: "fn w1 = Some (Ret a, w2)"
  shows "\<exists>w'. pth_catch K (bindW fn (\<lambda>_. pth_die K msg)) w = Some (Ret (Some msg), w') \<and>
    handlers K w' = [0..<n] \<and> balanced K (pth_catch K (bindW fn (\<lambda>_. pth_die K msg)))"
proof -
  let ?fn = "bindW fn (\<lambda>_. pth_die K msg :: (_, unit) comp)"
  have bf: "balanced K ?fn" by (rule balanced_bind [OF b balanced_die [OF J]])
  have w1: "cur w1 \<noteq> None" "handlers K w1 = [0..<Suc n]" using push_handler_spec [OF J c h] p by auto
  have w2: "cur w2 \<noteq> None" "handlers K w2 = [0..<Suc n]" using balancedD [OF b w1 f] by simp_all
  obtain w3 where d: "(pth_die K msg w2 :: (unit outcome \<times> _) option) = Some (Jump n, w3)" "handlers K w3 = [0..<n]" "cur w3 \<noteq> None"
    "map_option exception_msg (cur w3) = Some msg"
    using pth_die_spec [OF J w2] by blast
  have "?fn w1 = Some (Jump n, w3)" using f d(1) by (simp add: bindW_def)
  then show ?thesis using pth_catch_ret [OF J c h p bf] d balanced_catch [OF J bf] by force
qed

theorem pth_catch_returns_message_witness:
  "\<exists>w'. pth_catch demo_kernel (bindW (retW ()) (\<lambda>_. pth_die demo_kernel ''died'')) demo_world = Some (Ret (Some ''died''), w') \<and>
    handlers demo_kernel w' = [0..<0] \<and>
    balanced demo_kernel (pth_catch demo_kernel (bindW (retW ()) (\<lambda>_. pth_die demo_kernel ''died'')))"
proof -
  have J: "c2_vector (k_jumps demo_kernel)" using list_vec.c2_vector_axioms by (simp add: demo_kernel_def)
  have c: "cur demo_world \<noteq> None" by (simp add: demo_world_ok)
  have h: "handlers demo_kernel demo_world = [0..<0]" by (simp add: handlers_def demo_world_ok demo_pth_def)
  obtain w1 where p: "push_handler demo_kernel demo_world = Some (Ret 0, w1)" using push_handler_spec [OF J c h] by blast
  have "retW () w1 = Some (Ret (), w1)" by (simp add: retW_def)
  from pth_catch_returns_message [OF J c h balanced_ret p this] show ?thesis .
qed

text \<open>
  a new thread gets the lowest free number; no two threads share a number, the other threads
  keep theirs and the count of threads goes up by one.
\<close>

theorem new_pseudothread_slot:
  assumes V: "c2_vector (k_threads K)" and ok: "slots_ok K w" and t: "w_pths w t = None"
    and st: "pth_get_stack (k_stack K) (default_stack_size w) (w_stacks w) = Some (Some stack, ss)"
  shows "\<exists>w' q. new_pseudothread K p run d name t w = Some (t, w') \<and> slots_ok K w' \<and> w_pths w' t = Some q \<and>
    elems (k_threads K) (w_threads w') ! pth_n q = Some t \<and>
    (\<forall>j < pth_n q. elems (k_threads K) (w_threads w) ! j \<noteq> None) \<and>
    (\<forall>u. u \<noteq> t \<longrightarrow> w_pths w' u = w_pths w u) \<and>
    pseudothread_count_threads K w' = Suc (pseudothread_count_threads K w)"
proof -
  let ?e = "elems (k_threads K)"
  obtain i v where a: "alloc_slot (k_threads K) (w_threads w) t = (i, v)" by fastforce
  note s = alloc_slot_spec [OF V a]
  let ?q = "\<lparr>pth_n = i, pth_stack = stack, pth_stack_size = default_stack_size w, alarm_received = False,
            alarm_timer = None, pth_pool = p, pth_name = name, exception_jmp_vec = None, exception_msg = [],
            poll_timeout = False, pth_run = run, pth_data = d, lang = None, tz = None\<rparr>"
  let ?w = "w\<lparr>w_stacks := ss, w_threads := v, w_pths := (w_pths w)(t \<mapsto> ?q)\<rparr>"
  have new: "new_pseudothread K p run d name t w = Some (t, ?w)" using st a by (simp add: new_pseudothread_def)
  have old: "\<exists>p. w_pths w u = Some p \<and> pth_n p = j" if "j < length (?e (w_threads w))" "?e (w_threads w) ! j = Some u" for j u
    using ok that unfolding slots_ok_list [OF V] by blast
  have nt: "?e (w_threads w) ! j \<noteq> Some t" if "j < length (?e (w_threads w))" for j
    using old [OF that] t by force
  have "slots_ok K ?w \<and> ?e v ! i = Some t \<and> length (filter (\<lambda>t. t \<noteq> None) (?e v)) = Suc (length (filter (\<lambda>t. t \<noteq> None) (?e (w_threads w))))"
  proof (cases "i < length (?e (w_threads w))")
    case True
    then have s1: "?e (w_threads w) ! i = None" "?e v = (?e (w_threads w))[i := Some t]" using s by auto
    have "slots_ok K ?w"
      unfolding slots_ok_list [OF V] using old nt s1 True by (auto simp: nth_list_update)
    then show ?thesis using s1 True length_filter_update_more [OF True, of "\<lambda>t. t \<noteq> None" "Some t"] by simp
  next
    case False
    then have s1: "i = length (?e (w_threads w))" "?e v = ?e (w_threads w) @ [Some t]" using s by auto
    have "slots_ok K ?w"
      unfolding slots_ok_list [OF V] using old nt s1 by (auto simp: nth_append less_Suc_eq)
    then show ?thesis using s1 by simp
  qed
  then show ?thesis using new s by (intro exI [of _ ?w] exI [of _ ?q]) (simp add: pseudothread_count_threads_def)
qed

theorem new_pseudothread_slot_witness:
  "\<exists>w' q. new_pseudothread demo_kernel 0 1 2 ''worker'' 8 demo_world = Some (8, w') \<and> slots_ok demo_kernel w' \<and> w_pths w' 8 = Some q \<and>
    elems (k_threads demo_kernel) (w_threads w') ! pth_n q = Some 8 \<and>
    (\<forall>j < pth_n q. elems (k_threads demo_kernel) (w_threads demo_world) ! j \<noteq> None) \<and>
    (\<forall>u. u \<noteq> 8 \<longrightarrow> w_pths w' u = w_pths demo_world u) \<and>
    pseudothread_count_threads demo_kernel w' = Suc (pseudothread_count_threads demo_kernel demo_world)"
proof (rule new_pseudothread_slot)
  show "c2_vector (k_threads demo_kernel)" using list_vec.c2_vector_axioms by (simp add: demo_kernel_def)
  show "slots_ok demo_kernel demo_world"
    by (auto simp: slots_ok_def demo_kernel_def demo_world_def demo_pth_def less_Suc_eq)
  show "w_pths demo_world 8 = None" by (simp add: demo_world_def)
  show "pth_get_stack (k_stack demo_kernel) (default_stack_size demo_world) (w_stacks demo_world) =
    Some (Some 6, \<lparr>pending_stack_base = None, pending_stack_size = 0, memory = (7, [5 \<mapsto> 65536, 6 \<mapsto> 65536])\<rparr>)"
    by (simp add: demo_kernel_def demo_world_def pth_get_stack_def free_pending_def alloc_stack_def bump_sys_def)
qed

text \<open>What is left of the thread's structure when it has ended.\<close>

definition thread_gone ::
  "('v, 'j, 'P, 'm, 'u) kernel \<Rightarrow> tid \<Rightarrow> 'j pseudothread \<Rightarrow> ('P, 'u) pth_reactor
     \<Rightarrow> ('v, 'j, 'P, 'm, 'u) world \<Rightarrow> ('v, 'j, 'P, 'm, 'u) world" where
  "thread_gone K t p re w =
     w\<lparr>w_threads := vec_replace (k_threads K) (w_threads w) (pth_n p) None, w_re := re, w_pths := (w_pths w)(t := None),
       w_stacks := pth_return_stack (k_stack K) (pth_stack p) (pth_stack_size p) (w_stacks w)\<rparr>"

lemma thread_gone_slots:
  assumes V: "c2_vector (k_threads K)"
    and t: "w_pths w t = Some p" "pth_n p < vec_size (k_threads K) (w_threads w)" "elems (k_threads K) (w_threads w) ! pth_n p = Some t"
    and ok: "slots_ok K w"
  shows "slots_ok K (thread_gone K t p re w)" "Some t \<notin> set (elems (k_threads K) (w_threads (thread_gone K t p re w)))"
    "Suc (pseudothread_count_threads K (thread_gone K t p re w)) = pseudothread_count_threads K w"
proof -
  let ?e = "elems (k_threads K)" and ?n = "pth_n p"
  let ?v = "vec_replace (k_threads K) (w_threads w) ?n None"
  have ev: "?e ?v = (?e (w_threads w))[?n := None]" by (rule c2_vector.elems_replace [OF V t(2)])
  have len: "?n < length (?e (w_threads w))" using t(2) c2_vector.length_elems [OF V] by simp
  have own: "j = ?n" if "j < length (?e (w_threads w))" "?e (w_threads w) ! j = Some t" for j
    using ok that t(1) unfolding slots_ok_list [OF V] by fastforce
  have gone: "Some t \<notin> set (?e ?v)" using own len unfolding ev by (auto simp: in_set_conv_nth nth_list_update split: if_splits)
  then show "Some t \<notin> set (?e (w_threads (thread_gone K t p re w)))" by (simp add: thread_gone_def)
  have "\<exists>q. ((w_pths w)(t := None)) u = Some q \<and> pth_n q = i" if i: "i < length (?e ?v)" "?e ?v ! i = Some u" for i u
  proof -
    have "u \<noteq> t" using gone i nth_mem by metis
    moreover have "i < length (?e (w_threads w))" "?e (w_threads w) ! i = Some u"
      using i len unfolding ev by (auto simp: nth_list_update split: if_splits)
    ultimately show ?thesis using ok unfolding slots_ok_list [OF V] by simp
  qed
  then show "slots_ok K (thread_gone K t p re w)" unfolding slots_ok_list [OF V] by (simp add: thread_gone_def)
  show "Suc (pseudothread_count_threads K (thread_gone K t p re w)) = pseudothread_count_threads K w"
    using length_filter_update_more [of ?n "?e ?v" "\<lambda>t. t \<noteq> None" "Some t"] len t(3) list_update_id [of "?e (w_threads w)" ?n]
    by (simp add: ev thread_gone_def pseudothread_count_threads_def)
qed

text \<open>
  The cleanups that the end of a thread runs: those of its pool and of all pools below it.
\<close>

definition thread_cleanups ::
  "('P \<Rightarrow> pool \<Rightarrow> pool set) \<Rightarrow> ('P \<Rightarrow> pool \<Rightarrow> cleanup multiset)
     \<Rightarrow> ('v, 'j, 'P, 'm, 'u) world \<Rightarrow> pool \<Rightarrow> cleanup multiset" where
  "thread_cleanups sub own w p = (\<Sum>q \<in> sub (r_pools (w_re w)) p. own (r_pools (w_re w)) q)"

text \<open>
  The timers and prepoll handlers that are cleaned up are registered, once each, and the cleanups of
  other modules work.
\<close>

definition cleanups_ok ::
  "(cleanup multiset \<Rightarrow> 'u \<Rightarrow> bool) \<Rightarrow> ('v, 'j, 'P, 'm, 'u) world \<Rightarrow> (addr \<times> nat) list \<Rightarrow> cleanup multiset \<Rightarrow> bool" where
  "cleanups_ok J w q M \<longleftrightarrow>
     holds_schedule (r_timers (w_re w)) q \<and> distinct (map pp_id (head_prepoll (w_re w))) \<and>
     (\<forall>c. \<not> is_other c \<longrightarrow> count M c \<le> 1) \<and>
     (\<forall>a. Remove_timer a \<in># M \<longrightarrow> a \<in> fst ` set q) \<and>
     (\<forall>h. Remove_prepoll h \<in># M \<longrightarrow> h \<in> pp_id ` set (head_prepoll (w_re w))) \<and>
     J (filter_mset is_other M) (os w)"

lemma cleanups_run:
  assumes "other_cleanups J (pp_id ` set (head_prepoll (w_re w))) X" "cleanups_ok J w q (mset cs)"
  shows "\<exists>re. run_cleanups X cs ((w_re w)\<lparr>r_pools := P\<rparr>) = Some re \<and>
    holds_schedule (r_timers re) (filter (\<lambda>e. Remove_timer (fst e) \<notin> set cs) q) \<and>
    pp_id ` set (head_prepoll re) \<inter> pp_id ` set (head_prepoll (w_re w)) =
      {h \<in> pp_id ` set (head_prepoll (w_re w)). Remove_prepoll h \<notin> set cs}"
proof -
  have "count (mset (filter (\<lambda>c. \<not> is_other c) cs)) c \<le> 1" for c
    using assms(2) by (cases "is_other c") (auto simp: cleanups_ok_def mset_filter)
  then have "distinct (filter (\<lambda>c. \<not> is_other c) cs)"
    unfolding distinct_count_atmost_1
    by (metis One_nat_def count_eq_zero_iff le_Suc_eq le_zero_eq set_mset_mset)
  then show ?thesis
    using run_cleanups_spec [OF assms(1), of cs "(w_re w)\<lparr>r_pools := P\<rparr>" q] assms(2)
    by (auto simp: cleanups_ok_def mset_filter)
qed

text \<open>
  C13: The end of a thread. When its function has returned or called \<open>pth_exit\<close>, the thread is taken
  off the list of threads, and only this thread; its structure is gone; its pool and all pools below it
  are deleted and no others, and then exactly the cleanups registered in them are run, provided that
  those of other modules work: its timers leave the schedule and its prepoll handlers the list,
  and those of all others stay. Its stack is kept as the pending stack, because the code still runs on
  it.
\<close>

theorem thread_end_releases:
  assumes P: "c2_pool (k_pools K) pinv live sub own" and V: "c2_vector (k_threads K)"
    and run: "run (w\<lparr>current_pth := Some t\<rparr>) = Some (r, w1)" "r = Ret () \<or> r = Exit_thread"
    and t: "w_pths w1 t = Some p" "pth_n p < vec_size (k_threads K) (w_threads w1)" "elems (k_threads K) (w_threads w1) ! pth_n p = Some t"
    and ok: "slots_ok K w1" "pinv (r_pools (w_re w1))" "pth_pool p \<in> live (r_pools (w_re w1))"
    and M: "M = thread_cleanups sub own w1 (pth_pool p)" "cleanups_ok J w1 q M"
    and X: "other_cleanups J (pp_id ` set (head_prepoll (w_re w1))) (k_cleanup K)"
  shows "\<exists>w' cs P'. thread_trampoline K run t w = Some w' \<and> slots_ok K w' \<and> w_pths w' = (w_pths w1)(t := None) \<and>
    Some t \<notin> set (elems (k_threads K) (w_threads w')) \<and> Suc (pseudothread_count_threads K w') = pseudothread_count_threads K w1 \<and>
    live P' = live (r_pools (w_re w1)) - sub (r_pools (w_re w1)) (pth_pool p) \<and> mset cs = M \<and>
    run_cleanups (k_cleanup K) cs ((w_re w1)\<lparr>r_pools := P'\<rparr>) = Some (w_re w') \<and>
    holds_schedule (r_timers (w_re w')) (filter (\<lambda>e. Remove_timer (fst e) \<notin># M) q) \<and>
    pp_id ` set (head_prepoll (w_re w')) \<inter> pp_id ` set (head_prepoll (w_re w1)) =
      {h \<in> pp_id ` set (head_prepoll (w_re w1)). Remove_prepoll h \<notin># M} \<and>
    pending_stack_base (w_stacks w') = Some (pth_stack p) \<and> pending_stack_size (w_stacks w') = pth_stack_size p"
proof -
  let ?e = "elems (k_threads K)" and ?P = "r_pools (w_re w1)" and ?n = "pth_n p"
  let ?v = "vec_replace (k_threads K) (w_threads w1) ?n None"
  obtain cs P' where del: "delete_pool (k_pools K) ?P (pth_pool p) = (cs, P')" by fastforce
  have d: "live P' = live ?P - sub ?P (pth_pool p)" "mset cs = M"
    using c2_pool.delete_pool [OF P ok(2,3) del] M(1) by (auto simp: thread_cleanups_def)
  obtain re where re: "run_cleanups (k_cleanup K) cs ((w_re w1)\<lparr>r_pools := P'\<rparr>) = Some re"
    "holds_schedule (r_timers re) (filter (\<lambda>e. Remove_timer (fst e) \<notin># M) q)"
    "pp_id ` set (head_prepoll re) \<inter> pp_id ` set (head_prepoll (w_re w1)) =
      {h \<in> pp_id ` set (head_prepoll (w_re w1)). Remove_prepoll h \<notin># M}"
    using cleanups_run [OF X, of q cs P'] M(2) d(2) [symmetric] by auto
  have "do_delete_pool (k_pools K) (k_cleanup K) (w_re w1) (pth_pool p) = Some re"
    using del re(1) by (simp add: do_delete_pool_def)
  then have tr: "thread_trampoline K run t w = Some (thread_gone K t p re w1)"
    using run t(1) by (auto simp: thread_trampoline_def thread_gone_def)
  show ?thesis
    using thread_gone_slots [OF V t ok(1), of re] tr re d
    by (intro exI [of _ "thread_gone K t p re w1"] exI [of _ cs] exI [of _ P']) (simp add: thread_gone_def pth_return_stack_def)
qed

text \<open>
  A thread in pool 0 with two subpools that hold a timer each, one that holds a prepoll handler and
  an open file in its own pool. The file's cleanup counts down the number of open files.
\<close>

definition busy_pools :: cpools where
  "busy_pools = demo_pools\<lparr>pown := (pown demo_pools)(0 := [Io_do_close 3])\<rparr>"

definition busy_timers :: "(pth_fn, tid) timer_queue" where
  "busy_timers = \<lparr>head_timer = Some 1, theap =
     [1 \<mapsto> \<lparr>tpool = 1, tprev = None, tnext = Some 2, delta = 5000, tfn = Return_from_alarm, tdata = 7\<rparr>,
      2 \<mapsto> \<lparr>tpool = 2, tprev = Some 1, tnext = None, delta = 0, tfn = Return_from_alarm, tdata = 7\<rparr>]\<rparr>"

definition busy_kernel :: "(tid option list, nat list, cpools, nat \<times> (addr \<rightharpoonup> int), nat) kernel" where
  "busy_kernel = demo_kernel\<lparr>k_cleanup := (\<lambda>c s. if 0 < r_user s then Some (s\<lparr>r_user := r_user s - 1\<rparr>) else None)\<rparr>"

definition busy_world :: "(tid option list, nat list, cpools, nat \<times> (addr \<rightharpoonup> int), nat) world" where
  "busy_world = demo_world\<lparr>w_re := (w_re demo_world)\<lparr>r_pools := busy_pools, r_timers := busy_timers,
     head_prepoll := [\<lparr>pp_id = 9, pp_pool = 3, pp_fn = Return_from_block, pp_data = 7, fired = True\<rparr>]\<rparr>\<rparr>"

lemma busy_cleanups:
  "other_cleanups (\<lambda>M u. size M \<le> u) (pp_id ` set (head_prepoll (w_re busy_world))) (k_cleanup busy_kernel)"
  by (auto simp: other_cleanups_def busy_kernel_def)

lemma busy_own:
  "thread_cleanups (\<lambda>P p. set (cpool_under P p)) cpool_own busy_world 0 =
     {#Io_do_close 3, Remove_timer 1, Remove_timer 2, Remove_prepoll 9#}"
proof -
  have "cpool_under busy_pools 0 = [0, 1, 2, 3]"
    by (simp add: cpool_under_def busy_pools_def demo_pools_def upt_conv_Cons)
  then show ?thesis
    by (simp add: thread_cleanups_def busy_world_def cpool_own_def busy_pools_def demo_pools_def)
qed

theorem thread_end_releases_witness:
  "\<exists>w' cs P'. thread_trampoline busy_kernel pth_exit 7 busy_world = Some w' \<and> w_pths w' 7 = None \<and>
    Suc (pseudothread_count_threads busy_kernel w') = pseudothread_count_threads busy_kernel busy_world \<and>
    cpool_live P' = {} \<and> mset cs = {#Io_do_close 3, Remove_timer 1, Remove_timer 2, Remove_prepoll 9#} \<and>
    run_cleanups (k_cleanup busy_kernel) cs ((w_re busy_world)\<lparr>r_pools := P'\<rparr>) = Some (w_re w') \<and>
    holds_schedule (r_timers (w_re w')) [] \<and> pending_stack_base (w_stacks w') = Some 5"
proof -
  let ?M = "{#Io_do_close 3, Remove_timer 1, Remove_timer 2, Remove_prepoll 9#}"
  have P: "cpool_inv busy_pools" using demo_pools_inv by (simp add: cpool_inv_def busy_pools_def)
  have sub: "set (cpool_under busy_pools 0) = cpool_live busy_pools"
    unfolding cpool_under_set [OF P] by (auto simp: busy_pools_def demo_pools_def cpool_live_def)
  have k: "k_pools busy_kernel = cpool_ops" "k_threads busy_kernel = list_vec" by (simp_all add: busy_kernel_def demo_kernel_def)
  have V: "c2_vector (k_threads busy_kernel)" unfolding k by (rule list_vec.c2_vector_axioms)
  have C: "c2_pool (k_pools busy_kernel) cpool_inv cpool_live (\<lambda>P p. set (cpool_under P p)) cpool_own"
    unfolding k by (rule cpool.c2_pool_axioms)
  have r: "pth_exit (busy_world\<lparr>current_pth := Some 7\<rparr>) = Some (Exit_thread, busy_world)"
    by (simp add: pth_exit_def busy_world_def demo_world_def cur_def)
  have w: "w_pths busy_world 7 = Some demo_pth" "pth_n demo_pth < vec_size (k_threads busy_kernel) (w_threads busy_world)"
    "elems (k_threads busy_kernel) (w_threads busy_world) ! pth_n demo_pth = Some 7" "slots_ok busy_kernel busy_world"
    "r_pools (w_re busy_world) = busy_pools" "pth_pool demo_pth = 0" "pth_stack demo_pth = 5"
    by (auto simp: busy_world_def demo_world_def demo_pth_def k slots_ok_def less_Suc_eq)
  have q: "cleanups_ok (\<lambda>M u. size M \<le> u) busy_world [(1, 5000), (2, 5000)] ?M"
    by (auto simp: cleanups_ok_def busy_world_def demo_world_def busy_timers_def holds_schedule_def)
  have l: "cpool_inv (r_pools (w_re busy_world))" "pth_pool demo_pth \<in> cpool_live (r_pools (w_re busy_world))"
    using P by (simp_all add: w cpool_live_def busy_pools_def demo_pools_def)
  show ?thesis
    using thread_end_releases [where run = pth_exit and w = busy_world and t = 7, OF C V r _ w(1-4) l busy_own [folded w(6), symmetric] q busy_cleanups]
      sub w(5-7) by auto
qed

text \<open>
  \<open>pth_timeout\<close> replaces the alarm of the thread: the timer of an earlier alarm is removed, and
  unless the new timeout is 0 one timer for \<open>return_from_alarm\<close> is scheduled at the current time
  plus the timeout in milliseconds.
\<close>

theorem pth_timeout_replaces_alarm:
  assumes "c2_pool PO pinv live sub own" "k_pools K = PO"
    and "timers_ok pinv live sub own (w_re w) q" "cur w = Some p" "pth_pool p \<in> live (r_pools (w_re w))"
    and "\<forall>a x. a \<in> fst ` set q \<longrightarrow> theap (r_timers (w_re w)) a = Some x \<longrightarrow> pth_pool p \<noteq> tpool x"
    and "\<forall>a. alarm_timer p = Some a \<longrightarrow> a \<in> fst ` set q"
    and "\<forall>w1. dom (theap (r_timers (w_re w1))) \<subseteq> dom (theap (r_timers (w_re w))) \<longrightarrow>
      theap (r_timers (w_re w)) (k_timer_addr K w1) = None"
    and "q1 = (case alarm_timer p of None \<Rightarrow> q | Some a \<Rightarrow> sched_remove a q)"
  shows "\<exists>w' p'. pth_timeout K seconds w = Some (Ret (), w') \<and> cur w' = Some p' \<and>
    (if seconds = 0 then alarm_timer p' = None \<and> timers_ok pinv live sub own (w_re w') q1
     else (\<exists>b x. alarm_timer p' = Some b \<and> theap (r_timers (w_re w')) b = Some x \<and> tfn x = Return_from_alarm \<and>
       timers_ok pinv live sub own (w_re w')
         (sched_insert b (unat (reactor_time (w_re w) + word_of_int (c_int (seconds * 1000)))) q1)))"
  using c2_pool.pth_timeout_spec [OF assms(1-5)] assms(6-9) by blast

definition alarmed_world :: "(tid option list, nat list, cpools, nat \<times> (addr \<rightharpoonup> int), nat) world" where
  "alarmed_world = demo_world\<lparr>w_pths := [7 \<mapsto> demo_pth\<lparr>alarm_timer := Some 1\<rparr>],
     w_re := (w_re demo_world)\<lparr>r_timers := \<lparr>head_timer = Some 1, theap =
       [1 \<mapsto> \<lparr>tpool = 1, tprev = None, tnext = None, delta = 5000, tfn = Return_from_alarm, tdata = 7\<rparr>]\<rparr>\<rparr>\<rparr>"

lemma alarmed_timers_ok:
  "timers_ok cpool_inv cpool_live (\<lambda>P p. set (cpool_under P p)) cpool_own (w_re alarmed_world) [(1, 5000)]"
  using demo_pools_inv demo_single [of 1]
  by (simp add: timers_ok_def holds_schedule_def alarmed_world_def demo_world_def)

theorem pth_timeout_replaces_alarm_witness:
  "\<exists>w' p'. pth_timeout demo_kernel 3 alarmed_world = Some (Ret (), w') \<and> cur w' = Some p' \<and>
    (if (3 :: int) = 0 then alarm_timer p' = None \<and>
       timers_ok cpool_inv cpool_live (\<lambda>P p. set (cpool_under P p)) cpool_own (w_re w') []
     else (\<exists>b x. alarm_timer p' = Some b \<and> theap (r_timers (w_re w')) b = Some x \<and> tfn x = Return_from_alarm \<and>
       timers_ok cpool_inv cpool_live (\<lambda>P p. set (cpool_under P p)) cpool_own (w_re w')
         (sched_insert b (unat (reactor_time (w_re alarmed_world) + word_of_int (c_int (3 * 1000)))) [])))"
  by (rule pth_timeout_replaces_alarm [OF cpool.c2_pool_axioms _ alarmed_timers_ok,
        where p = "demo_pth\<lparr>alarm_timer := Some 1\<rparr>"])
    (auto simp: demo_kernel_def alarmed_world_def demo_world_def cur_def demo_pth_def cpool_live_def demo_pools_def
       sched_remove_def)

end
