(* ===== verification/Cstring.thy ===== *)
theory Cstring
  imports Prelude "HOL-Library.Sublist"
begin

text \<open>
  Strings as the sources use them: the C library's character classes, \<open>strchr\<close>, \<open>strcasecmp\<close>, the
  \<open>%d\<close> and \<open>%X\<close> conversions, and the interface to the string functions of c2lib (\<open>pstring.h\<close>),
  which are parameters with the locale \<open>c2_strings\<close> as their contract. A C string is the list of its
  bytes without the terminating zero byte.
\<close>

section \<open>Characters\<close>

abbreviation NUL :: char where "NUL \<equiv> CHR 0x00"
abbreviation CR :: char where "CR \<equiv> CHR 0x0D"
abbreviation LF :: char where "LF \<equiv> CHR 0x0A"
abbreviation CRLF :: string where "CRLF \<equiv> [CR, LF]"

definition between :: "char \<Rightarrow> char \<Rightarrow> char \<Rightarrow> bool" where
  "between a b c \<longleftrightarrow> of_char a \<le> (of_char c :: nat) \<and> of_char c \<le> (of_char b :: nat)"

definition isdigit :: "char \<Rightarrow> bool" where
  "isdigit c \<longleftrightarrow> between CHR ''0'' CHR ''9'' c"

definition isupper :: "char \<Rightarrow> bool" where
  "isupper c \<longleftrightarrow> between CHR ''A'' CHR ''Z'' c"

definition isalnum :: "char \<Rightarrow> bool" where
  "isalnum c \<longleftrightarrow> isdigit c \<or> isupper c \<or> between CHR ''a'' CHR ''z'' c"

definition isspace :: "char \<Rightarrow> bool" where
  "isspace c \<longleftrightarrow> c = CHR '' '' \<or> between CHR 0x09 CHR 0x0D c"

definition tolower :: "char \<Rightarrow> char" where
  "tolower c = (if isupper c then char_of (of_char c + (32 :: nat)) else c)"

text \<open>A plain \<open>char\<close> is signed.\<close>

definition schar :: "char \<Rightarrow> int" where
  "schar c = (if of_char c \<ge> (128 :: int) then of_char c - 256 else of_char c)"

lemma char_of_schar [simp]: "char_of (schar c) = c"
proof -
  have "char_of ((of_char c :: int) - 256) = char_of (((of_char c :: int) - 256) mod 256)"
    by (simp only: char_of_mod_256)
  also have "((of_char c :: int) - 256) mod 256 = of_char c mod 256" by simp
  finally have "char_of ((of_char c :: int) - 256) = c" by simp
  then show ?thesis by (simp add: schar_def)
qed

lemma schar_inj: "schar c = schar d \<longleftrightarrow> c = d"
  by (metis char_of_schar)

lemma schar_special: "schar c = 10 \<longleftrightarrow> c = LF" "schar c = -1 \<longleftrightarrow> c = CHR 0xFF"
proof -
  have "schar LF = 10" "schar (CHR 0xFF) = -1" by (simp_all add: schar_def)
  then show "schar c = 10 \<longleftrightarrow> c = LF" "schar c = -1 \<longleftrightarrow> c = CHR 0xFF" by (metis schar_inj)+
qed

lemma of_char_less: "(of_char c :: nat) < 256"
  using of_char_mod_256 [of c, where 'a = nat] by (metis mod_less_divisor zero_less_numeral)

section \<open>Searching and comparing\<close>

text \<open>What a pointer to a buffer with these bytes denotes.\<close>

definition c_str :: "string \<Rightarrow> string" where
  "c_str s = takeWhile (\<lambda>c. c \<noteq> NUL) s"

lemma c_str_id [simp]: "NUL \<notin> set s \<Longrightarrow> c_str s = s"
  by (auto simp: c_str_def takeWhile_eq_all_conv)

text \<open>The byte at offset \<open>i\<close>, the terminating zero byte at the end.\<close>

definition c_nth :: "string \<Rightarrow> nat \<Rightarrow> char" where
  "c_nth s i = (if i < length s then s ! i else NUL)"

text \<open>\<open>strchr\<close> followed by overwriting the character with a zero byte: the parts before and behind.\<close>

definition split_chr :: "char \<Rightarrow> string \<Rightarrow> (string \<times> string) option" where
  "split_chr c s = (if c \<in> set s then Some (takeWhile (\<lambda>x. x \<noteq> c) s, tl (dropWhile (\<lambda>x. x \<noteq> c) s)) else None)"

lemma split_chr_append: "c \<notin> set s \<Longrightarrow> split_chr c (s @ c # t) = Some (s, t)"
  by (auto simp: split_chr_def takeWhile_append2 dropWhile_append)

lemma split_chr_None [simp]: "split_chr c s = None \<longleftrightarrow> c \<notin> set s"
  by (simp add: split_chr_def)

lemma split_chr_Some: "split_chr c s = Some (a, b) \<Longrightarrow> s = a @ c # b \<and> c \<notin> set a"
proof -
  assume h: "split_chr c s = Some (a, b)"
  then have "c \<in> set s" by (auto simp: split_chr_def split: if_splits)
  then obtain x y where "s = x @ c # y" "c \<notin> set x" by (meson split_list_first)
  with h split_chr_append show ?thesis by fastforce
qed

definition strcaseeq :: "string \<Rightarrow> string \<Rightarrow> bool" where
  "strcaseeq s t \<longleftrightarrow> map tolower s = map tolower t"

text \<open>\<open>strncasecmp (s, t, strlen (t)) == 0\<close>.\<close>

definition caseprefix :: "string \<Rightarrow> string \<Rightarrow> bool" where
  "caseprefix t s \<longleftrightarrow> prefix (map tolower t) (map tolower s)"

section \<open>Numbers\<close>

definition digit_char :: "nat \<Rightarrow> char" where
  "digit_char d = char_of (48 + d)"

fun dec :: "nat \<Rightarrow> string" where
  "dec n = (if n < 10 then [digit_char n] else dec (n div 10) @ [digit_char (n mod 10)])"

declare dec.simps [simp del]

text \<open>The conversion \<open>%d\<close> of \<open>printf\<close>, and \<open>%X\<close> of a non-negative number.\<close>

definition show_int :: "int \<Rightarrow> string" where
  "show_int z = (if z < 0 then CHR ''-'' # dec (nat (- z)) else dec (nat z))"

definition hex_digit :: "nat \<Rightarrow> char" where
  "hex_digit d = ''0123456789ABCDEF'' ! d"

fun hexa :: "nat \<Rightarrow> string" where
  "hexa n = (if n < 16 then [hex_digit n] else hexa (n div 16) @ [hex_digit (n mod 16)])"

declare hexa.simps [simp del]

definition digit_val :: "char \<Rightarrow> nat" where
  "digit_val c = of_char c - 48"

definition digits_val :: "string \<Rightarrow> nat" where
  "digits_val s = foldl (\<lambda>n c. 10 * n + digit_val c) 0 s"

text \<open>
  \<open>sscanf (s, "%d", &i)\<close>: leading white space, an optional sign and at least one digit; \<open>None\<close> when
  the conversion fails.
\<close>

definition scan_int :: "string \<Rightarrow> int option" where
  "scan_int s =
     (let s1 = dropWhile isspace s;
          neg = (s1 \<noteq> [] \<and> hd s1 = CHR ''-'');
          s2 = (if s1 \<noteq> [] \<and> (hd s1 = CHR ''-'' \<or> hd s1 = CHR ''+'') then tl s1 else s1);
          ds = takeWhile isdigit s2
      in if ds = [] then None
         else Some (c_int (if neg then - int (digits_val ds) else int (digits_val ds))))"

lemma digit_char_props:
  assumes "d < 10"
  shows "isdigit (digit_char d)" "digit_val (digit_char d) = d"
  using assms by (simp_all add: digit_char_def isdigit_def between_def digit_val_def)

lemma dec_digits: "list_all isdigit (dec n)" "dec n \<noteq> []"
  by (induction n rule: dec.induct) (subst dec.simps, simp add: digit_char_props)+

lemma digits_val_snoc [simp]: "digits_val (s @ [c]) = 10 * digits_val s + digit_val c"
  by (simp add: digits_val_def)

lemma digits_val_dec [simp]: "digits_val (dec n) = n"
proof (induction n rule: dec.induct)
  case (1 n)
  show ?case
  proof (cases "n < 10")
    case True
    then show ?thesis by (subst dec.simps) (simp add: digits_val_def digit_char_props)
  next
    case False
    then show ?thesis using 1 by (subst dec.simps) (simp add: digit_char_props)
  qed
qed

lemma digit_not_special:
  assumes "isdigit c"
  shows "\<not> isspace c" "c \<noteq> CHR ''-''" "c \<noteq> CHR ''+''" "c \<noteq> LF" "c \<noteq> CR" "c \<noteq> NUL" "c \<noteq> CHR '' ''"
  using assms by (auto simp: isdigit_def isspace_def between_def)

text \<open>Printing a number and scanning it again gives the number back.\<close>

lemma scan_int_dec:
  assumes "int n < 2147483648" "r = [] \<or> \<not> isdigit (hd r)"
  shows "scan_int (dec n @ r) = Some (int n)"
proof -
  obtain c cs where d: "dec n = c # cs" "isdigit c" using dec_digits [of n] by (cases "dec n") auto
  have t: "takeWhile isdigit (dec n @ r) = dec n"
    using dec_digits(1) [of n] assms(2)
    by (subst takeWhile_append2) (auto simp: list_all_iff takeWhile_eq_Nil_iff)
  have w: "dropWhile isspace (dec n @ r) = dec n @ r" using d digit_not_special(1) by simp
  have "hd (dec n @ r) \<noteq> CHR ''-''" "hd (dec n @ r) \<noteq> CHR ''+''" using d digit_not_special by auto
  then show ?thesis
    using t w assms(1) dec_digits(2) [of n] by (simp add: scan_int_def Let_def fits_int_def)
qed

section \<open>The string functions of c2lib\<close>

record c2_str =
  pstrcsplit :: "string \<Rightarrow> char \<Rightarrow> string list"
  pstrresplit :: "string \<Rightarrow> char set \<Rightarrow> string list"
  ptrim :: "string \<Rightarrow> string"
  pstrlwr :: "string \<Rightarrow> string"

fun join :: "char \<Rightarrow> string list \<Rightarrow> string" where
  "join c [] = []"
| "join c [p] = p"
| "join c (p # q # ps) = p @ c # join c (q # ps)"

lemma set_join: "set (join c ps) \<subseteq> insert c (\<Union> (set ` set ps))"
  by (induction c ps rule: join.induct) auto

definition trim :: "string \<Rightarrow> string" where
  "trim s = rev (dropWhile isspace (rev (dropWhile isspace s)))"

text \<open>
  \<open>pstrcsplit\<close> cuts a string at every occurrence of a character, \<open>pstrresplit\<close> at every run of
  characters of a class (the only regular expressions it is given), \<open>ptrim\<close> removes white space at
  both ends and \<open>pstrlwr\<close> makes all letters lower case.
\<close>

locale c2_strings =
  fixes CS :: c2_str
  assumes split_ne: "s \<noteq> [] \<Longrightarrow> pstrcsplit CS s c \<noteq> []"
    and split_join: "s \<noteq> [] \<Longrightarrow> join c (pstrcsplit CS s c) = s"
    and split_free: "s \<noteq> [] \<Longrightarrow> p \<in> set (pstrcsplit CS s c) \<Longrightarrow> c \<notin> set p"
    and resplit_one: "p \<noteq> [] \<Longrightarrow> set p \<inter> A = {} \<Longrightarrow> pstrresplit CS p A = [p]"
    and resplit_more: "p \<noteq> [] \<Longrightarrow> set p \<inter> A = {} \<Longrightarrow> q \<noteq> [] \<Longrightarrow> set q \<subseteq> A \<Longrightarrow> r \<noteq> [] \<Longrightarrow> hd r \<notin> A \<Longrightarrow>
      pstrresplit CS (p @ q @ r) A = p # pstrresplit CS r A"
    and trims: "ptrim CS s = trim s"
    and lowers: "pstrlwr CS s = map tolower s"
begin

lemma join_unique:
  assumes "join c ps = join c qs" "\<forall>p \<in> set ps. c \<notin> set p" "\<forall>q \<in> set qs. c \<notin> set q" "ps \<noteq> []" "qs \<noteq> []"
  shows "ps = qs"
  using assms
proof (induction c ps arbitrary: qs rule: join.induct)
  case (2 c p)
  obtain q qs' where q: "qs = q # qs'" using 2 by (cases qs) auto
  show ?case
  proof (cases qs')
    case Nil
    then show ?thesis using 2 q by simp
  next
    case (Cons r rs)
    then have "c \<in> set p" using 2 q by simp
    then show ?thesis using 2 by simp
  qed
next
  case (3 c p p' ps)
  obtain q qs' where q: "qs = q # qs'" using 3 by (cases qs) auto
  show ?case
  proof (cases qs')
    case Nil
    then have "q = p @ c # join c (p' # ps)" using 3 q by simp
    then show ?thesis using 3 q by auto
  next
    case (Cons r rs)
    then have e: "p @ c # join c (p' # ps) = q @ c # join c (r # rs)" using 3 q by simp
    have "c \<notin> set p" "c \<notin> set q" using 3 q by auto
    with arg_cong [OF e, of "split_chr c"] have "p = q" "join c (p' # ps) = join c (r # rs)"
      by (simp_all add: split_chr_append)
    then show ?thesis using 3 q Cons by auto
  qed
qed simp

lemma split_of_join:
  assumes "ps \<noteq> []" "\<forall>p \<in> set ps. c \<notin> set p" "join c ps \<noteq> []"
  shows "pstrcsplit CS (join c ps) c = ps"
  using join_unique [of c "pstrcsplit CS (join c ps) c" ps] assms split_ne split_join split_free by metis

end

text \<open>Functions on lists that satisfy the contract.\<close>

fun split_list_at :: "string \<Rightarrow> char \<Rightarrow> string list" where
  "split_list_at [] c = [[]]"
| "split_list_at (x # xs) c =
     (if x = c then [] # split_list_at xs c
      else (case split_list_at xs c of [] \<Rightarrow> [[x]] | p # ps \<Rightarrow> (x # p) # ps))"

fun cut_at :: "string \<Rightarrow> char set \<Rightarrow> string list" where
  "cut_at [] A = [[]]"
| "cut_at (x # xs) A =
     (if x \<in> A then [] # cut_at xs A
      else (case cut_at xs A of [] \<Rightarrow> [[x]] | p # ps \<Rightarrow> (x # p) # ps))"

definition list_strings :: c2_str where
  "list_strings = \<lparr>pstrcsplit = split_list_at,
     pstrresplit = (\<lambda>s A. filter (\<lambda>p. p \<noteq> []) (cut_at s A)),
     ptrim = trim, pstrlwr = map tolower\<rparr>"

lemma split_list_at_ne: "split_list_at s c \<noteq> []"
  by (induction s) (auto split: list.splits)

lemma split_list_at_join: "join c (split_list_at s c) = s"
proof (induction s)
  case (Cons x xs)
  then show ?case
    using split_list_at_ne [of xs c] by (cases "split_list_at xs c"; cases "tl (split_list_at xs c)") auto
qed simp

lemma split_list_at_free: "p \<in> set (split_list_at s c) \<Longrightarrow> c \<notin> set p"
  by (induction s arbitrary: p) (auto split: list.splits if_splits)

lemma cut_at_ne: "cut_at s A \<noteq> []"
  by (induction s) (auto split: list.splits)

lemma cut_at_clean: "set p \<inter> A = {} \<Longrightarrow> cut_at (p @ s) A = (p @ hd (cut_at s A)) # tl (cut_at s A)"
  by (induction p) (auto simp: cut_at_ne)

lemma cut_at_dirty: "set q \<subseteq> A \<Longrightarrow> cut_at (q @ s) A = replicate (length q) [] @ cut_at s A"
  by (induction q) auto

lemma cut_at_more:
  assumes "set p \<inter> A = {}" "q \<noteq> []" "set q \<subseteq> A" "r \<noteq> []"
  shows "filter (\<lambda>x. x \<noteq> []) (cut_at (p @ q @ r) A) = filter (\<lambda>x. x \<noteq> []) [p] @ filter (\<lambda>x. x \<noteq> []) (cut_at r A)"
  using assms by (cases q) (simp_all add: cut_at_clean cut_at_dirty)

interpretation list_strings: c2_strings list_strings
  by unfold_locales
    (use cut_at_clean [where s = "[]"] cut_at_more in \<open>auto simp: list_strings_def split_list_at_ne split_list_at_join
       dest: split_list_at_free\<close>)

end
