(* ===== verification/Iolib.thy ===== *)
theory Iolib
  imports Pseudothread Cstring
begin

text \<open>
  Buffered input and output (\<open>src/src/pthr_iolib.c\<close>). A handle has an input buffer with a window of unread bytes
  and an output buffer; the functions run in a pseudothread and use \<open>pth_read\<close> and \<open>pth_write\<close>. A
  computation works on the pair of the handle and the rest of the world. Errors of the socket end
  the thread.
\<close>

section \<open>Handles\<close>

definition IOLIB_INPUT_BUFFER_SIZE :: nat where "IOLIB_INPUT_BUFFER_SIZE = 1024"
definition IOLIB_OUTPUT_BUFFER_SIZE :: nat where "IOLIB_OUTPUT_BUFFER_SIZE = 1024"

datatype io_mode = IO_MODE_LINE_BUFFERED | IO_MODE_UNBUFFERED | IO_MODE_FULLY_BUFFERED

text \<open>The position pointers are offsets into their buffers.\<close>

record io_handle =
  io_pool :: pool
  sock :: int
  inbuf :: string
  inbufpos :: nat
  inbuflen :: nat
  inbufcount :: int
  outbuf :: string
  outbufpos :: nat
  outbuffree :: nat
  outbufcount :: int
  outbufmode :: io_mode

text \<open>
  The calls on the socket: \<open>read\<close> gives its result and the bytes it stored, \<open>write\<close> takes the bytes
  still to be written.
\<close>

record 'w io_ops =
  io_rd :: "int \<Rightarrow> nat \<Rightarrow> ('w, int \<times> string) comp"
  io_wr :: "int \<Rightarrow> string \<Rightarrow> ('w, int) comp"
  io_cl :: "int \<Rightarrow> ('w, int) comp"

type_synonym ('w, 'a) io = "(io_handle \<times> 'w, 'a) comp"

definition liftW :: "('w, 'a) comp \<Rightarrow> ('w, 'a) io" where
  "liftW m = (\<lambda>(io, w). map_option (\<lambda>(r, w1). (r, io, w1)) (m w))"

definition get_io :: "('w, io_handle) io" where
  "get_io = (\<lambda>(io, w). Some (Ret io, io, w))"

definition upd_io :: "(io_handle \<Rightarrow> io_handle) \<Rightarrow> ('w, unit) io" where
  "upd_io f = (\<lambda>(io, w). Some (Ret (), f io, w))"

definition io_err :: "('w, 'a) io" where
  "io_err s = Some (Exit_thread, s)"

text \<open>\<open>io_fdopen\<close>; \<open>ib\<close> and \<open>ob\<close> are the contents of the fresh buffers.\<close>

definition io_fdopen ::
  "'P pool_ops \<Rightarrow> 'P \<Rightarrow> pool \<Rightarrow> addr \<Rightarrow> string \<Rightarrow> string \<Rightarrow> int \<Rightarrow> io_handle \<times> 'P" where
  "io_fdopen PO P pp a ib ob s =
     (let (p, P1) = new_subpool PO P pp
      in (\<lparr>io_pool = p, sock = s, inbuf = ib, inbufpos = IOLIB_INPUT_BUFFER_SIZE, inbuflen = 0, inbufcount = 0,
           outbuf = ob, outbufpos = 0, outbuffree = IOLIB_OUTPUT_BUFFER_SIZE, outbufcount = 0,
           outbufmode = IO_MODE_LINE_BUFFERED\<rparr>,
          register_cleanup_fn PO P1 p (Io_do_close a)))"

definition io_setbufmode :: "io_handle \<Rightarrow> io_mode \<Rightarrow> io_handle" where
  "io_setbufmode io m = io\<lparr>outbufmode := m\<rparr>"

definition io_fileno :: "io_handle \<Rightarrow> int" where
  "io_fileno io = sock io"

definition io_get_inbufcount :: "io_handle \<Rightarrow> int" where
  "io_get_inbufcount io = inbufcount io"

definition io_get_outbufcount :: "io_handle \<Rightarrow> int" where
  "io_get_outbufcount io = outbufcount io"

section \<open>Output\<close>

text \<open>The loop that writes a block of bytes; \<open>ig\<close> says that errors end the loop instead of the thread.\<close>

partial_function (option) write_loop ::
  "'w io_ops \<Rightarrow> bool \<Rightarrow> string \<Rightarrow> io_handle \<times> 'w \<Rightarrow> (unit outcome \<times> io_handle \<times> 'w) option" where
  "write_loop IO ig cs s =
     (if cs = [] then retW ()
      else bindW (liftW (io_wr IO (sock (fst s)) cs)) (\<lambda>r.
        if r < 0 then (if ig then retW () else io_err)
        else bindW (upd_io (\<lambda>io. io\<lparr>outbufcount := c_int (outbufcount io + r)\<rparr>)) (\<lambda>_.
             write_loop IO ig (drop (nat r) cs)))) s"

definition io_flush :: "'w io_ops \<Rightarrow> bool \<Rightarrow> ('w, unit) io" where
  "io_flush IO ig =
     bindW get_io (\<lambda>io.
     bindW (write_loop IO ig (take (outbufpos io) (outbuf io))) (\<lambda>_.
     upd_io (\<lambda>io. io\<lparr>outbufpos := 0, outbuffree := IOLIB_OUTPUT_BUFFER_SIZE\<rparr>)))"

definition io_fflush :: "'w io_ops \<Rightarrow> ('w, int) io" where
  "io_fflush IO =
     bindW get_io (\<lambda>io.
     bindW (if outbufpos io > 0 then io_flush IO False else retW ()) (\<lambda>_. retW 0))"

definition io_do_close :: "'w io_ops \<Rightarrow> ('w, unit) io" where
  "io_do_close IO =
     bindW get_io (\<lambda>io.
     bindW (if outbufpos io > 0 then io_flush IO True else retW ()) (\<lambda>_.
     bindW (liftW (io_cl IO (sock io))) (\<lambda>r. if r < 0 then io_err else retW ())))"

definition put_byte :: "char \<Rightarrow> io_handle \<Rightarrow> io_handle" where
  "put_byte c io = io\<lparr>outbuf := (outbuf io)[outbufpos io := c], outbufpos := outbufpos io + 1,
     outbuffree := outbuffree io - 1\<rparr>"

definition io_store :: "'w io_ops \<Rightarrow> char \<Rightarrow> ('w, int) io" where
  "io_store IO c =
     bindW (upd_io (put_byte c)) (\<lambda>_.
     bindW get_io (\<lambda>io.
     bindW (if outbufmode io = IO_MODE_UNBUFFERED \<or> (outbufmode io = IO_MODE_LINE_BUFFERED \<and> c = CHR 0x0A)
            then io_flush IO False else retW ()) (\<lambda>_. retW (schar c))))"

text \<open>After the flush there is room, so the second round of the loop ends it.\<close>

definition io_fputc :: "'w io_ops \<Rightarrow> char \<Rightarrow> ('w, int) io" where
  "io_fputc IO c =
     bindW get_io (\<lambda>io.
     if outbuffree io > 0 then io_store IO c
     else bindW (io_flush IO False) (\<lambda>_. io_store IO c))"

fun io_fputs :: "'w io_ops \<Rightarrow> string \<Rightarrow> ('w, int) io" where
  "io_fputs IO [] = retW 1"
| "io_fputs IO (c # cs) = (if c = CHR 0x00 then retW 1 else bindW (io_fputc IO c) (\<lambda>_. io_fputs IO cs))"

text \<open>
  \<open>full\<close> is the complete formatted string: \<open>vsnprintf\<close> stores at most \<open>n - 1\<close> bytes of it and
  returns its full length.
\<close>

definition vsnprintf :: "nat \<Rightarrow> string \<Rightarrow> string \<times> nat" where
  "vsnprintf n full = (take (n - 1) full, length full)"

definition io_fprintf :: "'w io_ops \<Rightarrow> string \<Rightarrow> ('w, nat) io" where
  "io_fprintf IO full =
     (let n = 4096; (s, r) = vsnprintf n full;
          (s1, r1) = (if r > n then vsnprintf (r + 1) full else (s, r))
      in bindW (io_fputs IO s1) (\<lambda>_. retW r1))"

definition io_fwrite :: "'w io_ops \<Rightarrow> string \<Rightarrow> ('w, nat) io" where
  "io_fwrite IO cs = bindW (io_fflush IO) (\<lambda>_. bindW (write_loop IO False cs) (\<lambda>_. retW (length cs)))"

section \<open>Input\<close>

definition next_byte :: "io_handle \<Rightarrow> char" where
  "next_byte io = inbuf io ! inbufpos io"

definition advance :: "nat \<Rightarrow> io_handle \<Rightarrow> io_handle" where
  "advance n io = io\<lparr>inbufpos := inbufpos io + n, inbuflen := inbuflen io - n\<rparr>"

definition refill :: "string \<Rightarrow> io_handle \<Rightarrow> io_handle" where
  "refill cs io = io\<lparr>inbuf := cs @ drop (length cs) (inbuf io), inbufpos := 0, inbuflen := length cs,
     inbufcount := c_int (inbufcount io + int (length cs))\<rparr>"

definition take_byte :: "('w, int) io" where
  "take_byte = bindW get_io (\<lambda>io. bindW (upd_io (advance 1)) (\<lambda>_. retW (schar (next_byte io))))"

definition io_fgetc :: "'w io_ops \<Rightarrow> ('w, int) io" where
  "io_fgetc IO =
     bindW (io_fflush IO) (\<lambda>_.
     bindW get_io (\<lambda>io.
     if inbuflen io > 0 then take_byte
     else bindW (liftW (io_rd IO (sock io) IOLIB_INPUT_BUFFER_SIZE)) (\<lambda>(r, cs).
       if r < 0 then io_err
       else bindW (upd_io (refill cs)) (\<lambda>_. if r = 0 then retW (-1) else take_byte))))"

text \<open>The loop of \<open>io_fgets\<close>; \<open>k\<close> is the room that is left, \<open>s\<close> what has been stored.\<close>

fun fgets_loop :: "'w io_ops \<Rightarrow> nat \<Rightarrow> string \<Rightarrow> ('w, string \<times> bool) io" where
  "fgets_loop IO 0 s = retW (s, False)"
| "fgets_loop IO (Suc k) s =
     bindW (io_fgetc IO) (\<lambda>c.
       if c = -1 then retW (s, True)
       else (let b = char_of c in if c = 10 then retW (s @ [b], False) else fgets_loop IO k (s @ [b])))"

definition strip_eol :: "string \<Rightarrow> string" where
  "strip_eol s = rev (dropWhile (\<lambda>c. c = CHR 0x0A \<or> c = CHR 0x0D) (rev s))"

text \<open>\<open>None\<close> is the null pointer at the end of the file.\<close>

definition io_fgets :: "'w io_ops \<Rightarrow> nat \<Rightarrow> bool \<Rightarrow> ('w, string option) io" where
  "io_fgets IO max_size store_eol =
     bindW (io_fflush IO) (\<lambda>_.
     bindW (fgets_loop IO (max_size - 1) []) (\<lambda>(s, eof).
     if eof then retW (if s = [] then None else Some s)
     else retW (Some (if store_eol then s else strip_eol s))))"

definition io_ungetc :: "char \<Rightarrow> ('w, bool) io" where
  "io_ungetc c =
     bindW get_io (\<lambda>io.
     if inbufpos io > 0
     then bindW (upd_io (\<lambda>io. io\<lparr>inbufpos := inbufpos io - 1, inbuf := (inbuf io)[inbufpos io - 1 := c],
                               inbuflen := inbuflen io + 1\<rparr>)) (\<lambda>_. retW True)
     else retW False)"

text \<open>The loop of \<open>io_fread\<close>: \<open>n\<close> bytes are still wanted, \<open>got\<close> has been stored.\<close>

partial_function (option) fread_loop ::
  "'w io_ops \<Rightarrow> nat \<Rightarrow> string \<Rightarrow> io_handle \<times> 'w \<Rightarrow> (string outcome \<times> io_handle \<times> 'w) option" where
  "fread_loop IO n got s =
     (if n = 0 then retW got
      else bindW (liftW (io_rd IO (sock (fst s)) n)) (\<lambda>x.
        if fst x < 0 then io_err
        else if fst x = 0 then retW got
        else bindW (upd_io (\<lambda>io. io\<lparr>inbufcount := c_int (inbufcount io + fst x)\<rparr>)) (\<lambda>_.
             fread_loop IO (n - nat (fst x)) (got @ snd x)))) s"

definition window :: "io_handle \<Rightarrow> string" where
  "window io = take (inbuflen io) (drop (inbufpos io) (inbuf io))"

definition io_fread :: "'w io_ops \<Rightarrow> nat \<Rightarrow> ('w, string) io" where
  "io_fread IO n =
     bindW (io_fflush IO) (\<lambda>_.
     bindW get_io (\<lambda>io.
     let i = (if n > inbuflen io then inbuflen io else n)
     in bindW (upd_io (advance i)) (\<lambda>_.
        fread_loop IO (n - i) (take i (drop (inbufpos io) (inbuf io))))))"

text \<open>
  \<open>io_copy\<close> works on two different handles; a computation on one of them leaves the other alone.
  \<open>len = -1\<close> copies until the end of the file; other negative lengths are not meaningful.
\<close>

record 'w copy_state =
  from_io :: io_handle
  to_io :: io_handle
  cworld :: 'w

definition on_from :: "('w, 'a) io \<Rightarrow> ('w copy_state, 'a) comp" where
  "on_from m s = map_option (\<lambda>(r, io, w). (r, s\<lparr>from_io := io, cworld := w\<rparr>)) (m (from_io s, cworld s))"

definition on_to :: "('w, 'a) io \<Rightarrow> ('w copy_state, 'a) comp" where
  "on_to m s = map_option (\<lambda>(r, io, w). (r, s\<lparr>to_io := io, cworld := w\<rparr>)) (m (to_io s, cworld s))"

definition copy_fill :: "'w io_ops \<Rightarrow> ('w copy_state, bool) comp" where
  "copy_fill IO =
     bindW (on_from get_io) (\<lambda>io.
     if inbuflen io = 0
     then bindW (on_from (io_fgetc IO)) (\<lambda>c.
          if c = -1 then retW False else bindW (on_from (io_ungetc (char_of c))) (\<lambda>_. retW True))
     else retW True)"

definition copy_chunk :: "'w io_ops \<Rightarrow> int \<Rightarrow> ('w copy_state, nat) comp" where
  "copy_chunk IO len =
     bindW (on_from get_io) (\<lambda>io.
     let n = (if len = -1 then inbuflen io else if len \<ge> int (inbuflen io) then inbuflen io else nat len)
     in bindW (on_to (io_fwrite IO (take n (drop (inbufpos io) (inbuf io))))) (\<lambda>_.
        bindW (on_from (upd_io (advance n))) (\<lambda>_. retW n)))"

partial_function (option) copy_loop ::
  "'w io_ops \<Rightarrow> int \<Rightarrow> nat \<Rightarrow> 'w copy_state \<Rightarrow> (nat outcome \<times> 'w copy_state) option" where
  "copy_loop IO len written s =
     (if len = 0 then retW written
      else bindW (copy_fill IO) (\<lambda>more.
        if \<not> more then retW written
        else bindW (copy_chunk IO len) (\<lambda>n.
             copy_loop IO (if len > 0 then len - int n else len) (written + n)))) s"

definition io_copy :: "'w io_ops \<Rightarrow> int \<Rightarrow> ('w copy_state, nat) comp" where
  "io_copy IO len = bindW (on_from (io_fflush IO)) (\<lambda>_. copy_loop IO len 0)"

section \<open>Streams\<close>

text \<open>
  What the library relies on from a connection without errors: \<open>rest w s\<close> are the bytes that will
  still arrive on socket \<open>s\<close> and \<open>sent w s\<close> those that have been written; a read delivers some of
  the next bytes and none only at the end, a write accepts at least one byte.
\<close>

locale socket =
  fixes IO :: "'w io_ops" and good :: "'w \<Rightarrow> bool" and rest :: "'w \<Rightarrow> int \<Rightarrow> string" and sent :: "'w \<Rightarrow> int \<Rightarrow> string"
  assumes read_law: "good w \<Longrightarrow> 0 < n \<Longrightarrow> \<exists>cs w'. io_rd IO s n w = Some (Ret (int (length cs), cs), w') \<and>
      length cs \<le> n \<and> rest w s = cs @ rest w' s \<and> (cs = [] \<longrightarrow> rest w s = []) \<and>
      (\<forall>t. t \<noteq> s \<longrightarrow> rest w' t = rest w t) \<and> sent w' = sent w \<and> good w'"
    and write_law: "good w \<Longrightarrow> cs \<noteq> [] \<Longrightarrow> \<exists>k w'. io_wr IO s cs w = Some (Ret (int k), w') \<and>
      0 < k \<and> k \<le> length cs \<and> sent w' = (sent w)(s := sent w s @ take k cs) \<and> rest w' = rest w \<and> good w'"

definition io_ok :: "io_handle \<Rightarrow> bool" where
  "io_ok io \<longleftrightarrow> length (inbuf io) = IOLIB_INPUT_BUFFER_SIZE \<and> inbufpos io + inbuflen io \<le> IOLIB_INPUT_BUFFER_SIZE \<and>
     length (outbuf io) = IOLIB_OUTPUT_BUFFER_SIZE \<and> outbufpos io + outbuffree io = IOLIB_OUTPUT_BUFFER_SIZE"

definition buffered :: "io_handle \<Rightarrow> string" where
  "buffered io = take (outbufpos io) (outbuf io)"

text \<open>The part of the handle that input respectively output leaves alone.\<close>

definition same_input :: "io_handle \<Rightarrow> io_handle \<Rightarrow> bool" where
  "same_input io io' \<longleftrightarrow> io_pool io' = io_pool io \<and> sock io' = sock io \<and> inbuf io' = inbuf io \<and> inbufpos io' = inbufpos io \<and> inbuflen io' = inbuflen io \<and>
     outbufmode io' = outbufmode io"

lemma same_input_refl [simp]: "same_input io io"
  by (simp add: same_input_def)

lemma same_input_trans: "same_input a b \<Longrightarrow> same_input b c \<Longrightarrow> same_input a c"
  by (simp add: same_input_def)

lemma same_input_window: "same_input io io' \<Longrightarrow> window io' = window io"
  by (simp add: same_input_def window_def)

text \<open>Everything written so far, whether it has left the buffer or not, and everything still to be read.\<close>

definition produced :: "('w \<Rightarrow> int \<Rightarrow> string) \<Rightarrow> io_handle \<Rightarrow> 'w \<Rightarrow> string" where
  "produced sent io w = sent w (sock io) @ buffered io"

definition unread :: "('w \<Rightarrow> int \<Rightarrow> string) \<Rightarrow> io_handle \<Rightarrow> 'w \<Rightarrow> string" where
  "unread rest io w = window io @ rest w (sock io)"

lemmas io_run = bindW_def get_io_def upd_io_def retW_def liftW_def

context socket
begin

lemma write_loop_spec:
  assumes "good w"
  shows "\<exists>n w'. write_loop IO ig cs (io, w) = Some (Ret (), io\<lparr>outbufcount := n\<rparr>, w') \<and>
    sent w' = (sent w)(sock io := sent w (sock io) @ cs) \<and> rest w' = rest w \<and> good w'"
  using assms
proof (induction "length cs" arbitrary: cs io w rule: less_induct)
  case less
  show ?case
  proof (cases "cs = []")
    case True
    then show ?thesis
      using less(2) by (intro exI [of _ "outbufcount io"] exI [of _ w]) (simp add: write_loop.simps retW_def)
  next
    case False
    obtain k w1 where k: "io_wr IO (sock io) cs w = Some (Ret (int k), w1)" "0 < k" "k \<le> length cs"
      "sent w1 = (sent w)(sock io := sent w (sock io) @ take k cs)" "rest w1 = rest w" "good w1"
      using write_law [OF less(2) False] by blast
    let ?io = "io\<lparr>outbufcount := c_int (outbufcount io + int k)\<rparr>"
    have "length (drop k cs) < length cs" using k(2) False by simp
    then obtain n w' where w': "write_loop IO ig (drop k cs) (?io, w1) = Some (Ret (), ?io\<lparr>outbufcount := n\<rparr>, w')"
      "sent w' = (sent w1)(sock ?io := sent w1 (sock ?io) @ drop k cs)" "rest w' = rest w1" "good w'"
      using less(1) [of "drop k cs" w1 ?io] k(6) by blast
    have "write_loop IO ig cs (io, w) = write_loop IO ig (drop k cs) (?io, w1)"
      using False k(1) by (subst write_loop.simps) (simp add: io_run)
    then show ?thesis using w' k by (intro exI [of _ n] exI [of _ w']) simp
  qed
qed

lemma flush_spec:
  assumes "good w" "io_ok io"
  shows "\<exists>io' w'. io_flush IO ig (io, w) = Some (Ret (), io', w') \<and> io_ok io' \<and> same_input io io' \<and>
    buffered io' = [] \<and> sent w' = (sent w)(sock io := sent w (sock io) @ buffered io) \<and> rest w' = rest w \<and> good w' \<and>
    outbufpos io' = 0"
proof -
  obtain n w' where w: "write_loop IO ig (buffered io) (io, w) = Some (Ret (), io\<lparr>outbufcount := n\<rparr>, w')"
    "sent w' = (sent w)(sock io := sent w (sock io) @ buffered io)" "rest w' = rest w" "good w'"
    using write_loop_spec [OF assms(1)] by blast
  let ?io = "io\<lparr>outbufcount := n, outbufpos := 0, outbuffree := IOLIB_OUTPUT_BUFFER_SIZE\<rparr>"
  have "io_flush IO ig (io, w) = Some (Ret (), ?io, w')"
    using w(1) by (simp add: io_flush_def io_run buffered_def)
  then show ?thesis
    using w assms(2) by (intro exI [of _ ?io] exI [of _ w']) (simp add: io_ok_def same_input_def buffered_def)
qed

lemma fflush_spec:
  assumes "good w" "io_ok io"
  shows "\<exists>io' w'. io_fflush IO (io, w) = Some (Ret 0, io', w') \<and> io_ok io' \<and> same_input io io' \<and>
    buffered io' = [] \<and> outbufpos io' = 0 \<and> sent w' = (sent w)(sock io := sent w (sock io) @ buffered io) \<and> rest w' = rest w \<and> good w'"
proof (cases "outbufpos io > 0")
  case True
  obtain io' w' where f: "io_flush IO False (io, w) = Some (Ret (), io', w')" "io_ok io'" "same_input io io'"
    "buffered io' = []" "sent w' = (sent w)(sock io := sent w (sock io) @ buffered io)" "rest w' = rest w" "good w'"
    "outbufpos io' = 0"
    using flush_spec [OF assms] by blast
  have "io_fflush IO (io, w) = Some (Ret 0, io', w')" using True f(1) by (simp add: io_fflush_def io_run)
  then show ?thesis using f by blast
next
  case False
  then have "io_fflush IO (io, w) = Some (Ret 0, io, w)" "buffered io = []" "outbufpos io = 0"
    by (simp_all add: io_fflush_def io_run buffered_def)
  then show ?thesis using assms by (intro exI [of _ io] exI [of _ w]) simp
qed

lemma put_byte_spec:
  assumes "io_ok io" "outbuffree io > 0"
  shows "io_ok (put_byte c io)" "buffered (put_byte c io) = buffered io @ [c]" "same_input io (put_byte c io)"
proof -
  have "outbufpos io < length (outbuf io)" using assms by (simp add: io_ok_def)
  then show "buffered (put_byte c io) = buffered io @ [c]"
    by (simp add: buffered_def put_byte_def take_Suc_conv_app_nth)
  show "io_ok (put_byte c io)" "same_input io (put_byte c io)"
    using assms by (simp_all add: io_ok_def put_byte_def same_input_def)
qed

lemma store_spec:
  assumes g: "good w" and ok: "io_ok io" and f: "outbuffree io > 0"
  shows "\<exists>io' w'. io_store IO c (io, w) = Some (Ret (schar c), io', w') \<and> io_ok io' \<and> same_input io io' \<and>
    produced sent io' w' = produced sent io w @ [c] \<and> (\<forall>t. t \<noteq> sock io \<longrightarrow> sent w' t = sent w t) \<and> rest w' = rest w \<and> good w'"
proof -
  note p = put_byte_spec [OF ok f, of c]
  have mode: "outbufmode (put_byte c io) = outbufmode io" "sock (put_byte c io) = sock io" by (simp_all add: put_byte_def)
  show ?thesis
  proof (cases "outbufmode io = IO_MODE_UNBUFFERED \<or> (outbufmode io = IO_MODE_LINE_BUFFERED \<and> c = CHR 0x0A)")
    case True
    obtain io' w' where fl: "io_flush IO False (put_byte c io, w) = Some (Ret (), io', w')" "io_ok io'"
      "same_input (put_byte c io) io'" "buffered io' = []"
      "sent w' = (sent w)(sock io := sent w (sock io) @ buffered (put_byte c io))" "rest w' = rest w" "good w'"
      using flush_spec [OF g p(1), of False] mode(2) by auto
    have "io_store IO c (io, w) = Some (Ret (schar c), io', w')"
      using True fl(1) mode by (auto simp: io_store_def io_run)
    moreover have "sock io' = sock io" using fl(3) mode by (simp add: same_input_def)
    ultimately show ?thesis
      using fl p same_input_trans [OF p(3) fl(3)] by (intro exI [of _ io'] exI [of _ w']) (simp add: produced_def)
  next
    case False
    then have "io_store IO c (io, w) = Some (Ret (schar c), put_byte c io, w)"
      using mode by (auto simp: io_store_def io_run)
    then show ?thesis using p g mode by (intro exI [of _ "put_byte c io"] exI [of _ w]) (simp add: produced_def)
  qed
qed

lemma fputc_spec:
  assumes g: "good w" and ok: "io_ok io"
  shows "\<exists>io' w'. io_fputc IO c (io, w) = Some (Ret (schar c), io', w') \<and> io_ok io' \<and> same_input io io' \<and>
    produced sent io' w' = produced sent io w @ [c] \<and> (\<forall>t. t \<noteq> sock io \<longrightarrow> sent w' t = sent w t) \<and> rest w' = rest w \<and> good w'"
proof (cases "outbuffree io > 0")
  case True
  then have "io_fputc IO c (io, w) = io_store IO c (io, w)" by (simp add: io_fputc_def io_run)
  then show ?thesis using store_spec [OF g ok True] by simp
next
  case False
  obtain io1 w1 where f: "io_flush IO False (io, w) = Some (Ret (), io1, w1)" "io_ok io1" "same_input io io1"
    "buffered io1 = []" "sent w1 = (sent w)(sock io := sent w (sock io) @ buffered io)" "rest w1 = rest w" "good w1"
    "outbufpos io1 = 0"
    using flush_spec [OF g ok, of False] by blast
  have free: "outbuffree io1 > 0" using f(2,8) by (simp add: io_ok_def IOLIB_OUTPUT_BUFFER_SIZE_def)
  have sk: "sock io1 = sock io" using f(3) by (simp add: same_input_def)
  have o: "produced sent io1 w1 = produced sent io w" using f(4,5) sk by (simp add: produced_def)
  have "io_fputc IO c (io, w) = io_store IO c (io1, w1)" using False f(1) by (simp add: io_fputc_def io_run)
  moreover obtain io' w' where s: "io_store IO c (io1, w1) = Some (Ret (schar c), io', w')" "io_ok io'" "same_input io1 io'"
    "produced sent io' w' = produced sent io1 w1 @ [c]" "\<forall>t. t \<noteq> sock io1 \<longrightarrow> sent w' t = sent w1 t" "rest w' = rest w1" "good w'"
    using store_spec [OF f(7,2) free, of c] by blast
  ultimately show ?thesis
    using f(5,6) o sk same_input_trans [OF f(3) s(3)] by (intro exI [of _ io'] exI [of _ w']) simp
qed

lemma fputs_spec:
  assumes "good w" "io_ok io" "CHR 0x00 \<notin> set cs"
  shows "\<exists>io' w'. io_fputs IO cs (io, w) = Some (Ret 1, io', w') \<and> io_ok io' \<and> same_input io io' \<and>
    produced sent io' w' = produced sent io w @ cs \<and> (\<forall>t. t \<noteq> sock io \<longrightarrow> sent w' t = sent w t) \<and> rest w' = rest w \<and> good w'"
  using assms
proof (induction cs arbitrary: io w)
  case Nil
  then show ?case by (intro exI [of _ io] exI [of _ w]) (simp add: retW_def)
next
  case (Cons c cs)
  obtain io1 w1 where f: "io_fputc IO c (io, w) = Some (Ret (schar c), io1, w1)" "io_ok io1" "same_input io io1"
    "produced sent io1 w1 = produced sent io w @ [c]" "\<forall>t. t \<noteq> sock io \<longrightarrow> sent w1 t = sent w t" "rest w1 = rest w" "good w1"
    using fputc_spec [OF Cons.prems(1,2)] by blast
  obtain io' w' where s: "io_fputs IO cs (io1, w1) = Some (Ret 1, io', w')" "io_ok io'" "same_input io1 io'"
    "produced sent io' w' = produced sent io1 w1 @ cs" "\<forall>t. t \<noteq> sock io1 \<longrightarrow> sent w' t = sent w1 t" "rest w' = rest w1" "good w'"
    using Cons.IH [OF f(7,2)] Cons.prems(3) by auto
  have "sock io1 = sock io" using f(3) by (simp add: same_input_def)
  moreover have "io_fputs IO (c # cs) (io, w) = Some (Ret 1, io', w')"
    using f(1) s(1) Cons.prems(3) by (auto simp: bindW_def)
  ultimately show ?case
    using f s same_input_trans [OF f(3) s(3)] by (intro exI [of _ io'] exI [of _ w']) simp
qed

lemma fprintf_spec:
  assumes "good w" "io_ok io" "CHR 0x00 \<notin> set cs" "length cs \<noteq> 4096"
  shows "\<exists>io' w'. io_fprintf IO cs (io, w) = Some (Ret (length cs), io', w') \<and> io_ok io' \<and> same_input io io' \<and>
    produced sent io' w' = produced sent io w @ cs \<and> (\<forall>t. t \<noteq> sock io \<longrightarrow> sent w' t = sent w t) \<and> rest w' = rest w \<and> good w'"
proof -
  have "io_fprintf IO cs = bindW (io_fputs IO cs) (\<lambda>_. retW (length cs))"
    using assms(4) by (auto simp: io_fprintf_def vsnprintf_def Let_def)
  with fputs_spec [OF assms(1-3)] show ?thesis by (auto simp: bindW_def retW_def)
qed

end

section \<open>Reading\<close>

text \<open>What an input function leaves alone: the bytes written so far and the other sockets.\<close>

definition only_input ::
  "('w \<Rightarrow> int \<Rightarrow> string) \<Rightarrow> ('w \<Rightarrow> int \<Rightarrow> string) \<Rightarrow> io_handle \<Rightarrow> 'w \<Rightarrow> io_handle \<Rightarrow> 'w \<Rightarrow> bool" where
  "only_input rest sent io w io' w' \<longleftrightarrow> io_pool io' = io_pool io \<and> sock io' = sock io \<and> outbufmode io' = outbufmode io \<and>
     produced sent io' w' = produced sent io w \<and>
     (\<forall>t. t \<noteq> sock io \<longrightarrow> sent w' t = sent w t \<and> rest w' t = rest w t)"

lemma only_input_refl [simp]: "only_input rest sent io w io w"
  by (simp add: only_input_def)

lemma only_input_trans:
  "only_input rest sent io w io1 w1 \<Longrightarrow> only_input rest sent io1 w1 io2 w2 \<Longrightarrow> only_input rest sent io w io2 w2"
  by (simp add: only_input_def)

lemma window_Cons:
  assumes "io_ok io" "inbuflen io > 0"
  shows "window io = next_byte io # window (advance 1 io)" "io_ok (advance 1 io)"
proof -
  have "inbufpos io < length (inbuf io)" using assms by (simp add: io_ok_def)
  then show "window io = next_byte io # window (advance 1 io)"
    using assms(2) by (cases "inbuflen io") (simp_all add: window_def next_byte_def advance_def Cons_nth_drop_Suc [symmetric])
  show "io_ok (advance 1 io)" using assms by (simp add: io_ok_def advance_def)
qed

lemma advance_spec:
  assumes "io_ok io" "n \<le> inbuflen io"
  shows "window io = take n (drop (inbufpos io) (inbuf io)) @ window (advance n io)" "io_ok (advance n io)"
proof -
  show "window io = take n (drop (inbufpos io) (inbuf io)) @ window (advance n io)"
    using assms(2) by (simp add: window_def advance_def)
      (metis add.commute drop_drop le_add_diff_inverse take_add)
  show "io_ok (advance n io)" using assms by (simp add: io_ok_def advance_def)
qed

lemma refill_spec:
  assumes "io_ok io" "length cs \<le> IOLIB_INPUT_BUFFER_SIZE"
  shows "io_ok (refill cs io)" "window (refill cs io) = cs" "buffered (refill cs io) = buffered io"
    "sock (refill cs io) = sock io" "outbufmode (refill cs io) = outbufmode io" "io_pool (refill cs io) = io_pool io"
  using assms by (simp_all add: io_ok_def refill_def window_def buffered_def)

lemma window_empty: "inbuflen io = 0 \<Longrightarrow> window io = []"
  by (simp add: window_def)

context socket
begin

lemma fflush_only:
  assumes "good w" "io_ok io"
  shows "\<exists>io' w'. io_fflush IO (io, w) = Some (Ret 0, io', w') \<and> io_ok io' \<and> good w' \<and> same_input io io' \<and>
    rest w' = rest w \<and> only_input rest sent io w io' w' \<and> outbufpos io' = 0"
proof -
  obtain io' w' where f: "io_fflush IO (io, w) = Some (Ret 0, io', w')" "io_ok io'" "same_input io io'" "buffered io' = []"
    "outbufpos io' = 0" "sent w' = (sent w)(sock io := sent w (sock io) @ buffered io)" "rest w' = rest w" "good w'"
    using fflush_spec [OF assms] by blast
  then show ?thesis by (intro exI [of _ io'] exI [of _ w']) (simp add: only_input_def produced_def same_input_def)
qed

lemma take_byte_spec:
  assumes "io_ok io" "inbuflen io > 0"
  shows "take_byte (io, w) = Some (Ret (schar (hd (window io))), advance 1 io, w)"
  using window_Cons [OF assms] by (simp add: take_byte_def io_run)

lemma take_spec:
  assumes "io_ok io" "inbuflen io > 0"
  shows "\<exists>c. unread rest io w = c # unread rest (advance 1 io) w \<and> take_byte (io, w) = Some (Ret (schar c), advance 1 io, w) \<and>
    io_ok (advance 1 io) \<and> only_input rest sent io w (advance 1 io) w \<and> inbufpos (advance 1 io) > 0"
proof -
  note wc = window_Cons [OF assms]
  have "unread rest io w = next_byte io # unread rest (advance 1 io) w" using wc(1) by (simp add: unread_def advance_def)
  then show ?thesis
    using take_byte_spec [OF assms, of w] wc
    by (intro exI [of _ "next_byte io"]) (simp add: only_input_def produced_def buffered_def advance_def)
qed

lemma fgetc_spec:
  assumes g: "good w" and ok: "io_ok io"
  shows "\<exists>io' w'. io_ok io' \<and> good w' \<and> only_input rest sent io w io' w' \<and>
    (case unread rest io w of
       [] \<Rightarrow> io_fgetc IO (io, w) = Some (Ret (-1), io', w') \<and> unread rest io' w' = []
     | c # cs \<Rightarrow> io_fgetc IO (io, w) = Some (Ret (schar c), io', w') \<and> unread rest io' w' = cs \<and> inbufpos io' > 0)"
proof -
  obtain io1 w1 where f: "io_fflush IO (io, w) = Some (Ret 0, io1, w1)" "io_ok io1" "good w1" "same_input io io1"
    "rest w1 = rest w" "only_input rest sent io w io1 w1" using fflush_only [OF assms] by blast
  have u: "unread rest io1 w1 = unread rest io w"
    using f(4,5) same_input_window [OF f(4)] by (simp add: unread_def same_input_def)
  show ?thesis
  proof (cases "inbuflen io1 > 0")
    case True
    then have "io_fgetc IO (io, w) = take_byte (io1, w1)" using f(1) by (simp add: io_fgetc_def bindW_def get_io_def)
    then show ?thesis
      using take_spec [OF f(2) True, of w1] u f(3) only_input_trans [OF f(6)]
      by (intro exI [of _ "advance 1 io1"] exI [of _ w1]) auto
  next
    case False
    obtain cs w2 where r: "io_rd IO (sock io1) IOLIB_INPUT_BUFFER_SIZE w1 = Some (Ret (int (length cs), cs), w2)"
      "length cs \<le> IOLIB_INPUT_BUFFER_SIZE" "rest w1 (sock io1) = cs @ rest w2 (sock io1)" "cs = [] \<longrightarrow> rest w1 (sock io1) = []"
      "\<forall>t. t \<noteq> sock io1 \<longrightarrow> rest w2 t = rest w1 t" "sent w2 = sent w1" "good w2"
      using read_law [OF f(3), of IOLIB_INPUT_BUFFER_SIZE "sock io1"] by (auto simp: IOLIB_INPUT_BUFFER_SIZE_def)
    let ?io = "refill cs io1"
    note rf = refill_spec [OF f(2) r(2)]
    have un: "unread rest ?io w2 = unread rest io w" using u rf r(3) False window_empty by (simp add: unread_def)
    have oi: "only_input rest sent io w ?io w2"
      by (rule only_input_trans [OF f(6)]) (use rf r(5,6) in \<open>simp add: only_input_def produced_def\<close>)
    have step: "io_fgetc IO (io, w) = (if cs = [] then retW (-1) else take_byte) (?io, w2)"
      using f(1) False r(1) by (simp add: io_fgetc_def bindW_def get_io_def liftW_def upd_io_def)
    show ?thesis
    proof (cases cs)
      case Nil
      have "unread rest io w = []" using u False window_empty r(4) Nil by (simp add: unread_def)
      then show ?thesis
        using step Nil rf(1) r(7) oi un by (intro exI [of _ ?io] exI [of _ w2]) (simp add: retW_def)
    next
      case (Cons c cs')
      have len: "inbuflen ?io > 0" by (simp add: Cons refill_def)
      show ?thesis
        using take_spec [OF rf(1) len, of w2] un step Cons r(7) only_input_trans [OF oi]
        by (intro exI [of _ "advance 1 ?io"] exI [of _ w2]) auto
    qed
  qed
qed

end

text \<open>The line that \<open>fgets\<close> stores when it has room for \<open>k\<close> bytes.\<close>

fun line_of :: "nat \<Rightarrow> string \<Rightarrow> string" where
  "line_of (Suc k) (c # cs) = (if c = CHR 0x0A then [c] else c # line_of k cs)"
| "line_of _ _ = []"

definition line_eof :: "nat \<Rightarrow> string \<Rightarrow> bool" where
  "line_eof k cs \<longleftrightarrow> CHR 0x0A \<notin> set (line_of k cs) \<and> length (line_of k cs) < k"

lemma line_of_prefix: "\<exists>ds. cs = line_of k cs @ ds"
  by (induction k cs rule: line_of.induct) auto

lemma line_of_crlf: "LF \<notin> set l \<Longrightarrow> length l + 2 \<le> k \<Longrightarrow> line_of k (l @ CR # LF # r) = l @ CRLF"
proof (induction l arbitrary: k)
  case Nil
  then obtain m where "k = Suc (Suc m)" by (metis add_2_eq_Suc le_Suc_ex list.size(3) plus_nat.add_0)
  then show ?case by simp
next
  case (Cons c l)
  then show ?case by (cases k) auto
qed

lemma strip_crlf: "set l \<inter> {CR, LF} = {} \<Longrightarrow> strip_eol (l @ CRLF) = l"
proof -
  assume "set l \<inter> {CR, LF} = {}"
  then have "dropWhile (\<lambda>c. c = LF \<or> c = CR) (rev l) = rev l" by (cases "rev l") (auto simp: rev_eq_Cons_iff)
  then show ?thesis by (simp add: strip_eol_def)
qed

context socket
begin

lemma fgets_loop_spec:
  assumes "good w" "io_ok io" "CHR 0xFF \<notin> set (line_of k (unread rest io w))"
  shows "\<exists>io' w'. fgets_loop IO k s (io, w) =
      Some (Ret (s @ line_of k (unread rest io w), line_eof k (unread rest io w)), io', w') \<and>
    io_ok io' \<and> good w' \<and> only_input rest sent io w io' w' \<and>
    unread rest io w = line_of k (unread rest io w) @ unread rest io' w'"
  using assms
proof (induction k arbitrary: s io w)
  case 0
  then show ?case by (intro exI [of _ io] exI [of _ w]) (simp add: retW_def line_eof_def)
next
  case (Suc k)
  obtain io1 w1 where f: "io_ok io1" "good w1" "only_input rest sent io w io1 w1" "case unread rest io w of
       [] \<Rightarrow> io_fgetc IO (io, w) = Some (Ret (-1), io1, w1) \<and> unread rest io1 w1 = []
     | c # cs \<Rightarrow> io_fgetc IO (io, w) = Some (Ret (schar c), io1, w1) \<and> unread rest io1 w1 = cs \<and> inbufpos io1 > 0"
    using fgetc_spec [OF Suc.prems(1,2)] by blast
  show ?case
  proof (cases "unread rest io w")
    case Nil
    then have "fgets_loop IO (Suc k) s (io, w) = Some (Ret (s, True), io1, w1)"
      using f(4) by (simp add: bindW_def retW_def)
    then show ?thesis using f Nil by (intro exI [of _ io1] exI [of _ w1]) (simp add: line_eof_def)
  next
    case (Cons c cs)
    have g: "io_fgetc IO (io, w) = Some (Ret (schar c), io1, w1)" "unread rest io1 w1 = cs" using f(4) Cons by simp_all
    have c: "schar c \<noteq> -1" "c \<noteq> LF \<Longrightarrow> CHR 0xFF \<notin> set (line_of k cs)"
      using Suc.prems(3) Cons by (auto simp: schar_special split: if_splits)
    show ?thesis
    proof (cases "c = CHR 0x0A")
      case True
      then have "fgets_loop IO (Suc k) s (io, w) = Some (Ret (s @ [c], False), io1, w1)"
        using g(1) c(1) schar_special(1) [of c] char_of_schar [of c] by (simp add: bindW_def retW_def Let_def del: char_of_schar)
      then show ?thesis
        using f g(2) True Cons by (intro exI [of _ io1] exI [of _ w1]) (simp add: line_eof_def)
    next
      case False
      then have step: "fgets_loop IO (Suc k) s (io, w) = fgets_loop IO k (s @ [c]) (io1, w1)"
        using g(1) c(1) schar_special(1) [of c] by (simp add: bindW_def Let_def)
      obtain io' w' where IH: "fgets_loop IO k (s @ [c]) (io1, w1) =
          Some (Ret ((s @ [c]) @ line_of k cs, line_eof k cs), io', w')" "io_ok io'" "good w'"
        "only_input rest sent io1 w1 io' w'" "cs = line_of k cs @ unread rest io' w'"
        using Suc.IH [OF f(2,1), of "s @ [c]"] c(2) [OF False] g(2) by auto
      have "line_eof (Suc k) (c # cs) = line_eof k cs" using False by (simp add: line_eof_def)
      then show ?thesis
        using step IH False Cons only_input_trans [OF f(3) IH(4)]
        by (intro exI [of _ io'] exI [of _ w']) simp
    qed
  qed
qed

lemma fgets_spec:
  assumes g: "good w" and ok: "io_ok io" and ff: "CHR 0xFF \<notin> set (line_of (n - 1) (unread rest io w))"
  shows "\<exists>io' w'. io_fgets IO n eol (io, w) = Some (Ret
      (let l = line_of (n - 1) (unread rest io w)
       in if line_eof (n - 1) (unread rest io w) then (if l = [] then None else Some l)
          else Some (if eol then l else strip_eol l)), io', w') \<and>
    io_ok io' \<and> good w' \<and> only_input rest sent io w io' w' \<and>
    unread rest io w = line_of (n - 1) (unread rest io w) @ unread rest io' w'"
proof -
  obtain io1 w1 where f: "io_fflush IO (io, w) = Some (Ret 0, io1, w1)" "io_ok io1" "good w1" "same_input io io1"
    "rest w1 = rest w" "only_input rest sent io w io1 w1" using fflush_only [OF g ok] by blast
  have u: "unread rest io1 w1 = unread rest io w"
    using f(4,5) same_input_window [OF f(4)] by (simp add: unread_def same_input_def)
  have ff1: "CHR 0xFF \<notin> set (line_of (n - 1) (unread rest io1 w1))" using ff u by simp
  obtain io' w' where l: "fgets_loop IO (n - 1) [] (io1, w1) =
      Some (Ret ([] @ line_of (n - 1) (unread rest io1 w1), line_eof (n - 1) (unread rest io1 w1)), io', w')"
    "io_ok io'" "good w'" "only_input rest sent io1 w1 io' w'"
    "unread rest io1 w1 = line_of (n - 1) (unread rest io1 w1) @ unread rest io' w'"
    using fgets_loop_spec [OF f(3,2) ff1] by blast
  have "io_fgets IO n eol (io, w) = Some (Ret
      (let l = line_of (n - 1) (unread rest io w)
       in if line_eof (n - 1) (unread rest io w) then (if l = [] then None else Some l)
          else Some (if eol then l else strip_eol l)), io', w')"
    using f(1) l(1) u by (auto simp: io_fgets_def bindW_def retW_def Let_def)
  then show ?thesis using l u only_input_trans [OF f(6) l(4)] by auto
qed

lemma fread_loop_spec:
  assumes "good w" "io_ok io" "window io = []"
  shows "\<exists>k w'. fread_loop IO n got (io, w) = Some (Ret (got @ take n (rest w (sock io))), io\<lparr>inbufcount := k\<rparr>, w') \<and>
    good w' \<and> rest w' (sock io) = drop n (rest w (sock io)) \<and> (\<forall>t. t \<noteq> sock io \<longrightarrow> rest w' t = rest w t) \<and> sent w' = sent w"
  using assms
proof (induction n arbitrary: got io w rule: less_induct)
  case (less n)
  show ?case
  proof (cases "n = 0")
    case True
    then show ?thesis using less(2)
      by (intro exI [of _ "inbufcount io"] exI [of _ w]) (simp add: fread_loop.simps retW_def)
  next
    case False
    obtain cs w1 where r: "io_rd IO (sock io) n w = Some (Ret (int (length cs), cs), w1)"
      "length cs \<le> n" "rest w (sock io) = cs @ rest w1 (sock io)" "cs = [] \<longrightarrow> rest w (sock io) = []"
      "\<forall>t. t \<noteq> sock io \<longrightarrow> rest w1 t = rest w t" "sent w1 = sent w" "good w1"
      using read_law [OF less(2)] False by blast
    show ?thesis
    proof (cases "cs = []")
      case True
      then have "fread_loop IO n got (io, w) = Some (Ret got, io, w1)"
        using False r(1) by (subst fread_loop.simps) (simp add: io_run)
      then show ?thesis using r True by (intro exI [of _ "inbufcount io"] exI [of _ w1]) simp
    next
      case ne: False
      let ?io = "io\<lparr>inbufcount := c_int (inbufcount io + int (length cs))\<rparr>"
      have "io_ok ?io" "window ?io = []" using less(3,4) by (simp_all add: io_ok_def window_def)
      moreover have "n - length cs < n" using ne False by (cases cs) simp_all
      ultimately obtain k w' where IH: "fread_loop IO (n - length cs) (got @ cs) (?io, w1) =
          Some (Ret ((got @ cs) @ take (n - length cs) (rest w1 (sock ?io))), ?io\<lparr>inbufcount := k\<rparr>, w')" "good w'"
        "rest w' (sock ?io) = drop (n - length cs) (rest w1 (sock ?io))" "\<forall>t. t \<noteq> sock ?io \<longrightarrow> rest w' t = rest w1 t" "sent w' = sent w1"
        using less(1) [OF _ r(7), of "n - length cs" ?io "got @ cs"] by blast
      have "fread_loop IO n got (io, w) = fread_loop IO (n - length cs) (got @ cs) (?io, w1)"
        using False ne r(1) by (subst fread_loop.simps) (simp add: io_run)
      then show ?thesis using IH r by (intro exI [of _ k] exI [of _ w']) simp
    qed
  qed
qed

lemma fread_spec:
  assumes g: "good w" and ok: "io_ok io"
  shows "\<exists>io' w'. io_fread IO n (io, w) = Some (Ret (take n (unread rest io w)), io', w') \<and>
    io_ok io' \<and> good w' \<and> only_input rest sent io w io' w' \<and> unread rest io' w' = drop n (unread rest io w)"
proof -
  obtain io1 w1 where f: "io_fflush IO (io, w) = Some (Ret 0, io1, w1)" "io_ok io1" "good w1" "same_input io io1"
    "rest w1 = rest w" "only_input rest sent io w io1 w1" using fflush_only [OF assms] by blast
  have u: "unread rest io w = window io1 @ rest w1 (sock io1)"
    using f(4,5) same_input_window [OF f(4)] by (simp add: unread_def same_input_def)
  let ?i = "if n > inbuflen io1 then inbuflen io1 else n"
  let ?got = "take ?i (drop (inbufpos io1) (inbuf io1))"
  let ?io = "advance ?i io1"
  have le: "?i \<le> inbuflen io1" by simp
  note adv = advance_spec [OF f(2) le]
  have len: "length ?got = ?i" "length (window io1) = inbuflen io1" using f(2) by (auto simp: io_ok_def window_def)
  have sk: "sock ?io = sock io1" by (simp add: advance_def)
  have step: "io_fread IO n (io, w) = fread_loop IO (n - ?i) ?got (?io, w1)"
    using f(1) by (simp add: io_fread_def bindW_def get_io_def upd_io_def Let_def)
  show ?thesis
  proof (cases "n \<le> inbuflen io1")
    case True
    then have "io_fread IO n (io, w) = Some (Ret ?got, ?io, w1)"
      using step by (simp add: fread_loop.simps retW_def)
    moreover have "?got = take n (unread rest io w)" "unread rest ?io w1 = drop n (unread rest io w)"
      using u adv(1) len True sk by (simp_all add: unread_def)
    moreover have "only_input rest sent io1 w1 ?io w1"
      by (simp add: only_input_def produced_def buffered_def advance_def)
    ultimately show ?thesis
      using adv(2) f(3) only_input_trans [OF f(6)] by (intro exI [of _ ?io] exI [of _ w1]) simp
  next
    case False
    then have i: "?i = inbuflen io1" by simp
    have w0: "window ?io = []" using i by (simp add: window_def advance_def)
    have got: "?got = window io1" using adv(1) w0 by simp
    obtain k w' where r: "fread_loop IO (n - ?i) ?got (?io, w1) =
        Some (Ret (?got @ take (n - ?i) (rest w1 (sock ?io))), ?io\<lparr>inbufcount := k\<rparr>, w')" "good w'"
      "rest w' (sock ?io) = drop (n - ?i) (rest w1 (sock ?io))" "\<forall>t. t \<noteq> sock ?io \<longrightarrow> rest w' t = rest w1 t" "sent w' = sent w1"
      using fread_loop_spec [OF f(3) adv(2) w0] by blast
    have "?got @ take (n - ?i) (rest w1 (sock ?io)) = take n (unread rest io w)"
      unfolding u got sk using len(2) i False by simp
    moreover have "io_ok (?io\<lparr>inbufcount := k\<rparr>)" using adv(2) by (simp add: io_ok_def)
    moreover have "only_input rest sent io1 w1 (?io\<lparr>inbufcount := k\<rparr>) w'"
      using r(4,5) by (simp add: only_input_def produced_def buffered_def advance_def)
    moreover have "unread rest (?io\<lparr>inbufcount := k\<rparr>) w' = drop n (unread rest io w)"
      unfolding u using r(3) w0 sk len(2) i False by (simp add: unread_def window_def)
    ultimately show ?thesis
      using step r(1,2) only_input_trans [OF f(6)] by (intro exI [of _ "?io\<lparr>inbufcount := k\<rparr>"] exI [of _ w']) simp
  qed
qed

end

section \<open>Pushing back and copying\<close>

text \<open>\<open>io_ungetc\<close> after \<open>io_fgetc\<close> restores the stream.\<close>

lemma ungetc_spec:
  assumes "io_ok io" "inbufpos io > 0"
  shows "\<exists>io'. io_ungetc c (io, w) = Some (Ret True, io', w) \<and> io_ok io' \<and> window io' = c # window io \<and>
    sock io' = sock io \<and> io_pool io' = io_pool io \<and> outbuf io' = outbuf io \<and> outbufpos io' = outbufpos io \<and> outbufmode io' = outbufmode io"
proof -
  let ?p = "inbufpos io - 1"
  let ?io = "io\<lparr>inbufpos := ?p, inbuf := (inbuf io)[?p := c], inbuflen := inbuflen io + 1\<rparr>"
  have p: "?p < length (inbuf io)" "Suc ?p = inbufpos io" using assms by (auto simp: io_ok_def)
  then have "drop ?p ((inbuf io)[?p := c]) = c # drop (inbufpos io) (inbuf io)"
    by (metis drop_update_cancel length_list_update lessI nth_list_update_eq Cons_nth_drop_Suc)
  then have "window ?io = c # window io" by (simp add: window_def)
  moreover have "io_ungetc c (io, w) = Some (Ret True, ?io, w)" using assms(2) by (simp add: io_ungetc_def io_run)
  moreover have "io_ok ?io" using assms p by (simp add: io_ok_def)
  ultimately show ?thesis by (intro exI [of _ ?io]) simp
qed

context socket
begin

lemma fwrite_spec:
  assumes "good w" "io_ok io"
  shows "\<exists>io' w'. io_fwrite IO cs (io, w) = Some (Ret (length cs), io', w') \<and> io_ok io' \<and> same_input io io' \<and>
    buffered io' = [] \<and> sent w' = (sent w)(sock io := sent w (sock io) @ buffered io @ cs) \<and> rest w' = rest w \<and> good w'"
proof -
  obtain io1 w1 where f: "io_fflush IO (io, w) = Some (Ret 0, io1, w1)" "io_ok io1" "same_input io io1" "buffered io1 = []"
    "sent w1 = (sent w)(sock io := sent w (sock io) @ buffered io)" "rest w1 = rest w" "good w1"
    using fflush_spec [OF assms] by blast
  obtain n w' where w: "write_loop IO False cs (io1, w1) = Some (Ret (), io1\<lparr>outbufcount := n\<rparr>, w')"
    "sent w' = (sent w1)(sock io1 := sent w1 (sock io1) @ cs)" "rest w' = rest w1" "good w'"
    using write_loop_spec [OF f(7)] by blast
  have sk: "sock io1 = sock io" using f(3) by (simp add: same_input_def)
  have "io_fwrite IO cs (io, w) = Some (Ret (length cs), io1\<lparr>outbufcount := n\<rparr>, w')"
    using f(1) w(1) by (simp add: io_fwrite_def bindW_def retW_def)
  then show ?thesis
    using f w sk by (intro exI [of _ "io1\<lparr>outbufcount := n\<rparr>"] exI [of _ w']) (simp add: io_ok_def same_input_def buffered_def)
qed

lemma copy_fill_spec:
  assumes g: "good w" and ok: "io_ok f" and ff: "CHR 0xFF \<notin> set (unread rest f w)"
  shows "\<exists>f' w'. copy_fill IO \<lparr>from_io = f, to_io = t, cworld = w\<rparr> =
      Some (Ret (unread rest f w \<noteq> []), \<lparr>from_io = f', to_io = t, cworld = w'\<rparr>) \<and> io_ok f' \<and> good w' \<and>
    unread rest f' w' = unread rest f w \<and> only_input rest sent f w f' w' \<and> (unread rest f w \<noteq> [] \<longrightarrow> inbuflen f' > 0)"
proof (cases "inbuflen f = 0")
  case False
  then have "copy_fill IO \<lparr>from_io = f, to_io = t, cworld = w\<rparr> = Some (Ret True, \<lparr>from_io = f, to_io = t, cworld = w\<rparr>)"
    by (simp add: copy_fill_def io_run on_from_def)
  moreover have "unread rest f w \<noteq> []" using window_Cons(1) [OF ok] False by (simp add: unread_def)
  ultimately show ?thesis using g ok False by (intro exI [of _ f] exI [of _ w]) simp
next
  case True
  obtain f1 w1 where c: "io_ok f1" "good w1" "only_input rest sent f w f1 w1" "case unread rest f w of
       [] \<Rightarrow> io_fgetc IO (f, w) = Some (Ret (-1), f1, w1) \<and> unread rest f1 w1 = []
     | c # cs \<Rightarrow> io_fgetc IO (f, w) = Some (Ret (schar c), f1, w1) \<and> unread rest f1 w1 = cs \<and> inbufpos f1 > 0"
    using fgetc_spec [OF g ok] by blast
  show ?thesis
  proof (cases "unread rest f w")
    case Nil
    then have "copy_fill IO \<lparr>from_io = f, to_io = t, cworld = w\<rparr> = Some (Ret False, \<lparr>from_io = f1, to_io = t, cworld = w1\<rparr>)"
      using True c(4) by (simp add: copy_fill_def io_run on_from_def)
    then show ?thesis using c Nil by (intro exI [of _ f1] exI [of _ w1]) simp
  next
    case (Cons b cs)
    have g1: "io_fgetc IO (f, w) = Some (Ret (schar b), f1, w1)" "unread rest f1 w1 = cs" "inbufpos f1 > 0"
      using c(4) Cons by simp_all
    obtain f2 where u: "io_ungetc b (f1, w1) = Some (Ret True, f2, w1)" "io_ok f2" "window f2 = b # window f1"
      "sock f2 = sock f1" "io_pool f2 = io_pool f1" "outbuf f2 = outbuf f1" "outbufpos f2 = outbufpos f1" "outbufmode f2 = outbufmode f1"
      using ungetc_spec [OF c(1) g1(3), of b w1] by blast
    have "schar b \<noteq> -1" using ff Cons by (auto simp: schar_special)
    then have "copy_fill IO \<lparr>from_io = f, to_io = t, cworld = w\<rparr> = Some (Ret True, \<lparr>from_io = f2, to_io = t, cworld = w1\<rparr>)"
      using True g1(1) u(1) by (simp add: copy_fill_def bindW_def retW_def get_io_def on_from_def)
    moreover have "unread rest f2 w1 = b # cs" using u(3,4) g1(2) by (simp add: unread_def)
    moreover have "only_input rest sent f1 w1 f2 w1" using u by (simp add: only_input_def produced_def buffered_def)
    moreover have "inbuflen f2 > 0" using u(3) window_empty [of f2] by fastforce
    ultimately show ?thesis
      using c u(2) Cons only_input_trans [OF c(3)] by (intro exI [of _ f2] exI [of _ w1]) simp
  qed
qed

lemma copy_chunk_spec:
  assumes g: "good w" and ok: "io_ok f" "io_ok t" and ne: "sock f \<noteq> sock t"
    and n: "n = (if len = -1 \<or> len \<ge> int (inbuflen f) then inbuflen f else nat len)" and len: "len \<ge> -1"
  shows "\<exists>t' w'. copy_chunk IO len \<lparr>from_io = f, to_io = t, cworld = w\<rparr> =
      Some (Ret n, \<lparr>from_io = advance n f, to_io = t', cworld = w'\<rparr>) \<and> io_ok (advance n f) \<and> io_ok t' \<and> good w' \<and> same_input t t' \<and>
    unread rest f w = take n (unread rest f w) @ unread rest (advance n f) w' \<and>
    produced sent t' w' = produced sent t w @ take n (unread rest f w) \<and> buffered t' = [] \<and>
    rest w' = rest w \<and> (\<forall>u. u \<noteq> sock t \<longrightarrow> sent w' u = sent w u)"
proof -
  let ?cs = "take n (drop (inbufpos f) (inbuf f))"
  have le: "n \<le> inbuflen f" using n len by auto
  note adv = advance_spec [OF ok(1) le]
  have "length ?cs = n" using ok(1) le by (auto simp: io_ok_def)
  then have cs: "take n (unread rest f w) = ?cs" using adv(1) by (simp add: unread_def)
  obtain t' w' where r: "io_fwrite IO ?cs (t, w) = Some (Ret (length ?cs), t', w')" "io_ok t'" "same_input t t'"
    "buffered t' = []" "sent w' = (sent w)(sock t := sent w (sock t) @ buffered t @ ?cs)" "rest w' = rest w" "good w'"
    using fwrite_spec [OF g ok(2)] by blast
  have sk: "sock t' = sock t" using r(3) by (simp add: same_input_def)
  have "copy_chunk IO len \<lparr>from_io = f, to_io = t, cworld = w\<rparr> =
      Some (Ret n, \<lparr>from_io = advance n f, to_io = t', cworld = w'\<rparr>)"
    using n r(1) by (auto simp: copy_chunk_def io_run on_from_def on_to_def Let_def)
  moreover have "unread rest f w = ?cs @ unread rest (advance n f) w'"
    using adv(1) r(6) by (simp add: unread_def advance_def)
  ultimately show ?thesis
    unfolding cs using r adv(2) sk by (intro exI [of _ t'] exI [of _ w']) (simp add: produced_def)
qed

end

text \<open>The bytes that \<open>io_copy\<close> moves.\<close>

definition copied :: "int \<Rightarrow> string \<Rightarrow> string" where
  "copied len cs = (if len = -1 then cs else take (nat len) cs)"

lemma copied_Nil [simp]: "copied len [] = []" "copied 0 cs = []"
  by (simp_all add: copied_def)

lemma copied_split:
  assumes "len \<ge> -1" "len \<noteq> 0" "cs = take n cs @ ds" "n \<le> length cs" "len > 0 \<longrightarrow> int n \<le> len"
  shows "copied len cs = take n cs @ copied (if len > 0 then len - int n else len) ds"
proof (cases "len = -1")
  case True
  then show ?thesis using assms(3) by (simp add: copied_def)
next
  case False
  then have "len > 0" using assms by simp
  moreover have "ds = drop n cs" using assms(3) by (metis append_take_drop_id same_append_eq)
  moreover have "take (nat len) cs = take n cs @ take (nat len - n) (drop n cs)"
    using assms(5) \<open>len > 0\<close> by (metis append_take_drop_id le_add_diff_inverse nat_int nat_mono take_add)
  ultimately show ?thesis using assms(5) by (simp add: copied_def nat_diff_distrib)
qed

context socket
begin

text \<open>One round of the loop moves \<open>n\<close> bytes and leaves \<open>len'\<close> to move.\<close>

lemma copy_round:
  assumes g: "good w" and ok: "io_ok f" "io_ok t" "sock f \<noteq> sock t" "len \<ge> -1" "len \<noteq> 0" "CHR 0xFF \<notin> set (unread rest f w)"
    and ne: "unread rest f w \<noteq> []"
  obtains n len' f2 t2 w2 where "copy_loop IO len m \<lparr>from_io = f, to_io = t, cworld = w\<rparr> = copy_loop IO len' (m + n) \<lparr>from_io = f2, to_io = t2, cworld = w2\<rparr>"
    "io_ok f2" "io_ok t2" "good w2" "sock f2 = sock f" "sock t2 = sock t" "len' \<ge> -1" "produced sent f2 w2 = produced sent f w"
    "unread rest f w = take n (unread rest f w) @ unread rest f2 w2" "produced sent t2 w2 = produced sent t w @ take n (unread rest f w)"
    "n > 0" "n \<le> length (unread rest f w)" "copied len (unread rest f w) = take n (unread rest f w) @ copied len' (unread rest f2 w2)"
proof -
  obtain f1 w1 where f1: "copy_fill IO \<lparr>from_io = f, to_io = t, cworld = w\<rparr> = Some (Ret (unread rest f w \<noteq> []), \<lparr>from_io = f1, to_io = t, cworld = w1\<rparr>)"
    "io_ok f1" "good w1" "unread rest f1 w1 = unread rest f w" "only_input rest sent f w f1 w1" "unread rest f w \<noteq> [] \<longrightarrow> inbuflen f1 > 0"
    using copy_fill_spec [OF g ok(1,6)] by blast
  have keep: "sock f1 = sock f" "produced sent f1 w1 = produced sent f w" "produced sent t w1 = produced sent t w"
    using f1(5) ok(3) by (auto simp: only_input_def produced_def)
  let ?n = "if len = -1 \<or> len \<ge> int (inbuflen f1) then inbuflen f1 else nat len"
  let ?len = "if len > 0 then len - int ?n else len"
  have n: "?n > 0" "len > 0 \<longrightarrow> int ?n \<le> len" using f1(6) ne ok(4,5) by auto
  obtain t2 w2 where c: "copy_chunk IO len \<lparr>from_io = f1, to_io = t, cworld = w1\<rparr> =
      Some (Ret ?n, \<lparr>from_io = advance ?n f1, to_io = t2, cworld = w2\<rparr>)" "io_ok (advance ?n f1)" "io_ok t2" "good w2"
    "same_input t t2" "unread rest f1 w1 = take ?n (unread rest f1 w1) @ unread rest (advance ?n f1) w2"
    "produced sent t2 w2 = produced sent t w1 @ take ?n (unread rest f1 w1)" "\<forall>u. u \<noteq> sock t \<longrightarrow> sent w2 u = sent w1 u"
    using copy_chunk_spec [OF f1(3,2) ok(2) _ refl ok(4)] keep(1) ok(3) by metis
  have le: "?n \<le> length (unread rest f1 w1)" using f1(2) by (auto simp: unread_def window_def io_ok_def)
  have sks: "sock (advance ?n f1) = sock f" "sock t2 = sock t" "produced sent (advance ?n f1) w2 = produced sent f w"
    using keep c(5,8) ok(3) by (auto simp: advance_def same_input_def produced_def buffered_def)
  have "copy_loop IO len m \<lparr>from_io = f, to_io = t, cworld = w\<rparr> = copy_loop IO ?len (m + ?n) \<lparr>from_io = advance ?n f1, to_io = t2, cworld = w2\<rparr>"
    using ok(5) ne f1(1) c(1) by (subst copy_loop.simps) (simp add: bindW_def)
  moreover have "?len \<ge> -1" using ok(4) n by auto
  moreover have "copied len (unread rest f w) = take ?n (unread rest f w) @ copied ?len (unread rest (advance ?n f1) w2)"
    using copied_split [OF ok(4,5) c(6) le n(2)] f1(4) by simp
  moreover note c(2-4) sks n(1)
  moreover note c(6,7) [unfolded f1(4) keep(3)] le [unfolded f1(4)]
  ultimately show thesis using that by blast
qed

lemma copy_loop_spec:
  assumes "good w" "io_ok f" "io_ok t" "sock f \<noteq> sock t" "len \<ge> -1" "CHR 0xFF \<notin> set (unread rest f w)"
  shows "\<exists>f' t' w'. copy_loop IO len m \<lparr>from_io = f, to_io = t, cworld = w\<rparr> =
      Some (Ret (m + length (copied len (unread rest f w))), \<lparr>from_io = f', to_io = t', cworld = w'\<rparr>) \<and>
    io_ok f' \<and> io_ok t' \<and> good w' \<and>
    produced sent t' w' = produced sent t w @ copied len (unread rest f w) \<and>
    unread rest f w = copied len (unread rest f w) @ unread rest f' w' \<and> produced sent f' w' = produced sent f w"
  using assms
proof (induction "length (unread rest f w)" arbitrary: len m f t w rule: less_induct)
  case less
  note prem = less(2-)
  let ?s = "\<lparr>from_io = f, to_io = t, cworld = w\<rparr>"
  show ?case
  proof (cases "len = 0")
    case True
    then have "copy_loop IO len m ?s = Some (Ret m, ?s)" by (simp add: copy_loop.simps retW_def)
    then show ?thesis using prem True by (intro exI [of _ f] exI [of _ t] exI [of _ w]) simp
  next
    case len: False
    obtain f1 w1 where f1: "copy_fill IO ?s = Some (Ret (unread rest f w \<noteq> []), \<lparr>from_io = f1, to_io = t, cworld = w1\<rparr>)"
      "io_ok f1" "good w1" "unread rest f1 w1 = unread rest f w" "only_input rest sent f w f1 w1"
      "unread rest f w \<noteq> [] \<longrightarrow> inbuflen f1 > 0"
      using copy_fill_spec [OF prem(1,2,6)] by blast
    have keep: "sock f1 = sock f" "produced sent f1 w1 = produced sent f w" "produced sent t w1 = produced sent t w"
      using f1(5) prem(4) by (auto simp: only_input_def produced_def)
    show ?thesis
    proof (cases "unread rest f w = []")
      case True
      then have "copy_loop IO len m ?s = Some (Ret m, \<lparr>from_io = f1, to_io = t, cworld = w1\<rparr>)"
        using len f1(1) by (subst copy_loop.simps) (simp add: bindW_def retW_def)
      then show ?thesis using prem f1 keep True by (intro exI [of _ f1] exI [of _ t] exI [of _ w1]) simp
    next
      case ne: False
      obtain n len' f2 t2 w2 where r: "copy_loop IO len m ?s = copy_loop IO len' (m + n) \<lparr>from_io = f2, to_io = t2, cworld = w2\<rparr>"
        "io_ok f2" "io_ok t2" "good w2" "sock f2 = sock f" "sock t2 = sock t" "len' \<ge> -1" "produced sent f2 w2 = produced sent f w"
        "unread rest f w = take n (unread rest f w) @ unread rest f2 w2" "produced sent t2 w2 = produced sent t w @ take n (unread rest f w)"
        "n > 0" "n \<le> length (unread rest f w)" "copied len (unread rest f w) = take n (unread rest f w) @ copied len' (unread rest f2 w2)"
        by (rule copy_round [OF prem(1-5) len prem(6) ne])
      have "length (unread rest f2 w2) < length (unread rest f w)" using arg_cong [OF r(9), of length] r(11,12) by simp
      moreover have "CHR 0xFF \<notin> set (unread rest f2 w2)" using prem(6) arg_cong [OF r(9), of set] by auto
      moreover have "sock f2 \<noteq> sock t2" using r(5,6) prem(4) by simp
      ultimately obtain f' t' w' where IH: "copy_loop IO len' (m + n) \<lparr>from_io = f2, to_io = t2, cworld = w2\<rparr> =
          Some (Ret (m + n + length (copied len' (unread rest f2 w2))), \<lparr>from_io = f', to_io = t', cworld = w'\<rparr>)"
        "io_ok f'" "io_ok t'" "good w'" "produced sent t' w' = produced sent t2 w2 @ copied len' (unread rest f2 w2)"
        "unread rest f2 w2 = copied len' (unread rest f2 w2) @ unread rest f' w'" "produced sent f' w' = produced sent f2 w2"
        using less(1) [OF _ r(4,2,3) _ r(7)] by blast
      have "unread rest f w = (take n (unread rest f w) @ copied len' (unread rest f2 w2)) @ unread rest f' w'"
        using r(9) IH(6) by simp
      then show ?thesis
        unfolding r(1,13) using IH(1-5,7) r(8,10,12) by (intro exI [of _ f'] exI [of _ t'] exI [of _ w']) simp
    qed
  qed
qed

lemma copy_spec:
  assumes g: "good w" and ok: "io_ok f" "io_ok t" and ne: "sock f \<noteq> sock t" and len: "len \<ge> -1"
    and ff: "CHR 0xFF \<notin> set (unread rest f w)"
  shows "\<exists>f' t' w'. io_copy IO len \<lparr>from_io = f, to_io = t, cworld = w\<rparr> =
      Some (Ret (length (copied len (unread rest f w))), \<lparr>from_io = f', to_io = t', cworld = w'\<rparr>) \<and>
    io_ok f' \<and> io_ok t' \<and> good w' \<and>
    produced sent t' w' = produced sent t w @ copied len (unread rest f w) \<and>
    unread rest f w = copied len (unread rest f w) @ unread rest f' w' \<and> produced sent f' w' = produced sent f w"
proof -
  obtain f1 w1 where f: "io_fflush IO (f, w) = Some (Ret 0, f1, w1)" "io_ok f1" "good w1" "same_input f f1"
    "rest w1 = rest w" "only_input rest sent f w f1 w1" using fflush_only [OF g ok(1)] by blast
  have u: "unread rest f1 w1 = unread rest f w" "sock f1 = sock f"
    using f(4,5) same_input_window [OF f(4)] by (simp_all add: unread_def same_input_def)
  have keep: "produced sent f1 w1 = produced sent f w" "produced sent t w1 = produced sent t w"
    using f(6) ne by (auto simp: only_input_def produced_def)
  have "io_copy IO len \<lparr>from_io = f, to_io = t, cworld = w\<rparr> = copy_loop IO len 0 \<lparr>from_io = f1, to_io = t, cworld = w1\<rparr>"
    using f(1) by (simp add: io_copy_def bindW_def on_from_def)
  then show ?thesis
    using copy_loop_spec [OF f(3,2) ok(2) _ len, of 0] u ne ff keep by simp
qed

end

section \<open>The socket calls of a pseudothread\<close>

text \<open>The library calls \<open>pth_read\<close> and \<open>pth_write\<close>, which call the non-blocking \<open>read\<close> and \<open>write\<close>.\<close>

definition pth_io ::
  "('v, 'j, 'P, 'm, 'u) kernel \<Rightarrow> (int \<Rightarrow> nat \<Rightarrow> ('u, string) syscall) \<Rightarrow> (int \<Rightarrow> string \<Rightarrow> ('u, unit) syscall)
     \<Rightarrow> (int \<Rightarrow> ('u, unit) syscall) \<Rightarrow> ('v, 'j, 'P, 'm, 'u) world io_ops" where
  "pth_io K rd wr cl = \<lparr>io_rd = (\<lambda>s n. pth_read K s (rd s n)),
     io_wr = (\<lambda>s cs. bindW (pth_write K s (wr s cs)) (\<lambda>x. retW (fst x))),
     io_cl = (\<lambda>s. bindW (do_sys (cl s)) (\<lambda>x. retW (fst x)))\<rparr>"

text \<open>
  Facts about the threads and the pools that the scheduler keeps while thread \<open>t\<close> waits, such as that
  the pools of the thread are still there.
\<close>

definition local_to :: "(('v, 'j, 'P, 'm, 'u) world \<Rightarrow> bool) \<Rightarrow> bool" where
  "local_to Q \<longleftrightarrow> (\<forall>w w'. w_pths w' = w_pths w \<longrightarrow> r_pools (w_re w') = r_pools (w_re w) \<longrightarrow> Q w' = Q w)"

definition keeps :: "('v, 'j, 'P, 'm, 'u) kernel \<Rightarrow> tid \<Rightarrow> (('v, 'j, 'P, 'm, 'u) world \<Rightarrow> bool) \<Rightarrow> bool" where
  "keeps K t Q \<longleftrightarrow> (\<forall>w w'. k_switch K w = Some w' \<longrightarrow> runs t w \<longrightarrow> Q w \<longrightarrow> Q w')"

lemma local_toD: "local_to Q \<Longrightarrow> w_pths w' = w_pths w \<Longrightarrow> r_pools (w_re w') = r_pools (w_re w) \<Longrightarrow> Q w' = Q w"
  unfolding local_to_def by blast

lemma local_to_set_os: "local_to Q \<Longrightarrow> Q (set_os u w) = Q w"
  by (erule local_toD) (simp_all add: set_os_def)

text \<open>Facts of this kind that also depend on a part \<open>obs\<close> of the operating system's state.\<close>

definition observes :: "('u \<Rightarrow> 'o) \<Rightarrow> (('v, 'j, 'P, 'm, 'u) world \<Rightarrow> bool) \<Rightarrow> bool" where
  "observes obs Q \<longleftrightarrow> (\<forall>w w'. w_pths w' = w_pths w \<longrightarrow> r_pools (w_re w') = r_pools (w_re w) \<longrightarrow> obs (os w') = obs (os w) \<longrightarrow> Q w' = Q w)"

lemma observesD:
  "observes obs Q \<Longrightarrow> w_pths w' = w_pths w \<Longrightarrow> r_pools (w_re w') = r_pools (w_re w) \<Longrightarrow> obs (os w') = obs (os w) \<Longrightarrow> Q w' = Q w"
  unfolding observes_def by blast

lemma observes_set_os: "observes obs Q \<Longrightarrow> obs u = obs (os w) \<Longrightarrow> Q (set_os u w) = Q w"
  by (erule observesD) (simp_all add: set_os_def)

lemma observes_local: "local_to Q \<Longrightarrow> observes (\<lambda>_. ()) Q"
  unfolding local_to_def observes_def by blast

lemma observes_conj:
  assumes "local_to Q"
  shows "observes obs (\<lambda>w. Q w \<and> obs (os w) = v)"
  unfolding observes_def using local_toD [OF assms] by metis

text \<open>
  A thread \<open>t\<close> without a pending alarm on a connection without errors: calls that would block do
  so for at most \<open>busy\<close> rounds, and while the thread waits nothing is taken from its streams.
\<close>

locale connection =
  fixes K :: "('v, 'j, 'P, 'm, 'u) kernel" and t :: tid
    and rd :: "int \<Rightarrow> nat \<Rightarrow> ('u, string) syscall" and wr :: "int \<Rightarrow> string \<Rightarrow> ('u, unit) syscall"
    and cl :: "int \<Rightarrow> ('u, unit) syscall" and busy :: "'u \<Rightarrow> nat"
    and rest :: "'u \<Rightarrow> int \<Rightarrow> string" and sent :: "'u \<Rightarrow> int \<Rightarrow> string"
  assumes switches: "polite K"
    and switch_law: "k_switch K w = Some w' \<Longrightarrow> runs t w \<Longrightarrow>
      map_option alarm_received (w_pths w' t) = Some False \<and> rest (os w') = rest (os w) \<and> sent (os w') = sent (os w) \<and>
      (busy (os w) > 0 \<longrightarrow> busy (os w') < busy (os w))"
    and rd_again: "rd s n u = ((-1, EWOULDBLOCK, x), u') \<Longrightarrow>
      0 < busy u' \<and> busy u' \<le> busy u \<and> rest u' = rest u \<and> sent u' = sent u"
    and rd_done: "rd s n u = ((r, e, cs), u') \<Longrightarrow> \<not> (r = -1 \<and> e = EWOULDBLOCK) \<Longrightarrow> 0 < n \<Longrightarrow>
      r = int (length cs) \<and> length cs \<le> n \<and> rest u s = cs @ rest u' s \<and> (cs = [] \<longrightarrow> rest u s = []) \<and>
      (\<forall>v. v \<noteq> s \<longrightarrow> rest u' v = rest u v) \<and> sent u' = sent u"
    and wr_again: "wr s cs u = ((-1, EWOULDBLOCK, y), u') \<Longrightarrow>
      0 < busy u' \<and> busy u' \<le> busy u \<and> rest u' = rest u \<and> sent u' = sent u"
    and wr_done: "wr s cs u = ((r, e, y), u') \<Longrightarrow> \<not> (r = -1 \<and> e = EWOULDBLOCK) \<Longrightarrow> cs \<noteq> [] \<Longrightarrow>
      0 < r \<and> r \<le> int (length cs) \<and> sent u' = (sent u)(s := sent u s @ take (nat r) cs) \<and> rest u' = rest u"
begin

lemma block_observing:
  assumes "runs t w \<and> Q w" "0 < busy (os w)" "fits_short ops" "observes obs Q" "keeps K t Q"
  shows "\<exists>w'. block K s ops w = Some (Ret (), w') \<and> runs t w' \<and> Q w' \<and> busy (os w') < busy (os w) \<and>
    rest (os w') = rest (os w) \<and> sent (os w') = sent (os w)"
proof -
  have al: "\<forall>w1 ws. k_switch K w1 = Some ws \<longrightarrow> runs t w1 \<longrightarrow> map_option alarm_received (w_pths ws t) = Some False"
    using switch_law by blast
  obtain w' w1 ws where b: "block K s ops w = Some (Ret (), w')" "runs t w'" "runs t w1" "os w1 = os w"
    "k_switch K w1 = Some ws" "os w' = os ws" "w_pths w1 = w_pths w" "r_pools (w_re w1) = r_pools (w_re w)"
    "w_pths w' = w_pths ws" "r_pools (w_re w') = r_pools (w_re ws)"
    using block_runs [OF switches _ assms(3) al, of w s] assms(1) by blast
  have "Q w1" using observesD [OF assms(4) b(7,8)] b(4) assms(1) by simp
  then have "Q ws" using assms(5) b(3,5) by (auto simp: keeps_def)
  then have "Q w'" using observesD [OF assms(4) b(9,10)] b(6) by simp
  with switch_law [OF b(5,3)] show ?thesis using b assms(2) by (intro exI [of _ w']) simp
qed

lemma again_observing:
  assumes again: "\<forall>u x u'. f u = ((-1, EWOULDBLOCK, x), u') \<longrightarrow>
      0 < busy u' \<and> busy u' \<le> busy u \<and> rest u' = rest u \<and> sent u' = sent u"
    and ops: "fits_short ops" and w: "runs t w \<and> Q w" and Q: "observes obs Q" "keeps K t Q" "\<forall>u. obs (snd (f u)) = obs u"
  shows "\<exists>w1 r e x u. runs t w1 \<and> Q w1 \<and> rest (os w1) = rest (os w) \<and> sent (os w1) = sent (os w) \<and>
    f (os w1) = ((r, e, x), u) \<and> \<not> (r = -1 \<and> e = EWOULDBLOCK) \<and> again_loop K ops s f w = Some (Ret (r, x), set_os u w1)"
proof -
  let ?I = "\<lambda>w1 :: ('v, 'j, 'P, 'm, 'u) world. runs t w1 \<and> Q w1 \<and> rest (os w1) = rest (os w) \<and> sent (os w1) = sent (os w)"
  have step: "\<forall>w x u. ?I w \<longrightarrow> f (os w) = ((-1, EWOULDBLOCK, x), u) \<longrightarrow>
      (\<exists>w1. block K s ops (set_os u w) = Some (Ret (), w1) \<and> ?I w1 \<and> busy (os w1) < busy (os w))"
  proof (intro allI impI)
    fix w1 x u assume h: "?I w1" "f (os w1) = ((-1, EWOULDBLOCK, x), u)"
    have "obs u = obs (os w1)" using Q(3) [rule_format, of "os w1"] h(2) by simp
    then have "runs t (set_os u w1) \<and> Q (set_os u w1)" using h(1) observes_set_os [OF Q(1)] by (simp add: runs_def)
    from block_observing [OF this _ ops Q(1,2), of s] again [rule_format, OF h(2)] h(1)
    show "\<exists>w2. block K s ops (set_os u w1) = Some (Ret (), w2) \<and> ?I w2 \<and> busy (os w2) < busy (os w1)"
      by fastforce
  qed
  from again_loop_returns [OF step] w show ?thesis by blast
qed

lemma socket_observing:
  assumes Q: "observes obs Q" "keeps K t Q"
    and ob: "\<And>s n u. obs (snd (rd s n u)) = obs u" "\<And>s cs u. obs (snd (wr s cs u)) = obs u"
  shows "socket (pth_io K rd wr cl) (\<lambda>w. runs t w \<and> Q w) (\<lambda>w. rest (os w)) (\<lambda>w. sent (os w))"
proof
  fix w :: "('v, 'j, 'P, 'm, 'u) world" and n s assume w: "runs t w \<and> Q w" and n: "0 < (n :: nat)"
  have "fits_short REACTOR_READ" by (simp add: fits_short_def REACTOR_READ_def)
  from again_observing [of "rd s n", OF _ this w Q, of s] ob(1) [of s n] rd_again [of s n] obtain w1 r e cs u where a: "runs t w1" "rest (os w1) = rest (os w)"
    "sent (os w1) = sent (os w)" "rd s n (os w1) = ((r, e, cs), u)" "\<not> (r = -1 \<and> e = EWOULDBLOCK)"
    "again_loop K REACTOR_READ s (rd s n) w = Some (Ret (r, cs), set_os u w1)" "Q w1" by blast
  have "obs u = obs (os w1)" using ob(1) [of s n "os w1"] a(4) by simp
  then have q: "Q (set_os u w1)" using a(7) observes_set_os [OF Q(1)] by simp
  from rd_done [OF a(4,5) n] a q show "\<exists>cs w'. io_rd (pth_io K rd wr cl) s n w = Some (Ret (int (length cs), cs), w') \<and>
      length cs \<le> n \<and> rest (os w) s = cs @ rest (os w') s \<and> (cs = [] \<longrightarrow> rest (os w) s = []) \<and>
      (\<forall>t. t \<noteq> s \<longrightarrow> rest (os w') t = rest (os w) t) \<and> sent (os w') = sent (os w) \<and> runs t w' \<and> Q w'"
    by (intro exI [of _ cs] exI [of _ "set_os u w1"]) (auto simp: pth_io_def pth_read_def)
next
  fix w :: "('v, 'j, 'P, 'm, 'u) world" and cs s assume w: "runs t w \<and> Q w" and cs: "cs \<noteq> ([] :: string)"
  have "fits_short REACTOR_WRITE" by (simp add: fits_short_def REACTOR_WRITE_def)
  from again_observing [of "wr s cs", OF _ this w Q, of s] ob(2) [of s cs] wr_again [of s cs] obtain w1 r e y u where a: "runs t w1" "rest (os w1) = rest (os w)"
    "sent (os w1) = sent (os w)" "wr s cs (os w1) = ((r, e, y), u)" "\<not> (r = -1 \<and> e = EWOULDBLOCK)"
    "again_loop K REACTOR_WRITE s (wr s cs) w = Some (Ret (r, y), set_os u w1)" "Q w1" by blast
  have "obs u = obs (os w1)" using ob(2) [of s cs "os w1"] a(4) by simp
  then have q: "Q (set_os u w1)" using a(7) observes_set_os [OF Q(1)] by simp
  from wr_done [OF a(4,5) cs] a q show "\<exists>k w'. io_wr (pth_io K rd wr cl) s cs w = Some (Ret (int k), w') \<and>
      0 < k \<and> k \<le> length cs \<and> sent (os w') = (sent (os w))(s := sent (os w) s @ take k cs) \<and> rest (os w') = rest (os w) \<and>
      runs t w' \<and> Q w'"
    by (intro exI [of _ "nat r"] exI [of _ "set_os u w1"])
      (simp add: pth_io_def pth_write_def bindW_def retW_def nat_le_iff)
qed

lemmas socket_with = socket_observing [OF observes_local _ refl refl]

end

sublocale connection \<subseteq> pth_socket: socket "pth_io K rd wr cl" "runs t" "\<lambda>w. rest (os w)" "\<lambda>w. sent (os w)"
  using socket_with [of "\<lambda>_. True"] by (simp add: local_to_def keeps_def)

context connection
begin

lemma is_socket: "socket (pth_io K rd wr cl) (runs t) (\<lambda>w. rest (os w)) (\<lambda>w. sent (os w))"
  by (rule pth_socket.socket_axioms)

end

section \<open>A network\<close>

text \<open>
  An operating system that makes every call wait twice and delivers at most five bytes at a time. It
  knows which descriptors are open and holds one file.
\<close>

record net =
  n_in :: "int \<Rightarrow> string"
  n_out :: "int \<Rightarrow> string"
  n_lag :: nat
  n_open :: "int set"
  n_writing :: bool
  n_disk :: string

definition net_read :: "int \<Rightarrow> nat \<Rightarrow> (net, string) syscall" where
  "net_read s n u =
     (if n_lag u > 0 then ((-1, EWOULDBLOCK, []), u)
      else (let cs = take (min n 5) (n_in u s)
            in ((int (length cs), 0, cs), u\<lparr>n_in := (n_in u)(s := drop (min n 5) (n_in u s)), n_lag := 2\<rparr>)))"

definition net_write :: "int \<Rightarrow> string \<Rightarrow> (net, unit) syscall" where
  "net_write s cs u =
     (if n_lag u > 0 then ((-1, EWOULDBLOCK, ()), u)
      else ((int (min (length cs) 5), 0, ()), u\<lparr>n_out := (n_out u)(s := n_out u s @ take 5 cs), n_lag := 2\<rparr>))"

definition net_close :: "int \<Rightarrow> (net, unit) syscall" where
  "net_close s u = ((0, 0, ()), u\<lparr>n_open := n_open u - {s}\<rparr>)"

definition net_kernel :: "(tid option list, nat list, cpools, nat \<times> (addr \<rightharpoonup> int), net) kernel" where
  "net_kernel = \<lparr>k_threads = list_vec, k_jumps = list_vec, k_pools = cpool_ops, k_stack = bump_sys,
     k_cleanup = (\<lambda>_. Some), k_handle_junk = (\<lambda>_. \<lparr>offset = 9, hfn = Return_from_block, hdata = 0\<rparr>),
     k_pollfd_junk = (\<lambda>_. \<lparr>fd = 0, events = 0, revents = 4\<rparr>), k_timer_addr = (\<lambda>_. 4),
     k_timer_junk = \<lparr>tpool = 0, tprev = None, tnext = None, delta = 0, tfn = Return_from_block, tdata = 0\<rparr>,
     k_switch = (\<lambda>w. Some (set_os ((os w)\<lparr>n_lag := n_lag (os w) - 1\<rparr>) w)), k_run = (\<lambda>_. Some)\<rparr>"

lemma polite_net: "polite net_kernel"
  by (simp add: polite_def net_kernel_def)

interpretation net: connection net_kernel 7 net_read net_write net_close n_lag n_in n_out
proof
  show "polite net_kernel" by (rule polite_net)
next
  fix w w' assume "k_switch net_kernel w = Some w'" "runs 7 w"
  then show "map_option alarm_received (w_pths w' 7) = Some False \<and> n_in (os w') = n_in (os w) \<and> n_out (os w') = n_out (os w) \<and>
      (n_lag (os w) > 0 \<longrightarrow> n_lag (os w') < n_lag (os w))"
    by (auto simp: net_kernel_def runs_def)
next
  fix s n u x u' assume "net_read s n u = ((-1, EWOULDBLOCK, x), u')"
  then show "0 < n_lag u' \<and> n_lag u' \<le> n_lag u \<and> n_in u' = n_in u \<and> n_out u' = n_out u"
    by (auto simp: net_read_def Let_def split: if_splits)
next
  fix s u e cs u' and n :: nat and r :: int
  assume "net_read s n u = ((r, e, cs), u')" "\<not> (r = -1 \<and> e = EWOULDBLOCK)" "0 < n"
  then show "r = int (length cs) \<and> length cs \<le> n \<and> n_in u s = cs @ n_in u' s \<and> (cs = [] \<longrightarrow> n_in u s = []) \<and>
      (\<forall>v. v \<noteq> s \<longrightarrow> n_in u' v = n_in u v) \<and> n_out u' = n_out u"
    by (auto simp: net_read_def Let_def split: if_splits)
next
  fix s cs u y u' assume "net_write s cs u = ((-1, EWOULDBLOCK, y), u')"
  then show "0 < n_lag u' \<and> n_lag u' \<le> n_lag u \<and> n_in u' = n_in u \<and> n_out u' = n_out u"
    by (auto simp: net_write_def split: if_splits)
next
  fix s u e y u' and cs :: string and r :: int
  assume "net_write s cs u = ((r, e, y), u')" "\<not> (r = -1 \<and> e = EWOULDBLOCK)" "cs \<noteq> []"
  then show "0 < r \<and> r \<le> int (length cs) \<and> n_out u' = (n_out u)(s := n_out u s @ take (nat r) cs) \<and> n_in u' = n_in u"
    by (auto simp: net_write_def min_def split: if_splits)
qed

definition net_world :: "(int \<Rightarrow> string) \<Rightarrow> (tid option list, nat list, cpools, nat \<times> (addr \<rightharpoonup> int), net) world" where
  "net_world ins = \<lparr>w_re = \<lparr>r_table = empty_table, r_timers = empty_queue, head_prepoll = [], reactor_time = 1000,
       r_pools = demo_pools, r_user = \<lparr>n_in = ins, n_out = (\<lambda>_. []), n_lag = 1, n_open = {3}, n_writing = False, n_disk = []\<rparr>\<rparr>,
     w_pths = [7 \<mapsto> demo_pth], current_pth = Some 7, w_threads = [Some 7, None], default_stack_size = 65536,
     w_stacks = \<lparr>pending_stack_base = None, pending_stack_size = 0, memory = (6, [5 \<mapsto> 65536])\<rparr>, w_env = Map.empty\<rparr>"

definition fresh_handle :: "int \<Rightarrow> io_handle" where
  "fresh_handle s = fst (io_fdopen cpool_ops demo_pools 0 3 (replicate 1024 CHR 0x00) (replicate 1024 CHR 0x00) s)"

lemma net_world_ok: "runs 7 (net_world ins)" "os (net_world ins) = \<lparr>n_in = ins, n_out = (\<lambda>_. []), n_lag = 1, n_open = {3}, n_writing = False, n_disk = []\<rparr>"
  by (simp_all add: runs_def net_world_def demo_pth_def)

lemma io_fdopen_ok:
  assumes "length ib = IOLIB_INPUT_BUFFER_SIZE" "length ob = IOLIB_OUTPUT_BUFFER_SIZE" "io_fdopen PO P pp a ib ob s = (io, P')"
  shows "io_ok io" "window io = []" "buffered io = []" "sock io = s"
  using assms by (auto simp: io_fdopen_def io_ok_def window_def buffered_def split: prod.splits)

lemma fresh_handle_ok: "io_ok (fresh_handle s)" "window (fresh_handle s) = []" "buffered (fresh_handle s) = []"
  "sock (fresh_handle s) = s"
proof -
  obtain io P where "io_fdopen cpool_ops demo_pools 0 3 (replicate 1024 CHR 0x00) (replicate 1024 CHR 0x00) s = (io, P)" by fastforce
  then show "io_ok (fresh_handle s)" "window (fresh_handle s) = []" "buffered (fresh_handle s) = []" "sock (fresh_handle s) = s"
    using io_fdopen_ok [of "replicate 1024 CHR 0x00" "replicate 1024 CHR 0x00"]
    by (auto simp: fresh_handle_def IOLIB_INPUT_BUFFER_SIZE_def IOLIB_OUTPUT_BUFFER_SIZE_def)
qed

section \<open>Pipes to child processes\<close>

text \<open>
  A descriptor table maps descriptors to open files. \<open>io_popen\<close> gives, for the process it returns in
  (the parent or the child that \<open>fork\<close> made), the table at the end and the descriptor of the handle;
  \<open>None\<close> is an abort.
\<close>

datatype pipe_end = Pipe_out | Pipe_in | Other_file nat

type_synonym fd_table = "int \<rightharpoonup> pipe_end"

datatype popen_result = Popen_failed fd_table | Popen_parent int fd_table | Popen_child fd_table

definition close_fd :: "int \<Rightarrow> fd_table \<Rightarrow> fd_table" where
  "close_fd d t = t(d := None)"

definition dup_to :: "int \<Rightarrow> int \<Rightarrow> fd_table \<Rightarrow> fd_table" where
  "dup_to d n t = (if d \<noteq> n then close_fd d (t(n := t d)) else t)"

definition popen_mode :: "string \<Rightarrow> nat option" where
  "popen_mode typ = (if typ = ''r'' then Some 0 else if typ = ''w'' then Some 1 else None)"

definition io_popen ::
  "string \<Rightarrow> (int \<times> int \<times> fd_table) option \<Rightarrow> int \<Rightarrow> (int \<Rightarrow> bool) \<Rightarrow> fd_table \<Rightarrow> popen_result option" where
  "io_popen typ pipe fork nonblock t0 =
     do {
       mode \<leftarrow> popen_mode typ;
       case pipe of
         None \<Rightarrow> Some (Popen_failed t0)
       | Some (fd0, fd1, t) \<Rightarrow>
           if fork < 0 then Some (Popen_failed (close_fd fd1 (close_fd fd0 t)))
           else if fork > 0
           then (let (s, t1) = (if mode = 0 then (fd0, close_fd fd1 t) else (fd1, close_fd fd0 t))
                 in if nonblock s then Some (Popen_parent s t1) else None)
           else Some (Popen_child (if mode = 0 then dup_to fd1 1 (close_fd fd0 t) else dup_to fd0 0 (close_fd fd1 t)))
     }"

text \<open>The two ends that \<open>pipe\<close> opens are fresh descriptors.\<close>

definition pipe_ok :: "fd_table \<Rightarrow> (int \<times> int \<times> fd_table) option \<Rightarrow> bool" where
  "pipe_ok t0 pp \<longleftrightarrow> (case pp of None \<Rightarrow> True | Some (a, b, t) \<Rightarrow>
     a \<noteq> b \<and> t0 a = None \<and> t0 b = None \<and> t = t0(a \<mapsto> Pipe_out, b \<mapsto> Pipe_in))"

definition ends :: "pipe_end \<Rightarrow> fd_table \<Rightarrow> int set" where
  "ends e t = {d. t d = Some e}"

section \<open>Properties\<close>

abbreviation arriving :: "('u \<Rightarrow> int \<Rightarrow> string) \<Rightarrow> io_handle \<Rightarrow> ('v, 'j, 'P, 'm, 'u) world \<Rightarrow> string" where
  "arriving rest \<equiv> unread (\<lambda>w. rest (os w))"

abbreviation written :: "('u \<Rightarrow> int \<Rightarrow> string) \<Rightarrow> io_handle \<Rightarrow> ('v, 'j, 'P, 'm, 'u) world \<Rightarrow> string" where
  "written sent \<equiv> produced (\<lambda>w. sent (os w))"

lemma net_start:
  "arriving n_in (fresh_handle s) (net_world ins) = ins s" "written n_out (fresh_handle s) (net_world ins) = []"
  by (simp_all add: unread_def produced_def fresh_handle_ok net_world_ok)

text \<open>
  C17: \<open>io_fgets\<close> on a live connection always returns, whatever the sizes in which the network
  delivers: it gives the next line of the stream (at most \<open>n - 1\<close> bytes, without its end of line
  unless asked to keep it), null only at the end of the stream, consumes exactly that line and loses
  no pending output; for lines without the byte \<open>0xFF\<close>.
\<close>

theorem io_fgets_next_line:
  assumes "connection K t rd wr busy rest sent" "runs t w" "io_ok io" "CHR 0xFF \<notin> set (line_of (n - 1) (arriving rest io w))"
  shows "\<exists>io' w'. io_fgets (pth_io K rd wr cl) n eol (io, w) = Some (Ret
      (let l = line_of (n - 1) (arriving rest io w)
       in if line_eof (n - 1) (arriving rest io w) then (if l = [] then None else Some l)
          else Some (if eol then l else strip_eol l)), io', w') \<and>
    io_ok io' \<and> runs t w' \<and> only_input (\<lambda>w. rest (os w)) (\<lambda>w. sent (os w)) io w io' w' \<and>
    arriving rest io w = line_of (n - 1) (arriving rest io w) @ arriving rest io' w'"
  by (rule socket.fgets_spec [OF connection.is_socket [OF assms(1)] assms(2-4)])

theorem io_fgets_next_line_witness:
  "\<exists>io' w'. io_fgets (pth_io net_kernel net_read net_write net_close) 100 False
      (fresh_handle 3, net_world (\<lambda>_. ''GET / HTTP/1.0'' @ [CHR 0x0D, CHR 0x0A] @ ''rest'')) = Some (Ret (Some ''GET / HTTP/1.0''), io', w') \<and>
    arriving n_in io' w' = ''rest''"
proof -
  let ?in = "''GET / HTTP/1.0'' @ [CHR 0x0D, CHR 0x0A] @ ''rest''"
  have a: "arriving n_in (fresh_handle 3) (net_world (\<lambda>_. ?in)) = ?in" by (simp only: net_start)
  have l: "line_of 99 ?in = ''GET / HTTP/1.0'' @ [CHR 0x0D, CHR 0x0A]" "\<not> line_eof 99 ?in"
    "strip_eol (''GET / HTTP/1.0'' @ [CHR 0x0D, CHR 0x0A]) = ''GET / HTTP/1.0''"
    by code_simp+
  have "CHR 0xFF \<notin> set (line_of (100 - 1) (arriving n_in (fresh_handle 3) (net_world (\<lambda>_. ?in))))"
    unfolding a using l(1) by simp
  from io_fgets_next_line [OF net.connection_axioms net_world_ok(1) fresh_handle_ok(1) this, of net_close False]
  show ?thesis using a l by (auto simp: Let_def)
qed

text \<open>
  \<open>io_fread\<close> gives exactly the next \<open>n\<close> bytes of the stream, fewer only when the stream ends
  before, and leaves the rest unread; bytes that were read ahead into the buffer come first.
\<close>

theorem io_fread_exact:
  assumes "connection K t rd wr busy rest sent" "runs t w" "io_ok io"
  shows "\<exists>io' w'. io_fread (pth_io K rd wr cl) n (io, w) = Some (Ret (take n (arriving rest io w)), io', w') \<and>
    io_ok io' \<and> runs t w' \<and> only_input (\<lambda>w. rest (os w)) (\<lambda>w. sent (os w)) io w io' w' \<and>
    arriving rest io' w' = drop n (arriving rest io w)"
  by (rule socket.fread_spec [OF connection.is_socket [OF assms(1)] assms(2-3)])

theorem io_fread_exact_witness:
  "\<exists>io' w'. io_fread (pth_io net_kernel net_read net_write net_close) 8 (fresh_handle 3, net_world (\<lambda>_. ''0123456789'')) =
      Some (Ret ''01234567'', io', w') \<and> arriving n_in io' w' = ''89''"
  using io_fread_exact [OF net.connection_axioms net_world_ok(1) fresh_handle_ok(1), of net_close 8 3 "\<lambda>_. ''0123456789''"]
  unfolding net_start by auto

text \<open>
  whatever was in the output buffer and in whatever mode the handle is, \<open>io_fputs\<close> followed by
  \<open>io_fflush\<close> puts the buffered bytes and then the string on the wire, complete and in order, and
  leaves every other socket and the input alone.
\<close>

theorem io_fputs_flushed:
  assumes "connection K t rd wr busy rest sent" "runs t w" "io_ok io" "CHR 0x00 \<notin> set cs"
  shows "\<exists>io' w'. bindW (io_fputs (pth_io K rd wr cl) cs) (\<lambda>_. io_fflush (pth_io K rd wr cl)) (io, w) = Some (Ret 0, io', w') \<and>
    io_ok io' \<and> runs t w' \<and> sent (os w') = (sent (os w))(sock io := sent (os w) (sock io) @ buffered io @ cs) \<and>
    buffered io' = [] \<and> arriving rest io' w' = arriving rest io w"
proof -
  note S = connection.is_socket [OF assms(1), of cl]
  obtain io1 w1 where p: "io_fputs (pth_io K rd wr cl) cs (io, w) = Some (Ret 1, io1, w1)" "io_ok io1" "same_input io io1"
    "written sent io1 w1 = written sent io w @ cs" "\<forall>u. u \<noteq> sock io \<longrightarrow> sent (os w1) u = sent (os w) u"
    "rest (os w1) = rest (os w)" "runs t w1"
    using socket.fputs_spec [OF S assms(2-4)] by blast
  obtain io' w' where f: "io_fflush (pth_io K rd wr cl) (io1, w1) = Some (Ret 0, io', w')" "io_ok io'" "same_input io1 io'"
    "buffered io' = []" "sent (os w') = (sent (os w1))(sock io1 := sent (os w1) (sock io1) @ buffered io1)"
    "rest (os w') = rest (os w1)" "runs t w'"
    using socket.fflush_spec [OF S p(7,2)] by blast
  have sk: "sock io1 = sock io" using p(3) by (simp add: same_input_def)
  have "sent (os w') = (sent (os w))(sock io := sent (os w) (sock io) @ buffered io @ cs)"
    using p(4,5) f(5) sk by (auto simp: fun_eq_iff produced_def)
  moreover have "arriving rest io' w' = arriving rest io w"
    using same_input_trans [OF p(3) f(3)] same_input_window [of io io'] f(6) p(6) by (simp add: unread_def same_input_def)
  ultimately show ?thesis using p(1) f by (intro exI [of _ io'] exI [of _ w']) (simp add: bindW_def)
qed

theorem io_fputs_flushed_witness:
  "\<exists>io' w'. bindW (io_fputs (pth_io net_kernel net_read net_write net_close) ''hello, world'')
      (\<lambda>_. io_fflush (pth_io net_kernel net_read net_write net_close)) (fresh_handle 3, net_world (\<lambda>_. [])) = Some (Ret 0, io', w') \<and>
    n_out (os w') 3 = ''hello, world''"
  using io_fputs_flushed [OF net.connection_axioms net_world_ok(1) [of "\<lambda>_. []"] fresh_handle_ok(1) [of 3], of "''hello, world''" net_close]
  by (fastforce simp: fresh_handle_ok net_world_ok)

text \<open>
  \<open>io_copy\<close> between handles on different sockets moves the next \<open>len\<close> bytes of the stream
  (everything, for \<open>-1\<close>; as many as there are, if the stream is shorter) unchanged behind whatever
  the target has written, returns their number, and leaves the rest of the stream to be read; for
  streams without the byte \<open>0xFF\<close>.
\<close>

theorem io_copy_moves:
  assumes "connection K t rd wr busy rest sent" "runs t w" "io_ok f" "io_ok g" "sock f \<noteq> sock g" "len \<ge> -1"
    "CHR 0xFF \<notin> set (arriving rest f w)"
  shows "\<exists>f' g' w'. io_copy (pth_io K rd wr cl) len \<lparr>from_io = f, to_io = g, cworld = w\<rparr> =
      Some (Ret (length (copied len (arriving rest f w))), \<lparr>from_io = f', to_io = g', cworld = w'\<rparr>) \<and>
    io_ok f' \<and> io_ok g' \<and> runs t w' \<and>
    written sent g' w' = written sent g w @ copied len (arriving rest f w) \<and>
    arriving rest f w = copied len (arriving rest f w) @ arriving rest f' w' \<and> written sent f' w' = written sent f w"
  by (rule socket.copy_spec [OF connection.is_socket [OF assms(1)] assms(2-7)])

theorem io_copy_moves_witness:
  "\<exists>f' g' w'. io_copy (pth_io net_kernel net_read net_write net_close) 7
      \<lparr>from_io = fresh_handle 3, to_io = fresh_handle 4, cworld = net_world (\<lambda>_. ''0123456789'')\<rparr> =
      Some (Ret 7, \<lparr>from_io = f', to_io = g', cworld = w'\<rparr>) \<and>
    written n_out g' w' = ''0123456'' \<and> arriving n_in f' w' = ''789''"
proof -
  let ?w = "net_world (\<lambda>_. ''0123456789'')"
  have a: "arriving n_in (fresh_handle 3) ?w = ''0123456789''" "copied 7 ''0123456789'' = ''0123456''"
    by (simp_all add: net_start copied_def)
  have h: "sock (fresh_handle 3) \<noteq> sock (fresh_handle 4)" "(-1 :: int) \<le> 7"
    "CHR 0xFF \<notin> set (arriving n_in (fresh_handle 3) ?w)"
    unfolding a(1) by (simp_all add: fresh_handle_ok)
  from io_copy_moves [OF net.connection_axioms net_world_ok(1) fresh_handle_ok(1,1) h, of net_close]
  show ?thesis unfolding a by (auto simp: net_start)
qed

text \<open>
  C18: \<open>io_fprintf\<close> always reports the length of the formatted text, and writes all of it unless it is
  exactly 4096 bytes long: then the last byte is missing, because the check for truncation is
  \<open>r > n\<close> where \<open>vsnprintf\<close> already truncates at \<open>r = n\<close>.
\<close>

theorem io_fprintf_writes:
  assumes "connection K t rd wr busy rest sent" "runs t w" "io_ok io" "CHR 0x00 \<notin> set full"
  shows "\<exists>io' w'. io_fprintf (pth_io K rd wr cl) full (io, w) = Some (Ret (length full), io', w') \<and> io_ok io' \<and> runs t w' \<and>
    written sent io' w' = written sent io w @ (if length full = 4096 then take 4095 full else full)"
proof -
  note S = connection.is_socket [OF assms(1), of cl]
  let ?s = "if length full = 4096 then take 4095 full else full"
  have "CHR 0x00 \<notin> set ?s" using assms(4) in_set_takeD [of _ 4095 full] by auto
  from socket.fputs_spec [OF S assms(2,3) this]
  obtain io' w' where p: "io_fputs (pth_io K rd wr cl) ?s (io, w) = Some (Ret 1, io', w')" "io_ok io'" "runs t w'"
    "written sent io' w' = written sent io w @ ?s" by blast
  have "io_fprintf (pth_io K rd wr cl) full = bindW (io_fputs (pth_io K rd wr cl) ?s) (\<lambda>_. retW (length full))"
    by (auto simp: io_fprintf_def vsnprintf_def Let_def)
  then show ?thesis using p by (intro exI [of _ io'] exI [of _ w']) (simp add: bindW_def retW_def)
qed

theorem io_fprintf_writes_witness:
  "\<exists>io' w'. io_fprintf (pth_io net_kernel net_read net_write net_close) (replicate 4096 CHR ''x'') (fresh_handle 3, net_world (\<lambda>_. [])) =
      Some (Ret 4096, io', w') \<and> written n_out io' w' = replicate 4095 CHR ''x''"
proof -
  have z: "CHR 0x00 \<notin> set (replicate 4096 CHR ''x'')" by simp
  from io_fprintf_writes [OF net.connection_axioms net_world_ok(1) fresh_handle_ok(1) z, of net_close 3 "\<lambda>_. []"]
  show ?thesis by (auto simp: net_start)
qed

text \<open>
  \<open>io_fgetc\<close> reports the end of the file when the next byte is \<open>0xFF\<close>, since characters are
  signed and not converted: the byte is consumed, and a line that \<open>io_fgets\<close> is reading ends there.
\<close>

theorem io_fgetc_0xFF_is_eof:
  assumes "connection K t rd wr busy rest sent" "runs t w" "io_ok io" "arriving rest io w = CHR 0xFF # cs"
  shows "\<exists>io' w'. io_fgetc (pth_io K rd wr cl) (io, w) = Some (Ret (-1), io', w') \<and> arriving rest io' w' = cs"
proof -
  have "schar (CHR 0xFF) = -1" by (simp add: schar_special)
  then show ?thesis
    using socket.fgetc_spec [OF connection.is_socket [OF assms(1), of cl] assms(2,3)] assms(4) by fastforce
qed

theorem io_fgetc_0xFF_is_eof_witness:
  "\<exists>io' w'. io_fgetc (pth_io net_kernel net_read net_write net_close)
      (fresh_handle 3, net_world (\<lambda>_. CHR 0xFF # ''more'')) = Some (Ret (-1), io', w') \<and> arriving n_in io' w' = ''more''"
  by (rule io_fgetc_0xFF_is_eof [OF net.connection_axioms net_world_ok(1) fresh_handle_ok(1)]) (simp add: net_start)

text \<open>
  \<open>io_popen\<close>. When the pipe and the fork work, the parent keeps exactly one end of the pipe
  and the child has exactly the other one, as its standard output or input, so that the reader
  sees the end of the file when the writer is gone; a failing \<open>fork\<close> leaves no descriptor open.
\<close>

theorem io_popen_connects:
  assumes "pipe_ok t0 (Some (a, b, t))" "ends Pipe_out t0 = {}" "ends Pipe_in t0 = {}" "typ = ''r'' \<or> typ = ''w''" "nonblock = (\<lambda>_. True)"
  shows "\<exists>s p c. io_popen typ (Some (a, b, t)) 1 nonblock t0 = Some (Popen_parent s p) \<and>
      io_popen typ (Some (a, b, t)) 0 nonblock t0 = Some (Popen_child c) \<and>
      io_popen typ (Some (a, b, t)) (-1) nonblock t0 = Some (Popen_failed t0) \<and>
      (if typ = ''r''
       then ends Pipe_out p = {s} \<and> ends Pipe_in p = {} \<and> ends Pipe_out c = {} \<and> ends Pipe_in c = {1}
       else ends Pipe_in p = {s} \<and> ends Pipe_out p = {} \<and> ends Pipe_in c = {} \<and> ends Pipe_out c = {0})"
proof -
  have t: "a \<noteq> b" "t0 a = None" "t0 b = None" "t = t0(a \<mapsto> Pipe_out, b \<mapsto> Pipe_in)" "\<And>d. t0 d \<noteq> Some Pipe_out" "\<And>d. t0 d \<noteq> Some Pipe_in"
    using assms(1-3) by (auto simp: pipe_ok_def ends_def)
  have f: "close_fd b (close_fd a t) = t0" using t by (auto simp: close_fd_def fun_eq_iff)
  show ?thesis
    using assms(4,5) t f
    by (auto simp: io_popen_def popen_mode_def ends_def close_fd_def dup_to_def split: if_splits)
qed

theorem io_popen_connects_witness:
  "\<exists>s p c. io_popen ''r'' (Some (3, 4, [1 \<mapsto> Other_file 0, 3 \<mapsto> Pipe_out, 4 \<mapsto> Pipe_in])) 1 (\<lambda>_. True) [1 \<mapsto> Other_file 0] = Some (Popen_parent s p) \<and>
     io_popen ''r'' (Some (3, 4, [1 \<mapsto> Other_file 0, 3 \<mapsto> Pipe_out, 4 \<mapsto> Pipe_in])) 0 (\<lambda>_. True) [1 \<mapsto> Other_file 0] = Some (Popen_child c) \<and>
     ends Pipe_out p = {s} \<and> ends Pipe_in c = {1}"
proof -
  have "pipe_ok [1 \<mapsto> Other_file 0] (Some (3, 4, [1 \<mapsto> Other_file 0, 3 \<mapsto> Pipe_out, 4 \<mapsto> Pipe_in]))"
    "ends Pipe_out [1 \<mapsto> Other_file 0] = {}" "ends Pipe_in [1 \<mapsto> Other_file 0] = {}"
    by (auto simp: pipe_ok_def ends_def split: if_splits)
  from io_popen_connects [OF this, of "''r''"] show ?thesis by auto
qed

end
