(* ===== verification/Thread_IO.thy ===== *)
theory Thread_IO
  imports Iolib
begin

text \<open>
  Opening and closing of handles inside a thread (\<open>io_fdopen\<close>, \<open>io_fclose\<close> and \<open>io_pclose\<close> of
  \<open>src/src/pthr_iolib.c\<close> with the pools they work on). A handle lives in a subpool of the thread's pool; the
  cleanup of that subpool is \<open>_do_close\<close>, so deleting it flushes the handle and closes the socket.
  The locale \<open>thread_io\<close> is the interface that clients with several connections use.
\<close>

section \<open>Operations\<close>

text \<open>\<open>blk\<close> gives the address of the new handle and the indeterminate contents of its buffers.\<close>

definition open_handle ::
  "('v, 'j, 'P, 'm, 'u) kernel \<Rightarrow> ('u \<Rightarrow> addr \<times> string \<times> string) \<Rightarrow> int
     \<Rightarrow> (('v, 'j, 'P, 'm, 'u) world, io_handle) comp" where
  "open_handle K blk s w =
     (case cur w of
        None \<Rightarrow> None
      | Some p \<Rightarrow>
          (let (a, ib, ob) = blk (os w);
               (io, P) = io_fdopen (k_pools K) (r_pools (w_re w)) (pth_pool p) a ib ob s
           in Some (Ret io, w\<lparr>w_re := (w_re w)\<lparr>r_pools := P\<rparr>\<rparr>)))"

text \<open>
  Deleting the pool of a handle runs its cleanup \<open>_do_close\<close>, which may block, before the pool is
  gone; \<open>after_close\<close> are the other cleanups.
\<close>

definition after_close ::
  "('v, 'j, 'P, 'm, 'u) kernel \<Rightarrow> cleanup \<Rightarrow> ('P, 'u) pth_reactor \<Rightarrow> ('P, 'u) pth_reactor option" where
  "after_close K c re = (case c of Io_do_close _ \<Rightarrow> Some re | _ \<Rightarrow> k_cleanup K c re)"

definition io_fclose ::
  "('v, 'j, 'P, 'm, 'u) kernel \<Rightarrow> ('v, 'j, 'P, 'm, 'u) world io_ops \<Rightarrow> (('v, 'j, 'P, 'm, 'u) world, unit) io" where
  "io_fclose K IO =
     bindW get_io (\<lambda>io.
     bindW (io_do_close IO) (\<lambda>_.
     liftW (updW (\<lambda>w. map_option (\<lambda>re. w\<lparr>w_re := re\<rparr>)
       (do_delete_pool (k_pools K) (after_close K) (w_re w) (io_pool io))))))"

definition io_pclose ::
  "('v, 'j, 'P, 'm, 'u) kernel \<Rightarrow> ('v, 'j, 'P, 'm, 'u) world io_ops \<Rightarrow> ('u, unit) syscall
     \<Rightarrow> (('v, 'j, 'P, 'm, 'u) world, unit) io" where
  "io_pclose K IO wait = bindW (io_fclose K IO) (\<lambda>_. bindW (liftW (do_sys wait)) (\<lambda>_. retW ()))"

section \<open>Threads that own pools\<close>

lemma set_os_set_os [simp]: "set_os u (set_os v w) = set_os u w"
  by (simp add: set_os_def)

abbreviation pools_of :: "('v, 'j, 'P, 'm, 'u) world \<Rightarrow> 'P" where
  "pools_of w \<equiv> r_pools (w_re w)"

text \<open>The thread's pool is alive; the subpool \<open>q\<close> of an open handle is alive and has just its cleanup.\<close>

definition settled :: "('P \<Rightarrow> bool) \<Rightarrow> ('P \<Rightarrow> pool set) \<Rightarrow> tid \<Rightarrow> ('v, 'j, 'P, 'm, 'u) world \<Rightarrow> bool" where
  "settled pinv live t w \<longleftrightarrow> pinv (pools_of w) \<and> (\<exists>p. w_pths w t = Some p \<and> pth_pool p \<in> live (pools_of w))"

definition holds ::
  "('P \<Rightarrow> bool) \<Rightarrow> ('P \<Rightarrow> pool set) \<Rightarrow> ('P \<Rightarrow> pool \<Rightarrow> pool set) \<Rightarrow> ('P \<Rightarrow> pool \<Rightarrow> cleanup multiset) \<Rightarrow> tid \<Rightarrow> pool
     \<Rightarrow> ('v, 'j, 'P, 'm, 'u) world \<Rightarrow> bool" where
  "holds pinv live sub own t q w \<longleftrightarrow> settled pinv live t w \<and>
     (\<exists>p a. w_pths w t = Some p \<and> q \<in> sub (pools_of w) (pth_pool p) \<and> q \<noteq> pth_pool p \<and>
        single live sub own (pools_of w) q (Io_do_close a))"

lemma settled_local: "local_to (settled pinv live t)"
  by (simp add: local_to_def settled_def)

lemma holds_local: "local_to (holds pinv live sub own t q)"
  by (simp add: local_to_def settled_def holds_def)

text \<open>
  While thread \<open>t\<close> waits, other threads leave the pools below the thread's pool alone. Closing a
  socket succeeds and does not touch the streams of others.
\<close>

locale thread_io =
  connection K t rd wr cl busy rest sent + c2_pool "k_pools K" pinv live sub own
  for K :: "('v, 'j, 'P, 'm, 'u) kernel" and t :: tid
    and rd :: "int \<Rightarrow> nat \<Rightarrow> ('u, string) syscall" and wr :: "int \<Rightarrow> string \<Rightarrow> ('u, unit) syscall"
    and cl :: "int \<Rightarrow> ('u, unit) syscall" and busy :: "'u \<Rightarrow> nat"
    and rest :: "'u \<Rightarrow> int \<Rightarrow> string" and sent :: "'u \<Rightarrow> int \<Rightarrow> string"
    and pinv :: "'P \<Rightarrow> bool" and live :: "'P \<Rightarrow> pool set"
    and sub :: "'P \<Rightarrow> pool \<Rightarrow> pool set" and own :: "'P \<Rightarrow> pool \<Rightarrow> cleanup multiset" +
  fixes blk :: "'u \<Rightarrow> addr \<times> string \<times> string"
  assumes switch_pools: "k_switch K w = Some w' \<Longrightarrow> runs t w \<Longrightarrow> w_pths w t = Some p \<Longrightarrow> pinv (pools_of w) \<Longrightarrow>
      pinv (pools_of w') \<and> map_option pth_pool (w_pths w' t) = Some (pth_pool p) \<and>
      (\<forall>q \<in> sub (pools_of w) (pth_pool p). q \<in> live (pools_of w') \<and>
         sub (pools_of w') q = sub (pools_of w) q \<and> own (pools_of w') q = own (pools_of w) q)"
    and cl_law: "cl s u = ((r, e, x), u') \<Longrightarrow> 0 \<le> r \<and> rest u' = rest u \<and> sent u' = sent u"
    and blk_law: "blk u = (a, ib, ob) \<Longrightarrow> length ib = IOLIB_INPUT_BUFFER_SIZE \<and> length ob = IOLIB_OUTPUT_BUFFER_SIZE"
begin

lemma settled_keeps: "keeps K t (settled pinv live t)"
  unfolding keeps_def
proof (intro allI impI)
  fix w w' assume h: "k_switch K w = Some w'" "runs t w" "settled pinv live t w"
  then obtain p where p: "w_pths w t = Some p" "pth_pool p \<in> live (pools_of w)" "pinv (pools_of w)" by (auto simp: settled_def)
  have "pth_pool p \<in> sub (pools_of w) (pth_pool p)" using sub_live [OF p(3,2)] by simp
  with switch_pools [OF h(1,2) p(1,3)] show "settled pinv live t w'" by (auto simp: settled_def)
qed

lemma holds_keeps: "keeps K t (holds pinv live sub own t q)"
  unfolding keeps_def
proof (intro allI impI)
  fix w w' assume h: "k_switch K w = Some w'" "runs t w" "holds pinv live sub own t q w"
  then obtain p a where p: "w_pths w t = Some p" "pth_pool p \<in> live (pools_of w)" "pinv (pools_of w)"
    "q \<in> sub (pools_of w) (pth_pool p)" "q \<noteq> pth_pool p" "single live sub own (pools_of w) q (Io_do_close a)"
    by (auto simp: settled_def holds_def)
  have "pth_pool p \<in> sub (pools_of w) (pth_pool p)" using sub_live [OF p(3,2)] by simp
  with switch_pools [OF h(1,2) p(1,3)] p show "holds pinv live sub own t q w'" by (auto simp: settled_def holds_def single_def)
qed

lemma open_spec:
  assumes "runs t w" "settled pinv live t w"
  shows "\<exists>io w'. open_handle K blk s w = Some (Ret io, w') \<and> runs t w' \<and> os w' = os w \<and> w_env w' = w_env w \<and> holds pinv live sub own t (io_pool io) w' \<and>
    io_ok io \<and> window io = [] \<and> buffered io = [] \<and> sock io = s \<and> outbufmode io = IO_MODE_LINE_BUFFERED"
proof -
  obtain p where p: "w_pths w t = Some p" "pth_pool p \<in> live (pools_of w)" "pinv (pools_of w)"
    using assms(2) by (auto simp: settled_def)
  have c: "cur w = Some p" using assms(1) p(1) by (simp add: runs_def cur_def)
  obtain a ib ob where b: "blk (os w) = (a, ib, ob)" by (cases "blk (os w)") auto
  obtain q P1 where n: "new_subpool (k_pools K) (pools_of w) (pth_pool p) = (q, P1)" by fastforce
  let ?P = "register_cleanup_fn (k_pools K) P1 q (Io_do_close a)"
  obtain io where io: "io_fdopen (k_pools K) (pools_of w) (pth_pool p) a ib ob s = (io, ?P)" "io_pool io = q"
    "outbufmode io = IO_MODE_LINE_BUFFERED"
    using n by (simp add: io_fdopen_def)
  let ?w = "w\<lparr>w_re := (w_re w)\<lparr>r_pools := ?P\<rparr>\<rparr>"
  note ns = single_new [OF p(3,2) n] and nn = new_subpool [OF p(3,2) n]
  have "sub ?P (pth_pool p) = insert q (sub (pools_of w) (pth_pool p))"
    using register_cleanup [of P1 q "Io_do_close a"] nn p(2) sub_live [OF p(3,2)] by auto
  then have "holds pinv live sub own t q ?w" using p ns nn by (auto simp: holds_def settled_def)
  moreover have "open_handle K blk s w = Some (Ret io, ?w)" using c b io(1) by (simp add: open_handle_def)
  ultimately show ?thesis
    using io io_fdopen_ok [OF _ _ io(1)] blk_law [OF b] assms(1)
    by (intro exI [of _ io] exI [of _ ?w]) (auto simp: runs_def)
qed

lemma delete_spec:
  assumes "holds pinv live sub own t q w"
  shows "\<exists>P. do_delete_pool (k_pools K) (after_close K) (w_re w) q = Some ((w_re w)\<lparr>r_pools := P\<rparr>) \<and>
    settled pinv live t (w\<lparr>w_re := (w_re w)\<lparr>r_pools := P\<rparr>\<rparr>)"
proof -
  obtain p a where p: "w_pths w t = Some p" "pth_pool p \<in> live (pools_of w)" "pinv (pools_of w)" "q \<noteq> pth_pool p"
    "single live sub own (pools_of w) q (Io_do_close a)" using assms by (auto simp: settled_def holds_def)
  obtain cs P where d: "delete_pool (k_pools K) (pools_of w) q = (cs, P)" by fastforce
  note del = delete_single [OF p(3,5) d]
  have "do_delete_pool (k_pools K) (after_close K) (w_re w) q = Some ((w_re w)\<lparr>r_pools := P\<rparr>)"
    using d del(1) by (simp add: do_delete_pool_def run_cleanup_def after_close_def)
  then show ?thesis using p del(2,3) by (intro exI [of _ P]) (simp add: settled_def)
qed

lemma close_observing:
  assumes w: "runs t w" "holds pinv live sub own t (io_pool io) w" and ok: "io_ok io"
    and ob: "\<And>s n u. obs (snd (rd s n u)) = obs u" "\<And>s cs u. obs (snd (wr s cs u)) = obs u"
      "\<And>w w'. k_switch K w = Some w' \<Longrightarrow> runs t w \<Longrightarrow> obs (os w') = obs (os w)"
  shows "\<exists>io' w' v r e x. io_fclose K (pth_io K rd wr cl) (io, w) = Some (Ret (), io', w') \<and> runs t w' \<and> settled pinv live t w' \<and>
    rest (os w') = rest (os w) \<and> sent (os w') = (sent (os w))(sock io := written sent io w) \<and>
    obs v = obs (os w) \<and> cl (sock io) v = ((r, e, x), os w')"
proof -
  let ?IO = "pth_io K rd wr cl" and ?h = "holds pinv live sub own t (io_pool io)"
  let ?Q = "\<lambda>w1. ?h w1 \<and> obs (os w1) = obs (os w)"
  have keep: "keeps K t ?Q" using holds_keeps [of "io_pool io"] ob(3) by (auto simp: keeps_def)
  note soc = socket_observing [OF observes_conj [OF holds_local] keep ob(1,2)]
  have "\<exists>io1 w1. (if outbufpos io > 0 then io_flush ?IO True else retW ()) (io, w) = Some (Ret (), io1, w1) \<and> runs t w1 \<and> ?Q w1 \<and>
    rest (os w1) = rest (os w) \<and> sent (os w1) = (sent (os w))(sock io := written sent io w)"
  proof (cases "outbufpos io > 0")
    case True
    then show ?thesis
      using socket.flush_spec [OF soc _ ok, of w True] w
      by (auto simp: produced_def)
  next
    case False
    then show ?thesis using w by (auto simp: retW_def produced_def buffered_def)
  qed
  then obtain io1 w1 where f: "(if outbufpos io > 0 then io_flush ?IO True else retW ()) (io, w) = Some (Ret (), io1, w1)"
    "runs t w1" "?Q w1" "rest (os w1) = rest (os w)" "sent (os w1) = (sent (os w))(sock io := written sent io w)"
    by blast
  obtain r e x u where c: "cl (sock io) (os w1) = ((r, e, x), u)" by (metis prod.collapse)
  have d: "io_do_close ?IO (io, w) = Some (Ret (), io1, set_os u w1)"
  proof -
    have "liftW (io_cl ?IO (sock io)) (io1, w1) = Some (Ret r, io1, set_os u w1)"
      using c by (simp add: liftW_def pth_io_def do_sys_def bindW_def retW_def)
    moreover have "\<not> r < 0" using cl_law [OF c] by simp
    moreover have "get_io (io, w) = Some (Ret io, io, w)" by (simp add: get_io_def)
    ultimately show ?thesis
      unfolding io_do_close_def by (simp only: bindW_Ret f(1) if_False) (simp add: retW_def)
  qed
  have "?h (set_os u w1)" using f(3) local_to_set_os [OF holds_local, of pinv live sub own t "io_pool io" u w1] by simp
  then obtain P where P: "do_delete_pool (k_pools K) (after_close K) (w_re (set_os u w1)) (io_pool io) =
      Some ((w_re (set_os u w1))\<lparr>r_pools := P\<rparr>)"
    "settled pinv live t ((set_os u w1)\<lparr>w_re := (w_re (set_os u w1))\<lparr>r_pools := P\<rparr>\<rparr>)"
    using delete_spec by blast
  let ?w = "(set_os u w1)\<lparr>w_re := (w_re (set_os u w1))\<lparr>r_pools := P\<rparr>\<rparr>"
  have "io_fclose K ?IO (io, w) = Some (Ret (), io1, ?w)"
    using d P(1) by (simp add: io_fclose_def bindW_def get_io_def liftW_def updW_def)
  moreover have "runs t ?w" "os ?w = u" using f(2) by (simp_all add: runs_def)
  ultimately show ?thesis using P(2) f(4,5) cl_law [OF c] f(3) c
    by (intro exI [of _ io1] exI [of _ ?w] exI [of _ "os w1"] exI [of _ r] exI [of _ e] exI [of _ x]) simp
qed

lemma close_spec:
  assumes "runs t w" "holds pinv live sub own t (io_pool io) w" "io_ok io"
  shows "\<exists>io' w'. io_fclose K (pth_io K rd wr cl) (io, w) = Some (Ret (), io', w') \<and> runs t w' \<and> settled pinv live t w' \<and>
    rest (os w') = rest (os w) \<and> sent (os w') = (sent (os w))(sock io := written sent io w)"
  using close_observing [OF assms, of "\<lambda>_. ()"] by auto

end

section \<open>The network\<close>

definition net_block :: "net \<Rightarrow> addr \<times> string \<times> string" where
  "net_block u = (3, replicate 1024 NUL, replicate 1024 NUL)"

interpretation net_thread: thread_io net_kernel 7 net_read net_write net_close n_lag n_in n_out
  cpool_inv cpool_live "\<lambda>P p. set (cpool_under P p)" cpool_own net_block
proof -
  have k: "k_pools net_kernel = cpool_ops" by (simp add: net_kernel_def)
  have c2: "c2_pool (k_pools net_kernel) cpool_inv cpool_live (\<lambda>P p. set (cpool_under P p)) cpool_own"
    unfolding k by (rule cpool.c2_pool_axioms)
  show "thread_io net_kernel 7 net_read net_write net_close n_lag n_in n_out
    cpool_inv cpool_live (\<lambda>P p. set (cpool_under P p)) cpool_own net_block"
    by (intro thread_io.intro net.connection_axioms c2, unfold_locales)
      (auto simp: net_kernel_def net_close_def net_block_def set_os_def IOLIB_INPUT_BUFFER_SIZE_def
         IOLIB_OUTPUT_BUFFER_SIZE_def cpool_under_def cpool_live_def)
qed

lemma net_settled: "settled cpool_inv cpool_live 7 (net_world ins)"
  using demo_pools_inv by (simp add: settled_def net_world_def demo_pth_def cpool_live_def demo_pools_def)

end
