(* ===== verification/Ftpc.thy ===== *)
theory Ftpc
  imports Thread_IO
begin

text \<open>
  The FTP client (\<open>src/src/pthr_ftpc.c\<close>). A client object has a control connection, on which commands
  are written and replies are read, and opens a data connection for every transfer. A computation works
  on the object and the world of its thread. The system calls, name lookups and the local files are
  parameters (\<open>ftp_sys\<close>); messages on the standard error output are not modelled.
\<close>

section \<open>State\<close>

definition REPLY_BUFFER_SIZE :: nat where "REPLY_BUFFER_SIZE = 2048"

definition IS_1xx :: "int \<Rightarrow> bool" where "IS_1xx c \<longleftrightarrow> 100 \<le> c \<and> c \<le> 199"
definition IS_2xx :: "int \<Rightarrow> bool" where "IS_2xx c \<longleftrightarrow> 200 \<le> c \<and> c \<le> 299"
definition IS_3xx :: "int \<Rightarrow> bool" where "IS_3xx c \<longleftrightarrow> 300 \<le> c \<and> c \<le> 399"

text \<open>Addresses and ports are kept in host byte order.\<close>

record sockaddr_in =
  sin_addr :: "32 word"
  sin_port :: "16 word"

record ftpc =
  f_io :: io_handle
  f_port :: int
  passive_mode :: int
  verbose :: int
  f_addr :: sockaddr_in
  pasv_data_port :: int
  f_reply :: string
  f_server :: string
  f_username :: "string option"
  server_greeting :: string

text \<open>
  The system calls and library functions: the calls on sockets, \<open>gethostbyname\<close>, \<open>getservbyname\<close>, and
  \<open>fopen\<close>, \<open>fread\<close>, \<open>fwrite\<close> and \<open>fclose\<close> on local files. A null pointer is a negative result.
\<close>

record 'u ftp_sys =
  y_read :: "int \<Rightarrow> nat \<Rightarrow> ('u, string) syscall"
  y_write :: "int \<Rightarrow> string \<Rightarrow> ('u, unit) syscall"
  y_close :: "int \<Rightarrow> ('u, unit) syscall"
  y_socket :: "('u, unit) syscall"
  y_nonblock :: "int \<Rightarrow> ('u, unit) syscall"
  y_connect :: "int \<Rightarrow> sockaddr_in \<Rightarrow> ('u, unit) syscall"
  y_soerror :: "int \<Rightarrow> ('u, int) syscall"
  y_bind :: "int \<Rightarrow> sockaddr_in \<Rightarrow> ('u, unit) syscall"
  y_listen :: "int \<Rightarrow> nat \<Rightarrow> ('u, unit) syscall"
  y_getsockname :: "int \<Rightarrow> ('u, sockaddr_in) syscall"
  y_accept :: "int \<Rightarrow> ('u, sockaddr_in) syscall"
  y_gethostbyname :: "string \<Rightarrow> ('u, 32 word) syscall"
  y_getservbyname :: "string \<Rightarrow> string \<Rightarrow> ('u, 16 word) syscall"
  y_fopen :: "string \<Rightarrow> string \<Rightarrow> ('u, unit) syscall"
  y_fread :: "int \<Rightarrow> nat \<Rightarrow> ('u, string) syscall"
  y_fwrite :: "int \<Rightarrow> string \<Rightarrow> ('u, unit) syscall"
  y_fclose :: "int \<Rightarrow> ('u, unit) syscall"
  y_block :: "'u \<Rightarrow> addr \<times> string \<times> string"

type_synonym ('w, 'a) ftp = "(ftpc \<times> 'w, 'a) comp"

definition fio ::
  "('v, 'j, 'P, 'm, 'u) kernel \<Rightarrow> 'u ftp_sys \<Rightarrow> ('v, 'j, 'P, 'm, 'u) world io_ops" where
  "fio K Y = pth_io K (y_read Y) (y_write Y) (y_close Y)"

definition in_world :: "('w, 'a) comp \<Rightarrow> ('w, 'a) ftp" where
  "in_world m = (\<lambda>(f, w). map_option (\<lambda>(r, w1). (r, f, w1)) (m w))"

definition get_f :: "('w, ftpc) ftp" where
  "get_f = (\<lambda>(f, w). Some (Ret f, f, w))"

definition upd_f :: "(ftpc \<Rightarrow> ftpc) \<Rightarrow> ('w, unit) ftp" where
  "upd_f g = (\<lambda>(f, w). Some (Ret (), g f, w))"

text \<open>A computation on the control connection, and one on the handle of a data connection.\<close>

definition on_ctl :: "('w, 'a) io \<Rightarrow> ('w, 'a) ftp" where
  "on_ctl m = (\<lambda>(f, w). map_option (\<lambda>(r, io, w1). (r, f\<lparr>f_io := io\<rparr>, w1)) (m (f_io f, w)))"

definition on_data :: "io_handle \<Rightarrow> ('w, 'a) io \<Rightarrow> ('w, 'a \<times> io_handle) ftp" where
  "on_data io m = (\<lambda>(f, w). map_option (\<lambda>(r, io1, w1).
     (case r of Ret a \<Rightarrow> Ret (a, io1) | Exit_thread \<Rightarrow> Exit_thread | Jump j \<Rightarrow> Jump j, f, w1)) (m (io, w)))"

section \<open>Commands and replies\<close>

text \<open>A reply line has a code between 100 and 599 and a blank, or a dash when more lines follow.\<close>

definition bad_reply :: "string \<Rightarrow> bool" where
  "bad_reply r \<longleftrightarrow> length r < 4 \<or> \<not> between CHR ''1'' CHR ''5'' (r ! 0) \<or> \<not> isdigit (r ! 1) \<or> \<not> isdigit (r ! 2) \<or>
     (r ! 3 \<noteq> CHR '' '' \<and> r ! 3 \<noteq> CHR ''-'')"

definition reply_code :: "string \<Rightarrow> int" where
  "reply_code r = 100 * (schar (r ! 0) - 48) + 10 * (schar (r ! 1) - 48) + (schar (r ! 2) - 48)"

partial_function (option) eat_reply ::
  "('v, 'j, 'P, 'm, 'u) kernel \<Rightarrow> ('v, 'j, 'P, 'm, 'u) world io_ops \<Rightarrow> ftpc \<times> ('v, 'j, 'P, 'm, 'u) world
     \<Rightarrow> (int outcome \<times> ftpc \<times> ('v, 'j, 'P, 'm, 'u) world) option" where
  "eat_reply K IO s =
     bindW (on_ctl (io_fgets IO REPLY_BUFFER_SIZE False)) (\<lambda>l.
       if l = None then in_world (pth_die K ''server closed the connection unexpectedly'')
       else bindW (upd_f (\<lambda>f. f\<lparr>f_reply := c_str (the l)\<rparr>)) (\<lambda>_.
         if bad_reply (c_str (the l)) then in_world (pth_die K ''badly formatted reply from server'')
         else if c_str (the l) ! 3 = CHR '' '' then retW (reply_code (c_str (the l)))
         else eat_reply K IO)) s"

definition command_line :: "string \<Rightarrow> string option \<Rightarrow> string" where
  "command_line cmd arg = (case arg of None \<Rightarrow> cmd @ CRLF | Some a \<Rightarrow> cmd @ '' '' @ a @ CRLF)"

definition do_command ::
  "('v, 'j, 'P, 'm, 'u) kernel \<Rightarrow> ('v, 'j, 'P, 'm, 'u) world io_ops \<Rightarrow> string \<Rightarrow> string option
     \<Rightarrow> (('v, 'j, 'P, 'm, 'u) world, int) ftp" where
  "do_command K IO cmd arg =
     bindW (on_ctl (io_fprintf IO (command_line cmd arg))) (\<lambda>_. eat_reply K IO)"

section \<open>Connecting and logging in\<close>

text \<open>\<open>strrchr (server, ':')\<close>: the name and the text behind the last colon.\<close>

definition split_port :: "string \<Rightarrow> string \<times> string option" where
  "split_port server =
     (case split_chr CHR '':'' (rev server) of
        None \<Rightarrow> (server, None)
      | Some (p, n) \<Rightarrow> (rev n, Some (rev p)))"

definition find_port ::
  "'u ftp_sys \<Rightarrow> string option \<Rightarrow> (('v, 'j, 'P, 'm, 'u) world, int option) comp" where
  "find_port Y p =
     (case p of
        Some s \<Rightarrow> retW (scan_int s)
      | None \<Rightarrow> bindW (do_sys (y_getservbyname Y ''ftp'' ''tcp'')) (\<lambda>(r, e, port).
          retW (Some (if r \<ge> 0 then uint port else 21))))"

definition connect_to ::
  "('v, 'j, 'P, 'm, 'u) kernel \<Rightarrow> 'u ftp_sys \<Rightarrow> sockaddr_in \<Rightarrow> (('v, 'j, 'P, 'm, 'u) world, int option) comp" where
  "connect_to K Y a =
     bindW (do_sys (y_socket Y)) (\<lambda>(sock, e, _).
     if sock = -1 then retW None
     else bindW (do_sys (y_nonblock Y sock)) (\<lambda>(r, e, _).
       if r = -1 then retW None
       else bindW (pth_connect K sock (y_connect Y sock a) (y_soerror Y sock)) (\<lambda>(r, e).
         if r = -1 then retW None else retW (Some sock))))"

text \<open>\<open>None\<close> is the null pointer. The greeting is the text of the last line of the first reply.\<close>

definition new_ftpc ::
  "('v, 'j, 'P, 'm, 'u) kernel \<Rightarrow> 'u ftp_sys \<Rightarrow> string \<Rightarrow> (('v, 'j, 'P, 'm, 'u) world, ftpc option) comp" where
  "new_ftpc K Y server =
     (let (name, p) = split_port server
      in bindW (find_port Y p) (\<lambda>port. case port of None \<Rightarrow> retW None | Some port \<Rightarrow>
         bindW (do_sys (y_gethostbyname Y name)) (\<lambda>(r, e, host).
         if r < 0 then retW None
         else (let a = \<lparr>sin_addr = host, sin_port = word_of_int port\<rparr>
           in bindW (connect_to K Y a) (\<lambda>s. case s of None \<Rightarrow> retW None | Some s \<Rightarrow>
              bindW (open_handle K (y_block Y) s) (\<lambda>io w.
                (case eat_reply K (fio K Y)
                   (\<lparr>f_io = io, f_port = port, passive_mode = 0, verbose = 0, f_addr = a, pasv_data_port = 0, f_reply = [],
                     f_server = name, f_username = None, server_greeting = []\<rparr>, w) of
                   None \<Rightarrow> None
                 | Some (r, f, w1) \<Rightarrow>
                     (case r of
                        Ret code \<Rightarrow> Some (Ret (if IS_2xx code then Some (f\<lparr>server_greeting := drop 4 (f_reply f)\<rparr>) else None), w1)
                      | Exit_thread \<Rightarrow> Some (Exit_thread, w1)
                      | Jump j \<Rightarrow> Some (Jump j, w1)))))))))"

definition ftpc_set_passive_mode :: "int \<Rightarrow> ('w, int) ftp" where
  "ftpc_set_passive_mode flag = bindW (upd_f (\<lambda>f. f\<lparr>passive_mode := flag\<rparr>)) (\<lambda>_. retW flag)"

definition ftpc_set_verbose :: "int \<Rightarrow> ('w, int) ftp" where
  "ftpc_set_verbose flag = bindW (upd_f (\<lambda>f. f\<lparr>verbose := flag\<rparr>)) (\<lambda>_. retW flag)"

text \<open>The line that \<open>ftpc_perror\<close> prints.\<close>

definition ftpc_perror :: "ftpc \<Rightarrow> string \<Rightarrow> string" where
  "ftpc_perror f msg = msg @ '': '' @ f_reply f @ [LF]"

text \<open>The name and password that are sent; \<open>log\<close> is the environment variable \<open>LOGNAME\<close>.\<close>

definition credentials :: "string option \<Rightarrow> string option \<Rightarrow> string option \<Rightarrow> string \<times> string" where
  "credentials log username password =
     (if username = None \<or> username = Some ''ftp'' \<or> username = Some ''anonymous''
      then (case username of None \<Rightarrow> ''ftp'' | Some u \<Rightarrow> u,
            case password of Some p \<Rightarrow> p
              | None \<Rightarrow> (case log of None \<Rightarrow> ''nobody'' | Some l \<Rightarrow> l) @ ''@'')
      else (the username, case password of Some p \<Rightarrow> p | None \<Rightarrow> []))"

definition ftpc_login ::
  "('v, 'j, 'P, 'm, 'u) kernel \<Rightarrow> ('v, 'j, 'P, 'm, 'u) world io_ops \<Rightarrow> string option \<Rightarrow> string option
     \<Rightarrow> (('v, 'j, 'P, 'm, 'u) world, int) ftp" where
  "ftpc_login K IO username password =
     bindW (in_world (getW (\<lambda>w. Some (credentials (w_env w ''LOGNAME'') username password)))) (\<lambda>(user, pass).
     bindW (upd_f (\<lambda>f. f\<lparr>f_username := Some user\<rparr>)) (\<lambda>_.
     bindW (do_command K IO ''USER'' (Some user)) (\<lambda>code.
     if \<not> IS_3xx code then retW (-1)
     else bindW (do_command K IO ''PASS'' (Some pass)) (\<lambda>code.
     if \<not> IS_2xx code then retW (-1) else retW 0))))"

section \<open>Simple commands\<close>

definition simple_command ::
  "('v, 'j, 'P, 'm, 'u) kernel \<Rightarrow> ('v, 'j, 'P, 'm, 'u) world io_ops \<Rightarrow> string \<Rightarrow> string option
     \<Rightarrow> (('v, 'j, 'P, 'm, 'u) world, int) ftp" where
  "simple_command K IO cmd arg = bindW (do_command K IO cmd arg) (\<lambda>code. retW (if IS_2xx code then 0 else -1))"

definition ftpc_type where "ftpc_type K IO c = simple_command K IO ''TYPE'' (Some (c_str [c]))"
definition ftpc_ascii where "ftpc_ascii K IO = ftpc_type K IO CHR ''a''"
definition ftpc_binary where "ftpc_binary K IO = ftpc_type K IO CHR ''i''"
definition ftpc_cwd where "ftpc_cwd K IO path = simple_command K IO ''CWD'' (Some path)"
definition ftpc_cdup where "ftpc_cdup K IO = simple_command K IO ''CDUP'' None"
definition ftpc_mkdir where "ftpc_mkdir K IO path = simple_command K IO ''MKD'' (Some path)"
definition ftpc_rmdir where "ftpc_rmdir K IO path = simple_command K IO ''RMD'' (Some path)"
definition ftpc_delete where "ftpc_delete K IO path = simple_command K IO ''DELE'' (Some path)"
definition ftpc_quote where "ftpc_quote K IO cmd = simple_command K IO cmd None"

definition strip_quotes :: "string \<Rightarrow> string" where
  "strip_quotes p =
     (if length p \<ge> 2 \<and> hd p = CHR 0x22 \<and> last p = CHR 0x22 then tl (butlast p) else p)"

definition ftpc_pwd ::
  "('v, 'j, 'P, 'm, 'u) kernel \<Rightarrow> ('v, 'j, 'P, 'm, 'u) world io_ops \<Rightarrow> (('v, 'j, 'P, 'm, 'u) world, string option) ftp" where
  "ftpc_pwd K IO =
     bindW (do_command K IO ''PWD'' None) (\<lambda>code.
     if \<not> IS_2xx code then retW None
     else bindW get_f (\<lambda>f. retW (Some (strip_quotes (drop 4 (f_reply f))))))"

definition ftpc_quit ::
  "('v, 'j, 'P, 'm, 'u) kernel \<Rightarrow> ('v, 'j, 'P, 'm, 'u) world io_ops \<Rightarrow> (('v, 'j, 'P, 'm, 'u) world, int) ftp" where
  "ftpc_quit K IO =
     bindW (do_command K IO ''QUIT'' None) (\<lambda>code.
     bindW (on_ctl (io_fclose K IO)) (\<lambda>_. retW (if IS_2xx code then 0 else -1)))"

section \<open>Data connections\<close>

text \<open>
  \<open>sscanf (s, " %d , %d , ...")\<close> with \<open>n\<close> conversions: the numbers converted before the first
  mismatch. \<open>scan_rest\<close> is the text behind a number that \<open>scan_int\<close> has read.
\<close>

definition scan_rest :: "string \<Rightarrow> string" where
  "scan_rest s =
     (let s1 = dropWhile isspace s
      in dropWhile isdigit (if s1 \<noteq> [] \<and> (hd s1 = CHR ''-'' \<or> hd s1 = CHR ''+'') then tl s1 else s1))"

fun scan_list :: "nat \<Rightarrow> string \<Rightarrow> int list" where
  "scan_list 0 s = []"
| "scan_list (Suc n) s =
     (case scan_int s of
        None \<Rightarrow> []
      | Some v \<Rightarrow>
          v # (let r = dropWhile isspace (scan_rest s)
               in if r \<noteq> [] \<and> hd r = CHR '','' then scan_list n (tl r) else []))"

text \<open>The port number in the reply to \<open>PASV\<close>.\<close>

definition pasv_port :: "string \<Rightarrow> int option" where
  "pasv_port reply =
     (let t = dropWhile (\<lambda>c. c \<noteq> CHR ''('') (drop 4 reply)
      in if t = [] then None
         else (case scan_list 6 (tl t) of
                 [a1, a2, a3, a4, p1, p2] \<Rightarrow> Some (c_int (p1 * 256 + p2))
               | _ \<Rightarrow> None))"

text \<open>The argument of \<open>PORT\<close>.\<close>

definition port_arg :: "32 word \<Rightarrow> 16 word \<Rightarrow> string" where
  "port_arg a p =
     join CHR '','' (map (\<lambda>x. dec (unat x))
       [and (drop_bit 24 a) 0xff, and (drop_bit 16 a) 0xff, and (drop_bit 8 a) 0xff, and a 0xff,
        ucast p div 256, ucast p mod 256])"

definition close_sock :: "'u ftp_sys \<Rightarrow> int \<Rightarrow> (('v, 'j, 'P, 'm, 'u) world, unit) ftp" where
  "close_sock Y s = bindW (in_world (do_sys (y_close Y s))) (\<lambda>_. retW ())"

definition sys_call :: "('u, 'x) syscall \<Rightarrow> (('v, 'j, 'P, 'm, 'u) world, int \<times> 'x) ftp" where
  "sys_call f = bindW (in_world (do_sys f)) (\<lambda>(r, e, x). retW (r, x))"

text \<open>The two halves of \<open>issue_port_or_pasv\<close>, with the data socket that has been created.\<close>

definition issue_pasv ::
  "('v, 'j, 'P, 'm, 'u) kernel \<Rightarrow> 'u ftp_sys \<Rightarrow> int \<Rightarrow> (('v, 'j, 'P, 'm, 'u) world, int) ftp" where
  "issue_pasv K Y data_sock =
     bindW (do_command K (fio K Y) ''PASV'' None) (\<lambda>code.
     if \<not> IS_2xx code then retW (-1)
     else bindW get_f (\<lambda>f.
       case pasv_port (f_reply f) of
         None \<Rightarrow> bindW (close_sock Y data_sock) (\<lambda>_. retW (-1))
       | Some p \<Rightarrow> bindW (upd_f (\<lambda>f. f\<lparr>pasv_data_port := p\<rparr>)) (\<lambda>_. retW data_sock)))"

definition issue_port ::
  "('v, 'j, 'P, 'm, 'u) kernel \<Rightarrow> 'u ftp_sys \<Rightarrow> int \<Rightarrow> (('v, 'j, 'P, 'm, 'u) world, int) ftp" where
  "issue_port K Y data_sock =
     bindW (sys_call (y_bind Y data_sock \<lparr>sin_addr = 0, sin_port = 0\<rparr>)) (\<lambda>(r, _).
     if r = -1 then bindW (close_sock Y data_sock) (\<lambda>_. retW (-1))
     else bindW (sys_call (y_listen Y data_sock 1)) (\<lambda>(r, _).
     if r = -1 then bindW (close_sock Y data_sock) (\<lambda>_. retW (-1))
     else bindW (sys_call (y_getsockname Y data_sock)) (\<lambda>(r, addr).
     if r = -1 then bindW (close_sock Y data_sock) (\<lambda>_. retW (-1))
     else bindW get_f (\<lambda>f.
       bindW (do_command K (fio K Y) ''PORT'' (Some (port_arg (sin_addr (f_addr f)) (sin_port addr)))) (\<lambda>code.
       retW (if \<not> IS_2xx code then -1 else data_sock))))))"

definition issue_port_or_pasv ::
  "('v, 'j, 'P, 'm, 'u) kernel \<Rightarrow> 'u ftp_sys \<Rightarrow> (('v, 'j, 'P, 'm, 'u) world, int) ftp" where
  "issue_port_or_pasv K Y =
     bindW (sys_call (y_socket Y)) (\<lambda>(data_sock, _).
     if data_sock = -1 then retW (-1)
     else bindW (sys_call (y_nonblock Y data_sock)) (\<lambda>(r, _).
       if r = -1 then (\<lambda>_. None)
       else bindW get_f (\<lambda>f.
         if passive_mode f \<noteq> 0 then issue_pasv K Y data_sock else issue_port K Y data_sock)))"

text \<open>\<open>htons\<close> takes the low 16 bits of the port number.\<close>

definition open_data_passive ::
  "('v, 'j, 'P, 'm, 'u) kernel \<Rightarrow> 'u ftp_sys \<Rightarrow> int \<Rightarrow> (('v, 'j, 'P, 'm, 'u) world, io_handle option) ftp" where
  "open_data_passive K Y data_sock =
     bindW (upd_f (\<lambda>f. f\<lparr>f_addr := (f_addr f)\<lparr>sin_port := word_of_int (pasv_data_port f)\<rparr>\<rparr>)) (\<lambda>_.
     bindW get_f (\<lambda>f.
     bindW (in_world (pth_connect K data_sock (y_connect Y data_sock (f_addr f)) (y_soerror Y data_sock))) (\<lambda>(r, _).
     if r = -1 then bindW (close_sock Y data_sock) (\<lambda>_. retW None)
     else bindW (in_world (open_handle K (y_block Y) data_sock)) (\<lambda>io. retW (Some io)))))"

definition open_data_active ::
  "('v, 'j, 'P, 'm, 'u) kernel \<Rightarrow> 'u ftp_sys \<Rightarrow> int \<Rightarrow> (('v, 'j, 'P, 'm, 'u) world, io_handle option) ftp" where
  "open_data_active K Y data_sock =
     bindW (in_world (pth_accept K data_sock (y_accept Y data_sock))) (\<lambda>(s, addr).
     if s = -1 then bindW (close_sock Y data_sock) (\<lambda>_. retW None)
     else bindW (close_sock Y data_sock) (\<lambda>_.
       bindW get_f (\<lambda>f.
       if sin_addr addr \<noteq> sin_addr (f_addr f) then retW None
       else bindW (in_world (open_handle K (y_block Y) s)) (\<lambda>io. retW (Some io)))))"

definition open_data ::
  "('v, 'j, 'P, 'm, 'u) kernel \<Rightarrow> 'u ftp_sys \<Rightarrow> int \<Rightarrow> (('v, 'j, 'P, 'm, 'u) world, io_handle option) ftp" where
  "open_data K Y data_sock =
     bindW get_f (\<lambda>f. if passive_mode f \<noteq> 0 then open_data_passive K Y data_sock else open_data_active K Y data_sock)"

section \<open>Transfers\<close>

text \<open>The lines of a directory listing; every line passes through the reply buffer.\<close>

partial_function (option) list_loop ::
  "('v, 'j, 'P, 'm, 'u) world io_ops \<Rightarrow> ('s, string) vec_ops \<Rightarrow> io_handle \<Rightarrow> 's \<Rightarrow> ftpc \<times> ('v, 'j, 'P, 'm, 'u) world
     \<Rightarrow> ((io_handle \<times> 's) outcome \<times> ftpc \<times> ('v, 'j, 'P, 'm, 'u) world) option" where
  "list_loop IO V io v s =
     bindW (on_data io (io_fgets IO REPLY_BUFFER_SIZE False)) (\<lambda>x.
       if fst x = None then retW (snd x, v)
       else bindW (upd_f (\<lambda>f. f\<lparr>f_reply := c_str (the (fst x))\<rparr>)) (\<lambda>_.
            list_loop IO V (snd x) (vec_push_back V v (c_str (the (fst x)))))) s"

definition ftpc_list ::
  "('v, 'j, 'P, 'm, 'u) kernel \<Rightarrow> 'u ftp_sys \<Rightarrow> ('s, string) vec_ops \<Rightarrow> string \<Rightarrow> string option
     \<Rightarrow> (('v, 'j, 'P, 'm, 'u) world, 's option) ftp" where
  "ftpc_list K Y V cmd pathname =
     bindW (issue_port_or_pasv K Y) (\<lambda>data_sock.
     if data_sock = -1 then retW None
     else bindW (do_command K (fio K Y) cmd pathname) (\<lambda>code.
       if \<not> IS_1xx code then bindW (close_sock Y data_sock) (\<lambda>_. retW None)
       else bindW (open_data K Y data_sock) (\<lambda>io.
         case io of
           None \<Rightarrow> retW None
         | Some io \<Rightarrow>
             bindW (list_loop (fio K Y) V io (vec_new V)) (\<lambda>(io, v).
             bindW (on_data io (io_fclose K (fio K Y))) (\<lambda>_.
             bindW (eat_reply K (fio K Y)) (\<lambda>code. retW (if IS_2xx code then Some v else None)))))))"

definition ftpc_ls where "ftpc_ls K Y V pathname = ftpc_list K Y V ''NLST -a'' pathname"
definition ftpc_dir where "ftpc_dir K Y V pathname = ftpc_list K Y V ''LIST -a'' pathname"

text \<open>The loop that copies the data connection to the local file; the result says whether all was written.\<close>

partial_function (option) get_loop ::
  "('v, 'j, 'P, 'm, 'u) world io_ops \<Rightarrow> 'u ftp_sys \<Rightarrow> int \<Rightarrow> io_handle \<Rightarrow> ftpc \<times> ('v, 'j, 'P, 'm, 'u) world
     \<Rightarrow> ((bool \<times> io_handle) outcome \<times> ftpc \<times> ('v, 'j, 'P, 'm, 'u) world) option" where
  "get_loop IO Y fp io s =
     bindW (on_data io (io_fread IO 1024)) (\<lambda>x.
       if fst x = [] then retW (True, snd x)
       else bindW (sys_call (y_fwrite Y fp (fst x))) (\<lambda>y.
            if fst y \<noteq> int (length (fst x)) then retW (False, snd x) else get_loop IO Y fp (snd x))) s"

partial_function (option) put_loop ::
  "('v, 'j, 'P, 'm, 'u) world io_ops \<Rightarrow> 'u ftp_sys \<Rightarrow> int \<Rightarrow> io_handle \<Rightarrow> ftpc \<times> ('v, 'j, 'P, 'm, 'u) world
     \<Rightarrow> ((bool \<times> io_handle) outcome \<times> ftpc \<times> ('v, 'j, 'P, 'm, 'u) world) option" where
  "put_loop IO Y fp io s =
     bindW (sys_call (y_fread Y fp 1024)) (\<lambda>x.
       if fst x \<le> 0 then retW (True, io)
       else bindW (on_data io (io_fwrite IO (snd x))) (\<lambda>y.
            if int (fst y) \<noteq> fst x then retW (False, snd y) else put_loop IO Y fp (snd y))) s"

text \<open>
  \<open>ftpc_get\<close> and \<open>ftpc_put\<close>, which differ in the command, in how the local file is opened and in the
  loop.
\<close>

definition transfer ::
  "('v, 'j, 'P, 'm, 'u) kernel \<Rightarrow> 'u ftp_sys \<Rightarrow> string \<Rightarrow> string \<Rightarrow> string \<Rightarrow> string
     \<Rightarrow> (int \<Rightarrow> io_handle \<Rightarrow> (('v, 'j, 'P, 'm, 'u) world, bool \<times> io_handle) ftp) \<Rightarrow> (('v, 'j, 'P, 'm, 'u) world, int) ftp" where
  "transfer K Y cmd remote_file local_file mode loop =
     bindW (issue_port_or_pasv K Y) (\<lambda>data_sock.
     if data_sock = -1 then retW (-1)
     else bindW (do_command K (fio K Y) cmd (Some remote_file)) (\<lambda>code.
       if \<not> IS_1xx code then bindW (close_sock Y data_sock) (\<lambda>_. retW (-1))
       else bindW (sys_call (y_fopen Y local_file mode)) (\<lambda>(fp, _).
         if fp < 0 then retW (-1)
         else bindW (open_data K Y data_sock) (\<lambda>io.
           case io of
             None \<Rightarrow> retW (-1)
           | Some io \<Rightarrow>
               bindW (loop fp io) (\<lambda>(ok, io).
               bindW (sys_call (y_fclose Y fp)) (\<lambda>_.
               bindW (on_data io (io_fclose K (fio K Y))) (\<lambda>_.
               if \<not> ok then retW (-1)
               else bindW (eat_reply K (fio K Y)) (\<lambda>code. retW (if IS_2xx code then 0 else -1)))))))))"

definition ftpc_get where
  "ftpc_get K Y remote_file local_file =
     transfer K Y ''RETR'' remote_file local_file ''w'' (\<lambda>fp io. get_loop (fio K Y) Y fp io)"

definition ftpc_put where
  "ftpc_put K Y local_file remote_file =
     transfer K Y ''STOR'' remote_file local_file ''r'' (\<lambda>fp io. put_loop (fio K Y) Y fp io)"

section \<open>The control connection\<close>

text \<open>A reply as the server sends it: lines \<open>ls\<close> with a dash behind the code, then the last line \<open>l\<close>.\<close>

definition reply_line :: "string \<Rightarrow> bool" where
  "reply_line l \<longleftrightarrow> \<not> bad_reply l \<and> set l \<inter> {NUL, CR, LF, CHR 0xFF} = {} \<and> length l + 2 < REPLY_BUFFER_SIZE"

definition reply_ok :: "string list \<Rightarrow> string \<Rightarrow> bool" where
  "reply_ok ls l \<longleftrightarrow> list_all (\<lambda>x. reply_line x \<and> x ! 3 = CHR ''-'') ls \<and> reply_line l \<and> l ! 3 = CHR '' ''"

definition reply_text :: "string list \<Rightarrow> string \<Rightarrow> string" where
  "reply_text ls l = concat (map (\<lambda>x. x @ CRLF) ls) @ l @ CRLF"

lemma reply_code_range:
  assumes "\<not> bad_reply r"
  shows "100 \<le> reply_code r" "reply_code r \<le> 599"
proof -
  have s: "schar c = of_char c" if "between a CHR ''9'' c" for a c
  proof -
    have "(of_char c :: nat) \<le> 57" using that by (simp add: between_def)
    moreover have "int (of_char c) = of_char c" by (rule of_nat_of_char)
    ultimately have "(of_char c :: int) \<le> 57" by linarith
    then show ?thesis by (simp add: schar_def)
  qed
  have d: "between CHR ''1'' CHR ''5'' (r ! 0)" "isdigit (r ! 1)" "isdigit (r ! 2)" using assms by (auto simp: bad_reply_def)
  have "between CHR ''1'' CHR ''9'' (r ! 0)" using d(1) by (auto simp: between_def)
  then have e: "schar (r ! 0) = of_char (r ! 0)" "schar (r ! 1) = of_char (r ! 1)" "schar (r ! 2) = of_char (r ! 2)"
    using s d(2,3) by (simp_all add: isdigit_def)
  have "49 \<le> (of_char (r ! 0) :: nat)" "(of_char (r ! 0) :: nat) \<le> 53" "48 \<le> (of_char (r ! 1) :: nat)" "(of_char (r ! 1) :: nat) \<le> 57"
    "48 \<le> (of_char (r ! 2) :: nat)" "(of_char (r ! 2) :: nat) \<le> 57"
    using d by (auto simp: between_def isdigit_def)
  then have "49 \<le> (of_char (r ! 0) :: int)" "(of_char (r ! 0) :: int) \<le> 53" "48 \<le> (of_char (r ! 1) :: int)" "(of_char (r ! 1) :: int) \<le> 57"
    "48 \<le> (of_char (r ! 2) :: int)" "(of_char (r ! 2) :: int) \<le> 57"
    using of_nat_of_char [where 'a = int, of "r ! 0"] of_nat_of_char [where 'a = int, of "r ! 1"]
      of_nat_of_char [where 'a = int, of "r ! 2"] by linarith+
  then show "100 \<le> reply_code r" "reply_code r \<le> 599" unfolding reply_code_def e by simp_all
qed

text \<open>
  What a dialogue on the control handle does: it writes \<open>out\<close>, leaves \<open>r\<close> to be read and does not touch
  other sockets.
\<close>

definition spoke ::
  "('w \<Rightarrow> int \<Rightarrow> string) \<Rightarrow> ('w \<Rightarrow> int \<Rightarrow> string) \<Rightarrow> io_handle \<Rightarrow> 'w \<Rightarrow> string \<Rightarrow> string \<Rightarrow> io_handle \<Rightarrow> 'w \<Rightarrow> bool" where
  "spoke rest sent io w out r io' w' \<longleftrightarrow> io_ok io' \<and> io_pool io' = io_pool io \<and> sock io' = sock io \<and>
     produced sent io' w' = produced sent io w @ out \<and> unread rest io' w' = r \<and>
     (\<forall>s. s \<noteq> sock io \<longrightarrow> sent w' s = sent w s \<and> rest w' s = rest w s)"

lemma spoke_trans:
  "spoke rest sent io w o1 r1 io1 w1 \<Longrightarrow> spoke rest sent io1 w1 o2 r2 io2 w2 \<Longrightarrow> spoke rest sent io w (o1 @ o2) r2 io2 w2"
  by (simp add: spoke_def)

lemmas ftp_run = bindW_def get_f_def upd_f_def retW_def in_world_def on_ctl_def on_data_def

lemma eat_reply_unfold:
  "eat_reply K IO = bindW (on_ctl (io_fgets IO REPLY_BUFFER_SIZE False)) (\<lambda>l.
       if l = None then in_world (pth_die K ''server closed the connection unexpectedly'')
       else bindW (upd_f (\<lambda>f. f\<lparr>f_reply := c_str (the l)\<rparr>)) (\<lambda>_.
         if bad_reply (c_str (the l)) then in_world (pth_die K ''badly formatted reply from server'')
         else if c_str (the l) ! 3 = CHR '' '' then retW (reply_code (c_str (the l)))
         else eat_reply K IO))"
  by (rule ext) (rule eat_reply.simps)

locale ftp_control = socket IO good rest sent
  for IO :: "('v, 'j, 'P, 'm, 'u) world io_ops" and good :: "('v, 'j, 'P, 'm, 'u) world \<Rightarrow> bool"
    and rest :: "('v, 'j, 'P, 'm, 'u) world \<Rightarrow> int \<Rightarrow> string" and sent :: "('v, 'j, 'P, 'm, 'u) world \<Rightarrow> int \<Rightarrow> string"
begin

lemma reply_line_read:
  assumes "good w" "io_ok io" "reply_line l" "unread rest io w = l @ CRLF @ r"
  shows "\<exists>io' w'. io_fgets IO REPLY_BUFFER_SIZE False (io, w) = Some (Ret (Some l), io', w') \<and> good w' \<and>
    spoke rest sent io w [] r io' w'"
proof -
  let ?k = "REPLY_BUFFER_SIZE - 1"
  have l: "LF \<notin> set l" "set l \<inter> {CR, LF} = {}" "CHR 0xFF \<notin> set l" "length l + 2 \<le> ?k"
    using assms(3) by (auto simp: reply_line_def)
  have line: "line_of ?k (unread rest io w) = l @ CRLF" using line_of_crlf [OF l(1,4)] assms(4) by simp
  have eof: "\<not> line_eof ?k (unread rest io w)" using line by (simp add: line_eof_def)
  have "CHR 0xFF \<notin> set (line_of ?k (unread rest io w))" using line l(3) by simp
  from fgets_spec [OF assms(1,2) this, of False] line eof strip_crlf [OF l(2)] assms(4)
  show ?thesis by (auto simp: Let_def spoke_def only_input_def)
qed

lemma eat_reply_spec:
  assumes "good w" "io_ok (f_io f)" "reply_ok ls l" "unread rest (f_io f) w = reply_text ls l @ r"
  shows "\<exists>io' w'. eat_reply K IO (f, w) = Some (Ret (reply_code l), f\<lparr>f_io := io', f_reply := l\<rparr>, w') \<and> good w' \<and>
    spoke rest sent (f_io f) w [] r io' w'"
  using assms
proof (induction ls arbitrary: f w)
  case Nil
  have l: "reply_line l" "l ! 3 = CHR '' ''" "unread rest (f_io f) w = l @ CRLF @ r"
    using Nil.prems(3,4) by (simp_all add: reply_ok_def reply_text_def)
  obtain io' w' where g: "io_fgets IO REPLY_BUFFER_SIZE False (f_io f, w) = Some (Ret (Some l), io', w')" "good w'"
    "spoke rest sent (f_io f) w [] r io' w'" using reply_line_read [OF Nil.prems(1,2) l(1,3)] by blast
  have "NUL \<notin> set l" "\<not> bad_reply l" using l(1) by (auto simp: reply_line_def)
  then have "eat_reply K IO (f, w) = Some (Ret (reply_code l), f\<lparr>f_io := io', f_reply := l\<rparr>, w')"
    using g(1) l(2) by (subst eat_reply_unfold) (simp add: ftp_run)
  then show ?case using g by blast
next
  case (Cons x ls)
  have l: "reply_line x" "x ! 3 = CHR ''-''" "unread rest (f_io f) w = x @ CRLF @ reply_text ls l @ r" "reply_ok ls l"
    using Cons.prems(3,4) by (simp_all add: reply_ok_def reply_text_def)
  obtain io1 w1 where g: "io_fgets IO REPLY_BUFFER_SIZE False (f_io f, w) = Some (Ret (Some x), io1, w1)" "good w1"
    "spoke rest sent (f_io f) w [] (reply_text ls l @ r) io1 w1" using reply_line_read [OF Cons.prems(1,2) l(1,3)] by blast
  have "NUL \<notin> set x" "\<not> bad_reply x" using l(1) by (auto simp: reply_line_def)
  then have e: "eat_reply K IO (f, w) = eat_reply K IO (f\<lparr>f_io := io1, f_reply := x\<rparr>, w1)"
    using g(1) l(2) by (subst eat_reply_unfold) (simp add: ftp_run)
  obtain io' w' where h: "eat_reply K IO (f\<lparr>f_io := io1, f_reply := x\<rparr>, w1) =
      Some (Ret (reply_code l), f\<lparr>f_io := io', f_reply := l\<rparr>, w')" "good w'" "spoke rest sent io1 w1 [] r io' w'"
    using Cons.IH [OF g(2), of "f\<lparr>f_io := io1, f_reply := x\<rparr>"] g(3) l(4) by (auto simp: spoke_def)
  then show ?case using e spoke_trans [OF g(3) h(3)] by auto
qed

lemma do_command_spec:
  assumes "good w" "io_ok (f_io f)" "reply_ok ls l" "unread rest (f_io f) w = reply_text ls l @ r"
    and "NUL \<notin> set (command_line cmd arg)" "length (command_line cmd arg) < 4096"
  shows "\<exists>io' w'. do_command K IO cmd arg (f, w) = Some (Ret (reply_code l), f\<lparr>f_io := io', f_reply := l\<rparr>, w') \<and> good w' \<and>
    spoke rest sent (f_io f) w (command_line cmd arg) r io' w'"
proof -
  obtain io1 w1 where p: "io_fprintf IO (command_line cmd arg) (f_io f, w) = Some (Ret (length (command_line cmd arg)), io1, w1)"
    "io_ok io1" "same_input (f_io f) io1" "produced sent io1 w1 = produced sent (f_io f) w @ command_line cmd arg"
    "\<forall>t. t \<noteq> sock (f_io f) \<longrightarrow> sent w1 t = sent w t" "rest w1 = rest w" "good w1"
    using fprintf_spec [OF assms(1,2,5)] assms(6) by auto
  have s: "spoke rest sent (f_io f) w (command_line cmd arg) (reply_text ls l @ r) io1 w1"
    using p assms(4) same_input_window [OF p(3)] by (simp add: spoke_def same_input_def unread_def)
  obtain io' w' where e: "eat_reply K IO (f\<lparr>f_io := io1\<rparr>, w1) = Some (Ret (reply_code l), f\<lparr>f_io := io', f_reply := l\<rparr>, w')"
    "good w'" "spoke rest sent io1 w1 [] r io' w'"
    using eat_reply_spec [OF p(7), of "f\<lparr>f_io := io1\<rparr>" ls l r K] assms(3) s p(2) by (auto simp: spoke_def)
  have "do_command K IO cmd arg (f, w) = eat_reply K IO (f\<lparr>f_io := io1\<rparr>, w1)"
    using p(1) by (simp add: do_command_def ftp_run)
  then show ?thesis using e spoke_trans [OF s e(3)] by auto
qed

end

context ftp_control
begin

text \<open>On any stream the reply is read to its end: there is a code, or the thread dies with a message.\<close>

lemma eat_reply_total:
  assumes "good w" "io_ok (f_io f)" "CHR 0xFF \<notin> set (unread rest (f_io f) w)"
  shows "\<exists>f' w'. io_ok (f_io f') \<and> good w' \<and>
    ((\<exists>c. eat_reply K IO (f, w) = Some (Ret c, f', w') \<and> 100 \<le> c \<and> c \<le> 599) \<or>
     (\<exists>msg. eat_reply K IO (f, w) = in_world (pth_die K msg) (f', w')))"
  using assms
proof (induction "length (unread rest (f_io f) w)" arbitrary: f w rule: less_induct)
  case less
  let ?k = "REPLY_BUFFER_SIZE - 1" and ?u = "unread rest (f_io f) w"
  have pre: "CHR 0xFF \<notin> set (line_of ?k ?u)" using less.prems(3) line_of_prefix [of ?u ?k] by (metis UnCI set_append)
  obtain l io1 w1 where g: "io_fgets IO REPLY_BUFFER_SIZE False (f_io f, w) = Some (Ret l, io1, w1)" "io_ok io1" "good w1"
    "?u = line_of ?k ?u @ unread rest io1 w1" "l \<noteq> None \<longrightarrow> line_of ?k ?u \<noteq> []"
    using fgets_spec [OF less.prems(1,2) pre, of False] by (auto simp: Let_def line_eof_def REPLY_BUFFER_SIZE_def)
  show ?case
  proof (cases l)
    case None
    then have "eat_reply K IO (f, w) = in_world (pth_die K ''server closed the connection unexpectedly'') (f\<lparr>f_io := io1\<rparr>, w1)"
      using g(1) by (subst eat_reply_unfold) (simp add: bindW_def on_ctl_def)
    then show ?thesis using g(2,3) by (intro exI [of _ "f\<lparr>f_io := io1\<rparr>"] exI [of _ w1]) auto
  next
    case (Some x)
    let ?f = "f\<lparr>f_io := io1, f_reply := c_str x\<rparr>"
    have e: "eat_reply K IO (f, w) = (if bad_reply (c_str x) then in_world (pth_die K ''badly formatted reply from server'')
         else if c_str x ! 3 = CHR '' '' then retW (reply_code (c_str x)) else eat_reply K IO) (?f, w1)"
      using g(1) Some by (subst eat_reply_unfold) (simp add: bindW_def on_ctl_def upd_f_def)
    have len: "length (unread rest io1 w1) < length ?u" "CHR 0xFF \<notin> set (unread rest io1 w1)"
      using arg_cong [OF g(4), of length] arg_cong [OF g(4), of set] g(5) Some less.prems(3) by auto
    consider "bad_reply (c_str x)" | "\<not> bad_reply (c_str x)" "c_str x ! 3 = CHR '' ''"
      | "\<not> bad_reply (c_str x)" "c_str x ! 3 \<noteq> CHR '' ''" by blast
    then show ?thesis
    proof cases
      case 1
      then show ?thesis using e g(2,3) by (intro exI [of _ ?f] exI [of _ w1]) auto
    next
      case 2
      then show ?thesis using e g(2,3) reply_code_range [OF 2(1)] by (intro exI [of _ ?f] exI [of _ w1]) (auto simp: retW_def)
    next
      case 3
      then show ?thesis using e less.hyps [of ?f w1] len g(2,3) by simp
    qed
  qed
qed

lemma login_spec:
  assumes w: "good w" "io_ok (f_io f)" and r1: "reply_ok ls1 l1" and r2: "reply_ok ls2 l2"
    and u: "unread rest (f_io f) w = reply_text ls1 l1 @ reply_text ls2 l2 @ r"
    and c: "credentials (w_env w ''LOGNAME'') username password = (user, pass)"
    and t: "NUL \<notin> set (user @ pass)" "length user < 4000" "length pass < 4000"
  shows "\<exists>f' w'. ftpc_login K IO username password (f, w) =
      Some (Ret (if IS_3xx (reply_code l1) \<and> IS_2xx (reply_code l2) then 0 else -1), f', w') \<and> good w' \<and> f_username f' = Some user \<and>
    (if IS_3xx (reply_code l1)
     then spoke rest sent (f_io f) w (''USER '' @ user @ CRLF @ ''PASS '' @ pass @ CRLF) r (f_io f') w'
     else spoke rest sent (f_io f) w (''USER '' @ user @ CRLF) (reply_text ls2 l2 @ r) (f_io f') w')"
proof -
  let ?f = "f\<lparr>f_username := Some user\<rparr>"
  have n: "NUL \<notin> set (command_line ''USER'' (Some user))" "length (command_line ''USER'' (Some user)) < 4096"
    "NUL \<notin> set (command_line ''PASS'' (Some pass))" "length (command_line ''PASS'' (Some pass)) < 4096"
    using t by (auto simp: command_line_def)
  obtain io1 w1 where 1: "do_command K IO ''USER'' (Some user) (?f, w) = Some (Ret (reply_code l1), ?f\<lparr>f_io := io1, f_reply := l1\<rparr>, w1)"
    "good w1" "spoke rest sent (f_io f) w (command_line ''USER'' (Some user)) (reply_text ls2 l2 @ r) io1 w1"
    using do_command_spec [OF w(1), of ?f ls1 l1 "reply_text ls2 l2 @ r" "''USER''" "Some user" K] w(2) r1 u n by auto
  let ?f1 = "?f\<lparr>f_io := io1, f_reply := l1\<rparr>"
  have e: "ftpc_login K IO username password (f, w) =
      (if \<not> IS_3xx (reply_code l1) then retW (-1)
       else bindW (do_command K IO ''PASS'' (Some pass)) (\<lambda>code. if \<not> IS_2xx code then retW (-1) else retW 0)) (?f1, w1)"
    using 1(1) c by (simp add: ftpc_login_def in_world_def getW_def upd_f_def bindW_def)
  show ?thesis
  proof (cases "IS_3xx (reply_code l1)")
    case False
    then show ?thesis using e 1 by (intro exI [of _ ?f1] exI [of _ w1]) (simp add: retW_def command_line_def)
  next
    case True
    obtain io2 w2 where 2: "do_command K IO ''PASS'' (Some pass) (?f1, w1) = Some (Ret (reply_code l2), ?f1\<lparr>f_io := io2, f_reply := l2\<rparr>, w2)"
      "good w2" "spoke rest sent io1 w1 (command_line ''PASS'' (Some pass)) r io2 w2"
      using do_command_spec [OF 1(2), of ?f1 ls2 l2 r "''PASS''" "Some pass" K] 1(3) r2 n by (auto simp: spoke_def)
    show ?thesis
      using e True 2(1,2) spoke_trans [OF 1(3) 2(3)]
      by (intro exI [of _ "?f1\<lparr>f_io := io2, f_reply := l2\<rparr>"] exI [of _ w2]) (simp add: bindW_def retW_def command_line_def)
  qed
qed

end

section \<open>Addresses of data connections\<close>

lemma scan_rest_dec:
  assumes "r = [] \<or> \<not> isdigit (hd r)"
  shows "scan_rest (dec n @ r) = r"
proof -
  obtain c cs where d: "dec n = c # cs" "isdigit c" "list_all isdigit cs" using dec_digits [of n] by (cases "dec n") auto
  have "dropWhile isdigit (cs @ r) = r"
    using d(3) assms by (subst dropWhile_append2) (auto simp: list_all_iff dropWhile_eq_self_iff)
  then show ?thesis using d digit_not_special [OF d(2)] by (simp add: scan_rest_def Let_def)
qed

text \<open>Numbers below 256 that are printed with commas between them are scanned back.\<close>

lemma scan_list_join:
  assumes "ns \<noteq> []" "list_all (\<lambda>n. n < 256) ns"
  shows "scan_list (length ns) (join CHR '','' (map dec ns) @ '')'' @ r) = map int ns"
  using assms
proof (induction ns rule: induct_list012)
  case (2 n)
  have s: "scan_int (dec n @ '')'' @ r) = Some (int n)" "scan_rest (dec n @ '')'' @ r) = '')'' @ r"
    using 2 by (auto intro: scan_int_dec scan_rest_dec simp: isdigit_def between_def)
  then show ?case by (simp add: isspace_def between_def)
next
  case (3 n m ns)
  let ?r = "'','' @ join CHR '','' (map dec (m # ns)) @ '')'' @ r"
  have "scan_int (dec n @ ?r) = Some (int n)" "scan_rest (dec n @ ?r) = ?r"
    using 3 by (intro scan_int_dec scan_rest_dec; simp add: isdigit_def between_def)+
  moreover have "dropWhile isspace ?r = ?r" by (simp add: isspace_def between_def)
  ultimately show ?case using 3 by simp
qed simp

lemma byte_of_word: "unat (and (x :: 32 word) 0xff) < 256"
proof -
  have "and x 0xff = take_bit 8 x" by (simp add: take_bit_eq_mask mask_eq_exp_minus_1)
  then show ?thesis by (simp add: take_bit_eq_mod unat_mod)
qed

lemma port_bytes:
  fixes p :: "16 word"
  shows "unat (ucast p div 256 :: 32 word) = unat p div 256" "unat (ucast p mod 256 :: 32 word) = unat p mod 256"
    "unat p div 256 < 256"
proof -
  have b: "unat p < 65536" using unsigned_less [of p, where 'a = nat] by simp
  then have "unat (ucast p :: 32 word) = unat p" by (simp add: unsigned_ucast_eq take_bit_nat_eq_self)
  then show "unat (ucast p div 256 :: 32 word) = unat p div 256" "unat (ucast p mod 256 :: 32 word) = unat p mod 256"
    by (simp_all add: unat_div unat_mod)
  show "unat p div 256 < 256" using b by simp
qed

text \<open>The address that \<open>PORT\<close> sends names the port that a \<open>PASV\<close> reply with the same numbers would name.\<close>

lemma pasv_port_arg:
  assumes "CHR ''('' \<notin> set msg" and len: "length code = 4"
  shows "pasv_port (code @ msg @ ''('' @ port_arg a p @ '')'' @ r) = Some (uint p)"
proof -
  let ?ns = "[unat (and (drop_bit 24 a) 0xff), unat (and (drop_bit 16 a) 0xff), unat (and (drop_bit 8 a) 0xff), unat (and a 0xff),
    unat p div 256, unat p mod 256]"
  have j: "port_arg a p = join CHR '','' (map dec ?ns)" by (simp add: port_arg_def port_bytes)
  have "list_all (\<lambda>n. n < 256) ?ns" by (simp add: byte_of_word port_bytes)
  moreover have "length ?ns = 6" by simp
  ultimately have l: "scan_list 6 (port_arg a p @ '')'' @ r) = map int ?ns"
    using scan_list_join [of ?ns r] unfolding j by (metis list.distinct(1))
  have d: "dropWhile (\<lambda>c. c \<noteq> CHR ''('') (msg @ ''('' @ port_arg a p @ '')'' @ r) = ''('' @ port_arg a p @ '')'' @ r"
    using assms by (subst dropWhile_append2) auto
  have "int (unat p div 256) * 256 + int (unat p mod 256) = int (unat p)"
    by (metis div_mult_mod_eq of_nat_add of_nat_mult of_nat_numeral)
  moreover have "int (unat p) < 65536" using unsigned_less [of p, where 'a = int] by simp
  ultimately have "c_int (int (unat p div 256) * 256 + int (unat p mod 256)) = uint p" by (simp add: fits_int_def)
  then show ?thesis using len d l by (simp add: pasv_port_def Let_def)
qed
section \<open>Transfers in passive mode\<close>

text \<open>
  The surroundings of a transfer without system errors: new sockets get descriptor \<open>dsock\<close>, opened files
  \<open>fdesc\<close>; \<open>opened u\<close> are the descriptors that are open. A connection to address \<open>a\<close> delivers the bytes
  \<open>dat a\<close>; it may be established at once or after a wait. A local file is named by its descriptor too:
  \<open>rest u fdesc\<close> are the bytes that have not been read yet, and \<open>sent u fdesc\<close> those that \<open>fwrite\<close> has
  put into the stream. What of them has reached the file \<open>lfile\<close>, whose contents are \<open>disk u\<close>, is known only
  once the stream is closed; \<open>writing u\<close> says that the stream was opened to write to that file. While
  the thread waits, others leave the two descriptors and the file alone.
\<close>

locale ftp_env =
  thread_io K t "y_read Y" "y_write Y" "y_close Y" busy rest sent pinv live sub own "y_block Y"
  for K :: "('v, 'j, 'P, 'm, 'u) kernel" and t :: tid and Y :: "'u ftp_sys" and busy :: "'u \<Rightarrow> nat"
    and rest :: "'u \<Rightarrow> int \<Rightarrow> string" and sent :: "'u \<Rightarrow> int \<Rightarrow> string"
    and pinv :: "'P \<Rightarrow> bool" and live :: "'P \<Rightarrow> pool set"
    and sub :: "'P \<Rightarrow> pool \<Rightarrow> pool set" and own :: "'P \<Rightarrow> pool \<Rightarrow> cleanup multiset" +
  fixes dsock :: int and fdesc :: int and dat :: "sockaddr_in \<Rightarrow> string" and content :: "string \<Rightarrow> string"
    and lfile :: string and opened :: "'u \<Rightarrow> int set" and writing :: "'u \<Rightarrow> bool" and disk :: "'u \<Rightarrow> string"
  assumes descs: "0 \<le> dsock" "0 \<le> fdesc" "dsock \<noteq> fdesc"
    and socket_law: "\<exists>e u'. y_socket Y u = ((dsock, e, ()), u') \<and> rest u' = rest u \<and> sent u' = sent u \<and>
      opened u' = insert dsock (opened u)"
    and nonblock_law: "\<exists>e u'. y_nonblock Y s u = ((0, e, ()), u') \<and> rest u' = rest u \<and> sent u' = sent u"
    and connect_law: "y_connect Y s a u = ((r, e, x), u') \<Longrightarrow>
      (r = 0 \<or> r = -1 \<and> e = EINPROGRESS \<and> 0 < busy u') \<and> rest u' = (rest u)(s := dat a) \<and> sent u' = (sent u)(s := []) \<and>
      writing u' = writing u"
    and soerror_law: "\<exists>e u'. y_soerror Y s u = ((0, e, 0), u') \<and> rest u' = rest u \<and> sent u' = sent u \<and> writing u' = writing u"
    and fopen_law: "\<exists>e u'. y_fopen Y name mode u = ((fdesc, e, ()), u') \<and>
      rest u' = (rest u)(fdesc := if mode = ''r'' then content name else []) \<and> sent u' = (sent u)(fdesc := []) \<and>
      opened u' = insert fdesc (opened u) \<and> (name = lfile \<longrightarrow> writing u' = (mode = ''w''))"
    and fread_law: "0 < n \<Longrightarrow> \<exists>e u'. y_fread Y fdesc n u = ((int (length (take n (rest u fdesc))), e, take n (rest u fdesc)), u') \<and>
      rest u' = (rest u)(fdesc := drop n (rest u fdesc)) \<and> sent u' = sent u \<and> writing u' = writing u"
    and fwrite_law: "\<exists>e u'. y_fwrite Y fdesc cs u = ((int (length cs), e, ()), u') \<and>
      rest u' = rest u \<and> sent u' = (sent u)(fdesc := sent u fdesc @ cs) \<and> writing u' = writing u"
    and fclose_law: "\<exists>r e u'. y_fclose Y fdesc u = ((r, e, ()), u') \<and> rest u' = rest u \<and> sent u' = sent u \<and>
      opened u' = opened u - {fdesc} \<and> (writing u \<longrightarrow> disk u' = sent u fdesc)"
    and close_law: "y_close Y s u = ((r, e, x), u') \<Longrightarrow> opened u' = opened u - {s} \<and> disk u' = disk u"
    and read_files: "writing (snd (y_read Y s n u)) = writing u" "opened (snd (y_read Y s n u)) = opened u"
      "disk (snd (y_read Y s n u)) = disk u"
    and write_files: "writing (snd (y_write Y s cs u)) = writing u" "opened (snd (y_write Y s cs u)) = opened u"
      "disk (snd (y_write Y s cs u)) = disk u"
    and switch_files: "k_switch K w = Some w' \<Longrightarrow> runs t w \<Longrightarrow> writing (os w') = writing (os w) \<and>
      opened (os w') \<inter> {dsock, fdesc} = opened (os w) \<inter> {dsock, fdesc} \<and> disk (os w') = disk (os w)"
begin

text \<open>Which of the two descriptors are open, and the contents of the file.\<close>

definition files :: "'u \<Rightarrow> int set \<times> string" where
  "files u = (opened u \<inter> {dsock, fdesc}, disk u)"

lemma files_kept: "files (snd (y_read Y s n u)) = files u" "files (snd (y_write Y s cs u)) = files u"
  "k_switch K w = Some w' \<Longrightarrow> runs t w \<Longrightarrow> files (os w') = files (os w)"
  using read_files write_files switch_files by (simp_all add: files_def)

lemma writing_keeps: "keeps K t Q \<Longrightarrow> keeps K t (\<lambda>w. Q w \<and> writing (os w) = b)"
  using switch_files by (auto simp: keeps_def)

lemma control_files:
  "ftp_control (fio K Y) (\<lambda>w. runs t w \<and> settled pinv live t w \<and> files (os w) = v) (\<lambda>w. rest (os w)) (\<lambda>w. sent (os w))"
proof -
  have "keeps K t (\<lambda>w. settled pinv live t w \<and> files (os w) = v)"
    using settled_keeps files_kept(3) by (auto simp: keeps_def)
  from socket_observing [OF observes_conj [OF settled_local] this files_kept(1,2)]
  show ?thesis by (simp add: fio_def ftp_control_def)
qed

lemma control_with:
  assumes "local_to Q" "keeps K t Q"
  shows "ftp_control (fio K Y) (\<lambda>w. runs t w \<and> Q w) (\<lambda>w. rest (os w)) (\<lambda>w. sent (os w))"
  using socket_with [OF assms] by (simp add: fio_def ftp_control_def)

lemmas control = control_with [OF settled_local settled_keeps]

lemma sys_run: "g (os w) = ((r, e, x), u) \<Longrightarrow> sys_call g (f, w) = Some (Ret (r, x), f, set_os u w)"
  by (simp add: sys_call_def in_world_def do_sys_def bindW_def retW_def)

lemma settled_set_os [simp]: "settled pinv live t (set_os u w) = settled pinv live t w"
  by (simp add: local_to_set_os [OF settled_local])

lemma holds_set_os [simp]: "holds pinv live sub own t q (set_os u w) = holds pinv live sub own t q w"
  by (simp add: local_to_set_os [OF holds_local])

abbreviation dialogue where
  "dialogue \<equiv> spoke (\<lambda>w :: ('v, 'j, 'P, 'm, 'u) world. rest (os w)) (\<lambda>w. sent (os w))"

lemma issue_passive:
  assumes w: "runs t w" "settled pinv live t w" "io_ok (f_io f)" and pm: "passive_mode f \<noteq> 0"
    and r1: "reply_ok ls l" "IS_2xx (reply_code l)" "pasv_port l = Some p" and u: "arriving rest (f_io f) w = reply_text ls l @ r"
  shows "\<exists>io' w'. issue_port_or_pasv K Y (f, w) = Some (Ret dsock, f\<lparr>f_io := io', f_reply := l, pasv_data_port := p\<rparr>, w') \<and>
    runs t w' \<and> settled pinv live t w' \<and> dialogue (f_io f) w (''PASV'' @ CRLF) r io' w'"
proof -
  obtain e1 u1 where s: "y_socket Y (os w) = ((dsock, e1, ()), u1)" "rest u1 = rest (os w)" "sent u1 = sent (os w)"
    using socket_law by blast
  obtain e2 u2 where n: "y_nonblock Y dsock u1 = ((0, e2, ()), u2)" "rest u2 = rest u1" "sent u2 = sent u1"
    using nonblock_law by blast
  let ?w = "set_os u2 w"
  have o: "rest (os ?w) = rest (os w)" "sent (os ?w) = sent (os w)" using s n by simp_all
  obtain io' w' where d: "do_command K (fio K Y) ''PASV'' None (f, ?w) = Some (Ret (reply_code l), f\<lparr>f_io := io', f_reply := l\<rparr>, w')"
    "runs t w'" "settled pinv live t w'" "dialogue (f_io f) ?w (command_line ''PASV'' None) r io' w'"
    using ftp_control.do_command_spec [OF control, of ?w f ls l r "''PASV''" None K] w r1(1) u o
    by (auto simp: command_line_def unread_def)
  have "issue_port_or_pasv K Y (f, w) = issue_pasv K Y dsock (f, ?w)"
    using s(1) n(1) descs pm
    by (simp add: issue_port_or_pasv_def sys_call_def in_world_def do_sys_def bindW_def retW_def get_f_def)
  also have "\<dots> = Some (Ret dsock, f\<lparr>f_io := io', f_reply := l, pasv_data_port := p\<rparr>, w')"
    using d(1) r1(2,3) by (simp add: issue_pasv_def ftp_run)
  finally show ?thesis using d o by (intro exI [of _ io'] exI [of _ w']) (auto simp: spoke_def produced_def command_line_def)
qed

lemma connect_spec:
  assumes "runs t w" "settled pinv live t w"
  shows "\<exists>e w'. pth_connect K s (y_connect Y s a) (y_soerror Y s) w = Some (Ret (0, e), w') \<and> runs t w' \<and> settled pinv live t w' \<and>
    rest (os w') = (rest (os w))(s := dat a) \<and> sent (os w') = (sent (os w))(s := []) \<and> writing (os w') = writing (os w)"
proof -
  obtain r e x u where c: "y_connect Y s a (os w) = ((r, e, x), u)" by (metis prod.collapse)
  note l = connect_law [OF c]
  show ?thesis
  proof (cases "r = 0")
    case True
    then have "pth_connect K s (y_connect Y s a) (y_soerror Y s) w = Some (Ret (0, e), set_os u w)"
      using c by (simp add: pth_connect_def do_sys_def bindW_def retW_def)
    then show ?thesis using l assms by (intro exI [of _ e] exI [of _ "set_os u w"]) simp
  next
    case False
    then have r: "r = -1" "e = EINPROGRESS" "0 < busy u" using l by auto
    have f: "fits_short REACTOR_WRITE" by (simp add: fits_short_def REACTOR_WRITE_def)
    have "runs t (set_os u w) \<and> settled pinv live t (set_os u w) \<and> writing (os (set_os u w)) = writing u" "0 < busy (os (set_os u w))"
      using assms r(3) by simp_all
    from block_observing [OF this f observes_conj [OF settled_local] writing_keeps [OF settled_keeps], of s]
    obtain w1 where b: "block K s REACTOR_WRITE (set_os u w) = Some (Ret (), w1)"
      "runs t w1" "settled pinv live t w1" "rest (os w1) = rest u" "sent (os w1) = sent u" "writing (os w1) = writing u" by auto
    obtain e2 u2 where g: "y_soerror Y s (os w1) = ((0, e2, 0), u2)" "rest u2 = rest (os w1)" "sent u2 = sent (os w1)" "writing u2 = writing (os w1)"
      using soerror_law by blast
    have "pth_connect K s (y_connect Y s a) (y_soerror Y s) w = Some (Ret (0, 0), set_os u2 w1)"
      using c r b(1) g(1) by (simp add: pth_connect_def do_sys_def bindW_def retW_def)
    then show ?thesis using l b g by (intro exI [of _ 0] exI [of _ "set_os u2 w1"]) simp
  qed
qed

lemma open_passive:
  assumes w: "runs t w" "settled pinv live t w" and pm: "passive_mode f \<noteq> 0"
    and a: "a = (f_addr f)\<lparr>sin_port := word_of_int (pasv_data_port f)\<rparr>"
  shows "\<exists>io w'. open_data K Y dsock (f, w) = Some (Ret (Some io), f\<lparr>f_addr := a\<rparr>, w') \<and> runs t w' \<and>
    holds pinv live sub own t (io_pool io) w' \<and> io_ok io \<and> window io = [] \<and> buffered io = [] \<and> sock io = dsock \<and>
    rest (os w') = (rest (os w))(dsock := dat a) \<and> sent (os w') = (sent (os w))(dsock := []) \<and> writing (os w') = writing (os w)"
proof -
  obtain e w1 where c: "pth_connect K dsock (y_connect Y dsock a) (y_soerror Y dsock) w = Some (Ret (0, e), w1)" "runs t w1"
    "settled pinv live t w1" "rest (os w1) = (rest (os w))(dsock := dat a)" "sent (os w1) = (sent (os w))(dsock := [])"
    "writing (os w1) = writing (os w)"
    using connect_spec [OF w] by blast
  obtain io w' where o: "open_handle K (y_block Y) dsock w1 = Some (Ret io, w')" "runs t w'" "os w' = os w1"
    "holds pinv live sub own t (io_pool io) w'" "io_ok io" "window io = []" "buffered io = []" "sock io = dsock"
    using open_spec [OF c(2,3)] by blast
  have "open_data K Y dsock (f, w) = Some (Ret (Some io), f\<lparr>f_addr := a\<rparr>, w')"
    using c(1) o(1) pm by (simp add: open_data_def open_data_passive_def ftp_run a)
  then show ?thesis using c o by (intro exI [of _ io] exI [of _ w']) simp
qed

end

lemma get_loop_unfold:
  "get_loop IO Y fp io = bindW (on_data io (io_fread IO 1024)) (\<lambda>x.
       if fst x = [] then retW (True, snd x)
       else bindW (sys_call (y_fwrite Y fp (fst x))) (\<lambda>y.
            if fst y \<noteq> int (length (fst x)) then retW (False, snd x) else get_loop IO Y fp (snd x)))"
  by (rule ext) (rule get_loop.simps)

lemma put_loop_unfold:
  "put_loop IO Y fp io = bindW (sys_call (y_fread Y fp 1024)) (\<lambda>x.
       if fst x \<le> 0 then retW (True, io)
       else bindW (on_data io (io_fwrite IO (snd x))) (\<lambda>y.
            if int (fst y) \<noteq> fst x then retW (False, snd y) else put_loop IO Y fp (snd y)))"
  by (rule ext) (rule put_loop.simps)

context ftp_env
begin

text \<open>The state in the middle of a transfer over the handle \<open>io\<close>.\<close>

definition busy_with :: "bool \<Rightarrow> io_handle \<Rightarrow> ('v, 'j, 'P, 'm, 'u) world \<Rightarrow> bool" where
  "busy_with wm io w \<longleftrightarrow> runs t w \<and> holds pinv live sub own t (io_pool io) w \<and> io_ok io \<and> sock io = dsock \<and> writing (os w) = wm"

definition others_same :: "('v, 'j, 'P, 'm, 'u) world \<Rightarrow> ('v, 'j, 'P, 'm, 'u) world \<Rightarrow> bool" where
  "others_same w w' \<longleftrightarrow> (\<forall>s. s \<noteq> dsock \<longrightarrow> s \<noteq> fdesc \<longrightarrow> rest (os w') s = rest (os w) s \<and> sent (os w') s = sent (os w) s)"

lemma data_socket:
  "socket (fio K Y) (\<lambda>w. runs t w \<and> holds pinv live sub own t q w \<and> writing (os w) = wm) (\<lambda>w. rest (os w)) (\<lambda>w. sent (os w))"
  unfolding fio_def
  by (rule socket_observing [OF observes_conj [OF holds_local] writing_keeps [OF holds_keeps] read_files(1) write_files(1)])

lemma fread_step:
  assumes "busy_with wm io w"
  shows "\<exists>io' w'. io_fread (fio K Y) n (io, w) = Some (Ret (take n (arriving rest io w)), io', w') \<and> busy_with wm io' w' \<and>
    arriving rest io' w' = drop n (arriving rest io w) \<and> written sent io' w' = written sent io w \<and>
    sent (os w') fdesc = sent (os w) fdesc \<and> others_same w w'"
proof -
  have b: "runs t w \<and> holds pinv live sub own t (io_pool io) w \<and> writing (os w) = wm" "io_ok io" "sock io = dsock"
    using assms by (auto simp: busy_with_def)
  from socket.fread_spec [OF data_socket b(1,2), of n] obtain io' w' where
    "io_fread (fio K Y) n (io, w) = Some (Ret (take n (arriving rest io w)), io', w')" "io_ok io'"
    "runs t w' \<and> holds pinv live sub own t (io_pool io) w' \<and> writing (os w') = wm" "only_input (\<lambda>w. rest (os w)) (\<lambda>w. sent (os w)) io w io' w'"
    "arriving rest io' w' = drop n (arriving rest io w)" by blast
  then show ?thesis using b(3) descs by (intro exI [of _ io'] exI [of _ w']) (auto simp: busy_with_def only_input_def others_same_def)
qed

lemma get_loop_spec:
  assumes "busy_with wm io w"
  shows "\<exists>io' w'. get_loop (fio K Y) Y fdesc io (f, w) = Some (Ret (True, io'), f, w') \<and> busy_with wm io' w' \<and>
    written sent io' w' = written sent io w \<and> sent (os w') fdesc = sent (os w) fdesc @ arriving rest io w \<and> others_same w w'"
  using assms
proof (induction "length (arriving rest io w)" arbitrary: io w rule: less_induct)
  case less
  let ?cs = "take 1024 (arriving rest io w)"
  obtain io1 w1 where r: "io_fread (fio K Y) 1024 (io, w) = Some (Ret ?cs, io1, w1)" "busy_with wm io1 w1"
    "arriving rest io1 w1 = drop 1024 (arriving rest io w)" "written sent io1 w1 = written sent io w"
    "sent (os w1) fdesc = sent (os w) fdesc" "others_same w w1" using fread_step [OF less.prems] by blast
  show ?case
  proof (cases "arriving rest io w = []")
    case True
    then have "get_loop (fio K Y) Y fdesc io (f, w) = Some (Ret (True, io1), f, w1)"
      using r(1) by (subst get_loop_unfold) (simp add: ftp_run)
    then show ?thesis using r True by (intro exI [of _ io1] exI [of _ w1]) simp
  next
    case False
    obtain e u where fw: "y_fwrite Y fdesc ?cs (os w1) = ((int (length ?cs), e, ()), u)" "rest u = rest (os w1)"
      "sent u = (sent (os w1))(fdesc := sent (os w1) fdesc @ ?cs)" "writing u = writing (os w1)" using fwrite_law by blast
    let ?w = "set_os u w1"
    have step: "get_loop (fio K Y) Y fdesc io (f, w) = get_loop (fio K Y) Y fdesc io1 (f, ?w)"
      using r(1) fw(1) False by (subst get_loop_unfold) (simp add: on_data_def bindW_def sys_run)
    have b: "busy_with wm io1 ?w" using r(2) fw(4) by (simp add: busy_with_def)
    have un: "arriving rest io1 ?w = drop 1024 (arriving rest io w)" "written sent io1 ?w = written sent io w"
      using r(2,3,4) fw(2,3) descs by (simp_all add: unread_def produced_def busy_with_def)
    have "length (arriving rest io1 ?w) < length (arriving rest io w)" unfolding un(1) using False by simp
    from less.hyps [OF this b] obtain io' w' where "get_loop (fio K Y) Y fdesc io1 (f, ?w) = Some (Ret (True, io'), f, w')"
      "busy_with wm io' w'" "written sent io' w' = written sent io1 ?w"
      "sent (os w') fdesc = sent (os ?w) fdesc @ arriving rest io1 ?w" "others_same ?w w'" by blast
    then show ?thesis
      using step un r(5,6) fw(2,3) append_take_drop_id [of 1024 "arriving rest io w"]
      by (intro exI [of _ io'] exI [of _ w']) (simp add: others_same_def)
  qed
qed

lemma fwrite_step:
  assumes "busy_with wm io w"
  shows "\<exists>io' w'. io_fwrite (fio K Y) cs (io, w) = Some (Ret (length cs), io', w') \<and> busy_with wm io' w' \<and>
    rest (os w') = rest (os w) \<and> written sent io' w' = written sent io w @ cs \<and>
    sent (os w') fdesc = sent (os w) fdesc \<and> others_same w w'"
proof -
  have b: "runs t w \<and> holds pinv live sub own t (io_pool io) w \<and> writing (os w) = wm" "io_ok io" "sock io = dsock"
    using assms by (auto simp: busy_with_def)
  from socket.fwrite_spec [OF data_socket b(1,2), of cs] obtain io' w' where
    "io_fwrite (fio K Y) cs (io, w) = Some (Ret (length cs), io', w')" "io_ok io'" "same_input io io'" "buffered io' = []"
    "sent (os w') = (sent (os w))(sock io := sent (os w) (sock io) @ buffered io @ cs)" "rest (os w') = rest (os w)"
    "runs t w' \<and> holds pinv live sub own t (io_pool io) w' \<and> writing (os w') = wm" by blast
  then show ?thesis
    using b(3) descs by (intro exI [of _ io'] exI [of _ w']) (auto simp: busy_with_def same_input_def others_same_def produced_def)
qed

lemma put_loop_spec:
  assumes "busy_with wm io w"
  shows "\<exists>io' w'. put_loop (fio K Y) Y fdesc io (f, w) = Some (Ret (True, io'), f, w') \<and> busy_with wm io' w' \<and>
    written sent io' w' = written sent io w @ rest (os w) fdesc \<and> sent (os w') fdesc = sent (os w) fdesc \<and> others_same w w'"
  using assms
proof (induction "length (rest (os w) fdesc)" arbitrary: io w rule: less_induct)
  case less
  let ?cs = "take 1024 (rest (os w) fdesc)"
  obtain e u where r: "y_fread Y fdesc 1024 (os w) = ((int (length ?cs), e, ?cs), u)"
    "rest u = (rest (os w))(fdesc := drop 1024 (rest (os w) fdesc))" "sent u = sent (os w)"
    "writing u = writing (os w)" using fread_law [of 1024 "os w"] by auto
  let ?w = "set_os u w"
  have b: "busy_with wm io ?w" using less.prems r(4) by (simp add: busy_with_def)
  show ?case
  proof (cases "rest (os w) fdesc = []")
    case True
    then have "put_loop (fio K Y) Y fdesc io (f, w) = Some (Ret (True, io), f, ?w)"
      using r(1) by (subst put_loop_unfold) (simp add: bindW_def sys_run retW_def)
    then show ?thesis
      using r b True by (intro exI [of _ io] exI [of _ ?w]) (simp add: produced_def others_same_def)
  next
    case False
    obtain io1 w1 where fw: "io_fwrite (fio K Y) ?cs (io, ?w) = Some (Ret (length ?cs), io1, w1)" "busy_with wm io1 w1"
      "rest (os w1) = rest (os ?w)" "written sent io1 w1 = written sent io ?w @ ?cs"
      "sent (os w1) fdesc = sent (os ?w) fdesc" "others_same ?w w1" using fwrite_step [OF b] by blast
    have step: "put_loop (fio K Y) Y fdesc io (f, w) = put_loop (fio K Y) Y fdesc io1 (f, w1)"
      using r(1) fw(1) False by (subst put_loop_unfold) (simp add: on_data_def bindW_def sys_run min_def)
    have ww: "written sent io ?w = written sent io w" using r(3) by (simp add: produced_def)
    have "length (rest (os w1) fdesc) < length (rest (os w) fdesc)" using fw(3) r(2) False by simp
    from less.hyps [OF this fw(2)] obtain io' w' where "put_loop (fio K Y) Y fdesc io1 (f, w1) = Some (Ret (True, io'), f, w')"
      "busy_with wm io' w'" "written sent io' w' = written sent io1 w1 @ rest (os w1) fdesc"
      "sent (os w') fdesc = sent (os w1) fdesc" "others_same w1 w'" by blast
    then show ?thesis
      using step r(2,3) fw(3-6) ww append_take_drop_id [of 1024 "rest (os w) fdesc"]
      by (intro exI [of _ io'] exI [of _ w']) (simp add: others_same_def)
  qed
qed

end

context ftp_env
begin

text \<open>The end of a transfer: both sides are closed and the final reply is read.\<close>

definition transfer_end :: "bool \<Rightarrow> io_handle \<Rightarrow> (('v, 'j, 'P, 'm, 'u) world, int) ftp" where
  "transfer_end ok io =
     bindW (sys_call (y_fclose Y fdesc)) (\<lambda>_.
     bindW (on_data io (io_fclose K (fio K Y))) (\<lambda>_.
     if \<not> ok then retW (-1)
     else bindW (eat_reply K (fio K Y)) (\<lambda>code. retW (if IS_2xx code then 0 else -1))))"

lemma end_spec:
  assumes b: "busy_with wm io w" and f: "io_ok (f_io f)" "sock (f_io f) \<noteq> dsock" and rp: "reply_ok ls l"
    and u: "arriving rest (f_io f) w = reply_text ls l @ r"
  shows "\<exists>io' w'. transfer_end True io (f, w) = Some (Ret (if IS_2xx (reply_code l) then 0 else -1), f\<lparr>f_io := io', f_reply := l\<rparr>, w') \<and>
    runs t w' \<and> settled pinv live t w' \<and> written sent io' w' = written sent (f_io f) w \<and> arriving rest io' w' = r \<and>
    (\<forall>s. s \<noteq> sock (f_io f) \<longrightarrow> sent (os w') s = (if s = dsock then written sent io w else sent (os w) s)) \<and>
    opened (os w') \<inter> {dsock, fdesc} = {} \<and> (wm \<longrightarrow> disk (os w') = sent (os w) fdesc)"
proof -
  obtain q e u1 where c: "y_fclose Y fdesc (os w) = ((q, e, ()), u1)" "rest u1 = rest (os w)" "sent u1 = sent (os w)"
    "opened u1 = opened (os w) - {fdesc}" "wm \<longrightarrow> disk u1 = sent (os w) fdesc"
    using fclose_law [of "os w"] b unfolding busy_with_def by blast
  let ?w = "set_os u1 w"
  have h: "runs t ?w" "holds pinv live sub own t (io_pool io) ?w" "io_ok io" "sock io = dsock" using b by (auto simp: busy_with_def)
  obtain io1 w1 v q1 e1 x1 where d: "io_fclose K (fio K Y) (io, ?w) = Some (Ret (), io1, w1)" "runs t w1" "settled pinv live t w1"
    "rest (os w1) = rest (os ?w)" "sent (os w1) = (sent (os ?w))(sock io := written sent io ?w)"
    "files v = files u1" "y_close Y dsock v = ((q1, e1, x1), os w1)"
    using close_observing [OF h(1-3) files_kept] h(4) unfolding fio_def by auto
  have s: "rest (os w1) = rest (os w)" "sent (os w1) = (sent (os w))(dsock := written sent io w)"
    using d(4,5) c h(4) by (simp_all add: produced_def)
  have cl: "opened (os w1) \<inter> {dsock, fdesc} = {}" "disk (os w1) = disk u1"
    using close_law [OF d(7)] d(6) c(4) by (auto simp: files_def)
  have "arriving rest (f_io f) w1 = reply_text ls l @ r" using u s(1) by (simp add: unread_def)
  then obtain io' w' where g: "eat_reply K (fio K Y) (f, w1) = Some (Ret (reply_code l), f\<lparr>f_io := io', f_reply := l\<rparr>, w')"
    "runs t w'" "settled pinv live t w'" "files (os w') = files (os w1)" "dialogue (f_io f) w1 [] r io' w'"
    using ftp_control.eat_reply_spec [OF control_files, of w1 "files (os w1)" f ls l r K] d(2,3) f(1) rp by blast
  have "transfer_end True io (f, w) = Some (Ret (if IS_2xx (reply_code l) then 0 else -1), f\<lparr>f_io := io', f_reply := l\<rparr>, w')"
    using d(1) g(1) c(1) by (simp add: transfer_end_def bindW_def sys_run on_data_def retW_def)
  moreover have "opened (os w') \<inter> {dsock, fdesc} = {}" "wm \<longrightarrow> disk (os w') = sent (os w) fdesc"
    using g(4) cl c(5) by (simp_all add: files_def)
  ultimately show ?thesis
    using g s f(2) by (intro exI [of _ io'] exI [of _ w']) (auto simp: spoke_def produced_def)
qed

lemma transfer_spec:
  assumes w: "runs t w" "settled pinv live t w" "io_ok (f_io f)" and pm: "passive_mode f \<noteq> 0"
    and k: "sock (f_io f) \<notin> {dsock, fdesc}"
    and r1: "reply_ok ls1 l1" "IS_2xx (reply_code l1)" "pasv_port l1 = Some p"
    and r2: "reply_ok ls2 l2" "IS_1xx (reply_code l2)" and r3: "reply_ok ls3 l3"
    and u: "arriving rest (f_io f) w = reply_text ls1 l1 @ reply_text ls2 l2 @ reply_text ls3 l3 @ r"
    and n: "NUL \<notin> set (command_line cmd (Some name))" "length (command_line cmd (Some name)) < 4096"
    and a: "a = (f_addr f)\<lparr>sin_port := word_of_int p\<rparr>"
    and m: "wm = (mode = ''w'')" "lname = lfile"
    and loop: "\<forall>io w. busy_with wm io w \<longrightarrow> arriving rest io w = dat a \<longrightarrow> written sent io w = [] \<longrightarrow> sent (os w) fdesc = [] \<longrightarrow>
      rest (os w) fdesc = (if mode = ''r'' then content lname else []) \<longrightarrow>
      (\<forall>g. \<exists>io' w'. lp fdesc io (g, w) = Some (Ret (True, io'), g, w') \<and> busy_with wm io' w' \<and>
        written sent io' w' = up \<and> sent (os w') fdesc = down \<and> others_same w w')"
  shows "\<exists>f' w'. transfer K Y cmd name lname mode lp (f, w) = Some (Ret (if IS_2xx (reply_code l3) then 0 else -1), f', w') \<and>
    runs t w' \<and> settled pinv live t w' \<and> sent (os w') dsock = up \<and> (wm \<longrightarrow> disk (os w') = down) \<and>
    opened (os w') \<inter> {dsock, fdesc} = {} \<and>
    written sent (f_io f') w' = written sent (f_io f) w @ ''PASV'' @ CRLF @ command_line cmd (Some name) \<and> arriving rest (f_io f') w' = r"
proof -
  have kk: "sock (f_io f) \<noteq> dsock" "sock (f_io f) \<noteq> fdesc" using k by auto
  obtain io1 w1 where 1: "issue_port_or_pasv K Y (f, w) = Some (Ret dsock, f\<lparr>f_io := io1, f_reply := l1, pasv_data_port := p\<rparr>, w1)"
    "runs t w1" "settled pinv live t w1" "dialogue (f_io f) w (''PASV'' @ CRLF) (reply_text ls2 l2 @ reply_text ls3 l3 @ r) io1 w1"
    using issue_passive [OF w pm r1 u] by blast
  let ?f1 = "f\<lparr>f_io := io1, f_reply := l1, pasv_data_port := p\<rparr>"
  obtain io2 w2 where 2: "do_command K (fio K Y) cmd (Some name) (?f1, w1) = Some (Ret (reply_code l2), ?f1\<lparr>f_io := io2, f_reply := l2\<rparr>, w2)"
    "runs t w2" "settled pinv live t w2" "dialogue io1 w1 (command_line cmd (Some name)) (reply_text ls3 l3 @ r) io2 w2"
    using ftp_control.do_command_spec [OF control, of w1 ?f1 ls2 l2 "reply_text ls3 l3 @ r" cmd "Some name" K] 1(2-4) r2(1) n
    by (auto simp: spoke_def)
  let ?f2 = "?f1\<lparr>f_io := io2, f_reply := l2\<rparr>"
  note s2 = spoke_trans [OF 1(4) 2(4)]
  obtain e u3 where 3: "y_fopen Y lname mode (os w2) = ((fdesc, e, ()), u3)"
    "rest u3 = (rest (os w2))(fdesc := if mode = ''r'' then content lname else [])" "sent u3 = (sent (os w2))(fdesc := [])"
    "writing u3 = wm"
    using fopen_law [of lname mode "os w2"] m by blast
  let ?w3 = "set_os u3 w2" and ?f3 = "?f2\<lparr>f_addr := a\<rparr>"
  obtain io w4 where 4: "open_data K Y dsock (?f2, ?w3) = Some (Ret (Some io), ?f3, w4)" "runs t w4"
    "holds pinv live sub own t (io_pool io) w4" "io_ok io" "window io = []" "buffered io = []" "sock io = dsock"
    "rest (os w4) = (rest u3)(dsock := dat a)" "sent (os w4) = (sent u3)(dsock := [])"
    "writing (os w4) = wm"
    using open_passive [of ?w3 ?f2 a] 2(2,3) pm a 3(4) by auto
  have b: "busy_with wm io w4" using 4 by (simp add: busy_with_def)
  moreover have "arriving rest io w4 = dat a" "written sent io w4 = []" "sent (os w4) fdesc = []"
    "rest (os w4) fdesc = (if mode = ''r'' then content lname else [])"
    using 3 4 descs by (simp_all add: unread_def produced_def)
  ultimately obtain io5 w5 where 5: "lp fdesc io (?f3, w4) = Some (Ret (True, io5), ?f3, w5)" "busy_with wm io5 w5"
    "written sent io5 w5 = up" "sent (os w5) fdesc = down" "others_same w4 w5" using loop by blast
  have same: "sent (os w5) (sock (f_io f)) = sent (os w2) (sock (f_io f))" "rest (os w5) (sock (f_io f)) = rest (os w2) (sock (f_io f))"
    using 5(5) 3 4 kk by (simp_all add: others_same_def)
  have ctl: "io_ok io2" "sock io2 = sock (f_io f)" "arriving rest io2 w5 = reply_text ls3 l3 @ r"
    "written sent io2 w5 = written sent (f_io f) w @ (''PASV'' @ CRLF) @ command_line cmd (Some name)"
    using s2 same unfolding spoke_def unread_def produced_def by auto
  obtain io6 w6 where 6: "transfer_end True io5 (?f3, w5) = Some (Ret (if IS_2xx (reply_code l3) then 0 else -1), ?f3\<lparr>f_io := io6, f_reply := l3\<rparr>, w6)"
    "runs t w6" "settled pinv live t w6" "written sent io6 w6 = written sent io2 w5" "arriving rest io6 w6 = r"
    "\<forall>s. s \<noteq> sock io2 \<longrightarrow> sent (os w6) s = (if s = dsock then written sent io5 w5 else sent (os w5) s)"
    "opened (os w6) \<inter> {dsock, fdesc} = {}" "wm \<longrightarrow> disk (os w6) = sent (os w5) fdesc"
    using end_spec [OF 5(2), of ?f3 ls3 l3 r] ctl kk r3 by auto
  have opened: "sys_call (y_fopen Y lname mode) (?f2, w2) = Some (Ret (fdesc, ()), ?f2, ?w3)" using 3(1) by (simp add: sys_run)
  have "transfer K Y cmd name lname mode lp (f, w) = transfer_end True io5 (?f3, w5)"
    using r2(2) descs 1(1) 2(1) opened 4(1) 5(1) by (simp add: transfer_def transfer_end_def bindW_Ret)
  then show ?thesis
    using 5(3,4) 6 ctl kk descs by (intro exI [of _ "?f3\<lparr>f_io := io6, f_reply := l3\<rparr>"] exI [of _ w6]) simp
qed

end

section \<open>A server\<close>

text \<open>
  A file system and a server on the network of \<open>Iolib\<close>: connections are established after a wait, the
  server sends its data on port 1025.
\<close>

definition quiet_call :: "int \<Rightarrow> 'x \<Rightarrow> (net, 'x) syscall" where
  "quiet_call r x u = ((r, 0, x), u)"

definition demo_data :: "sockaddr_in \<Rightarrow> string" where
  "demo_data a = (if sin_port a = 1025 then ''remote text'' else [])"

definition demo_ftp :: "net ftp_sys" where
  "demo_ftp = \<lparr>y_read = net_read, y_write = net_write, y_close = net_close, y_socket = (\<lambda>u. ((5, 0, ()), u\<lparr>n_open := insert 5 (n_open u)\<rparr>)), y_nonblock = (\<lambda>_. quiet_call 0 ()),
     y_connect = (\<lambda>s a u. ((-1, EINPROGRESS, ()), u\<lparr>n_in := (n_in u)(s := demo_data a), n_out := (n_out u)(s := []), n_lag := 2\<rparr>)),
     y_soerror = (\<lambda>_. quiet_call 0 0), y_bind = (\<lambda>_ _. quiet_call 0 ()), y_listen = (\<lambda>_ _. quiet_call 0 ()),
     y_getsockname = (\<lambda>_. quiet_call 0 \<lparr>sin_addr = 0, sin_port = 1026\<rparr>), y_accept = (\<lambda>_. quiet_call 6 \<lparr>sin_addr = 7, sin_port = 20\<rparr>),
     y_gethostbyname = (\<lambda>_. quiet_call 0 7), y_getservbyname = (\<lambda>_ _. quiet_call 0 21),
     y_fopen = (\<lambda>name mode u. ((9, 0, ()), u\<lparr>n_in := (n_in u)(9 := if mode = ''r'' then ''local text'' else []), n_out := (n_out u)(9 := []),
       n_open := insert 9 (n_open u), n_writing := (mode = ''w'' \<and> name = ''copy'')\<rparr>)),
     y_fread = (\<lambda>h n u. ((int (length (take n (n_in u h))), 0, take n (n_in u h)), u\<lparr>n_in := (n_in u)(h := drop n (n_in u h))\<rparr>)),
     y_fwrite = (\<lambda>h cs u. ((int (length cs), 0, ()), u\<lparr>n_out := (n_out u)(h := n_out u h @ cs)\<rparr>)),
     y_fclose = (\<lambda>h u. ((0, 0, ()), u\<lparr>n_open := n_open u - {h}, n_disk := if n_writing u then n_out u h else n_disk u\<rparr>)), y_block = net_block\<rparr>"

interpretation ftp_net: ftp_env net_kernel 7 demo_ftp n_lag n_in n_out cpool_inv cpool_live "\<lambda>P p. set (cpool_under P p)" cpool_own
  5 9 demo_data "\<lambda>_. ''local text''" "''copy''" n_open n_writing n_disk
proof -
  have t: "thread_io net_kernel 7 (y_read demo_ftp) (y_write demo_ftp) (y_close demo_ftp) n_lag n_in n_out
    cpool_inv cpool_live (\<lambda>P p. set (cpool_under P p)) cpool_own (y_block demo_ftp)"
    using net_thread.thread_io_axioms by (simp add: demo_ftp_def)
  show "ftp_env net_kernel 7 demo_ftp n_lag n_in n_out cpool_inv cpool_live (\<lambda>P p. set (cpool_under P p)) cpool_own
    5 9 demo_data (\<lambda>_. ''local text'') ''copy'' n_open n_writing n_disk"
    by (intro ftp_env.intro t, unfold_locales)
      (auto simp: demo_ftp_def quiet_call_def net_close_def net_read_def net_write_def net_kernel_def Let_def)
qed

interpretation net_control: ftp_control "pth_io net_kernel net_read net_write net_close" "runs 7" "\<lambda>w. n_in (os w)" "\<lambda>w. n_out (os w)"
  by (simp add: ftp_control_def net.is_socket)

section \<open>Properties\<close>

text \<open>
  reading a reply: from a server that sends any number of continuation lines and a last line, the
  client reads exactly these lines, keeps the last one and returns its three digits as a number.
\<close>

theorem eat_reply_reads_reply:
  assumes "connection K t rd wr busy rest sent" "runs t w" "io_ok (f_io f)" "reply_ok ls l"
    and "arriving rest (f_io f) w = reply_text ls l @ r"
  shows "\<exists>io' w'. eat_reply K (pth_io K rd wr cl) (f, w) = Some (Ret (reply_code l), f\<lparr>f_io := io', f_reply := l\<rparr>, w') \<and> runs t w' \<and>
    spoke (\<lambda>w. rest (os w)) (\<lambda>w. sent (os w)) (f_io f) w [] r io' w'"
  using ftp_control.eat_reply_spec [of "pth_io K rd wr cl" "runs t" "\<lambda>w. rest (os w)" "\<lambda>w. sent (os w)"]
    connection.is_socket [OF assms(1)] assms(2-) unfolding ftp_control_def by blast

text \<open>A client on descriptor 3 of the network.\<close>

definition demo_client :: ftpc where
  "demo_client = \<lparr>f_io = fresh_handle 3, f_port = 21, passive_mode = 1, verbose = 0, f_addr = \<lparr>sin_addr = 7, sin_port = 21\<rparr>,
     pasv_data_port = 0, f_reply = [], f_server = ''ftp.example.org'', f_username = None, server_greeting = []\<rparr>"

lemma demo_client_ok: "io_ok (f_io demo_client)" "sock (f_io demo_client) = 3" "passive_mode demo_client \<noteq> 0"
  "arriving n_in (f_io demo_client) (net_world ins) = ins 3" "written n_out (f_io demo_client) (net_world ins) = []"
  "f_addr demo_client = \<lparr>sin_addr = 7, sin_port = 21\<rparr>"
  by (simp_all add: demo_client_def fresh_handle_ok net_start)

theorem eat_reply_reads_reply_witness:
  "\<exists>io' w'. eat_reply net_kernel (pth_io net_kernel net_read net_write net_close)
      (demo_client, net_world (\<lambda>_. reply_text [''220-Welcome'', ''220-to this server''] ''220 ready'' @ ''rest'')) =
    Some (Ret 220, demo_client\<lparr>f_io := io', f_reply := ''220 ready''\<rparr>, w') \<and> arriving n_in io' w' = ''rest''"
proof -
  have r: "reply_ok [''220-Welcome'', ''220-to this server''] ''220 ready''" "reply_code ''220 ready'' = 220" by code_simp+
  let ?ins = "\<lambda>_. reply_text [''220-Welcome'', ''220-to this server''] ''220 ready'' @ ''rest''"
  have "arriving n_in (f_io demo_client) (net_world ?ins) = ?ins 3" by (rule demo_client_ok)
  from eat_reply_reads_reply [OF net.connection_axioms net_world_ok(1) demo_client_ok(1) r(1) this, of net_close]
  show ?thesis unfolding r(2) spoke_def by blast
qed

text \<open>
  C27: whatever a server sends, reading a reply comes to an end: either with a code between 100 and 599
  or by ending the thread with an exception.
\<close>

theorem eat_reply_ends:
  assumes "connection K t rd wr busy rest sent" "runs t w" "io_ok (f_io f)" "CHR 0xFF \<notin> set (arriving rest (f_io f) w)"
  shows "\<exists>f' w'. io_ok (f_io f') \<and> runs t w' \<and>
    ((\<exists>c. eat_reply K (pth_io K rd wr cl) (f, w) = Some (Ret c, f', w') \<and> 100 \<le> c \<and> c \<le> 599) \<or>
     (\<exists>msg. eat_reply K (pth_io K rd wr cl) (f, w) = in_world (pth_die K msg) (f', w')))"
  using ftp_control.eat_reply_total [of "pth_io K rd wr cl" "runs t" "\<lambda>w. rest (os w)" "\<lambda>w. sent (os w)"]
    connection.is_socket [OF assms(1)] assms(2-) unfolding ftp_control_def by blast

theorem eat_reply_ends_witness:
  "\<exists>f' w'. io_ok (f_io f') \<and> runs 7 w' \<and>
    ((\<exists>c. eat_reply net_kernel (pth_io net_kernel net_read net_write net_close) (demo_client, net_world (\<lambda>_. ''nonsense'')) =
        Some (Ret c, f', w') \<and> 100 \<le> c \<and> c \<le> 599) \<or>
     (\<exists>msg. eat_reply net_kernel (pth_io net_kernel net_read net_write net_close) (demo_client, net_world (\<lambda>_. ''nonsense'')) =
        in_world (pth_die net_kernel msg) (f', w')))"
  by (rule eat_reply_ends [OF net.connection_axioms net_world_ok(1) demo_client_ok(1)]) (simp add: demo_client_ok)

text \<open>
  C28: logging in sends the user name and, only when the server asks for it with a \<open>3xx\<close> code, the
  password, and succeeds exactly when that is answered with a \<open>2xx\<close> code. Without a name the login is
  anonymous, with the local login name as password.
\<close>

theorem ftpc_login_dialogue:
  assumes "connection K t rd wr busy rest sent" "runs t w" "io_ok (f_io f)" "reply_ok ls1 l1" "reply_ok ls2 l2"
    and "arriving rest (f_io f) w = reply_text ls1 l1 @ reply_text ls2 l2 @ r"
    and "credentials (w_env w ''LOGNAME'') username password = (user, pass)"
    and "NUL \<notin> set (user @ pass)" "length user < 4000" "length pass < 4000"
  shows "\<exists>f' w'. ftpc_login K (pth_io K rd wr cl) username password (f, w) =
      Some (Ret (if IS_3xx (reply_code l1) \<and> IS_2xx (reply_code l2) then 0 else -1), f', w') \<and> runs t w' \<and> f_username f' = Some user \<and>
    (if IS_3xx (reply_code l1)
     then spoke (\<lambda>w. rest (os w)) (\<lambda>w. sent (os w)) (f_io f) w (''USER '' @ user @ CRLF @ ''PASS '' @ pass @ CRLF) r (f_io f') w'
     else spoke (\<lambda>w. rest (os w)) (\<lambda>w. sent (os w)) (f_io f) w (''USER '' @ user @ CRLF) (reply_text ls2 l2 @ r) (f_io f') w')"
  by (rule ftp_control.login_spec [where good = "runs t"])
    (use assms connection.is_socket [OF assms(1)] in \<open>auto simp: ftp_control_def\<close>)

theorem ftpc_login_dialogue_witness:
  "\<exists>f' w'. ftpc_login net_kernel (pth_io net_kernel net_read net_write net_close) None None
      (demo_client, net_world (\<lambda>_. reply_text [] ''331 password please'' @ reply_text [] ''230 logged in'')) = Some (Ret 0, f', w') \<and>
    f_username f' = Some ''ftp'' \<and> written n_out (f_io f') w' = ''USER ftp'' @ CRLF @ ''PASS nobody@'' @ CRLF"
proof -
  let ?ins = "\<lambda>_. reply_text [] ''331 password please'' @ reply_text [] ''230 logged in''"
  have r: "reply_ok [] ''331 password please''" "reply_ok [] ''230 logged in''"
    "IS_3xx (reply_code ''331 password please'')" "IS_2xx (reply_code ''230 logged in'')" by code_simp+
  have c: "credentials (w_env (net_world ?ins) ''LOGNAME'') None None = (''ftp'', ''nobody@'')"
    by (simp add: net_world_def credentials_def)
  have "arriving n_in (f_io demo_client) (net_world ?ins) =
      reply_text [] ''331 password please'' @ reply_text [] ''230 logged in'' @ []" by (simp add: demo_client_ok)
  from ftpc_login_dialogue [OF net.connection_axioms net_world_ok(1) demo_client_ok(1) r(1,2) this c, of net_close]
  show ?thesis using r(3,4) demo_client_ok(5) [of ?ins] by (auto simp: spoke_def)
qed

text \<open>
  the numbers that \<open>PORT\<close> sends for an address and a port are understood: a \<open>PASV\<close> reply with the
  same numbers, behind any text without a parenthesis, gives back exactly that port, for all 65536 ports.
\<close>

theorem port_pasv_roundtrip:
  assumes "length code = 4" "CHR ''('' \<notin> set msg"
  shows "pasv_port (code @ msg @ ''('' @ port_arg a p @ '')'' @ r) = Some (uint p)"
  by (rule pasv_port_arg [OF assms(2,1)])

theorem port_pasv_roundtrip_witness:
  "pasv_port (''227 '' @ ''Entering Passive Mode '' @ ''('' @ port_arg 0x7F000001 1025 @ '')'' @ ''.'') = Some 1025 \<and>
   port_arg 0x7F000001 1025 = ''127,0,0,1,4,1''"
proof -
  have "pasv_port (''227 '' @ ''Entering Passive Mode '' @ ''('' @ port_arg 0x7F000001 1025 @ '')'' @ ''.'') = Some (uint (1025 :: 16 word))"
    by (rule port_pasv_roundtrip) simp_all
  moreover have "port_arg 0x7F000001 1025 = ''127,0,0,1,4,1''" by code_simp
  ultimately show ?thesis by simp
qed

text \<open>
  C29: a download in passive mode, where no system call fails: when the server names a data port, starts
  the transfer and completes it, the data socket and the local file are closed, the file on disk holds
  exactly the bytes that the server sent on that port, nothing was sent on the data connection, and the
  result says whether the server reported success. What \<open>fwrite\<close> was given is known to be in the file only
  after \<open>fclose\<close>. The name of the remote file has no zero byte and fits the buffer of the command.
\<close>

theorem ftpc_get_downloads:
  assumes "ftp_env K t Y busy rest sent pinv live sub own dsock fdesc dat content lfile opened writing disk"
    and "runs t w" "settled pinv live t w" "io_ok (f_io f)" "passive_mode f \<noteq> 0" "sock (f_io f) \<notin> {dsock, fdesc}"
    and "reply_ok ls1 l1" "IS_2xx (reply_code l1)" "pasv_port l1 = Some p" "reply_ok ls2 l2" "IS_1xx (reply_code l2)" "reply_ok ls3 l3"
    and "arriving rest (f_io f) w = reply_text ls1 l1 @ reply_text ls2 l2 @ reply_text ls3 l3 @ r"
    and "NUL \<notin> set remote" "length remote < 4000"
  shows "\<exists>f' w'. ftpc_get K Y remote lfile (f, w) = Some (Ret (if IS_2xx (reply_code l3) then 0 else -1), f', w') \<and>
    runs t w' \<and> settled pinv live t w' \<and> disk (os w') = dat ((f_addr f)\<lparr>sin_port := word_of_int p\<rparr>) \<and>
    opened (os w') \<inter> {dsock, fdesc} = {} \<and> sent (os w') dsock = [] \<and>
    written sent (f_io f') w' = written sent (f_io f) w @ ''PASV'' @ CRLF @ ''RETR '' @ remote @ CRLF \<and> arriving rest (f_io f') w' = r"
proof -
  let ?l = "\<lambda>fp io. get_loop (fio K Y) Y fp io"
  have c: "command_line ''RETR'' (Some remote) = ''RETR '' @ remote @ CRLF" by (simp add: command_line_def)
  have n: "NUL \<notin> set (command_line ''RETR'' (Some remote))" "length (command_line ''RETR'' (Some remote)) < 4096"
    using assms(14,15) by (simp_all add: c)
  show ?thesis
    using ftp_env.transfer_spec [OF assms(1-13) n refl _ refl, where lp = ?l and mode = "''w''" and wm = True
        and up = "[]" and down = "dat ((f_addr f)\<lparr>sin_port := word_of_int p\<rparr>)"]
      ftp_env.get_loop_spec [OF assms(1)] unfolding ftpc_get_def c by fastforce
qed

lemma demo_replies:
  "reply_ok [] ''227 Passive (10,0,0,7,4,1)''" "IS_2xx (reply_code ''227 Passive (10,0,0,7,4,1)'')"
  "pasv_port ''227 Passive (10,0,0,7,4,1)'' = Some 1025" "reply_ok [] ''150 opening''" "IS_1xx (reply_code ''150 opening'')"
  "reply_ok [''226-almost''] ''226 done''" "IS_2xx (reply_code ''226 done'')"
  by code_simp+

abbreviation demo_dialogue :: string where
  "demo_dialogue \<equiv> reply_text [] ''227 Passive (10,0,0,7,4,1)'' @ reply_text [] ''150 opening'' @ reply_text [''226-almost''] ''226 done''"

lemma demo_dialogue_arrives:
  "arriving n_in (f_io demo_client) (net_world (\<lambda>_. demo_dialogue)) = reply_text [] ''227 Passive (10,0,0,7,4,1)'' @
     reply_text [] ''150 opening'' @ reply_text [''226-almost''] ''226 done'' @ []"
  by (simp add: demo_client_ok)

theorem ftpc_get_downloads_witness:
  "\<exists>f' w'. ftpc_get net_kernel demo_ftp ''pub/file'' ''copy'' (demo_client, net_world (\<lambda>_. demo_dialogue)) = Some (Ret 0, f', w') \<and>
    n_disk (os w') = ''remote text'' \<and> 5 \<notin> n_open (os w') \<and> 9 \<notin> n_open (os w') \<and>
    written n_out (f_io f') w' = ''PASV'' @ CRLF @ ''RETR pub/file'' @ CRLF"
proof -
  have k: "sock (f_io demo_client) \<notin> {5, 9}" "NUL \<notin> set ''pub/file''" "length ''pub/file'' < 4000" by (simp_all add: demo_client_ok)
  from ftpc_get_downloads [OF ftp_net.ftp_env_axioms net_world_ok(1) net_settled demo_client_ok(1,3) k(1) demo_replies(1-6)
    demo_dialogue_arrives k(2,3)]
  show ?thesis using demo_replies(7) demo_client_ok(5) [of "\<lambda>_. demo_dialogue"] by (auto simp: demo_data_def)
qed

text \<open>
  an upload in passive mode: when the server names a data port, starts the transfer and completes it,
  exactly the contents of the local file have been sent on the data connection, and the data socket and
  the file are closed.
\<close>

theorem ftpc_put_uploads:
  assumes "ftp_env K t Y busy rest sent pinv live sub own dsock fdesc dat content lfile opened writing disk"
    and "runs t w" "settled pinv live t w" "io_ok (f_io f)" "passive_mode f \<noteq> 0" "sock (f_io f) \<notin> {dsock, fdesc}"
    and "reply_ok ls1 l1" "IS_2xx (reply_code l1)" "pasv_port l1 = Some p" "reply_ok ls2 l2" "IS_1xx (reply_code l2)" "reply_ok ls3 l3"
    and "arriving rest (f_io f) w = reply_text ls1 l1 @ reply_text ls2 l2 @ reply_text ls3 l3 @ r"
    and "NUL \<notin> set remote" "length remote < 4000"
  shows "\<exists>f' w'. ftpc_put K Y lfile remote (f, w) = Some (Ret (if IS_2xx (reply_code l3) then 0 else -1), f', w') \<and>
    runs t w' \<and> settled pinv live t w' \<and> sent (os w') dsock = content lfile \<and> opened (os w') \<inter> {dsock, fdesc} = {} \<and>
    written sent (f_io f') w' = written sent (f_io f) w @ ''PASV'' @ CRLF @ ''STOR '' @ remote @ CRLF \<and> arriving rest (f_io f') w' = r"
proof -
  let ?l = "\<lambda>fp io. put_loop (fio K Y) Y fp io"
  have c: "command_line ''STOR'' (Some remote) = ''STOR '' @ remote @ CRLF" by (simp add: command_line_def)
  have n: "NUL \<notin> set (command_line ''STOR'' (Some remote))" "length (command_line ''STOR'' (Some remote)) < 4096"
    using assms(14,15) by (simp_all add: c)
  show ?thesis
    using ftp_env.transfer_spec [OF assms(1-13) n refl _ refl, where lp = ?l and mode = "''r''" and wm = False
        and up = "content lfile" and down = "[]"]
      ftp_env.put_loop_spec [OF assms(1)] unfolding ftpc_put_def c by fastforce
qed

theorem ftpc_put_uploads_witness:
  "\<exists>f' w'. ftpc_put net_kernel demo_ftp ''copy'' ''pub/file'' (demo_client, net_world (\<lambda>_. demo_dialogue)) = Some (Ret 0, f', w') \<and>
    n_out (os w') 5 = ''local text'' \<and> 5 \<notin> n_open (os w') \<and> 9 \<notin> n_open (os w') \<and>
    written n_out (f_io f') w' = ''PASV'' @ CRLF @ ''STOR pub/file'' @ CRLF"
proof -
  have k: "sock (f_io demo_client) \<notin> {5, 9}" "NUL \<notin> set ''pub/file''" "length ''pub/file'' < 4000" by (simp_all add: demo_client_ok)
  from ftpc_put_uploads [OF ftp_net.ftp_env_axioms net_world_ok(1) net_settled demo_client_ok(1,3) k(1) demo_replies(1-6)
    demo_dialogue_arrives k(2,3)]
  show ?thesis using demo_replies(7) demo_client_ok(5) [of "\<lambda>_. demo_dialogue"] by auto
qed

end
