(* ===== verification/Dbi.thy ===== *)
theory Dbi
  imports Thread_IO
begin

unbundle bit_operations_syntax

text \<open>
  The database library (\<open>src/src/pthr_dbi.c\<close>): statements with placeholders, transactions, and fetching of
  results, on top of PostgreSQL's client library libpq. libpq, the regular expressions and the string
  functions of c2lib are parameters (\<open>pq_ops\<close>, \<open>dbi_lib\<close>). A database handle and its statement handles
  form the record \<open>dbi\<close>: statement handles live at addresses, the program's variables that columns are
  bound to in a store. Debugging output is not modelled; vectors are lists.
\<close>

section \<open>Types\<close>

definition DBI_THROW_ERRORS :: int where "DBI_THROW_ERRORS = 1"
definition DBI_DEBUG :: int where "DBI_DEBUG = 2"

definition DBI_INT :: int where "DBI_INT = 1001"
definition DBI_STRING :: int where "DBI_STRING = 1002"
definition DBI_BOOL :: int where "DBI_BOOL = 1003"
definition DBI_CHAR :: int where "DBI_CHAR = 1004"
definition DBI_TIMESTAMP :: int where "DBI_TIMESTAMP = 1005"
definition DBI_INTERVAL :: int where "DBI_INTERVAL = 1006"
definition DBI_INT_OR_NULL :: int where "DBI_INT_OR_NULL = 1007"

lemmas dbi_types = DBI_INT_def DBI_STRING_def DBI_BOOL_def DBI_CHAR_def DBI_TIMESTAMP_def DBI_INTERVAL_def DBI_INT_OR_NULL_def

record dbi_timestamp =
  ts_is_null :: bool
  year :: int
  month :: int
  day :: int
  hour :: int
  minute :: int
  sec :: int
  microsecs :: int
  utc_offset :: int

record dbi_interval =
  iv_is_null :: bool
  secs :: int
  mins :: int
  hours :: int
  days :: int
  months :: int
  years :: int

text \<open>Arguments of \<open>st_execute\<close> (\<open>None\<close> is a null pointer) and contents of bound variables.\<close>

datatype dbi_arg = Int_arg int | Str_arg "string option" | Int_vec "int list" | Str_vec "string option list"

datatype dbi_val = Int_val int | Str_val "string option" | Char_val char | Time_val dbi_timestamp | Interval_val dbi_interval

record otype =
  o_type :: int
  o_varptr :: "nat option"

record 'r st_handle =
  st_pool :: pool
  orig_query :: string
  st_query :: "string list"
  intypes :: "int list"
  st_result :: "'r option"
  fetch_allowed :: bool
  next_tuple :: int
  outtypes :: "otype list option"

record 'r dbi =
  dbh_pool :: pool
  dbh_conninfo :: string
  dbh_conn :: int
  dbh_flags :: int
  in_transaction :: bool
  stmts :: "addr \<Rightarrow> 'r st_handle option"
  st_next :: addr
  vars :: "nat \<Rightarrow> dbi_val"

section \<open>The libraries\<close>

datatype polling = PGRES_POLLING_FAILED | PGRES_POLLING_READING | PGRES_POLLING_WRITING | PGRES_POLLING_OK | PGRES_POLLING_ACTIVE

datatype exec_status = PGRES_COMMAND_OK | PGRES_TUPLES_OK | PGRES_OTHER

text \<open>
  libpq: the functions on connections work on the state of the operating system, those on results are
  pure. \<open>pq_poll\<close> is the system call that \<open>pth_wait_readable\<close> and \<open>pth_wait_writable\<close> make.
\<close>

record ('u, 'r) pq_ops =
  PQconnectStart :: "string \<Rightarrow> 'u \<Rightarrow> int option \<times> 'u"
  PQconnection_bad :: "int \<Rightarrow> 'u \<Rightarrow> bool \<times> 'u"
  PQfinish :: "int \<Rightarrow> 'u \<Rightarrow> unit \<times> 'u"
  PQsetnonblocking :: "int \<Rightarrow> 'u \<Rightarrow> int \<times> 'u"
  PQsocket :: "int \<Rightarrow> 'u \<Rightarrow> int \<times> 'u"
  PQconnectPoll :: "int \<Rightarrow> 'u \<Rightarrow> polling \<times> 'u"
  PQisnonblocking :: "int \<Rightarrow> 'u \<Rightarrow> bool \<times> 'u"
  PQsendQuery :: "int \<Rightarrow> string \<Rightarrow> 'u \<Rightarrow> int \<times> 'u"
  PQisBusy :: "int \<Rightarrow> 'u \<Rightarrow> bool \<times> 'u"
  PQflush_eof :: "int \<Rightarrow> 'u \<Rightarrow> bool \<times> 'u"
  PQconsumeInput :: "int \<Rightarrow> 'u \<Rightarrow> int \<times> 'u"
  PQgetResult :: "int \<Rightarrow> 'u \<Rightarrow> 'r option \<times> 'u"
  pq_poll :: "int \<Rightarrow> int \<Rightarrow> ('u, unit) syscall"
  PQresultStatus :: "'r option \<Rightarrow> exec_status"
  PQcmdTuples :: "'r \<Rightarrow> string option"
  PQresultErrorMessage :: "'r \<Rightarrow> string"
  PQntuples :: "'r \<Rightarrow> int"
  PQnfields :: "'r \<Rightarrow> int"
  PQgetisnull :: "'r \<Rightarrow> int \<Rightarrow> int \<Rightarrow> bool"
  PQgetvalue :: "'r \<Rightarrow> int \<Rightarrow> int \<Rightarrow> string"

text \<open>
  c2lib: \<open>pitoa\<close>, \<open>pjoin\<close>, the split of a query with the expression \<open>re_qs\<close> (\<open>pstrresplit2\<close>) and the matches
  of \<open>re_timestamp\<close> and \<open>re_interval\<close> (\<open>prematch\<close>: the whole match and the groups). The last field is what
  an uninitialised \<open>next_tuple\<close> holds.
\<close>

record dbi_lib =
  pitoa :: "int \<Rightarrow> string"
  pjoin :: "string list \<Rightarrow> string \<Rightarrow> string"
  re_qs :: "string \<Rightarrow> string list"
  re_timestamp :: "string \<Rightarrow> string option list option"
  re_interval :: "string \<Rightarrow> string option list option"
  st_junk :: int

type_synonym ('w, 'r, 'a) db = "('r dbi \<times> 'w, 'a) comp"

definition pq_do :: "('u \<Rightarrow> 'a \<times> 'u) \<Rightarrow> (('v, 'j, 'P, 'm, 'u) world, 'a) comp" where
  "pq_do g w = (let (a, u) = g (os w) in Some (Ret a, set_os u w))"

definition with_world :: "('w, 'a) comp \<Rightarrow> ('w, 'r, 'a) db" where
  "with_world m = (\<lambda>(d, w). map_option (\<lambda>(r, w1). (r, d, w1)) (m w))"

definition get_d :: "('w, 'r, 'r dbi) db" where
  "get_d = (\<lambda>(d, w). Some (Ret d, d, w))"

definition upd_d :: "('r dbi \<Rightarrow> 'r dbi) \<Rightarrow> ('w, 'r, unit) db" where
  "upd_d g = (\<lambda>(d, w). Some (Ret (), g d, w))"

text \<open>A statement handle through its pointer; a pointer to none is a crash.\<close>

definition get_st :: "addr \<Rightarrow> ('w, 'r, 'r st_handle) db" where
  "get_st a = (\<lambda>(d, w). map_option (\<lambda>st. (Ret st, d, w)) (stmts d a))"

definition upd_st :: "addr \<Rightarrow> ('r st_handle \<Rightarrow> 'r st_handle) \<Rightarrow> ('w, 'r, unit) db" where
  "upd_st a g = (\<lambda>(d, w). map_option (\<lambda>st. (Ret (), d\<lparr>stmts := (stmts d)(a \<mapsto> g st)\<rparr>, w)) (stmts d a))"

section \<open>Connections\<close>

partial_function (option) connect_loop ::
  "('v, 'j, 'P, 'm, 'u) kernel \<Rightarrow> ('u, 'r) pq_ops \<Rightarrow> int \<Rightarrow> int \<Rightarrow> polling \<Rightarrow> ('v, 'j, 'P, 'm, 'u) world
     \<Rightarrow> (polling outcome \<times> ('v, 'j, 'P, 'm, 'u) world) option" where
  "connect_loop K Q c sk status w =
     (if status = PGRES_POLLING_OK \<or> status = PGRES_POLLING_FAILED then retW status
      else bindW (if status = PGRES_POLLING_WRITING then pth_wait_writable K sk (pq_poll Q sk REACTOR_WRITE)
                  else if status = PGRES_POLLING_READING then pth_wait_readable K sk (pq_poll Q sk REACTOR_READ)
                  else retW 0) (\<lambda>_.
           bindW (pq_do (PQconnectPoll Q c)) (connect_loop K Q c sk))) w"

definition register_cleanup ::
  "('v, 'j, 'P, 'm, 'u) kernel \<Rightarrow> pool \<Rightarrow> cleanup \<Rightarrow> ('v, 'j, 'P, 'm, 'u) world \<Rightarrow> ('v, 'j, 'P, 'm, 'u) world" where
  "register_cleanup K p c w = w\<lparr>w_re := (w_re w)\<lparr>r_pools := register_cleanup_fn (k_pools K) (r_pools (w_re w)) p c\<rparr>\<rparr>"

text \<open>\<open>a\<close> is the address of the new handle; \<open>None\<close> is the null pointer.\<close>

definition new_db_handle ::
  "('v, 'j, 'P, 'm, 'u) kernel \<Rightarrow> ('u, 'r) pq_ops \<Rightarrow> addr \<Rightarrow> pool \<Rightarrow> string \<Rightarrow> int \<Rightarrow> (nat \<Rightarrow> dbi_val)
     \<Rightarrow> (('v, 'j, 'P, 'm, 'u) world, 'r dbi option) comp" where
  "new_db_handle K Q a p conninfo flags vs =
     bindW (pq_do (PQconnectStart Q conninfo)) (\<lambda>conn.
     case conn of
       None \<Rightarrow> retW None
     | Some c \<Rightarrow>
         bindW (pq_do (PQconnection_bad Q c)) (\<lambda>bad.
         if bad then bindW (pq_do (PQfinish Q c)) (\<lambda>_. retW None)
         else bindW (pq_do (PQsetnonblocking Q c)) (\<lambda>r.
           if r = -1 then (\<lambda>_. None)
           else bindW (pq_do (PQsocket Q c)) (\<lambda>sk.
             bindW (connect_loop K Q c sk PGRES_POLLING_WRITING) (\<lambda>status.
             if status = PGRES_POLLING_FAILED then bindW (pq_do (PQfinish Q c)) (\<lambda>_. retW None)
             else bindW (updW (\<lambda>w. Some (register_cleanup K p (Db_disconnect a) w))) (\<lambda>_.
               retW (Some \<lparr>dbh_pool = p, dbh_conninfo = conninfo, dbh_conn = c, dbh_flags = flags, in_transaction = False,
                 stmts = Map.empty, st_next = a + 1, vars = vs\<rparr>)))))))"

definition disconnect :: "('u, 'r) pq_ops \<Rightarrow> (('v, 'j, 'P, 'm, 'u) world, 'r, unit) db" where
  "disconnect Q = bindW get_d (\<lambda>d. with_world (pq_do (PQfinish Q (dbh_conn d))))"

definition db_set_debug :: "bool \<Rightarrow> ('w, 'r, unit) db" where
  "db_set_debug b =
     upd_d (\<lambda>d. d\<lparr>dbh_flags := (if b then dbh_flags d OR DBI_DEBUG else dbh_flags d AND NOT DBI_DEBUG)\<rparr>)"

definition db_get_debug :: "('w, 'r, int) db" where
  "db_get_debug = bindW get_d (\<lambda>d. retW (dbh_flags d AND DBI_DEBUG))"

section \<open>Statements\<close>

definition placeholder :: "string \<Rightarrow> bool" where
  "placeholder q \<longleftrightarrow> q = ''?'' \<or> q = ''@''"

text \<open>The types of the placeholders from the argument list; a missing or bad one is a failed assertion.\<close>

fun place_types :: "string list \<Rightarrow> int list \<Rightarrow> int list option" where
  "place_types [] ts = Some []"
| "place_types (q # qs) ts =
     (if placeholder q
      then (case ts of
              [] \<Rightarrow> None
            | t # ts1 \<Rightarrow> if DBI_INT \<le> t \<and> t \<le> DBI_INT_OR_NULL then map_option ((#) t) (place_types qs ts1) else None)
      else place_types qs ts)"

definition new_st_handle ::
  "('v, 'j, 'P, 'm, 'u) kernel \<Rightarrow> dbi_lib \<Rightarrow> string \<Rightarrow> int list \<Rightarrow> (('v, 'j, 'P, 'm, 'u) world, 'r, addr) db" where
  "new_st_handle K L query types = (\<lambda>(d, w).
     (let (p, P1) = new_subpool (k_pools K) (r_pools (w_re w)) (dbh_pool d);
          a = st_next d; qs = re_qs L query
      in do {
        ts \<leftarrow> place_types qs types;
        Some (Ret a,
          d\<lparr>stmts := (stmts d)(a \<mapsto> \<lparr>st_pool = p, orig_query = query, st_query = qs, intypes = ts, st_result = None,
              fetch_allowed = False, next_tuple = st_junk L, outtypes = None\<rparr>), st_next := a + 1\<rparr>,
          register_cleanup K p (St_finish_handle a) (w\<lparr>w_re := (w_re w)\<lparr>r_pools := P1\<rparr>\<rparr>))
      }))"

text \<open>\<open>finish_handle\<close> and \<open>st_finish\<close> do the same; \<open>PQclear\<close> only frees memory.\<close>

definition finish_handle :: "addr \<Rightarrow> ('w, 'r, unit) db" where
  "finish_handle a = upd_st a (\<lambda>st. st\<lparr>st_result := None\<rparr>)"

definition st_finish :: "addr \<Rightarrow> ('w, 'r, unit) db" where
  "st_finish a = upd_st a (\<lambda>st. st\<lparr>st_result := None\<rparr>)"

section \<open>Building the query\<close>

fun PQescapeString :: "string \<Rightarrow> string" where
  "PQescapeString [] = []"
| "PQescapeString (c # s) =
     (if c = CHR 0x5C then [CHR 0x5C, CHR 0x5C] else if c = CHR 0x27 then [CHR 0x27, CHR 0x27] else [c]) @ PQescapeString s"

definition escape_string :: "string \<Rightarrow> string" where
  "escape_string s = PQescapeString s"

definition sql_quote :: "string \<Rightarrow> string" where
  "sql_quote s = [CHR 0x27] @ escape_string s @ [CHR 0x27]"

text \<open>The text for a simple placeholder; \<open>None\<close> is an \<open>abort\<close> or an argument of the wrong type.\<close>

fun scalar_text :: "dbi_lib \<Rightarrow> int \<Rightarrow> dbi_arg \<Rightarrow> string option" where
  "scalar_text L t (Int_arg n) =
     (if t = DBI_INT then Some (pitoa L n)
      else if t = DBI_INT_OR_NULL then Some (if n \<noteq> 0 then pitoa L n else ''null'')
      else if t = DBI_BOOL then Some (if n \<noteq> 0 then [CHR 0x27] @ ''t'' @ [CHR 0x27] else [CHR 0x27] @ ''f'' @ [CHR 0x27])
      else if t = DBI_CHAR then Some (sql_quote (c_str [char_of n]))
      else None)"
| "scalar_text L t (Str_arg s) =
     (if t = DBI_STRING then Some (case s of None \<Rightarrow> ''null'' | Some x \<Rightarrow> sql_quote x) else None)"
| "scalar_text L t _ = None"

text \<open>The text for a list placeholder; the vector must not be empty.\<close>

fun vector_text :: "dbi_lib \<Rightarrow> int \<Rightarrow> dbi_arg \<Rightarrow> string option" where
  "vector_text L t (Int_vec ns) =
     (if ns \<noteq> [] \<and> t = DBI_INT then Some (pjoin L (map (pitoa L) ns) '','') else None)"
| "vector_text L t (Str_vec xs) =
     (if xs \<noteq> [] \<and> t = DBI_STRING
      then map_option (\<lambda>ys. [CHR 0x27] @ pjoin L (map escape_string ys) ([CHR 0x27] @ '','' @ [CHR 0x27]) @ [CHR 0x27]) (those xs)
      else None)"
| "vector_text L t _ = None"

fun query_text :: "dbi_lib \<Rightarrow> string list \<Rightarrow> int list \<Rightarrow> dbi_arg list \<Rightarrow> string option" where
  "query_text L [] ts args = Some []"
| "query_text L (q # qs) ts args =
     (if placeholder q
      then (case (ts, args) of
              (t # ts1, a # args1) \<Rightarrow> do {
                s \<leftarrow> (if q = ''?'' then scalar_text L t a else vector_text L t a);
                r \<leftarrow> query_text L qs ts1 args1;
                Some (s @ r)
              }
            | _ \<Rightarrow> None)
      else map_option ((@) q) (query_text L qs ts args))"

section \<open>Executing\<close>

definition throws :: "'r dbi \<Rightarrow> bool" where
  "throws d \<longleftrightarrow> dbh_flags d AND DBI_THROW_ERRORS \<noteq> 0"

definition die_or :: "('v, 'j, 'P, 'm, 'u) kernel \<Rightarrow> string \<Rightarrow> 'a \<Rightarrow> (('v, 'j, 'P, 'm, 'u) world, 'r, 'a) db" where
  "die_or K msg x = bindW get_d (\<lambda>d. if throws d then with_world (pth_die K msg) else retW x)"

definition exec_error ::
  "('v, 'j, 'P, 'm, 'u) kernel \<Rightarrow> ('u, 'r) pq_ops \<Rightarrow> 'r option \<Rightarrow> (('v, 'j, 'P, 'm, 'u) world, 'r, int) db" where
  "exec_error K Q result =
     die_or K (case result of
         None \<Rightarrow> ''dbi: st_execute: database execution error''
       | Some r \<Rightarrow> ''dbi: st_execute: '' @ PQresultErrorMessage Q r) (-1)"

text \<open>Waiting for a result; the value says that there was no error.\<close>

partial_function (option) busy_loop ::
  "('v, 'j, 'P, 'm, 'u) kernel \<Rightarrow> ('u, 'r) pq_ops \<Rightarrow> int \<Rightarrow> int \<Rightarrow> ('v, 'j, 'P, 'm, 'u) world
     \<Rightarrow> (bool outcome \<times> ('v, 'j, 'P, 'm, 'u) world) option" where
  "busy_loop K Q c sk w =
     bindW (pq_do (PQisBusy Q c)) (\<lambda>b.
       if \<not> b then retW True
       else bindW (pq_do (PQflush_eof Q c)) (\<lambda>eof.
         if eof then retW False
         else bindW (pth_wait_readable K sk (pq_poll Q sk REACTOR_READ)) (\<lambda>_.
           bindW (pq_do (PQconsumeInput Q c)) (\<lambda>r.
           if r \<noteq> 1 then retW False else busy_loop K Q c sk)))) w"

partial_function (option) collect ::
  "('v, 'j, 'P, 'm, 'u) kernel \<Rightarrow> ('u, 'r) pq_ops \<Rightarrow> addr \<Rightarrow> int \<Rightarrow> int \<Rightarrow> 'r dbi \<times> ('v, 'j, 'P, 'm, 'u) world
     \<Rightarrow> (bool outcome \<times> 'r dbi \<times> ('v, 'j, 'P, 'm, 'u) world) option" where
  "collect K Q a c sk s =
     bindW (with_world (busy_loop K Q c sk)) (\<lambda>ok.
       if \<not> ok then retW False
       else bindW (with_world (pq_do (PQgetResult Q c))) (\<lambda>r.
         if r = None then retW True
         else bindW (upd_st a (\<lambda>st. st\<lparr>st_result := r\<rparr>)) (\<lambda>_. collect K Q a c sk))) s"

definition result_value ::
  "('v, 'j, 'P, 'm, 'u) kernel \<Rightarrow> ('u, 'r) pq_ops \<Rightarrow> addr \<Rightarrow> (('v, 'j, 'P, 'm, 'u) world, 'r, int) db" where
  "result_value K Q a =
     bindW (get_st a) (\<lambda>st.
     case (PQresultStatus Q (st_result st), st_result st) of
       (PGRES_COMMAND_OK, Some r) \<Rightarrow>
         bindW (upd_st a (\<lambda>st. st\<lparr>fetch_allowed := False\<rparr>)) (\<lambda>_.
         retW (case PQcmdTuples Q r of
                 None \<Rightarrow> 0
               | Some s \<Rightarrow> (case scan_int s of None \<Rightarrow> 0 | Some n \<Rightarrow> n)))
     | (PGRES_TUPLES_OK, Some r) \<Rightarrow>
         bindW (upd_st a (\<lambda>st. st\<lparr>fetch_allowed := True, next_tuple := 0\<rparr>)) (\<lambda>_. retW (PQntuples Q r))
     | (_, r) \<Rightarrow> exec_error K Q r)"

text \<open>The part of \<open>st_execute\<close> from the connection on, for a query that has been put together.\<close>

definition run_query ::
  "('v, 'j, 'P, 'm, 'u) kernel \<Rightarrow> ('u, 'r) pq_ops \<Rightarrow> addr \<Rightarrow> string \<Rightarrow> (('v, 'j, 'P, 'm, 'u) world, 'r, int) db" where
  "run_query K Q a query =
     bindW get_d (\<lambda>d.
     bindW (with_world (pq_do (PQisnonblocking Q (dbh_conn d)))) (\<lambda>nb.
     if \<not> nb then (\<lambda>_. None)
     else bindW (with_world (pq_do (PQsocket Q (dbh_conn d)))) (\<lambda>sk.
       bindW (with_world (pq_do (PQsendQuery Q (dbh_conn d) query))) (\<lambda>r.
       if r \<noteq> 1 then exec_error K Q None
       else bindW (collect K Q a (dbh_conn d) sk) (\<lambda>ok.
         if \<not> ok then exec_error K Q None else result_value K Q a)))))"

text \<open>
  \<open>st_execute\<close>. Outside a transaction it calls itself for \<open>begin work\<close>, with the flag set so that the
  recursion ends.
\<close>

partial_function (option) st_execute ::
  "('v, 'j, 'P, 'm, 'u) kernel \<Rightarrow> ('u, 'r) pq_ops \<Rightarrow> dbi_lib \<Rightarrow> addr \<Rightarrow> dbi_arg list
     \<Rightarrow> 'r dbi \<times> ('v, 'j, 'P, 'm, 'u) world \<Rightarrow> (int outcome \<times> 'r dbi \<times> ('v, 'j, 'P, 'm, 'u) world) option" where
  "st_execute K Q L a args s =
     bindW (get_st a) (\<lambda>st.
     if query_text L (st_query st) (intypes st) args = None then (\<lambda>_. None)
     else bindW get_d (\<lambda>d.
       if in_transaction d then run_query K Q a (the (query_text L (st_query st) (intypes st) args))
       else bindW (upd_d (\<lambda>d. d\<lparr>in_transaction := True\<rparr>)) (\<lambda>_.
         bindW (new_st_handle K L ''begin work'' []) (\<lambda>bw.
         bindW (st_execute K Q L bw []) (\<lambda>r.
         if r = -1 then bindW (upd_d (\<lambda>d. d\<lparr>in_transaction := False\<rparr>)) (\<lambda>_. exec_error K Q None)
         else run_query K Q a (the (query_text L (st_query st) (intypes st) args))))))) s"

definition end_transaction ::
  "('v, 'j, 'P, 'm, 'u) kernel \<Rightarrow> ('u, 'r) pq_ops \<Rightarrow> dbi_lib \<Rightarrow> string \<Rightarrow> (('v, 'j, 'P, 'm, 'u) world, 'r, unit) db" where
  "end_transaction K Q L cmd =
     bindW (new_st_handle K L cmd []) (\<lambda>sth.
     bindW (st_execute K Q L sth []) (\<lambda>_. upd_d (\<lambda>d. d\<lparr>in_transaction := False\<rparr>)))"

definition db_commit where "db_commit K Q L = end_transaction K Q L ''commit work''"
definition db_rollback where "db_rollback K Q L = end_transaction K Q L ''rollback work''"

section \<open>Fetching\<close>

definition st_bind :: "addr \<Rightarrow> nat \<Rightarrow> nat \<Rightarrow> int \<Rightarrow> ('w, 'r, unit) db" where
  "st_bind a colidx varptr typ =
     upd_st a (\<lambda>st.
       (let ots = (case outtypes st of None \<Rightarrow> [] | Some ots \<Rightarrow> ots);
            ext = ots @ replicate (colidx + 1 - length ots) \<lparr>o_type = 0, o_varptr = None\<rparr>
        in st\<lparr>outtypes := Some (ext[colidx := \<lparr>o_type = typ, o_varptr = Some varptr\<rparr>])\<rparr>))"

fun parse_fixed_width_int :: "string \<Rightarrow> nat \<Rightarrow> int" where
  "parse_fixed_width_int str 0 = 0"
| "parse_fixed_width_int str (Suc n) = parse_fixed_width_int str n * 10 + (schar (c_nth str n) - 48)"

text \<open>A group of the match; the code returns early when the vector is too short, so all later fields stay.\<close>

definition group :: "string option list \<Rightarrow> nat \<Rightarrow> string option" where
  "group v k = (if k < length v then v ! k else None)"

definition fixed :: "string option \<Rightarrow> nat \<Rightarrow> int" where
  "fixed s n = (case s of None \<Rightarrow> 0 | Some x \<Rightarrow> parse_fixed_width_int x n)"

definition scanned :: "string option \<Rightarrow> int" where
  "scanned s = (case s of None \<Rightarrow> 0 | Some x \<Rightarrow> (case scan_int x of None \<Rightarrow> 0 | Some n \<Rightarrow> n))"

definition timestamp_of :: "string option list \<Rightarrow> dbi_timestamp" where
  "timestamp_of v =
     \<lparr>ts_is_null = False, year = fixed (group v 1) 4, month = fixed (group v 2) 2, day = fixed (group v 3) 2,
      hour = fixed (group v 4) 2, minute = fixed (group v 5) 2, sec = fixed (group v 6) 2, microsecs = scanned (group v 7),
      utc_offset = (case (if length v \<le> 9 then None else group v 8, group v 9) of
        (Some sign, Some s) \<Rightarrow> if c_nth sign 0 = CHR ''-'' then - parse_fixed_width_int s 2 else parse_fixed_width_int s 2
      | _ \<Rightarrow> 0)\<rparr>"

definition parse_timestamp ::
  "('v, 'j, 'P, 'm, 'u) kernel \<Rightarrow> dbi_lib \<Rightarrow> string \<Rightarrow> (('v, 'j, 'P, 'm, 'u) world, 'r, dbi_timestamp) db" where
  "parse_timestamp K L str =
     (case re_timestamp L str of
        None \<Rightarrow> with_world (pth_die K (''dbi: parse_timestamp: invalid timestamp: '' @ str))
      | Some v \<Rightarrow> retW (timestamp_of v))"

definition interval_of :: "string option list \<Rightarrow> dbi_interval" where
  "interval_of v =
     \<lparr>iv_is_null = False, secs = fixed (group v 6) 2, mins = fixed (group v 5) 2, hours = fixed (group v 4) 2,
      days = scanned (group v 3), months = scanned (group v 2), years = scanned (group v 1)\<rparr>"

definition parse_interval ::
  "('v, 'j, 'P, 'm, 'u) kernel \<Rightarrow> dbi_lib \<Rightarrow> string \<Rightarrow> (('v, 'j, 'P, 'm, 'u) world, 'r, dbi_interval) db" where
  "parse_interval K L str =
     (case re_interval L str of
        None \<Rightarrow> with_world (pth_die K (''dbi: parse_interval: invalid interval: '' @ str))
      | Some v \<Rightarrow> retW (interval_of v))"

definition null_timestamp :: dbi_timestamp where
  "null_timestamp = (timestamp_of [])\<lparr>ts_is_null := True\<rparr>"

definition null_interval :: dbi_interval where
  "null_interval = (interval_of [])\<lparr>iv_is_null := True\<rparr>"

definition set_var :: "nat \<Rightarrow> dbi_val \<Rightarrow> ('w, 'r, unit) db" where
  "set_var x v = upd_d (\<lambda>d. d\<lparr>vars := (vars d)(x := v)\<rparr>)"

text \<open>One column: \<open>r\<close> is its value, \<open>None\<close> for null. Unknown types abort.\<close>

definition fetch_col ::
  "('v, 'j, 'P, 'm, 'u) kernel \<Rightarrow> dbi_lib \<Rightarrow> int \<Rightarrow> nat \<Rightarrow> string option \<Rightarrow> (('v, 'j, 'P, 'm, 'u) world, 'r, unit) db" where
  "fetch_col K L typ x r =
     (if typ = DBI_STRING then set_var x (Str_val r)
      else if typ = DBI_INT \<or> typ = DBI_INT_OR_NULL
      then (case r of
              None \<Rightarrow> set_var x (Int_val 0)
            | Some s \<Rightarrow> (case scan_int s of None \<Rightarrow> retW () | Some n \<Rightarrow> set_var x (Int_val n)))
      else if typ = DBI_BOOL then set_var x (Int_val (if r = Some ''t'' then 1 else 0))
      else if typ = DBI_CHAR then set_var x (Char_val (case r of None \<Rightarrow> NUL | Some s \<Rightarrow> c_nth s 0))
      else if typ = DBI_TIMESTAMP
      then (case r of
              None \<Rightarrow> set_var x (Time_val null_timestamp)
            | Some s \<Rightarrow> bindW (parse_timestamp K L s) (\<lambda>ts. set_var x (Time_val ts)))
      else if typ = DBI_INTERVAL
      then (case r of
              None \<Rightarrow> set_var x (Interval_val null_interval)
            | Some s \<Rightarrow> bindW (parse_interval K L s) (\<lambda>iv. set_var x (Interval_val iv)))
      else (\<lambda>_. None))"

definition cell :: "('u, 'r) pq_ops \<Rightarrow> 'r \<Rightarrow> int \<Rightarrow> nat \<Rightarrow> string option" where
  "cell Q r row col = (if PQgetisnull Q r row (int col) then None else Some (PQgetvalue Q r row (int col)))"

fun fetch_cols ::
  "('v, 'j, 'P, 'm, 'u) kernel \<Rightarrow> ('u, 'r) pq_ops \<Rightarrow> dbi_lib \<Rightarrow> 'r \<Rightarrow> int \<Rightarrow> nat \<Rightarrow> otype list
     \<Rightarrow> (('v, 'j, 'P, 'm, 'u) world, 'r, unit) db" where
  "fetch_cols K Q L r row i [] = retW ()"
| "fetch_cols K Q L r row i (ot # ots) =
     bindW (case o_varptr ot of
              None \<Rightarrow> retW ()
            | Some x \<Rightarrow> if o_type ot \<noteq> 0 then fetch_col K L (o_type ot) x (cell Q r row i) else retW ()) (\<lambda>_.
     fetch_cols K Q L r row (i + 1) ots)"

definition st_fetch ::
  "('v, 'j, 'P, 'm, 'u) kernel \<Rightarrow> ('u, 'r) pq_ops \<Rightarrow> dbi_lib \<Rightarrow> addr \<Rightarrow> (('v, 'j, 'P, 'm, 'u) world, 'r, int) db" where
  "st_fetch K Q L a =
     bindW (get_st a) (\<lambda>st.
     case (st_result st, fetch_allowed st) of
       (Some r, True) \<Rightarrow>
         if next_tuple st \<ge> PQntuples Q r then retW 0
         else bindW (case outtypes st of None \<Rightarrow> retW () | Some ots \<Rightarrow> fetch_cols K Q L r (next_tuple st) 0 ots) (\<lambda>_.
              bindW (upd_st a (\<lambda>st. st\<lparr>next_tuple := next_tuple st + 1\<rparr>)) (\<lambda>_. retW 1))
     | _ \<Rightarrow> die_or K ''dbi: st_fetch: fetch without execute, or on a non-SELECT statement'' (-1))"

definition all_rows :: "('u, 'r) pq_ops \<Rightarrow> 'r \<Rightarrow> string option list list" where
  "all_rows Q r =
     map (\<lambda>row. map (\<lambda>col. cell Q r (int row) col) [0..<nat (PQnfields Q r)]) [0..<nat (PQntuples Q r)]"

definition st_fetch_all_rows ::
  "('v, 'j, 'P, 'm, 'u) kernel \<Rightarrow> ('u, 'r) pq_ops \<Rightarrow> addr
     \<Rightarrow> (('v, 'j, 'P, 'm, 'u) world, 'r, string option list list option) db" where
  "st_fetch_all_rows K Q a =
     bindW (get_st a) (\<lambda>st.
     case (st_result st, fetch_allowed st) of
       (Some r, True) \<Rightarrow> retW (Some (all_rows Q r))
     | _ \<Rightarrow> die_or K ''dbi: st_fetch_all_rows: fetch without execute, or on a non-SELECT statement'' None)"

text \<open>\<open>x\<close> is the local variable \<open>serial\<close>, which the code does not initialise.\<close>

definition st_serial ::
  "('v, 'j, 'P, 'm, 'u) kernel \<Rightarrow> ('u, 'r) pq_ops \<Rightarrow> dbi_lib \<Rightarrow> string \<Rightarrow> nat \<Rightarrow> (('v, 'j, 'P, 'm, 'u) world, 'r, dbi_val) db" where
  "st_serial K Q L seq_name x =
     bindW (new_st_handle K L ''select currval (?)'' [DBI_STRING]) (\<lambda>sth2.
     bindW (st_execute K Q L sth2 [Str_arg (Some seq_name)]) (\<lambda>_.
     bindW (st_bind sth2 0 x DBI_INT) (\<lambda>_.
     bindW (st_fetch K Q L sth2) (\<lambda>r.
     if r = 0 then die_or K ''dbi: st_serial: failed to fetch sequence value'' (Int_val (-1))
     else bindW get_d (\<lambda>d. retW (vars d x))))))"

end
