(* ===== verification/Dbi_Query.thy ===== *)
theory Dbi_Query
  imports Dbi
begin

text \<open>
  How the server reads the queries that the database library builds: the lexical structure of SQL, and
  that arguments only fill the places of their placeholders.
\<close>

section \<open>How the server reads a query\<close>

text \<open>
  The lexical structure of a query: string literals, in which a doubled quote is a quote and a backslash
  makes the next character literal; names between double quotes; comments, from two dashes to the end of
  the line or between \<open>/*\<close> and \<open>*/\<close>, which nest; words, which are names, keywords and numbers; and single
  characters. \<open>sql_literal\<close>, \<open>sql_name\<close> and \<open>sql_comment\<close> start behind the opening characters and give the
  contents and the text behind. A query that ends inside one of them is not read, nor one with a dollar
  sign at the start of a word, where some servers have literals of another kind. Two literals that are
  separated by a line break only, which the server joins, are read one by one here.
\<close>

abbreviation QUOTE :: char where "QUOTE \<equiv> CHR 0x27"
abbreviation DQUOTE :: char where "DQUOTE \<equiv> CHR 0x22"
abbreviation BACKSLASH :: char where "BACKSLASH \<equiv> CHR 0x5C"

fun sql_literal :: "string \<Rightarrow> (string \<times> string) option" where
  "sql_literal [] = None"
| "sql_literal (c # s) =
     (if c = BACKSLASH then (case s of [] \<Rightarrow> None | x # t \<Rightarrow> map_option (map_prod ((#) x) id) (sql_literal t))
      else if c = QUOTE
      then (case s of
              [] \<Rightarrow> Some ([], [])
            | x # t \<Rightarrow> if x = QUOTE then map_option (map_prod ((#) QUOTE) id) (sql_literal t) else Some ([], s))
      else map_option (map_prod ((#) c) id) (sql_literal s))"

fun sql_name :: "string \<Rightarrow> (string \<times> string) option" where
  "sql_name [] = None"
| "sql_name (c # s) =
     (if c = DQUOTE
      then (case s of
              [] \<Rightarrow> Some ([], [])
            | x # t \<Rightarrow> if x = DQUOTE then map_option (map_prod ((#) DQUOTE) id) (sql_name t) else Some ([], s))
      else map_option (map_prod ((#) c) id) (sql_name s))"

fun sql_comment :: "nat \<Rightarrow> string \<Rightarrow> (string \<times> string) option" where
  "sql_comment d (c # x # s) =
     (if c = CHR ''*'' \<and> x = CHR ''/''
      then (if d = 0 then Some ([], s) else map_option (map_prod ((@) ''*/'') id) (sql_comment (d - 1) s))
      else if c = CHR ''/'' \<and> x = CHR ''*'' then map_option (map_prod ((@) ''/*'') id) (sql_comment (Suc d) s)
      else map_option (map_prod ((#) c) id) (sql_comment d (x # s)))"
| "sql_comment d s = None"

definition word_char :: "char \<Rightarrow> bool" where
  "word_char c \<longleftrightarrow> isalnum c \<or> c \<in> {CHR ''_'', CHR ''.'', CHR ''$''} \<or> of_char c \<ge> (128 :: nat)"

definition same_line :: "char \<Rightarrow> bool" where
  "same_line c \<longleftrightarrow> c \<noteq> LF \<and> c \<noteq> CR"

datatype sql_token = Code char | Word string | Lit string | Name string | Comment string

lemma sql_literal_shorter: "sql_literal s = Some (v, r) \<Longrightarrow> length r < length s"
proof (induction s arbitrary: v r rule: sql_literal.induct)
  case (2 c s)
  then show ?case by (fastforce split: if_splits list.splits)
qed simp

lemma sql_name_shorter: "sql_name s = Some (v, r) \<Longrightarrow> length r < length s"
proof (induction s arbitrary: v r rule: sql_name.induct)
  case (2 c s)
  then show ?case by (fastforce split: if_splits list.splits)
qed simp

lemma sql_comment_shorter: "sql_comment d s = Some (v, r) \<Longrightarrow> length r < length s"
proof (induction d s arbitrary: v r rule: sql_comment.induct)
  case (1 d c x s)
  then show ?case by (fastforce split: if_splits)
qed simp_all

definition enclosed :: "(string \<Rightarrow> sql_token) \<Rightarrow> (string \<times> string) option \<Rightarrow> (sql_token \<times> string) option" where
  "enclosed k = map_option (map_prod k id)"

text \<open>The first token of a text and what is behind it.\<close>

definition sql_token :: "char \<Rightarrow> string \<Rightarrow> (sql_token \<times> string) option" where
  "sql_token c t =
     (if c = QUOTE then enclosed Lit (sql_literal t)
      else if c = DQUOTE then enclosed Name (sql_name t)
      else if c = CHR ''-'' \<and> take 1 t = ''-'' then Some (Comment (takeWhile same_line (tl t)), dropWhile same_line (tl t))
      else if c = CHR ''/'' \<and> take 1 t = ''*'' then enclosed Comment (sql_comment 0 (tl t))
      else if c = CHR ''$'' then None
      else if word_char c then Some (Word (c # takeWhile word_char t), dropWhile word_char t)
      else Some (Code c, t))"

lemma sql_token_shorter: "sql_token c t = Some (k, r) \<Longrightarrow> length r < length (c # t)"
  using sql_literal_shorter [of t] sql_name_shorter [of t] sql_comment_shorter [of 0 "tl t"]
    length_dropWhile_le [of same_line "tl t"] length_dropWhile_le [of word_char t]
  by (fastforce simp: sql_token_def enclosed_def split: if_splits)

function sql_tokens :: "string \<Rightarrow> sql_token list option" where
  "sql_tokens s =
     (case s of
        [] \<Rightarrow> Some []
      | c # t \<Rightarrow>
          (case sql_token c t of
             None \<Rightarrow> None
           | Some (k, r) \<Rightarrow> map_option ((#) k) (sql_tokens r)))"
  by auto
termination
  by (relation "measure length") (auto dest: sql_token_shorter)

declare sql_tokens.simps [simp del]

lemma sql_tokens_Nil [simp]: "sql_tokens [] = Some []"
  by (simp add: sql_tokens.simps)

lemma sql_tokens_step: "sql_token c t = Some (k, r) \<Longrightarrow> sql_tokens (c # t) = map_option ((#) k) (sql_tokens r)"
  by (subst sql_tokens.simps) simp

text \<open>What is enclosed ends at the same place whatever follows, when something does follow.\<close>

lemma sql_literal_append: "sql_literal s = Some (v, r) \<Longrightarrow> r \<noteq> [] \<Longrightarrow> sql_literal (s @ x) = Some (v, r @ x)"
proof (induction s arbitrary: v r rule: sql_literal.induct)
  case (2 c s)
  then show ?case by (fastforce split: if_splits list.splits)
qed simp

lemma sql_name_append: "sql_name s = Some (v, r) \<Longrightarrow> r \<noteq> [] \<Longrightarrow> sql_name (s @ x) = Some (v, r @ x)"
proof (induction s arbitrary: v r rule: sql_name.induct)
  case (2 c s)
  then show ?case by (fastforce split: if_splits list.splits)
qed simp

lemma sql_comment_append: "sql_comment d s = Some (v, r) \<Longrightarrow> sql_comment d (s @ x) = Some (v, r @ x)"
proof (induction d s arbitrary: v r rule: sql_comment.induct)
  case (1 d c y s)
  then show ?case by (fastforce split: if_splits)
qed simp_all

lemma while_append:
  "dropWhile P s \<noteq> [] \<Longrightarrow> takeWhile P (s @ x) = takeWhile P s \<and> dropWhile P (s @ x) = dropWhile P s @ x"
  by (induction s) auto

lemma sql_token_append:
  assumes "sql_token c t = Some (k, r)" "r \<noteq> []"
  shows "sql_token c (t @ x) = Some (k, r @ x)"
proof -
  have "t \<noteq> []" using sql_token_shorter [OF assms(1)] assms(2) by auto
  then have t: "take 1 (t @ x) = take 1 t" "tl (t @ x) = tl t @ x" by (cases t; simp)+
  show ?thesis
    using assms sql_literal_append [of t _ _ x] sql_name_append [of t _ _ x] sql_comment_append [of 0 "tl t" _ _ x]
      while_append [of same_line "tl t" x] while_append [of word_char t x]
    unfolding sql_token_def t by (auto simp: enclosed_def split: if_splits)
qed

text \<open>
  A text whose last token is a single character, other than one that may start a comment, is read in the
  same way whatever follows it.
\<close>

lemma sql_tokens_append:
  assumes "sql_tokens p = Some ts" "ts \<noteq> []" "last ts = Code c" "c \<notin> {CHR ''-'', CHR ''/''}"
  shows "sql_tokens (p @ x) = map_option ((@) ts) (sql_tokens x)"
  using assms
proof (induction p arbitrary: ts rule: sql_tokens.induct)
  case (1 p)
  obtain a t k r ts' where p: "p = a # t" "sql_token a t = Some (k, r)" "sql_tokens r = Some ts'" "ts = k # ts'"
    using 1(2,3) by (subst (asm) sql_tokens.simps) (auto split: list.splits option.splits)
  show ?case
  proof (cases "r = []")
    case True
    then have k: "ts' = []" "k = Code c" using p(3,4) 1(4) by simp_all
    then have "a = c" "t = []" using p(2) True by (auto simp: sql_token_def enclosed_def split: if_splits)
    moreover have "sql_token c x = Some (Code c, x)"
      using p(2) 1(5) k(2) calculation by (auto simp: sql_token_def enclosed_def split: if_splits)
    ultimately show ?thesis using p k by (simp add: sql_tokens_step fun_eq_iff cong: option.map_cong)
  next
    case False
    then have "ts' \<noteq> []" using p(3) by (subst (asm) sql_tokens.simps) (auto split: list.splits option.splits)
    then have "sql_tokens (r @ x) = map_option ((@) ts') (sql_tokens x)"
      using 1(1) [OF p(1) p(2) refl, of ts'] p(3,4) 1(4,5) by simp
    then show ?thesis
      using sql_tokens_step [OF sql_token_append [OF p(2) False]] p(1,4) by (simp add: option.map_comp comp_def)
  qed
qed

lemma sql_literal_escape:
  "r = [] \<or> hd r \<noteq> QUOTE \<Longrightarrow> sql_literal (PQescapeString s @ QUOTE # r) = Some (s, r)"
  by (induction s) (auto split: list.splits)

lemma sql_tokens_quote:
  assumes "r = [] \<or> hd r \<noteq> QUOTE"
  shows "sql_tokens (sql_quote s @ r) = map_option ((@) [Lit s]) (sql_tokens r)"
proof -
  have "sql_token QUOTE (PQescapeString s @ QUOTE # r) = Some (Lit s, r)"
    by (simp add: sql_token_def enclosed_def sql_literal_escape [OF assms])
  from sql_tokens_step [OF this] show ?thesis
    by (simp add: sql_quote_def escape_string_def fun_eq_iff [symmetric] cong: option.map_cong)
qed

lemma sql_tokens_word:
  assumes "w \<noteq> []" "list_all word_char w" "hd w \<noteq> CHR ''$''" "r = [] \<or> \<not> word_char (hd r)"
  shows "sql_tokens (w @ r) = map_option ((@) [Word w]) (sql_tokens r)"
proof -
  obtain c t where w: "w = c # t" using assms(1) by (cases w) auto
  have "word_char c" using assms(2) w by simp
  then have "c \<noteq> QUOTE" "c \<noteq> DQUOTE" "c \<noteq> CHR ''-''" "c \<noteq> CHR ''/''"
    by (auto simp: word_char_def isalnum_def isdigit_def isupper_def between_def)
  moreover have "takeWhile word_char (t @ r) = t" "dropWhile word_char (t @ r) = r"
    using assms(2,4) w by (cases r; simp add: list_all_iff)+
  ultimately have "sql_token c (t @ r) = Some (Word w, r)" using assms(3) \<open>word_char c\<close> w by (simp add: sql_token_def)
  from sql_tokens_step [OF this] show ?thesis using w by (simp add: fun_eq_iff [symmetric] cong: option.map_cong)
qed

text \<open>The laws of the string functions: a regular expression splits at the placeholders and keeps them.\<close>

definition two :: "nat \<Rightarrow> string" where
  "two n = [digit_char (n div 10 mod 10), digit_char (n mod 10)]"

definition four :: "nat \<Rightarrow> string" where
  "four n = [digit_char (n div 1000 mod 10), digit_char (n div 100 mod 10), digit_char (n div 10 mod 10), digit_char (n mod 10)]"

locale dbi_strings =
  fixes L :: dbi_lib
  assumes pitoa_law: "pitoa L n = show_int n"
    and pjoin_one: "pjoin L [x] sep = x"
    and pjoin_more: "pjoin L (x # y # xs) sep = x @ sep @ pjoin L (y # xs) sep"
    and split_plain: "s \<noteq> [] \<Longrightarrow> set s \<inter> {CHR ''?'', CHR ''@''} = {} \<Longrightarrow> re_qs L s = [s]"
    and split_place: "s \<noteq> [] \<Longrightarrow> set s \<inter> {CHR ''?'', CHR ''@''} = {} \<Longrightarrow> r \<noteq> [] \<Longrightarrow> set r \<inter> {CHR ''?'', CHR ''@''} = {} \<Longrightarrow>
      c \<in> {CHR ''?'', CHR ''@''} \<Longrightarrow> re_qs L (s @ c # r) = [s, [c], r]"
    and timestamp_law: "\<lbrakk>length y = 4; length mo = 2; length d = 2; length h = 2; length mi = 2; length s = 2;
      list_all isdigit (y @ mo @ d @ h @ mi @ s)\<rbrakk> \<Longrightarrow>
      \<exists>k. re_timestamp L (y @ ''-'' @ mo @ ''-'' @ d @ '' '' @ h @ '':'' @ mi @ '':'' @ s) =
        Some ([Some (y @ ''-'' @ mo @ ''-'' @ d @ '' '' @ h @ '':'' @ mi @ '':'' @ s),
          Some y, Some mo, Some d, Some h, Some mi, Some s] @ replicate k None)"

section \<open>Arguments cannot change a query\<close>

text \<open>What the server reads for an argument: a number is one word behind its sign, a string one literal.\<close>

definition number_tokens :: "int \<Rightarrow> sql_token list" where
  "number_tokens n = (if n < 0 then [Code CHR ''-''] else []) @ [Word (dec (nat \<bar>n\<bar>))]"

definition scalar_tokens :: "int \<Rightarrow> dbi_arg \<Rightarrow> sql_token list" where
  "scalar_tokens t a =
     (case a of
        Int_arg n \<Rightarrow>
          if t = DBI_BOOL then [Lit (if n \<noteq> 0 then ''t'' else ''f'')]
          else if t = DBI_CHAR then [Lit (c_str [char_of n])]
          else if t = DBI_INT_OR_NULL \<and> n = 0 then [Word ''null'']
          else number_tokens n
      | Str_arg (Some s) \<Rightarrow> [Lit s]
      | _ \<Rightarrow> [Word ''null''])"

fun comma_list :: "'a list \<Rightarrow> ('a \<Rightarrow> sql_token list) \<Rightarrow> sql_token list" where
  "comma_list [] g = []"
| "comma_list [x] g = g x"
| "comma_list (x # y # xs) g = g x @ [Code CHR '',''] @ comma_list (y # xs) g"

definition vector_tokens :: "dbi_arg \<Rightarrow> sql_token list" where
  "vector_tokens a =
     (case a of
        Int_vec ns \<Rightarrow> comma_list ns number_tokens
      | Str_vec xs \<Rightarrow> comma_list xs (\<lambda>x. [Lit (the x)])
      | _ \<Rightarrow> [])"

fun arg_tokens :: "string list \<Rightarrow> int list \<Rightarrow> dbi_arg list \<Rightarrow> sql_token list" where
  "arg_tokens [] ts args = []"
| "arg_tokens (q # qs) ts args =
     (if placeholder q
      then (if q = ''?'' then scalar_tokens (hd ts) (hd args) else vector_tokens (hd args)) @ arg_tokens qs (tl ts) (tl args)
      else the (sql_tokens q) @ arg_tokens qs ts args)"

text \<open>
  Where placeholders may stand in the text of a statement. Every piece of text is read by itself: a
  placeholder does not stand inside a literal, a quoted name or a comment. In front of a placeholder the
  text ends in a character of \<open>opens\<close>, so that an argument is not joined with a word (as in \<open>x1?\<close>) and its sign does
  not start a comment (as in \<open>a -?\<close>). Behind a placeholder it starts with a character of \<open>closes\<close>, and its
  first token other than space is neither a literal, which the server could join with the argument, nor
  a comment; unless the statement ends there, there is such a token.
\<close>

definition opens :: "char \<Rightarrow> bool" where
  "opens c \<longleftrightarrow> isspace c \<or> c \<in> set ''([,=<>+*''"

definition closes :: "char \<Rightarrow> bool" where
  "closes c \<longleftrightarrow> isspace c \<or> c \<in> set '')],;:=<>+-*/''"

fun space_token :: "sql_token \<Rightarrow> bool" where
  "space_token (Code c) = isspace c"
| "space_token _ = False"

fun plain_token :: "sql_token \<Rightarrow> bool" where
  "plain_token (Lit v) = False"
| "plain_token (Comment v) = False"
| "plain_token _ = True"

fun closes_argument :: "string list \<Rightarrow> bool" where
  "closes_argument [] = True"
| "closes_argument (p # ps) = (\<not> placeholder p \<and> p \<noteq> [] \<and> closes (hd p) \<and>
     (case dropWhile space_token (the (sql_tokens p)) of [] \<Rightarrow> ps = [] | k # _ \<Rightarrow> plain_token k))"

definition opens_argument :: "sql_token list \<Rightarrow> bool" where
  "opens_argument ts = (ts \<noteq> [] \<and> (case last ts of Code c \<Rightarrow> opens c | _ \<Rightarrow> False))"

fun separated :: "string list \<Rightarrow> bool" where
  "separated [] = True"
| "separated (q # qs) = (separated qs \<and>
     (if placeholder q then closes_argument qs
      else (case sql_tokens q of None \<Rightarrow> False | Some ts \<Rightarrow> qs = [] \<or> opens_argument ts)))"

lemma word_char_digit: "isdigit c \<Longrightarrow> word_char c \<and> c \<noteq> CHR ''$'' \<and> c \<noteq> CHR ''-''"
  by (auto simp: word_char_def isalnum_def isdigit_def between_def)

lemma closes_char: "closes c \<Longrightarrow> c \<noteq> QUOTE \<and> \<not> word_char c"
  by (auto simp: closes_def word_char_def isalnum_def isdigit_def isupper_def isspace_def between_def)

text \<open>A rest that does not run into the token in front of it.\<close>

definition apart :: "string \<Rightarrow> bool" where
  "apart r \<longleftrightarrow> r = [] \<or> hd r \<noteq> QUOTE \<and> \<not> word_char (hd r)"

lemma sql_tokens_number:
  assumes "apart r"
  shows "sql_tokens (show_int n @ r) = map_option ((@) (number_tokens n)) (sql_tokens r)"
proof -
  let ?d = "dec (nat \<bar>n\<bar>)"
  obtain c cs where d: "?d = c # cs" "isdigit c" using dec_digits [of "nat \<bar>n\<bar>"] by (cases ?d) auto
  have "list_all word_char ?d" using dec_digits(1) word_char_digit by (auto simp: list_all_iff)
  then have w: "sql_tokens (?d @ r) = map_option ((@) [Word ?d]) (sql_tokens r)"
    using assms d word_char_digit by (intro sql_tokens_word) (auto simp: apart_def)
  have "sql_token CHR ''-'' (?d @ r) = Some (Code CHR ''-'', ?d @ r)"
    using d word_char_digit [of c] by (auto simp: sql_token_def word_char_def isalnum_def isdigit_def isupper_def between_def)
  from sql_tokens_step [OF this] w show ?thesis
    by (auto simp: show_int_def number_tokens_def option.map_comp comp_def cong: option.map_cong)
qed

lemma sql_tokens_null: "apart r \<Longrightarrow> sql_tokens (''null'' @ r) = map_option ((@) [Word ''null'']) (sql_tokens r)"
  by (rule sql_tokens_word) (auto simp: apart_def word_char_def isalnum_def between_def)

lemma sql_tokens_comma: "sql_tokens ('','' @ r) = map_option ((@) [Code CHR '','']) (sql_tokens r)"
  using sql_tokens_append [of "'',''" "[Code CHR '','']" "CHR '',''" r]
  by (simp add: sql_tokens_step [of _ _ "Code CHR '',''" "[]"] sql_token_def word_char_def isalnum_def isdigit_def isupper_def between_def)

context dbi_strings
begin

lemma scalar_lexes:
  assumes "scalar_text L t a = Some s" "apart r"
  shows "sql_tokens (s @ r) = map_option ((@) (scalar_tokens t a)) (sql_tokens r)"
proof -
  have "(\<exists>x. s = sql_quote x \<and> scalar_tokens t a = [Lit x]) \<or> (\<exists>n. s = show_int n \<and> scalar_tokens t a = number_tokens n) \<or>
    (s = ''null'' \<and> scalar_tokens t a = [Word ''null''])"
  proof (cases a)
    case (Int_arg n)
    have "[QUOTE] @ ''t'' @ [QUOTE] = sql_quote ''t''" "[QUOTE] @ ''f'' @ [QUOTE] = sql_quote ''f''"
      by (simp_all add: sql_quote_def escape_string_def)
    then show ?thesis
      using assms(1) unfolding Int_arg
      by (auto simp: scalar_tokens_def pitoa_law dbi_types split: if_splits)
  next
    case (Str_arg x)
    then show ?thesis using assms(1) by (auto simp: scalar_tokens_def split: if_splits option.splits)
  qed (use assms in auto)
  then show ?thesis
    using sql_tokens_quote [of r] sql_tokens_number [OF assms(2)] sql_tokens_null [OF assms(2)] assms(2)
    unfolding apart_def by (elim disjE exE conjE) simp_all
qed

lemma pitoa_show: "pitoa L = show_int"
  by (rule ext) (rule pitoa_law)

lemma apart_comma: "apart ('','' @ r)"
  by (simp add: apart_def word_char_def isalnum_def isdigit_def isupper_def between_def)

lemma ints_lex:
  "ns \<noteq> [] \<Longrightarrow> apart r \<Longrightarrow>
     sql_tokens (pjoin L (map (pitoa L) ns) '','' @ r) = map_option ((@) (comma_list ns number_tokens)) (sql_tokens r)"
proof (induction ns rule: induct_list012)
  case (2 n)
  then show ?case by (simp add: pjoin_one pitoa_show sql_tokens_number)
next
  case (3 n m ns)
  let ?j = "pjoin L (map (pitoa L) (m # ns)) '','' @ r"
  have "sql_tokens (show_int n @ '','' @ ?j) = map_option ((@) (number_tokens n)) (sql_tokens ('','' @ ?j))"
    by (rule sql_tokens_number [OF apart_comma])
  with 3 show ?case by (simp add: pjoin_more pitoa_show sql_tokens_comma [simplified] option.map_comp comp_def)
qed simp

lemma strings_lex:
  assumes "ys \<noteq> []" "apart r"
  shows "sql_tokens ([QUOTE] @ pjoin L (map escape_string ys) ([QUOTE] @ '','' @ [QUOTE]) @ [QUOTE] @ r) =
    map_option ((@) (comma_list ys (\<lambda>y. [Lit y]))) (sql_tokens r)"
  using assms(1)
proof (induction ys rule: induct_list012)
  case (2 y)
  have "[QUOTE] @ pjoin L (map escape_string [y]) ([QUOTE] @ '','' @ [QUOTE]) @ [QUOTE] @ r = sql_quote y @ r"
    by (simp add: pjoin_one sql_quote_def)
  then show ?case using sql_tokens_quote [of r y] assms(2) unfolding apart_def by (simp only: comma_list.simps) blast
next
  case (3 y z ys)
  let ?j = "\<lambda>xs. [QUOTE] @ pjoin L (map escape_string xs) ([QUOTE] @ '','' @ [QUOTE]) @ [QUOTE] @ r"
  have e: "?j (y # z # ys) = sql_quote y @ '','' @ ?j (z # ys)" by (simp add: pjoin_more sql_quote_def)
  have "sql_tokens (sql_quote y @ '','' @ ?j (z # ys)) = map_option ((@) [Lit y]) (sql_tokens ('','' @ ?j (z # ys)))"
    by (rule sql_tokens_quote) simp
  also have "sql_tokens ('','' @ ?j (z # ys)) = map_option ((@) [Code CHR '','']) (sql_tokens (?j (z # ys)))"
    by (rule sql_tokens_comma)
  also have "sql_tokens (?j (z # ys)) = map_option ((@) (comma_list (z # ys) (\<lambda>y. [Lit y]))) (sql_tokens r)" using 3 by simp
  finally show ?case unfolding e by (simp add: option.map_comp comp_def)
qed simp

lemma comma_list_map: "comma_list (map h xs) g = comma_list xs (\<lambda>x. g (h x))"
  by (induction xs rule: induct_list012) simp_all

lemma those_Some: "those xs = Some ys \<Longrightarrow> xs = map Some ys"
  by (induction xs arbitrary: ys) (auto split: option.splits)

lemma vector_lexes:
  assumes "vector_text L t a = Some s" "apart r"
  shows "sql_tokens (s @ r) = map_option ((@) (vector_tokens a)) (sql_tokens r)"
proof (cases a)
  case (Int_vec ns)
  then show ?thesis using assms ints_lex by (auto simp: vector_tokens_def split: if_splits)
next
  case (Str_vec xs)
  then obtain ys where y: "xs = map Some ys" "ys \<noteq> []"
    "s = [QUOTE] @ pjoin L (map escape_string ys) ([QUOTE] @ '','' @ [QUOTE]) @ [QUOTE]"
    using assms(1) by (auto dest!: those_Some split: if_splits)
  show ?thesis
    using strings_lex [OF y(2) assms(2)] unfolding y(3) Str_vec y(1) vector_tokens_def by (simp add: comma_list_map)
qed (use assms in auto)

lemma closed_rest:
  assumes "query_text L qs ts args = Some r" "closes_argument qs"
  shows "apart r"
proof (cases qs)
  case (Cons p ps)
  then obtain r' where "r = p @ r'" "p \<noteq> []" "closes (hd p)" using assms by auto
  then show ?thesis using closes_char [of "hd p"] by (simp add: apart_def)
qed (use assms in \<open>simp add: apart_def\<close>)

lemma query_lexes:
  assumes "query_text L qs ts args = Some s" "separated qs"
  shows "sql_tokens s = Some (arg_tokens qs ts args)"
  using assms
proof (induction qs arbitrary: ts args s)
  case (Cons q qs)
  show ?case
  proof (cases "placeholder q")
    case True
    then obtain t ts1 a args1 x r where s: "ts = t # ts1" "args = a # args1" "query_text L qs ts1 args1 = Some r" "s = x @ r"
      "(if q = ''?'' then scalar_text L t a else vector_text L t a) = Some x"
      using Cons.prems(1) by (auto split: list.splits Option.bind_splits)
    have r: "sql_tokens r = Some (arg_tokens qs ts1 args1)" "apart r"
      using Cons.IH [OF s(3)] closed_rest [OF s(3)] Cons.prems(2) True by simp_all
    have "sql_tokens (x @ r) = map_option ((@) (if q = ''?'' then scalar_tokens t a else vector_tokens a)) (sql_tokens r)"
      using s(5) scalar_lexes [OF _ r(2)] vector_lexes [OF _ r(2)] by (auto split: if_splits)
    then show ?thesis using True r(1) s(1,2,4) by simp
  next
    case False
    then obtain r where r: "query_text L qs ts args = Some r" "s = q @ r" using Cons.prems(1) by auto
    obtain us where u: "sql_tokens q = Some us" "qs = [] \<or> opens_argument us" "separated qs"
      using Cons.prems(2) False by (auto split: option.splits)
    have rest: "sql_tokens r = Some (arg_tokens qs ts args)" by (rule Cons.IH [OF r(1) u(3)])
    show ?thesis
    proof (cases "qs = []")
      case True
      then show ?thesis using r u(1) False by simp
    next
      case False
      then obtain c where "us \<noteq> []" "last us = Code c" "opens c" using u(2) by (auto simp: opens_argument_def split: sql_token.splits)
      moreover from this have "c \<notin> {CHR ''-'', CHR ''/''}" by (auto simp: opens_def isspace_def between_def)
      ultimately have "sql_tokens s = map_option ((@) us) (sql_tokens r)" unfolding r(2) by (intro sql_tokens_append [OF u(1)])
      then show ?thesis using rest u(1) \<open>\<not> placeholder q\<close> by simp
    qed
  qed
qed simp

end

section \<open>Instances\<close>

fun qs_split :: "string \<Rightarrow> string list" where
  "qs_split [] = []"
| "qs_split (c # s) =
     (if c = CHR ''?'' \<or> c = CHR ''@'' then [c] # qs_split s
      else (case qs_split s of [] \<Rightarrow> [[c]] | p # ps \<Rightarrow> if placeholder p then [c] # p # ps else (c # p) # ps))"

fun join_strings :: "string list \<Rightarrow> string \<Rightarrow> string" where
  "join_strings [] sep = []"
| "join_strings [x] sep = x"
| "join_strings (x # y # xs) sep = x @ sep @ join_strings (y # xs) sep"

definition demo_lib :: dbi_lib where
  "demo_lib = \<lparr>pitoa = show_int, pjoin = join_strings, re_qs = qs_split,
     re_timestamp = (\<lambda>s. if length s = 19 then Some (map Some [s, take 4 s, take 2 (drop 5 s), take 2 (drop 8 s), take 2 (drop 11 s),
       take 2 (drop 14 s), take 2 (drop 17 s)]) else None),
     re_interval = (\<lambda>s. Some [Some []]), st_junk = 77\<rparr>"

lemma plain_not_placeholder: "set s \<inter> {CHR ''?'', CHR ''@''} = {} \<Longrightarrow> \<not> placeholder s"
  by (auto simp: placeholder_def)

lemma qs_split_plain: "s \<noteq> [] \<Longrightarrow> set s \<inter> {CHR ''?'', CHR ''@''} = {} \<Longrightarrow> qs_split s = [s]"
proof (induction s)
  case (Cons c s)
  then show ?case using plain_not_placeholder [of s] by (cases "s = []") auto
qed simp

lemma qs_split_place:
  assumes "s \<noteq> []" "set s \<inter> {CHR ''?'', CHR ''@''} = {}" "c = CHR ''?'' \<or> c = CHR ''@''"
  shows "qs_split (s @ c # r) = s # [c] # qs_split r"
  using assms(1,2)
proof (induction s)
  case (Cons x s)
  have c: "placeholder [c]" using assms(3) by (auto simp: placeholder_def)
  show ?case
  proof (cases "s = []")
    case True
    then show ?thesis using Cons.prems assms(3) c by auto
  next
    case False
    then show ?thesis using Cons plain_not_placeholder [of s] by auto
  qed
qed simp

interpretation demo_lib: dbi_strings demo_lib
proof
  fix y mo d h mi s :: string
  assume l: "length y = 4" "length mo = 2" "length d = 2" "length h = 2" "length mi = 2" "length s = 2"
  let ?t = "y @ ''-'' @ mo @ ''-'' @ d @ '' '' @ h @ '':'' @ mi @ '':'' @ s"
  have "re_timestamp demo_lib ?t = Some ([Some ?t, Some y, Some mo, Some d, Some h, Some mi, Some s] @ replicate 0 None)"
    using l by (simp add: demo_lib_def)
  then show "\<exists>k. re_timestamp demo_lib ?t = Some ([Some ?t, Some y, Some mo, Some d, Some h, Some mi, Some s] @ replicate k None)"
    by blast
qed (auto simp: demo_lib_def qs_split_plain qs_split_place)

section \<open>Properties\<close>

text \<open>
  C30: an escaped string, put between quotes and followed by anything but another quote, is read by the
  server as exactly the original string, whatever bytes it holds, and the literal ends at the quote that
  the library has written. The escaped text fits into the buffer of twice the length.
\<close>

theorem escape_string_literal:
  assumes "r = [] \<or> hd r \<noteq> QUOTE"
  shows "sql_literal (escape_string s @ QUOTE # r) = Some (s, r) \<and> length (escape_string s) \<le> 2 * length s"
proof
  show "sql_literal (escape_string s @ QUOTE # r) = Some (s, r)"
    using sql_literal_escape [OF assms] by (simp add: escape_string_def)
  show "length (escape_string s) \<le> 2 * length s" unfolding escape_string_def by (induction s) auto
qed

theorem escape_string_literal_witness:
  "sql_literal (escape_string [QUOTE, CHR '';'', BACKSLASH, QUOTE] @ QUOTE # '')'') = Some ([QUOTE, CHR '';'', BACKSLASH, QUOTE], '')'')"
  using escape_string_literal [of "'')''" "[QUOTE, CHR '';'', BACKSLASH, QUOTE]"] by simp

text \<open>
  C31: arguments cannot change the structure of a query. For a statement whose placeholders stand outside
  literals, quoted names and comments, each behind a space or one of \<open>( [ , = < > + *\<close> and in front of a
  space, punctuation or an operator and not next to a literal or a comment, the server reads the query
  that \<open>st_execute\<close> builds as that text with every argument in its place: strings as one literal each with
  exactly their contents, numbers as one word behind their sign. A statement such as \<open>a -?\<close> is not of
  this form: with a negative number its rest becomes a comment.
\<close>

theorem query_structure_fixed:
  assumes "dbi_strings L" "separated qs" "query_text L qs ts args = Some q"
  shows "sql_tokens q = Some (arg_tokens qs ts args)"
  by (rule dbi_strings.query_lexes [OF assms(1,3,2)])

definition demo_query :: "string list" where
  "demo_query =
     [''select '' @ DQUOTE # ''a b'' @ DQUOTE # '' from t where kind <> '' @ QUOTE # ''--'' @ QUOTE # '' and name = '', ''?'',
      '' and id > '', ''?'', ''; -- end'']"

theorem query_structure_fixed_witness:
  "\<exists>q. query_text demo_lib demo_query [DBI_STRING, DBI_INT] [Str_arg (Some (QUOTE # '' or 1=1 --'')), Int_arg (-7)] = Some q \<and>
     map_option (drop 19) (sql_tokens q) = Some [Word ''name'', Code CHR '' '', Code CHR ''='', Code CHR '' '', Lit (QUOTE # '' or 1=1 --''),
       Code CHR '' '', Word ''and'', Code CHR '' '', Word ''id'', Code CHR '' '', Code CHR ''>'', Code CHR '' '', Code CHR ''-'', Word ''7'',
       Code CHR '';'', Code CHR '' '', Comment '' end'']"
proof -
  let ?ts = "[DBI_STRING, DBI_INT]" and ?as = "[Str_arg (Some (QUOTE # '' or 1=1 --'')), Int_arg (-7)]"
  obtain q where q: "query_text demo_lib demo_query ?ts ?as = Some q"
    by (simp add: demo_query_def placeholder_def dbi_types)
  have "separated demo_query" by code_simp
  from query_structure_fixed [OF demo_lib.dbi_strings_axioms this q]
  have "sql_tokens q = Some (arg_tokens demo_query ?ts ?as)" .
  moreover have "drop 19 (arg_tokens demo_query ?ts ?as) = [Word ''name'', Code CHR '' '', Code CHR ''='', Code CHR '' '',
      Lit (QUOTE # '' or 1=1 --''), Code CHR '' '', Word ''and'', Code CHR '' '', Word ''id'', Code CHR '' '', Code CHR ''>'', Code CHR '' '',
      Code CHR ''-'', Word ''7'', Code CHR '';'', Code CHR '' '', Comment '' end'']" by code_simp
  ultimately show ?thesis using q by (intro exI [of _ q]) simp
qed

text \<open>Behind a minus sign a negative number makes a comment of the rest of the statement.\<close>

lemma minus_starts_comment:
  "query_text demo_lib [''select 1 -'', ''?'', '' from t''] [DBI_INT] [Int_arg (-5)] = Some ''select 1 --5 from t'' \<and>
   sql_tokens ''select 1 --5 from t'' = Some [Word ''select'', Code CHR '' '', Word ''1'', Code CHR '' '', Comment ''5 from t'']"
  by code_simp

end
