(* ===== verification/Dbi_Session.thy ===== *)
theory Dbi_Session
  imports Dbi_Query
begin

unbundle bit_operations_syntax

text \<open>
  Sessions with a database server: what reaches the server when statements are executed, committed and
  rolled back, and what happens when the connection is lost.
\<close>

section \<open>Sessions\<close>

text \<open>
  A connection without errors. \<open>log u\<close> are the queries that the server has received, \<open>todo u\<close> the results
  that have not been fetched, \<open>lag u\<close> how often input has to be consumed until the next one is complete;
  \<open>answers\<close> gives the results of a query from all queries so far. While a thread waits the view of its
  connection does not change.
\<close>

locale pq_session =
  fixes K :: "('v, 'j, 'P, 'm, 'u) kernel" and t :: tid and Q :: "('u, 'r) pq_ops" and c :: int and sk :: int
    and log :: "'u \<Rightarrow> string list" and todo :: "'u \<Rightarrow> 'r list" and lag :: "'u \<Rightarrow> nat" and busy :: "'u \<Rightarrow> nat"
    and answers :: "string list \<Rightarrow> 'r list"
  assumes switches: "polite K"
    and switch_law: "k_switch K w = Some w' \<Longrightarrow> runs t w \<Longrightarrow> map_option alarm_received (w_pths w' t) = Some False \<and>
      (log (os w'), todo (os w'), lag (os w')) = (log (os w), todo (os w), lag (os w)) \<and> (0 < busy (os w) \<longrightarrow> busy (os w') < busy (os w))"
    and poll_law: "pq_poll Q sk REACTOR_READ u = ((r, e, x), u') \<Longrightarrow> (log u', todo u', lag u') = (log u, todo u, lag u) \<and>
      (r = 0 \<longrightarrow> 0 < busy u' \<and> busy u' \<le> busy u)"
    and nonblocking_law: "\<exists>u'. PQisnonblocking Q c u = (True, u') \<and> (log u', todo u', lag u') = (log u, todo u, lag u)"
    and socket_law: "\<exists>u'. PQsocket Q c u = (sk, u') \<and> (log u', todo u', lag u') = (log u, todo u, lag u)"
    and send_law: "\<exists>u'. PQsendQuery Q c q u = (1, u') \<and> log u' = log u @ [q] \<and> todo u' = answers (log u @ [q])"
    and busy_law: "\<exists>u'. PQisBusy Q c u = (0 < lag u, u') \<and> (log u', todo u', lag u') = (log u, todo u, lag u)"
    and flush_law: "\<exists>u'. PQflush_eof Q c u = (False, u') \<and> (log u', todo u', lag u') = (log u, todo u, lag u)"
    and consume_law: "0 < lag u \<Longrightarrow> \<exists>u'. PQconsumeInput Q c u = (1, u') \<and> (log u', todo u') = (log u, todo u) \<and> lag u' < lag u"
    and result_law: "\<exists>u'. PQgetResult Q c u = (case todo u of [] \<Rightarrow> None | r # _ \<Rightarrow> Some r, u') \<and> log u' = log u \<and> todo u' = tl (todo u)"
begin

lemma wait_spec:
  assumes "runs t w"
  shows "\<exists>x w'. pth_wait_readable K sk (pq_poll Q sk REACTOR_READ) w = Some (Ret x, w') \<and> runs t w' \<and>
    (log (os w'), todo (os w'), lag (os w')) = (log (os w), todo (os w), lag (os w))"
  using assms unfolding pth_wait_readable_def
proof (induction "busy (os w)" arbitrary: w rule: less_induct)
  case less
  obtain r e x u where p: "pq_poll Q sk REACTOR_READ (os w) = ((r, e, x), u)" by (metis prod.collapse)
  note l = poll_law [OF p]
  show ?case
  proof (cases "r = 0")
    case False
    then show ?thesis
      using p l less.prems by (subst wait_fd.simps) (auto simp: bindW_def do_sys_def retW_def)
  next
    case True
    have f: "fits_short REACTOR_READ" by (simp add: fits_short_def REACTOR_READ_def)
    have al: "\<forall>w1 ws. k_switch K w1 = Some ws \<longrightarrow> runs t w1 \<longrightarrow> map_option alarm_received (w_pths ws t) = Some False"
      using switch_law by blast
    have "runs t (set_os u w)" using less.prems by simp
    from block_runs [OF switches this f al, of sk] obtain w' w1 ws where b: "block K sk REACTOR_READ (set_os u w) = Some (Ret (), w')"
      "runs t w'" "runs t w1" "os w1 = u" "k_switch K w1 = Some ws" "os w' = os ws" by auto
    have v: "(log (os w'), todo (os w'), lag (os w')) = (log (os w), todo (os w), lag (os w))" "busy (os w') < busy (os w)"
      using switch_law [OF b(5,3)] b(4,6) l True by auto
    have "wait_fd K REACTOR_READ sk (pq_poll Q sk REACTOR_READ) w = wait_fd K REACTOR_READ sk (pq_poll Q sk REACTOR_READ) w'"
      using p True b(1) by (subst wait_fd.simps) (simp add: bindW_def do_sys_def)
    then show ?thesis using less.hyps [OF v(2) b(2)] v(1) by simp
  qed
qed

lemma busy_spec:
  assumes "runs t w"
  shows "\<exists>w'. busy_loop K Q c sk w = Some (Ret True, w') \<and> runs t w' \<and> log (os w') = log (os w) \<and> todo (os w') = todo (os w)"
  using assms
proof (induction "lag (os w)" arbitrary: w rule: less_induct)
  case less
  obtain u where b: "PQisBusy Q c (os w) = (0 < lag (os w), u)" "(log u, todo u, lag u) = (log (os w), todo (os w), lag (os w))"
    using busy_law by blast
  show ?case
  proof (cases "0 < lag (os w)")
    case False
    then show ?thesis using b less.prems by (subst busy_loop.simps) (simp add: bindW_def pq_do_def retW_def)
  next
    case True
    obtain u1 where f: "PQflush_eof Q c u = (False, u1)" "(log u1, todo u1, lag u1) = (log u, todo u, lag u)" using flush_law by blast
    have "runs t (set_os u1 w)" using less.prems by simp
    then obtain x w1 where w1: "pth_wait_readable K sk (pq_poll Q sk REACTOR_READ) (set_os u1 w) = Some (Ret x, w1)" "runs t w1"
      "(log (os w1), todo (os w1), lag (os w1)) = (log u1, todo u1, lag u1)" using wait_spec by fastforce
    have "0 < lag (os w1)" using w1(3) f(2) b(2) True by simp
    then obtain u2 where g: "PQconsumeInput Q c (os w1) = (1, u2)" "(log u2, todo u2) = (log (os w1), todo (os w1))"
      "lag u2 < lag (os w1)" using consume_law by blast
    have "busy_loop K Q c sk w = busy_loop K Q c sk (set_os u2 w1)"
      using b(1) True f(1) w1(1) g(1) by (subst busy_loop.simps) (simp add: bindW_def pq_do_def)
    then show ?thesis using less.hyps [of "set_os u2 w1"] g(2,3) w1(2,3) f(2) b(2) by simp
  qed
qed

text \<open>Only the last result is kept.\<close>

lemma collect_spec:
  assumes "runs t w" "stmts d a = Some st"
  shows "\<exists>w'. collect K Q a c sk (d, w) = Some (Ret True,
      d\<lparr>stmts := (stmts d)(a \<mapsto> st\<lparr>st_result := (if todo (os w) = [] then st_result st else Some (last (todo (os w))))\<rparr>)\<rparr>, w') \<and>
    runs t w' \<and> log (os w') = log (os w) \<and> todo (os w') = []"
  using assms
proof (induction "todo (os w)" arbitrary: d w st)
  case Nil
  obtain w1 where b: "busy_loop K Q c sk w = Some (Ret True, w1)" "runs t w1" "log (os w1) = log (os w)" "todo (os w1) = todo (os w)"
    using busy_spec [OF Nil(2)] by blast
  obtain u where g: "PQgetResult Q c (os w1) = (None, u)" "log u = log (os w1)" "todo u = []"
    using result_law [of "os w1"] b(4) Nil(1) by auto
  have "(stmts d)(a \<mapsto> st) = stmts d" using Nil(3) by (simp add: fun_upd_idem)
  then have "d\<lparr>stmts := (stmts d)(a \<mapsto> st\<lparr>st_result := (if todo (os w) = [] then st_result st else Some (last (todo (os w))))\<rparr>)\<rparr> = d"
    using Nil(1) by simp
  moreover have "collect K Q a c sk (d, w) = Some (Ret True, d, set_os u w1)"
    using b(1) g(1) by (subst collect.simps) (simp add: bindW_def with_world_def pq_do_def retW_def)
  ultimately show ?case using b g by (intro exI [of _ "set_os u w1"]) (simp only: set_os_simps runs_set_os)
next
  case (Cons r rs)
  obtain w1 where b: "busy_loop K Q c sk w = Some (Ret True, w1)" "runs t w1" "log (os w1) = log (os w)" "todo (os w1) = todo (os w)"
    using busy_spec [OF Cons(3)] by blast
  obtain u where g: "PQgetResult Q c (os w1) = (Some r, u)" "log u = log (os w1)" "todo u = rs"
    using result_law [of "os w1"] b(4) Cons(2) [symmetric] by auto
  let ?d = "d\<lparr>stmts := (stmts d)(a \<mapsto> st\<lparr>st_result := Some r\<rparr>)\<rparr>"
  have "collect K Q a c sk (d, w) = collect K Q a c sk (?d, set_os u w1)"
    using b(1) g(1) Cons(4) by (subst collect.simps) (simp add: bindW_def with_world_def pq_do_def upd_st_def)
  moreover obtain w' where "collect K Q a c sk (?d, set_os u w1) = Some (Ret True,
      ?d\<lparr>stmts := (stmts ?d)(a \<mapsto> st\<lparr>st_result := (if rs = [] then Some r else Some (last rs))\<rparr>)\<rparr>, w')" "runs t w'"
      "log (os w') = log u" "todo (os w') = []"
    using Cons(1) [of "set_os u w1" ?d "st\<lparr>st_result := Some r\<rparr>"] g(3) b(2) by auto
  ultimately show ?case using Cons(2) [symmetric] g(2) b(3) by (intro exI [of _ w']) simp
qed

end

lemma db_bind [simp]:
  "stmts d a = Some st \<Longrightarrow> bindW (get_st a) f (d, w) = f st (d, w)"
  "bindW get_d g (d, w) = g d (d, w)"
  "bindW (upd_d h) k (d, w) = k () (h d, w)"
  "stmts d a = Some st \<Longrightarrow> bindW (upd_st a i) k (d, w) = k () (d\<lparr>stmts := (stmts d)(a \<mapsto> i st)\<rparr>, w)"
  by (simp_all add: bindW_def get_st_def get_d_def upd_d_def upd_st_def)

definition exec_value :: "('u, 'r) pq_ops \<Rightarrow> 'r \<Rightarrow> int" where
  "exec_value Q r =
     (case PQresultStatus Q (Some r) of
        PGRES_COMMAND_OK \<Rightarrow> (case PQcmdTuples Q r of None \<Rightarrow> 0 | Some s \<Rightarrow> (case scan_int s of None \<Rightarrow> 0 | Some n \<Rightarrow> n))
      | PGRES_TUPLES_OK \<Rightarrow> PQntuples Q r
      | PGRES_OTHER \<Rightarrow> -1)"

text \<open>A server that executes every query.\<close>

definition all_good :: "('u, 'r) pq_ops \<Rightarrow> (string list \<Rightarrow> 'r list) \<Rightarrow> bool" where
  "all_good Q answers \<longleftrightarrow> (\<forall>l. answers l \<noteq> [] \<and> PQresultStatus Q (Some (last (answers l))) \<noteq> PGRES_OTHER \<and>
     0 \<le> exec_value Q (last (answers l)))"

text \<open>The statement handle after the result \<open>r\<close>.\<close>

definition executed :: "('u, 'r) pq_ops \<Rightarrow> 'r \<Rightarrow> 'r st_handle \<Rightarrow> 'r st_handle" where
  "executed Q r st =
     (if PQresultStatus Q (Some r) = PGRES_TUPLES_OK then st\<lparr>st_result := Some r, fetch_allowed := True, next_tuple := 0\<rparr>
      else st\<lparr>st_result := Some r, fetch_allowed := False\<rparr>)"

lemma executed_sel [simp]:
  "st_query (executed Q r st) = st_query st" "intypes (executed Q r st) = intypes st" "outtypes (executed Q r st) = outtypes st"
  "st_result (executed Q r st) = Some r" "fetch_allowed (executed Q r st) = (PQresultStatus Q (Some r) = PGRES_TUPLES_OK)"
  by (simp_all add: executed_def)

text \<open>What executing statements leaves alone: the handles that existed before keep their queries.\<close>

definition extends :: "'r dbi \<Rightarrow> 'r dbi \<Rightarrow> bool" where
  "extends d d' \<longleftrightarrow> dbh_conn d' = dbh_conn d \<and> dbh_flags d' = dbh_flags d \<and> vars d' = vars d \<and> st_next d \<le> st_next d' \<and>
     (\<forall>b x. b < st_next d \<longrightarrow> stmts d b = Some x \<longrightarrow>
       (\<exists>y. stmts d' b = Some y \<and> st_query y = st_query x \<and> intypes y = intypes x))"

lemma extends_refl: "extends d d"
  by (simp add: extends_def)

lemma extends_trans: "extends d d1 \<Longrightarrow> extends d1 d2 \<Longrightarrow> extends d d2"
proof -
  assume h: "extends d d1" "extends d1 d2"
  have "\<exists>z. stmts d2 b = Some z \<and> st_query z = st_query x \<and> intypes z = intypes x" if b: "b < st_next d" "stmts d b = Some x" for b x
  proof -
    obtain y where y: "stmts d1 b = Some y" "st_query y = st_query x" "intypes y = intypes x" using h(1) b unfolding extends_def by blast
    have "b < st_next d1" using h(1) b(1) by (simp add: extends_def)
    then obtain z where "stmts d2 b = Some z" "st_query z = st_query y" "intypes z = intypes y" using h(2) y(1) unfolding extends_def by blast
    with y show ?thesis by simp
  qed
  then show ?thesis using h by (simp add: extends_def)
qed

lemma st_execute_unfold:
  "st_execute K Q L a args =
     bindW (get_st a) (\<lambda>st.
     if query_text L (st_query st) (intypes st) args = None then (\<lambda>_. None)
     else bindW get_d (\<lambda>d.
       if in_transaction d then run_query K Q a (the (query_text L (st_query st) (intypes st) args))
       else bindW (upd_d (\<lambda>d. d\<lparr>in_transaction := True\<rparr>)) (\<lambda>_.
         bindW (new_st_handle K L ''begin work'' []) (\<lambda>bw.
         bindW (st_execute K Q L bw []) (\<lambda>r.
         if r = -1 then bindW (upd_d (\<lambda>d. d\<lparr>in_transaction := False\<rparr>)) (\<lambda>_. exec_error K Q None)
         else run_query K Q a (the (query_text L (st_query st) (intypes st) args)))))))"
  by (rule ext) (rule st_execute.simps)

lemma st_execute_inside:
  assumes "stmts d a = Some st" "query_text L (st_query st) (intypes st) args = Some q" "in_transaction d"
  shows "st_execute K Q L a args (d, w) = run_query K Q a q (d, w)"
  using assms by (subst st_execute_unfold) simp

lemma st_execute_outside:
  assumes "stmts d a = Some st" "query_text L (st_query st) (intypes st) args = Some q" "\<not> in_transaction d"
  shows "st_execute K Q L a args (d, w) = bindW (new_st_handle K L ''begin work'' []) (\<lambda>bw.
         bindW (st_execute K Q L bw []) (\<lambda>r.
         if r = -1 then bindW (upd_d (\<lambda>d. d\<lparr>in_transaction := False\<rparr>)) (\<lambda>_. exec_error K Q None)
         else run_query K Q a q)) (d\<lparr>in_transaction := True\<rparr>, w)"
  using assms by (subst st_execute_unfold) (simp cong: if_cong)

text \<open>A statement handle as \<open>new_st_handle\<close> makes it.\<close>

definition fresh_st :: "dbi_lib \<Rightarrow> pool \<Rightarrow> string \<Rightarrow> int list \<Rightarrow> 'r st_handle" where
  "fresh_st L p query ts = \<lparr>st_pool = p, orig_query = query, st_query = re_qs L query, intypes = ts, st_result = None,
     fetch_allowed = False, next_tuple = st_junk L, outtypes = None\<rparr>"

lemma fresh_st_sel [simp]:
  "st_query (fresh_st L p query ts) = re_qs L query" "intypes (fresh_st L p query ts) = ts" "outtypes (fresh_st L p query ts) = None"
  "st_result (fresh_st L p query ts) = None" "fetch_allowed (fresh_st L p query ts) = False"
  by (simp_all add: fresh_st_def)

lemma new_st_spec:
  assumes "runs t w" "place_types (re_qs L query) types = Some ts"
  shows "\<exists>p w'. new_st_handle K L query types (d, w) = Some (Ret (st_next d),
      d\<lparr>stmts := (stmts d)(st_next d \<mapsto> fresh_st L p query ts), st_next := st_next d + 1\<rparr>, w') \<and> runs t w' \<and> os w' = os w"
proof -
  obtain p P1 where p: "new_subpool (k_pools K) (r_pools (w_re w)) (dbh_pool d) = (p, P1)" by fastforce
  let ?w = "register_cleanup K p (St_finish_handle (st_next d)) (w\<lparr>w_re := (w_re w)\<lparr>r_pools := P1\<rparr>\<rparr>)"
  have "runs t ?w" "os ?w = os w" using assms(1) by (simp_all add: register_cleanup_def runs_def)
  then show ?thesis
    using p assms(2) by (intro exI [of _ p] exI [of _ ?w]) (simp add: new_st_handle_def fresh_st_def Let_def)
qed

lemma plain_text:
  assumes "dbi_strings L" "s \<noteq> []" "set s \<inter> {CHR ''?'', CHR ''@''} = {}"
  shows "re_qs L s = [s]" "place_types (re_qs L s) [] = Some []" "query_text L (re_qs L s) [] [] = Some s"
proof -
  show r: "re_qs L s = [s]" using dbi_strings.split_plain [OF assms] .
  have "\<not> placeholder s" using assms(3) by (auto simp: placeholder_def)
  then show "place_types (re_qs L s) [] = Some []" "query_text L (re_qs L s) [] [] = Some s" unfolding r by simp_all
qed

context pq_session
begin

lemma run_query_spec:
  assumes w: "runs t w" and d: "dbh_conn d = c" "stmts d a = Some st"
    and r: "answers (log (os w) @ [q]) \<noteq> []" "r = last (answers (log (os w) @ [q]))" "PQresultStatus Q (Some r) \<noteq> PGRES_OTHER"
  shows "\<exists>w'. run_query K Q a q (d, w) = Some (Ret (exec_value Q r), d\<lparr>stmts := (stmts d)(a \<mapsto> executed Q r st)\<rparr>, w') \<and>
    runs t w' \<and> log (os w') = log (os w) @ [q]"
proof -
  obtain u1 where 1: "PQisnonblocking Q c (os w) = (True, u1)" "log u1 = log (os w)" using nonblocking_law by blast
  obtain u2 where 2: "PQsocket Q c u1 = (sk, u2)" "log u2 = log u1" using socket_law by blast
  obtain u3 where 3: "PQsendQuery Q c q u2 = (1, u3)" "log u3 = log u2 @ [q]" "todo u3 = answers (log u2 @ [q])" using send_law by blast
  let ?w = "set_os u3 w" and ?d = "d\<lparr>stmts := (stmts d)(a \<mapsto> st\<lparr>st_result := Some r\<rparr>)\<rparr>"
  obtain w' where 4: "collect K Q a c sk (d, ?w) = Some (Ret True, ?d, w')" "runs t w'" "log (os w') = log u3"
    using collect_spec [of ?w d a st] w d(2) 1(2) 2(2) 3(3) r(1,2) by auto
  have "run_query K Q a q (d, w) = result_value K Q a (?d, w')"
    using d(1) 1(1) 2(1) 3(1) 4(1) by (simp add: run_query_def bindW_def with_world_def pq_do_def get_d_def)
  also have "\<dots> = Some (Ret (exec_value Q r), d\<lparr>stmts := (stmts d)(a \<mapsto> executed Q r st)\<rparr>, w')"
    using r(3) by (cases "PQresultStatus Q (Some r)")
      (simp_all add: result_value_def retW_def exec_value_def executed_def)
  finally show ?thesis using 1(2) 2(2) 3(2) 4(2,3) by (intro exI [of _ w']) simp
qed

lemma extends_upd: "stmts d a = Some st \<Longrightarrow> extends d (d\<lparr>stmts := (stmts d)(a \<mapsto> executed Q r st)\<rparr>)"
  by (auto simp: extends_def)

lemma execute_spec:
  assumes L: "dbi_strings L" and g: "all_good Q answers" and w: "runs t w"
    and d: "dbh_conn d = c" "a < st_next d" "stmts d a = Some st" "query_text L (st_query st) (intypes st) args = Some q"
  shows "\<exists>r d' w'. st_execute K Q L a args (d, w) = Some (Ret (exec_value Q r), d', w') \<and> runs t w' \<and> in_transaction d' \<and> extends d d' \<and>
    log (os w') = log (os w) @ (if in_transaction d then [] else [''begin work'']) @ [q] \<and>
    r = last (answers (log (os w'))) \<and> stmts d' a = Some (executed Q r st)"
proof (cases "in_transaction d")
  case True
  let ?r = "last (answers (log (os w) @ [q]))"
  obtain w' where "run_query K Q a q (d, w) = Some (Ret (exec_value Q ?r), d\<lparr>stmts := (stmts d)(a \<mapsto> executed Q ?r st)\<rparr>, w')"
    "runs t w'" "log (os w') = log (os w) @ [q]"
    using run_query_spec [OF w d(1,3) _ refl, of q] g unfolding all_good_def by blast
  then show ?thesis
    using st_execute_inside [OF d(3,4) True, of K Q w] True extends_upd [OF d(3)]
    by (intro exI [of _ ?r] exI [of _ "d\<lparr>stmts := (stmts d)(a \<mapsto> executed Q ?r st)\<rparr>"] exI [of _ w']) simp
next
  case False
  have b: "re_qs L ''begin work'' = [''begin work'']" "place_types (re_qs L ''begin work'') [] = Some []"
    "query_text L (re_qs L ''begin work'') [] [] = Some ''begin work''" using plain_text [OF L] by simp_all
  let ?d0 = "d\<lparr>in_transaction := True\<rparr>" and ?b = "st_next d"
  obtain p w1 where n: "new_st_handle K L ''begin work'' [] (?d0, w) = Some (Ret ?b,
      ?d0\<lparr>stmts := (stmts d)(?b \<mapsto> fresh_st L p ''begin work'' []), st_next := ?b + 1\<rparr>, w1)" "runs t w1" "os w1 = os w"
    using new_st_spec [OF w b(2), of K ?d0] by auto
  let ?d1 = "?d0\<lparr>stmts := (stmts d)(?b \<mapsto> fresh_st L p ''begin work'' []), st_next := ?b + 1\<rparr>"
  let ?r1 = "last (answers (log (os w) @ [''begin work'']))" and ?r = "last (answers (log (os w) @ [''begin work''] @ [q]))"
  have s1: "dbh_conn ?d1 = c" "stmts ?d1 ?b = Some (fresh_st L p ''begin work'' [])" using d(1) by simp_all
  obtain w2 where x: "run_query K Q ?b ''begin work'' (?d1, w1) = Some (Ret (exec_value Q ?r1),
      ?d1\<lparr>stmts := (stmts ?d1)(?b \<mapsto> executed Q ?r1 (fresh_st L p ''begin work'' []))\<rparr>, w2)" "runs t w2" "log (os w2) = log (os w) @ [''begin work'']"
    using run_query_spec [OF n(2) s1, of "''begin work''" ?r1] g n(3) unfolding all_good_def by auto
  let ?d2 = "?d1\<lparr>stmts := (stmts ?d1)(?b \<mapsto> executed Q ?r1 (fresh_st L p ''begin work'' []))\<rparr>"
  have e: "st_execute K Q L ?b [] (?d1, w1) = Some (Ret (exec_value Q ?r1), ?d2, w2)"
    using st_execute_inside [OF s1(2), of L "[]" "''begin work''" K Q w1] b(3) x(1) by simp
  have s2: "dbh_conn ?d2 = c" "stmts ?d2 a = Some st" using d by auto
  obtain w3 where y: "run_query K Q a q (?d2, w2) = Some (Ret (exec_value Q ?r), ?d2\<lparr>stmts := (stmts ?d2)(a \<mapsto> executed Q ?r st)\<rparr>, w3)"
    "runs t w3" "log (os w3) = log (os w) @ [''begin work''] @ [q]"
    using run_query_spec [OF x(2) s2, of q ?r] g x(3) unfolding all_good_def by auto
  have "exec_value Q ?r1 \<noteq> -1" using g unfolding all_good_def by (metis neg_0_le_iff_le not_one_le_zero)
  then have "st_execute K Q L a args (d, w) = Some (Ret (exec_value Q ?r), ?d2\<lparr>stmts := (stmts ?d2)(a \<mapsto> executed Q ?r st)\<rparr>, w3)"
    using st_execute_outside [OF d(3,4) False, of K Q w] n(1) e y(1) by (simp add: bindW_def)
  moreover have "extends d (?d2\<lparr>stmts := (stmts ?d2)(a \<mapsto> executed Q ?r st)\<rparr>)" using d(2,3) by (auto simp: extends_def)
  ultimately show ?thesis
    using y(2,3) False
    by (intro exI [of _ ?r] exI [of _ "?d2\<lparr>stmts := (stmts ?d2)(a \<mapsto> executed Q ?r st)\<rparr>"] exI [of _ w3]) simp
qed

end

section \<open>Transactions\<close>

fun exec_all ::
  "('v, 'j, 'P, 'm, 'u) kernel \<Rightarrow> ('u, 'r) pq_ops \<Rightarrow> dbi_lib \<Rightarrow> (addr \<times> dbi_arg list) list
     \<Rightarrow> (('v, 'j, 'P, 'm, 'u) world, 'r, unit) db" where
  "exec_all K Q L [] = retW ()"
| "exec_all K Q L (x # xs) = bindW (st_execute K Q L (fst x) (snd x)) (\<lambda>_. exec_all K Q L xs)"

text \<open>The statement at \<open>a\<close> with these arguments is the query \<open>q\<close>.\<close>

definition stands_for :: "dbi_lib \<Rightarrow> 'r dbi \<Rightarrow> addr \<times> dbi_arg list \<Rightarrow> string \<Rightarrow> bool" where
  "stands_for L d x q \<longleftrightarrow> fst x < st_next d \<and>
     (\<exists>st. stmts d (fst x) = Some st \<and> query_text L (st_query st) (intypes st) (snd x) = Some q)"

lemma stands_for_extends: "extends d d' \<Longrightarrow> stands_for L d x q \<Longrightarrow> stands_for L d' x q"
proof -
  assume h: "extends d d'" "stands_for L d x q"
  then obtain st where st: "fst x < st_next d" "stmts d (fst x) = Some st" "query_text L (st_query st) (intypes st) (snd x) = Some q"
    by (auto simp: stands_for_def)
  then obtain y where "stmts d' (fst x) = Some y" "st_query y = st_query st" "intypes y = intypes st"
    using h(1) unfolding extends_def by blast
  then show ?thesis using st h(1) by (simp add: stands_for_def extends_def)
qed

context pq_session
begin

lemma exec_all_spec:
  assumes L: "dbi_strings L" and g: "all_good Q answers" and w: "runs t w" "dbh_conn d = c"
    and xs: "list_all2 (stands_for L d) xs qs"
  shows "\<exists>d' w'. exec_all K Q L xs (d, w) = Some (Ret (), d', w') \<and> runs t w' \<and> extends d d' \<and>
    in_transaction d' = (in_transaction d \<or> xs \<noteq> []) \<and>
    log (os w') = log (os w) @ (if in_transaction d \<or> xs = [] then [] else [''begin work'']) @ qs"
  using w xs
proof (induction xs arbitrary: d w qs)
  case Nil
  then show ?case by (auto simp: retW_def extends_refl)
next
  case (Cons x xs)
  obtain q rs where q: "qs = q # rs" "stands_for L d x q" "list_all2 (stands_for L d) xs rs" using Cons.prems(3) by (auto simp: list_all2_Cons1)
  then obtain st where st: "fst x < st_next d" "stmts d (fst x) = Some st" "query_text L (st_query st) (intypes st) (snd x) = Some q"
    by (auto simp: stands_for_def)
  obtain v d1 w1 where e: "st_execute K Q L (fst x) (snd x) (d, w) = Some (Ret v, d1, w1)" "runs t w1" "in_transaction d1" "extends d d1"
    "log (os w1) = log (os w) @ (if in_transaction d then [] else [''begin work'']) @ [q]"
    using execute_spec [OF L g Cons.prems(1,2) st] by blast
  have c: "dbh_conn d1 = c" using e(4) Cons.prems(2) by (simp add: extends_def)
  have "list_all2 (stands_for L d1) xs rs" using q(3) by (rule list_all2_mono) (rule stands_for_extends [OF e(4)])
  from Cons.IH [OF e(2) c this] obtain d' w' where f: "exec_all K Q L xs (d1, w1) = Some (Ret (), d', w')" "runs t w'" "extends d1 d'"
    "in_transaction d'" "log (os w') = log (os w1) @ rs" using e(3) by auto
  show ?case
    using e(1,5) f q(1) extends_trans [OF e(4) f(3)] by (intro exI [of _ d'] exI [of _ w']) (simp add: bindW_def)
qed

lemma end_transaction_spec:
  assumes L: "dbi_strings L" and g: "all_good Q answers" and w: "runs t w" "dbh_conn d = c"
    and s: "s \<noteq> []" "set s \<inter> {CHR ''?'', CHR ''@''} = {}"
  shows "\<exists>d' w'. end_transaction K Q L s (d, w) = Some (Ret (), d', w') \<and> runs t w' \<and> \<not> in_transaction d' \<and>
    log (os w') = log (os w) @ (if in_transaction d then [] else [''begin work'']) @ [s]"
proof -
  note p = plain_text [OF L s]
  obtain q w1 where n: "new_st_handle K L s [] (d, w) = Some (Ret (st_next d),
      d\<lparr>stmts := (stmts d)(st_next d \<mapsto> fresh_st L q s []), st_next := st_next d + 1\<rparr>, w1)" "runs t w1" "os w1 = os w"
    using new_st_spec [OF w(1) p(2)] by blast
  let ?d = "d\<lparr>stmts := (stmts d)(st_next d \<mapsto> fresh_st L q s []), st_next := st_next d + 1\<rparr>"
  have "query_text L (st_query (fresh_st L q s [])) (intypes (fresh_st L q s [])) [] = Some s" using p(3) by simp
  from execute_spec [OF L g n(2) _ _ _ this, of ?d "st_next d"] obtain v d1 w2 where
    e: "st_execute K Q L (st_next d) [] (?d, w1) = Some (Ret v, d1, w2)" "runs t w2"
    "log (os w2) = log (os w) @ (if in_transaction d then [] else [''begin work'']) @ [s]" using w(2) n(3) by auto
  have "end_transaction K Q L s (d, w) = Some (Ret (), d1\<lparr>in_transaction := False\<rparr>, w2)"
    using n(1) e(1) by (simp add: end_transaction_def bindW_def upd_d_def)
  then show ?thesis using e by (intro exI [of _ "d1\<lparr>in_transaction := False\<rparr>"] exI [of _ w2]) simp
qed

end

section \<open>A lost connection\<close>

definition lost :: "('u, 'r) pq_ops \<Rightarrow> int \<Rightarrow> bool" where
  "lost Q c \<longleftrightarrow> (\<forall>q u. fst (PQsendQuery Q c q u) \<noteq> 1 \<and> fst (PQisnonblocking Q c u))"

lemma run_query_lost:
  assumes "lost Q (dbh_conn d)"
  shows "\<exists>u. run_query K Q a q (d, w) = exec_error K Q None (d, set_os u w)"
proof -
  let ?c = "dbh_conn d"
  obtain u1 where 1: "PQisnonblocking Q ?c (os w) = (True, u1)" using assms by (metis lost_def prod.collapse)
  obtain f u2 where 2: "PQsocket Q ?c u1 = (f, u2)" by fastforce
  obtain r u3 where 3: "PQsendQuery Q ?c q u2 = (r, u3)" "r \<noteq> 1" using assms by (metis lost_def prod.collapse)
  have "run_query K Q a q (d, w) = exec_error K Q None (d, set_os u3 w)"
    using 1 2 3 by (simp add: run_query_def bindW_def with_world_def pq_do_def get_d_def)
  then show ?thesis by blast
qed

text \<open>What the beginning of a statement does on a lost connection.\<close>

lemma begin_lost:
  assumes L: "dbi_strings L" and st: "stmts d a = Some st" "query_text L (st_query st) (intypes st) args = Some q"
    and d: "lost Q (dbh_conn d)" "\<not> in_transaction d" "runs t w"
  shows "\<exists>d1 w1. runs t w1 \<and> w_pths w1 = w_pths w \<and> current_pth w1 = current_pth w \<and> dbh_flags d1 = dbh_flags d \<and> vars d1 = vars d \<and>
    in_transaction d1 \<and> dbh_conn d1 = dbh_conn d \<and>
    (a < st_next d \<longrightarrow> stmts d1 a = Some st) \<and>
    st_execute K Q L a args (d, w) = bindW (exec_error K Q None) (\<lambda>r.
       if r = -1 then bindW (upd_d (\<lambda>d. d\<lparr>in_transaction := False\<rparr>)) (\<lambda>_. exec_error K Q None)
       else run_query K Q a q) (d1, w1)"
proof -
  let ?s = "''begin work''"
  have p: "place_types (re_qs L ?s) [] = Some []" "query_text L (re_qs L ?s) [] [] = Some ?s" using plain_text [OF L, of ?s] by simp_all
  obtain x P1 where x: "new_subpool (k_pools K) (r_pools (w_re w)) (dbh_pool d) = (x, P1)" by fastforce
  let ?d0 = "d\<lparr>in_transaction := True\<rparr>"
  let ?w1 = "register_cleanup K x (St_finish_handle (st_next d)) (w\<lparr>w_re := (w_re w)\<lparr>r_pools := P1\<rparr>\<rparr>)"
  let ?d1 = "?d0\<lparr>stmts := (stmts d)(st_next d \<mapsto> fresh_st L x ?s []), st_next := st_next d + 1\<rparr>"
  have n: "new_st_handle K L ?s [] (?d0, w) = Some (Ret (st_next d), ?d1, ?w1)"
    using x p(1) by (simp add: new_st_handle_def fresh_st_def Let_def)
  have i: "st_execute K Q L (st_next d) [] (?d1, ?w1) = run_query K Q (st_next d) ?s (?d1, ?w1)"
    by (rule st_execute_inside [where st = "fresh_st L x ?s []"]) (simp_all add: p)
  obtain u where r: "run_query K Q (st_next d) ?s (?d1, ?w1) = exec_error K Q None (?d1, set_os u ?w1)"
    using run_query_lost [of Q ?d1 K "st_next d" ?s ?w1] d(1) by auto
  have "st_execute K Q L a args (d, w) = bindW (st_execute K Q L (st_next d) []) (\<lambda>r.
       if r = -1 then bindW (upd_d (\<lambda>d. d\<lparr>in_transaction := False\<rparr>)) (\<lambda>_. exec_error K Q None)
       else run_query K Q a q) (?d1, ?w1)"
    using st_execute_outside [OF st d(2), of K Q w] n by (simp add: bindW_Ret)
  also have "\<dots> = bindW (exec_error K Q None) (\<lambda>r.
       if r = -1 then bindW (upd_d (\<lambda>d. d\<lparr>in_transaction := False\<rparr>)) (\<lambda>_. exec_error K Q None)
       else run_query K Q a q) (?d1, set_os u ?w1)"
    using i r by (simp add: bindW_def)
  finally show ?thesis
    using d(3) st(1) by (intro exI [of _ ?d1] exI [of _ "set_os u ?w1"]) (auto simp: register_cleanup_def runs_def)
qed

section \<open>A server\<close>

text \<open>A server that answers every query with one result, the query itself, after some delays.\<close>

record demo_db =
  db_log :: "string list"
  db_todo :: "string list"
  db_lag :: nat
  db_wait :: nat

definition select_query :: "string \<Rightarrow> bool" where
  "select_query q \<longleftrightarrow> take 6 q = ''select''"

definition demo_pq :: "(demo_db, string) pq_ops" where
  "demo_pq = \<lparr>PQconnectStart = (\<lambda>_ u. (Some 4, u)), PQconnection_bad = (\<lambda>_ u. (False, u)), PQfinish = (\<lambda>_ u. ((), u)),
     PQsetnonblocking = (\<lambda>_ u. (0, u)), PQsocket = (\<lambda>_ u. (8, u)), PQconnectPoll = (\<lambda>_ u. (PGRES_POLLING_OK, u)),
     PQisnonblocking = (\<lambda>_ u. (True, u)),
     PQsendQuery = (\<lambda>_ q u. (1, \<lparr>db_log = db_log u @ [q], db_todo = [q], db_lag = 2, db_wait = 2\<rparr>)),
     PQisBusy = (\<lambda>_ u. (0 < db_lag u, u)), PQflush_eof = (\<lambda>_ u. (False, u)),
     PQconsumeInput = (\<lambda>_ u. (1, u\<lparr>db_lag := db_lag u - 1, db_wait := 2\<rparr>)),
     PQgetResult = (\<lambda>_ u. (case db_todo u of [] \<Rightarrow> None | r # _ \<Rightarrow> Some r, u\<lparr>db_todo := tl (db_todo u)\<rparr>)),
     pq_poll = (\<lambda>_ _ u. ((if 0 < db_wait u then 0 else 1, 0, ()), u)),
     PQresultStatus = (\<lambda>r. case r of None \<Rightarrow> PGRES_OTHER | Some q \<Rightarrow> if select_query q then PGRES_TUPLES_OK else PGRES_COMMAND_OK),
     PQcmdTuples = (\<lambda>_. Some []), PQresultErrorMessage = (\<lambda>_. []), PQntuples = (\<lambda>_. 2), PQnfields = (\<lambda>_. 2),
     PQgetisnull = (\<lambda>_ row col. row = 1 \<and> col = 1), PQgetvalue = (\<lambda>_ row col. show_int (10 * row + col))\<rparr>"

definition db_kernel :: "(tid option list, nat list, cpools, nat \<times> (addr \<rightharpoonup> int), demo_db) kernel" where
  "db_kernel = \<lparr>k_threads = list_vec, k_jumps = list_vec, k_pools = cpool_ops, k_stack = bump_sys,
     k_cleanup = (\<lambda>_. Some), k_handle_junk = (\<lambda>_. \<lparr>offset = 9, hfn = Return_from_block, hdata = 0\<rparr>),
     k_pollfd_junk = (\<lambda>_. \<lparr>fd = 0, events = 0, revents = 4\<rparr>), k_timer_addr = (\<lambda>_. 4),
     k_timer_junk = \<lparr>tpool = 0, tprev = None, tnext = None, delta = 0, tfn = Return_from_block, tdata = 0\<rparr>,
     k_switch = (\<lambda>w. Some (set_os ((os w)\<lparr>db_wait := db_wait (os w) - 1\<rparr>) w)), k_run = (\<lambda>_. Some)\<rparr>"

interpretation db_session: pq_session db_kernel 7 demo_pq 4 8 db_log db_todo db_lag db_wait "\<lambda>l. [last l]"
proof
  show "polite db_kernel" by (simp add: polite_def db_kernel_def)
next
  fix w w' assume "k_switch db_kernel w = Some w'" "runs 7 w"
  then show "map_option alarm_received (w_pths w' 7) = Some False \<and>
      (db_log (os w'), db_todo (os w'), db_lag (os w')) = (db_log (os w), db_todo (os w), db_lag (os w)) \<and>
      (0 < db_wait (os w) \<longrightarrow> db_wait (os w') < db_wait (os w))"
    by (auto simp: db_kernel_def runs_def)
qed (auto simp: demo_pq_def split: if_splits)

lemma demo_all_good: "all_good demo_pq (\<lambda>l. [last l])"
  by (simp add: all_good_def exec_value_def demo_pq_def scan_int_def)

definition demo_st :: "string list \<Rightarrow> int list \<Rightarrow> string st_handle" where
  "demo_st qs ts = \<lparr>st_pool = 0, orig_query = concat qs, st_query = qs, intypes = ts, st_result = None, fetch_allowed = False,
     next_tuple = 0, outtypes = None\<rparr>"

definition demo_dbi :: "string dbi" where
  "demo_dbi = \<lparr>dbh_pool = 0, dbh_conninfo = [], dbh_conn = 4, dbh_flags = 0, in_transaction = False,
     stmts = [1 \<mapsto> demo_st [''insert into t values ('', ''?'', '','', ''?'', '')''] [DBI_INT, DBI_STRING],
       2 \<mapsto> demo_st [''delete from t where id in ('', ''@'', '')''] [DBI_STRING]],
     st_next = 3, vars = (\<lambda>_. Int_val 99)\<rparr>"

definition db_world :: "(tid option list, nat list, cpools, nat \<times> (addr \<rightharpoonup> int), demo_db) world" where
  "db_world = \<lparr>w_re = \<lparr>r_table = empty_table, r_timers = empty_queue, head_prepoll = [], reactor_time = 1000,
       r_pools = demo_pools, r_user = \<lparr>db_log = [], db_todo = [], db_lag = 0, db_wait = 0\<rparr>\<rparr>,
     w_pths = [7 \<mapsto> demo_pth], current_pth = Some 7, w_threads = [Some 7, None], default_stack_size = 65536,
     w_stacks = \<lparr>pending_stack_base = None, pending_stack_size = 0, memory = (6, [5 \<mapsto> 65536])\<rparr>, w_env = Map.empty\<rparr>"

lemma db_world_runs: "runs 7 db_world" "db_log (os db_world) = []"
  by (simp_all add: runs_def db_world_def demo_pth_def)

section \<open>Properties\<close>

text \<open>
  C32: on a connection without errors, any sequence of prepared statements followed by \<open>db_commit\<close> reaches
  the server as one transaction: \<open>begin work\<close> exactly once and first, the statements in order, and
  \<open>commit work\<close> last; afterwards no transaction is open.
\<close>

theorem statements_form_transaction:
  assumes "pq_session K t Q c sk log todo lag busy answers" "dbi_strings L" "all_good Q answers" "runs t w"
    and "dbh_conn d = c" "\<not> in_transaction d" "list_all2 (stands_for L d) xs qs"
  shows "\<exists>d' w'. bindW (exec_all K Q L xs) (\<lambda>_. db_commit K Q L) (d, w) = Some (Ret (), d', w') \<and> \<not> in_transaction d' \<and>
    log (os w') = log (os w) @ [''begin work''] @ qs @ [''commit work'']"
proof -
  obtain d1 w1 where e: "exec_all K Q L xs (d, w) = Some (Ret (), d1, w1)" "runs t w1" "extends d d1"
    "in_transaction d1 = (in_transaction d \<or> xs \<noteq> [])"
    "log (os w1) = log (os w) @ (if in_transaction d \<or> xs = [] then [] else [''begin work'']) @ qs"
    using pq_session.exec_all_spec [OF assms(1-5,7)] by blast
  have "dbh_conn d1 = c" using e(3) assms(5) by (simp add: extends_def)
  then obtain d2 w2 where "end_transaction K Q L ''commit work'' (d1, w1) = Some (Ret (), d2, w2)" "\<not> in_transaction d2"
    "log (os w2) = log (os w1) @ (if in_transaction d1 then [] else [''begin work'']) @ [''commit work'']"
    using pq_session.end_transaction_spec [OF assms(1-3) e(2), of d1 "''commit work''"] by auto
  moreover have "xs = [] \<Longrightarrow> qs = []" using assms(7) by simp
  ultimately show ?thesis
    using e(1,4,5) assms(6) by (intro exI [of _ d2] exI [of _ w2]) (auto simp: bindW_def db_commit_def)
qed

theorem statements_form_transaction_witness:
  "\<exists>d' w'. bindW (exec_all db_kernel demo_pq demo_lib [(1, [Int_arg 5, Str_arg None]), (2, [Str_vec [Some ''a'', Some ''b'']])])
       (\<lambda>_. db_commit db_kernel demo_pq demo_lib) (demo_dbi, db_world) = Some (Ret (), d', w') \<and> \<not> in_transaction d' \<and>
     db_log (os w') = [''begin work'', ''insert into t values (5,null)'',
       ''delete from t where id in ('' @ [QUOTE] @ ''a'' @ [QUOTE] @ '','' @ [QUOTE] @ ''b'' @ [QUOTE] @ '')'', ''commit work'']"
proof -
  let ?q = "''delete from t where id in ('' @ [QUOTE] @ ''a'' @ [QUOTE] @ '','' @ [QUOTE] @ ''b'' @ [QUOTE] @ '')''"
  have s: "show_int 5 = ''5''" by code_simp
  have "list_all2 (stands_for demo_lib demo_dbi) [(1, [Int_arg 5, Str_arg None]), (2, [Str_vec [Some ''a'', Some ''b'']])]
      [''insert into t values (5,null)'', ?q]"
    by (simp add: stands_for_def demo_dbi_def demo_st_def placeholder_def demo_lib_def dbi_types escape_string_def s)
  from statements_form_transaction [OF db_session.pq_session_axioms demo_lib.dbi_strings_axioms demo_all_good db_world_runs(1) _ _ this]
  show ?thesis using db_world_runs(2) by (auto simp: demo_dbi_def)
qed

text \<open>
  when \<open>begin work\<close> cannot be sent and errors are thrown (the recommended mode), the exception leaves
  the handle marked as being in a transaction: the next statement is sent without \<open>begin work\<close>.
\<close>

theorem failed_begin_marks_transaction:
  assumes "dbi_strings L" "stmts d a = Some st" "query_text L (st_query st) (intypes st) args = Some q" "a < st_next d"
    and "lost Q (dbh_conn d)" "\<not> in_transaction d" "throws d" "runs t w" "c2_vector (k_jumps K)" "handlers K w = [0..<Suc n]"
  shows "\<exists>d' w'. st_execute K Q L a args (d, w) = Some (Jump n, d', w') \<and> in_transaction d' \<and>
    (\<forall>w2. st_execute K Q L a args (d', w2) = run_query K Q a q (d', w2))"
proof -
  let ?f = "\<lambda>r. if r = -1 then bindW (upd_d (\<lambda>d. d\<lparr>in_transaction := False\<rparr>)) (\<lambda>_. exec_error K Q None) else run_query K Q a q"
  obtain d1 w1 where b: "runs t w1" "w_pths w1 = w_pths w" "current_pth w1 = current_pth w" "dbh_flags d1 = dbh_flags d"
    "in_transaction d1" "stmts d1 a = Some st" "st_execute K Q L a args (d, w) = bindW (exec_error K Q None) ?f (d1, w1)"
    using begin_lost [OF assms(1-3,5,6,8)] assms(4) by blast
  have c: "cur w1 \<noteq> None" using b(1) by (auto simp: runs_def cur_def)
  have h: "handlers K w1 = [0..<Suc n]" using assms(10) b(2,3) by (simp add: handlers_def cur_def)
  obtain w' where "(pth_die K ''dbi: st_execute: database execution error'' w1 :: (int outcome \<times> _) option) = Some (Jump n, w')"
    using pth_die_spec [OF assms(9) c h] by blast
  then have "exec_error K Q None (d1, w1) = Some (Jump n, d1, w')"
    using assms(7) b(4) by (simp add: exec_error_def die_or_def throws_def with_world_def)
  then have "st_execute K Q L a args (d, w) = Some (Jump n, d1, w')" using b(7) by (simp add: bindW_def)
  then show ?thesis
    using st_execute_inside [OF b(6) assms(3) b(5)] b(5) by (intro exI [of _ d1] exI [of _ w']) blast
qed

definition lost_pq :: "(demo_db, string) pq_ops" where
  "lost_pq = demo_pq\<lparr>PQsendQuery := (\<lambda>_ _ u. (0, u))\<rparr>"

lemma demo_insert:
  "stmts demo_dbi 1 = Some (demo_st [''insert into t values ('', ''?'', '','', ''?'', '')''] [DBI_INT, DBI_STRING])"
  "\<exists>q. query_text demo_lib (st_query (demo_st [''insert into t values ('', ''?'', '','', ''?'', '')''] [DBI_INT, DBI_STRING]))
     (intypes (demo_st [''insert into t values ('', ''?'', '','', ''?'', '')''] [DBI_INT, DBI_STRING])) [Int_arg 5, Str_arg None] = Some q"
  "lost lost_pq c"
  by (simp_all add: demo_dbi_def demo_st_def placeholder_def dbi_types lost_def lost_pq_def demo_pq_def)

theorem failed_begin_marks_transaction_witness:
  "\<exists>d' w'. st_execute db_kernel lost_pq demo_lib 1 [Int_arg 5, Str_arg None]
      (demo_dbi\<lparr>dbh_flags := DBI_THROW_ERRORS\<rparr>, db_world\<lparr>w_pths := [7 \<mapsto> demo_pth\<lparr>exception_jmp_vec := Some [0]\<rparr>]\<rparr>) =
    Some (Jump 0, d', w') \<and> in_transaction d'"
proof -
  let ?d = "demo_dbi\<lparr>dbh_flags := DBI_THROW_ERRORS\<rparr>" and ?w = "db_world\<lparr>w_pths := [7 \<mapsto> demo_pth\<lparr>exception_jmp_vec := Some [0]\<rparr>]\<rparr>"
  obtain q where q: "query_text demo_lib (st_query (demo_st [''insert into t values ('', ''?'', '','', ''?'', '')''] [DBI_INT, DBI_STRING]))
     (intypes (demo_st [''insert into t values ('', ''?'', '','', ''?'', '')''] [DBI_INT, DBI_STRING])) [Int_arg 5, Str_arg None] = Some q"
    using demo_insert(2) by blast
  have d: "stmts ?d 1 = Some (demo_st [''insert into t values ('', ''?'', '','', ''?'', '')''] [DBI_INT, DBI_STRING])" "1 < st_next ?d"
    "\<not> in_transaction ?d" "throws ?d" "runs 7 ?w" "handlers db_kernel ?w = [0..<Suc 0]" "k_jumps db_kernel = list_vec"
    by (simp_all add: demo_dbi_def throws_def DBI_THROW_ERRORS_def runs_def db_world_def demo_pth_def handlers_def cur_def db_kernel_def)
  have v: "c2_vector (k_jumps db_kernel)" unfolding d(7) by (rule list_vec.c2_vector_axioms)
  from failed_begin_marks_transaction [OF demo_lib.dbi_strings_axioms d(1) q d(2) demo_insert(3) d(3-5) v d(6)]
  show ?thesis by blast
qed

text \<open>
  \<open>st_serial\<close> without thrown errors on a lost connection does not report the failure: \<open>st_fetch\<close> returns
  -1, which counts as a fetched row, and the result is whatever the uninitialised local variable held.
\<close>

theorem st_serial_garbage:
  fixes Q :: "('u, 'r) pq_ops"
  assumes "dbi_strings L" "lost Q (dbh_conn d)" "\<not> throws d" "\<not> in_transaction d" "runs t w"
  shows "\<exists>d' w'. st_serial K Q L seq x (d, w) = Some (Ret (vars d x), d', w')"
proof -
  let ?s = "''select currval (?)''"
  have qs: "re_qs L ?s = [''select currval ('', ''?'', '')'']"
    using dbi_strings.split_place [OF assms(1), of "''select currval (''" "'')''" "CHR ''?''"] by simp
  have ty: "place_types (re_qs L ?s) [DBI_STRING] = Some [DBI_STRING]" unfolding qs by (simp add: placeholder_def dbi_types)
  obtain p w1 where n: "new_st_handle K L ?s [DBI_STRING] (d, w) = Some (Ret (st_next d),
      d\<lparr>stmts := (stmts d)(st_next d \<mapsto> fresh_st L p ?s [DBI_STRING]), st_next := st_next d + 1\<rparr>, w1)" "runs t w1"
    using new_st_spec [OF assms(5) ty, of K d] by blast
  let ?d1 = "d\<lparr>stmts := (stmts d)(st_next d \<mapsto> fresh_st L p ?s [DBI_STRING]), st_next := st_next d + 1\<rparr>" and ?a = "st_next d"
  have "\<exists>q. query_text L (st_query (fresh_st L p ?s [DBI_STRING] :: 'r st_handle)) (intypes (fresh_st L p ?s [DBI_STRING] :: 'r st_handle)) [Str_arg (Some seq)] = Some q"
    by (simp add: qs placeholder_def dbi_types)
  then obtain q where q: "query_text L (st_query (fresh_st L p ?s [DBI_STRING] :: 'r st_handle)) (intypes (fresh_st L p ?s [DBI_STRING] :: 'r st_handle)) [Str_arg (Some seq)] = Some q" ..
  let ?f = "\<lambda>r. if r = -1 then bindW (upd_d (\<lambda>d. d\<lparr>in_transaction := False\<rparr>)) (\<lambda>_. exec_error K Q None) else run_query K Q ?a q"
  have s1: "stmts ?d1 ?a = Some (fresh_st L p ?s [DBI_STRING])" "lost Q (dbh_conn ?d1)" "\<not> in_transaction ?d1" using assms(2,4) by simp_all
  obtain d2 w2 where b: "dbh_flags d2 = dbh_flags d" "vars d2 = vars d" "stmts d2 ?a = Some (fresh_st L p ?s [DBI_STRING])"
    "st_execute K Q L ?a [Str_arg (Some seq)] (?d1, w1) = bindW (exec_error K Q None) ?f (d2, w2)"
    using begin_lost [OF assms(1) s1(1) q s1(2,3) n(2), of K] by auto
  let ?d3 = "d2\<lparr>in_transaction := False\<rparr>"
  have e: "exec_error K Q None (d2, w2) = Some (Ret (-1), d2, w2)" "exec_error K Q None (?d3, w2) = Some (Ret (-1), ?d3, w2)"
    using assms(3) b(1) by (simp_all add: exec_error_def die_or_def throws_def retW_def)
  then have x: "st_execute K Q L ?a [Str_arg (Some seq)] (?d1, w1) = Some (Ret (-1), ?d3, w2)"
    using b(4) by (simp add: bindW_Ret)
  obtain ots where o: "st_bind ?a 0 x DBI_INT (?d3, w2) =
      Some (Ret (), ?d3\<lparr>stmts := (stmts d2)(?a \<mapsto> (fresh_st L p ?s [DBI_STRING])\<lparr>outtypes := ots\<rparr>)\<rparr>, w2)"
    using b(3) by (simp add: st_bind_def upd_st_def Let_def)
  let ?d4 = "?d3\<lparr>stmts := (stmts d2)(?a \<mapsto> (fresh_st L p ?s [DBI_STRING])\<lparr>outtypes := ots\<rparr>)\<rparr>"
  have "st_fetch K Q L ?a (?d4, w2) = Some (Ret (-1), ?d4, w2)"
    using assms(3) b(1) by (simp add: st_fetch_def die_or_def throws_def retW_def)
  then have "st_serial K Q L seq x (d, w) = Some (Ret (vars ?d4 x), ?d4, w2)"
    using n(1) x o by (simp add: st_serial_def bindW_Ret retW_def)
  then show ?thesis using b(2) by auto
qed

theorem st_serial_garbage_witness:
  "\<exists>d' w'. st_serial db_kernel lost_pq demo_lib ''t_id_seq'' 12 (demo_dbi, db_world) = Some (Ret (Int_val 99), d', w')"
proof -
  have "\<not> throws demo_dbi" "\<not> in_transaction demo_dbi" "vars demo_dbi 12 = Int_val 99" by (simp_all add: throws_def demo_dbi_def)
  with st_serial_garbage [OF demo_lib.dbi_strings_axioms demo_insert(3) this(1,2) db_world_runs(1), of db_kernel "''t_id_seq''" 12]
  show ?thesis by simp
qed

end
