(* ===== verification/Dbi_Rows.thy ===== *)
theory Dbi_Rows
  imports Dbi_Session
begin

text \<open>
  Fetching the rows of a result: into variables of every type, all at once, and the parsing of timestamps.
\<close>

section \<open>Rows\<close>

text \<open>A loop that calls \<open>st_fetch\<close> at most \<open>n\<close> times and reads the bound variables \<open>xs\<close> after every row.\<close>

fun fetch_rows ::
  "('v, 'j, 'P, 'm, 'u) kernel \<Rightarrow> ('u, 'r) pq_ops \<Rightarrow> dbi_lib \<Rightarrow> addr \<Rightarrow> nat list \<Rightarrow> nat
     \<Rightarrow> (('v, 'j, 'P, 'm, 'u) world, 'r, dbi_val list list) db" where
  "fetch_rows K Q L a xs 0 = retW []"
| "fetch_rows K Q L a xs (Suc n) =
     bindW (st_fetch K Q L a) (\<lambda>r.
     if r \<noteq> 1 then retW []
     else bindW get_d (\<lambda>d. bindW (fetch_rows K Q L a xs n) (\<lambda>rows. retW (map (vars d) xs # rows))))"

definition string_cols :: "nat list \<Rightarrow> otype list" where
  "string_cols xs = map (\<lambda>x. \<lparr>o_type = DBI_STRING, o_varptr = Some x\<rparr>) xs"

lemma fetch_cols_strings:
  assumes "distinct xs"
  shows "\<exists>V. fetch_cols K Q L r row i (string_cols xs) (d, w) = Some (Ret (), d\<lparr>vars := V\<rparr>, w) \<and>
    map V xs = map (\<lambda>j. Str_val (cell Q r row j)) [i..<i + length xs] \<and> (\<forall>y. y \<notin> set xs \<longrightarrow> V y = vars d y)"
  using assms
proof (induction xs arbitrary: i d)
  case Nil
  show ?case by (intro exI [of _ "vars d"]) (simp add: retW_def string_cols_def)
next
  case (Cons x xs)
  let ?d = "d\<lparr>vars := (vars d)(x := Str_val (cell Q r row i))\<rparr>"
  obtain V where V: "fetch_cols K Q L r row (i + 1) (string_cols xs) (?d, w) = Some (Ret (), ?d\<lparr>vars := V\<rparr>, w)"
    "map V xs = map (\<lambda>j. Str_val (cell Q r row j)) [i + 1..<i + 1 + length xs]" "\<forall>y. y \<notin> set xs \<longrightarrow> V y = vars ?d y"
    using Cons.IH [of "i + 1" ?d] Cons.prems by auto
  have "fetch_cols K Q L r row i (string_cols (x # xs)) (d, w) = fetch_cols K Q L r row (i + 1) (string_cols xs) (?d, w)"
    by (simp add: string_cols_def fetch_col_def set_var_def dbi_types)
  moreover have "V x = Str_val (cell Q r row i)" using V(3) Cons.prems by simp
  moreover have "[i..<i + length (x # xs)] = i # [i + 1..<i + 1 + length xs]" by (simp add: upt_conv_Cons del: upt_Suc)
  ultimately show ?case using V by (intro exI [of _ V]) (simp del: upt_Suc)
qed

lemma st_fetch_row:
  assumes st: "stmts d a = Some st" "st_result st = Some r" "fetch_allowed st" "outtypes st = Some (string_cols xs)" "distinct xs"
    and k: "next_tuple st < PQntuples Q r"
  shows "\<exists>V. st_fetch K Q L a (d, w) = Some (Ret 1, d\<lparr>vars := V, stmts := (stmts d)(a \<mapsto> st\<lparr>next_tuple := next_tuple st + 1\<rparr>)\<rparr>, w) \<and>
    map V xs = map (\<lambda>j. Str_val (cell Q r (next_tuple st) j)) [0..<length xs]"
proof -
  obtain V where V: "fetch_cols K Q L r (next_tuple st) 0 (string_cols xs) (d, w) = Some (Ret (), d\<lparr>vars := V\<rparr>, w)"
    "map V xs = map (\<lambda>j. Str_val (cell Q r (next_tuple st) j)) [0..<0 + length xs]"
    using fetch_cols_strings [OF st(5), of K Q L r "next_tuple st" 0 d w] by blast
  have "st_fetch K Q L a (d, w) = Some (Ret 1, d\<lparr>vars := V, stmts := (stmts d)(a \<mapsto> st\<lparr>next_tuple := next_tuple st + 1\<rparr>)\<rparr>, w)"
    using st k V(1) by (simp add: st_fetch_def bindW_Ret retW_def)
  then show ?thesis using V(2) by (intro exI [of _ V]) simp
qed

lemma fetch_rows_from:
  assumes "stmts d a = Some st" "st_result st = Some r" "fetch_allowed st" "outtypes st = Some (string_cols xs)" "distinct xs"
    and "length xs = nat (PQnfields Q r)" "0 \<le> next_tuple st" "nat (PQntuples Q r) < n + nat (next_tuple st)"
  shows "\<exists>d'. fetch_rows K Q L a xs n (d, w) = Some (Ret (map (map Str_val) (drop (nat (next_tuple st)) (all_rows Q r))), d', w)"
  using assms
proof (induction n arbitrary: d st)
  case 0
  then have "nat (PQntuples Q r) \<le> nat (next_tuple st)" by linarith
  then have "drop (nat (next_tuple st)) (all_rows Q r) = []" by (simp add: all_rows_def)
  then show ?case by (simp add: retW_def)
next
  case (Suc n)
  note st = Suc.prems
  let ?k = "nat (next_tuple st)"
  show ?case
  proof (cases "next_tuple st < PQntuples Q r")
    case False
    then have "st_fetch K Q L a (d, w) = Some (Ret 0, d, w)" using st by (simp add: st_fetch_def retW_def)
    moreover have "drop ?k (all_rows Q r) = []" using False st(7) by (simp add: all_rows_def nat_le_iff nat_mono)
    ultimately show ?thesis by (simp add: bindW_Ret retW_def)
  next
    case True
    obtain V where f: "st_fetch K Q L a (d, w) =
        Some (Ret 1, d\<lparr>vars := V, stmts := (stmts d)(a \<mapsto> st\<lparr>next_tuple := next_tuple st + 1\<rparr>)\<rparr>, w)"
      "map V xs = map (\<lambda>j. Str_val (cell Q r (next_tuple st) j)) [0..<length xs]" using st_fetch_row [OF st(1-5) True] by blast
    let ?st = "st\<lparr>next_tuple := next_tuple st + 1\<rparr>" and ?d = "d\<lparr>vars := V, stmts := (stmts d)(a \<mapsto> st\<lparr>next_tuple := next_tuple st + 1\<rparr>)\<rparr>"
    have nx: "nat (next_tuple ?st) = Suc ?k" using st(7) by simp
    obtain d' where g: "fetch_rows K Q L a xs n (?d, w) = Some (Ret (map (map Str_val) (drop (Suc ?k) (all_rows Q r))), d', w)"
      using Suc.IH [of ?d ?st] st nx by auto
    have k: "?k < length (all_rows Q r)" using True st(7) by (simp add: all_rows_def nat_less_iff)
    have "map Str_val (all_rows Q r ! ?k) = map V xs" using k f(2) st(6,7) by (simp add: all_rows_def)
    then have "map (map Str_val) (drop ?k (all_rows Q r)) = map V xs # map (map Str_val) (drop (Suc ?k) (all_rows Q r))"
      using k by (simp flip: Cons_nth_drop_Suc)
    then show ?thesis using f(1) g by (auto simp: bindW_Ret retW_def)
  qed
qed

section \<open>Timestamps\<close>

lemma schar_digit: "d < 10 \<Longrightarrow> schar (digit_char d) - 48 = int d"
proof -
  assume "d < 10"
  then have "(of_char (digit_char d) :: nat) = 48 + d" by (simp add: digit_char_def)
  moreover have "int (of_char (digit_char d)) = of_char (digit_char d)" by (rule of_nat_of_char)
  ultimately have "(of_char (digit_char d) :: int) = 48 + int d" by linarith
  then show ?thesis using \<open>d < 10\<close> by (simp add: schar_def)
qed

lemma fixed_two: "n < 100 \<Longrightarrow> parse_fixed_width_int (two n) 2 = int n"
proof -
  assume "n < 100"
  then have "n = 10 * (n div 10 mod 10) + n mod 10" by simp
  moreover have "parse_fixed_width_int (two n) 2 = int (n div 10 mod 10) * 10 + int (n mod 10)"
    using schar_digit [of "n div 10 mod 10"] schar_digit [of "n mod 10"] by (simp add: two_def c_nth_def numeral_2_eq_2)
  ultimately show ?thesis by (metis mult.commute of_nat_add of_nat_mult of_nat_numeral)
qed

lemma fixed_width_four:
  "parse_fixed_width_int [a, b, c, d] 4 = (((schar a - 48) * 10 + (schar b - 48)) * 10 + (schar c - 48)) * 10 + (schar d - 48)"
  by (simp add: c_nth_def eval_nat_numeral)

lemma fixed_four: "n < 10000 \<Longrightarrow> parse_fixed_width_int (four n) 4 = int n"
proof -
  assume "n < 10000"
  then have "n div 1000 mod 10 = n div 1000" by simp
  moreover have "n div 100 = n div 1000 * 10 + n div 100 mod 10" "n div 10 = n div 100 * 10 + n div 10 mod 10" "n = n div 10 * 10 + n mod 10"
    using div_mult_mod_eq [of "n div 100" 10] div_mult_mod_eq [of "n div 10" 10] by (simp_all flip: div_mult2_eq)
  ultimately have e: "((n div 1000 mod 10 * 10 + n div 100 mod 10) * 10 + n div 10 mod 10) * 10 + n mod 10 = n" by (simp only:)
  have "parse_fixed_width_int (four n) 4 =
      ((int (n div 1000 mod 10) * 10 + int (n div 100 mod 10)) * 10 + int (n div 10 mod 10)) * 10 + int (n mod 10)"
    using schar_digit [of "n div 1000 mod 10"] schar_digit [of "n div 100 mod 10"] schar_digit [of "n div 10 mod 10"] schar_digit [of "n mod 10"]
    by (simp add: four_def fixed_width_four)
  also have "\<dots> = int (((n div 1000 mod 10 * 10 + n div 100 mod 10) * 10 + n div 10 mod 10) * 10 + n mod 10)"
    by (simp only: of_nat_add of_nat_mult of_nat_numeral)
  finally show ?thesis unfolding e .
qed

lemma two_four_digits: "list_all isdigit (two n)" "length (two n) = 2" "list_all isdigit (four n)" "length (four n) = 4"
  by (simp_all add: two_def four_def digit_char_props)

section \<open>Properties\<close>

text \<open>
  C33: fetching row by row is the same as fetching all rows at once: with every column bound to a variable
  of its own, the rows that \<open>st_fetch\<close> delivers until it returns 0 are exactly those that
  \<open>st_fetch_all_rows\<close> returns, nulls included, and the loop ends after one call more than there are rows.
\<close>

theorem fetch_loop_is_fetch_all:
  assumes "stmts d a = Some st" "st_result st = Some r" "fetch_allowed st" "next_tuple st = 0" "outtypes st = Some (string_cols xs)"
    and "distinct xs" "length xs = nat (PQnfields Q r)" "nat (PQntuples Q r) < n"
  shows "\<exists>rows d'. st_fetch_all_rows K Q a (d, w) = Some (Ret (Some rows), d, w) \<and> length rows = nat (PQntuples Q r) \<and>
    fetch_rows K Q L a xs n (d, w) = Some (Ret (map (map Str_val) rows), d', w)"
proof -
  have "st_fetch_all_rows K Q a (d, w) = Some (Ret (Some (all_rows Q r)), d, w)"
    using assms(1-3) by (simp add: st_fetch_all_rows_def retW_def)
  moreover have "length (all_rows Q r) = nat (PQntuples Q r)" by (simp add: all_rows_def)
  moreover obtain d' where "fetch_rows K Q L a xs n (d, w) = Some (Ret (map (map Str_val) (all_rows Q r)), d', w)"
    using fetch_rows_from [OF assms(1-3,5-7), of n K L w] assms(4,8) by auto
  ultimately show ?thesis by blast
qed

theorem fetch_loop_is_fetch_all_witness:
  "\<exists>d'. fetch_rows db_kernel demo_pq demo_lib 1 [10, 11] 3
      (demo_dbi\<lparr>stmts := [1 \<mapsto> (demo_st [''select''] [])\<lparr>st_result := Some ''select'', fetch_allowed := True,
         outtypes := Some (string_cols [10, 11])\<rparr>]\<rparr>, db_world) =
    Some (Ret [[Str_val (Some ''0''), Str_val (Some ''1'')], [Str_val (Some ''10''), Str_val None]], d', db_world)"
proof -
  let ?st = "(demo_st [''select''] [])\<lparr>st_result := Some ''select'', fetch_allowed := True, outtypes := Some (string_cols [10, 11])\<rparr>"
  let ?d = "demo_dbi\<lparr>stmts := [1 \<mapsto> ?st]\<rparr>"
  have "\<exists>rows d'. st_fetch_all_rows db_kernel demo_pq 1 (?d, db_world) = Some (Ret (Some rows), ?d, db_world) \<and>
      length rows = nat (PQntuples demo_pq ''select'') \<and>
      fetch_rows db_kernel demo_pq demo_lib 1 [10, 11] 3 (?d, db_world) = Some (Ret (map (map Str_val) rows), d', db_world)"
    by (rule fetch_loop_is_fetch_all [where st = ?st and r = "''select''"]) (simp_all add: demo_pq_def demo_st_def)
  then obtain rows d' where r: "st_fetch_all_rows db_kernel demo_pq 1 (?d, db_world) = Some (Ret (Some rows), ?d, db_world)"
    "fetch_rows db_kernel demo_pq demo_lib 1 [10, 11] 3 (?d, db_world) = Some (Ret (map (map Str_val) rows), d', db_world)" by blast
  have "rows = all_rows demo_pq ''select''" using r(1) by (simp add: st_fetch_all_rows_def retW_def)
  moreover have "all_rows demo_pq ''select'' = [[Some ''0'', Some ''1''], [Some ''10'', None]]" by code_simp
  ultimately show ?thesis using r(2) by auto
qed

text \<open>
  a timestamp that the server prints as \<open>YYYY-MM-DD hh:mm:ss\<close> is parsed into exactly these numbers, for
  all years of four digits; the fields that are not printed are zero.
\<close>

theorem parse_timestamp_roundtrip:
  assumes "dbi_strings L" "y < 10000" "mo < 100" "d < 100" "h < 100" "mi < 100" "s < 100"
  shows "parse_timestamp K L (four y @ ''-'' @ two mo @ ''-'' @ two d @ '' '' @ two h @ '':'' @ two mi @ '':'' @ two s) (db, w) =
    Some (Ret \<lparr>ts_is_null = False, year = int y, month = int mo, day = int d, hour = int h, minute = int mi, sec = int s,
      microsecs = 0, utc_offset = 0\<rparr>, db, w)"
proof -
  let ?t = "four y @ ''-'' @ two mo @ ''-'' @ two d @ '' '' @ two h @ '':'' @ two mi @ '':'' @ two s"
  obtain k where k: "re_timestamp L ?t = Some ([Some ?t, Some (four y), Some (two mo), Some (two d), Some (two h), Some (two mi), Some (two s)] @
      replicate k None)"
    using dbi_strings.timestamp_law [OF assms(1), of "four y" "two mo" "two d" "two h" "two mi" "two s"] by (auto simp: two_four_digits)
  have g: "group ([Some ?t, Some (four y), Some (two mo), Some (two d), Some (two h), Some (two mi), Some (two s)] @ replicate k None) j = None"
    if "j \<ge> 7" for j using that by (auto simp: group_def nth_append)
  show ?thesis
    using k fixed_four [OF assms(2)] fixed_two [OF assms(3)] fixed_two [OF assms(4)] fixed_two [OF assms(5)] fixed_two [OF assms(6)]
      fixed_two [OF assms(7)] g [of 7] g [of 9]
    by (simp add: parse_timestamp_def retW_def timestamp_of_def fixed_def scanned_def) (simp add: group_def)
qed

theorem parse_timestamp_roundtrip_witness:
  "parse_timestamp db_kernel demo_lib ''2003-02-05 09:07:30'' (demo_dbi, db_world) =
    Some (Ret \<lparr>ts_is_null = False, year = 2003, month = 2, day = 5, hour = 9, minute = 7, sec = 30, microsecs = 0, utc_offset = 0\<rparr>,
      demo_dbi, db_world)"
proof -
  have "four 2003 @ ''-'' @ two 2 @ ''-'' @ two 5 @ '' '' @ two 9 @ '':'' @ two 7 @ '':'' @ two 30 = ''2003-02-05 09:07:30''" by code_simp
  then show ?thesis
    using parse_timestamp_roundtrip [OF demo_lib.dbi_strings_axioms, of 2003 2 5 9 7 30 db_kernel demo_dbi db_world] by simp
qed

end
