(* ===== verification/Dbi_Types.thy ===== *)
theory Dbi_Types
  imports Dbi_Rows
begin

text \<open>
  The types of the database library. The placeholders of a statement and the variables that columns are
  bound to have types from \<open>DBI_INT\<close> to \<open>DBI_INT_OR_NULL\<close>, which the C compiler does not check. A program
  that keeps to them does not run into an \<open>abort\<close> and its variables keep their types.
\<close>

section \<open>Values and variables\<close>

definition val_type :: "int \<Rightarrow> dbi_val \<Rightarrow> bool" where
  "val_type ty v = (case v of
     Int_val _ \<Rightarrow> ty = DBI_INT \<or> ty = DBI_INT_OR_NULL \<or> ty = DBI_BOOL
   | Str_val _ \<Rightarrow> ty = DBI_STRING
   | Char_val _ \<Rightarrow> ty = DBI_CHAR
   | Time_val _ \<Rightarrow> ty = DBI_TIMESTAMP
   | Interval_val _ \<Rightarrow> ty = DBI_INTERVAL)"

text \<open>\<open>\<Gamma>\<close> gives the declared types of variables.\<close>

type_synonym dbi_decls = "nat \<rightharpoonup> int"

definition decls_ok :: "dbi_decls \<Rightarrow> bool" where
  "decls_ok \<Gamma> \<longleftrightarrow> (\<forall>ty \<in> ran \<Gamma>. DBI_INT \<le> ty \<and> ty \<le> DBI_INT_OR_NULL)"

definition vars_typed :: "dbi_decls \<Rightarrow> (nat \<Rightarrow> dbi_val) \<Rightarrow> bool" where
  "vars_typed \<Gamma> V \<longleftrightarrow> (\<forall>x ty. \<Gamma> x = Some ty \<longrightarrow> val_type ty (V x))"

definition col_typed :: "dbi_decls \<Rightarrow> otype \<Rightarrow> bool" where
  "col_typed \<Gamma> ot \<longleftrightarrow> o_type ot = 0 \<or> (case o_varptr ot of None \<Rightarrow> True | Some x \<Rightarrow> \<Gamma> x = Some (o_type ot))"

definition st_typed :: "dbi_decls \<Rightarrow> addr \<Rightarrow> 'r dbi \<Rightarrow> bool" where
  "st_typed \<Gamma> a d \<longleftrightarrow> vars_typed \<Gamma> (vars d) \<and>
     (\<exists>st. stmts d a = Some st \<and> (\<forall>ots. outtypes st = Some ots \<longrightarrow> list_all (col_typed \<Gamma>) ots))"

section \<open>Computations that keep an invariant\<close>

text \<open>
  \<open>m\<close> is defined, ends in a state with \<open>Inv\<close> however it ends, and when it returns, the world is unchanged
  and the result satisfies \<open>P\<close>.
\<close>

definition safe :: "('r dbi \<Rightarrow> bool) \<Rightarrow> 'w \<Rightarrow> ('w, 'r, 'a) db \<Rightarrow> ('a \<Rightarrow> bool) \<Rightarrow> 'r dbi \<Rightarrow> bool" where
  "safe Inv w m P d \<longleftrightarrow> (\<exists>r d' w'. m (d, w) = Some (r, d', w') \<and> Inv d' \<and> (\<forall>a. r = Ret a \<longrightarrow> w' = w \<and> P a))"

lemma safe_ret [simp]: "safe Inv w (retW a) P d \<longleftrightarrow> Inv d \<and> P a"
  by (simp add: safe_def retW_def)

lemma safe_get_d [simp]: "safe Inv w (bindW get_d f) P d \<longleftrightarrow> safe Inv w (f d) P d"
  by (simp add: safe_def bindW_def get_d_def)

lemma safe_upd_d: "Inv (g d) \<Longrightarrow> safe Inv w (upd_d g) (\<lambda>_. True) d"
  by (simp add: safe_def upd_d_def)

lemma safe_bind:
  assumes "safe Inv w m P d" "\<And>a d'. Inv d' \<Longrightarrow> P a \<Longrightarrow> safe Inv w (f a) R d'"
  shows "safe Inv w (bindW m f) R d"
proof -
  obtain r d1 w1 where m: "m (d, w) = Some (r, d1, w1)" "Inv d1" "\<And>a. r = Ret a \<Longrightarrow> w1 = w \<and> P a"
    using assms(1) by (auto simp: safe_def)
  show ?thesis
  proof (cases r)
    case (Ret a)
    then have "bindW m f (d, w) = f a (d1, w)" using m(1,3) by (simp add: bindW_def)
    then show ?thesis using assms(2) [OF m(2)] m(3) [OF Ret] by (simp add: safe_def)
  qed (use m in \<open>simp_all add: safe_def bindW_def\<close>)
qed

lemma pth_die_defined:
  assumes "runs t w"
  shows "\<exists>r w'. pth_die K msg w = Some (r, w') \<and> (\<forall>a. r \<noteq> Ret a)"
proof -
  obtain p where p: "current_pth w = Some t" "w_pths w t = Some p" using assms by (auto simp: runs_def)
  then show ?thesis
    by (auto simp: pth_die_def cur_def pth_exit_def bindW_def updW_def upd_cur_def pop_handler_def getW_def Let_def split: option.split prod.split)
qed

lemma safe_die:
  fixes P :: "'a \<Rightarrow> bool"
  assumes "runs t w" "Inv d"
  shows "safe Inv w (with_world (pth_die K msg)) P d"
proof -
  obtain r :: "'a outcome" and w' where "pth_die K msg w = Some (r, w')" "\<forall>a. r \<noteq> Ret a" using pth_die_defined [OF assms(1)] by blast
  then show ?thesis using assms(2) by (simp add: safe_def with_world_def)
qed

section \<open>Fetching\<close>

lemma list_all_update: "list_all P xs \<Longrightarrow> P y \<Longrightarrow> list_all P (xs[i := y])"
  using set_update_subset_insert [of xs i y] by (auto simp: list_all_iff)

lemma list_all_replicate: "P x \<Longrightarrow> list_all P (replicate n x)"
  by (simp add: list_all_iff)

lemma safe_set_var:
  assumes "st_typed \<Gamma> a d" "\<Gamma> x = Some ty" "val_type ty v"
  shows "safe (st_typed \<Gamma> a) w (set_var x v) (\<lambda>_. True) d"
  unfolding set_var_def using assms by (intro safe_upd_d) (auto simp: st_typed_def vars_typed_def)

lemma safe_fetch_col:
  assumes "runs t w" "decls_ok \<Gamma>" "st_typed \<Gamma> a d" "\<Gamma> x = Some ty"
  shows "safe (st_typed \<Gamma> a) w (fetch_col K L ty x r) (\<lambda>_. True) d"
proof -
  note set = safe_set_var [where \<Gamma> = \<Gamma>, OF _ assms(4)]
  have ts: "safe (st_typed \<Gamma> a) w (bindW (parse_timestamp K L s) (\<lambda>ts. set_var x (Time_val ts))) (\<lambda>_. True) d"
    if "ty = DBI_TIMESTAMP" for s
    by (rule safe_bind [where P = "\<lambda>_. True"])
      (use assms that in \<open>auto simp: parse_timestamp_def val_type_def split: option.split intro!: safe_die set\<close>)
  have iv: "safe (st_typed \<Gamma> a) w (bindW (parse_interval K L s) (\<lambda>ts. set_var x (Interval_val ts))) (\<lambda>_. True) d"
    if "ty = DBI_INTERVAL" for s
    by (rule safe_bind [where P = "\<lambda>_. True"])
      (use assms that in \<open>auto simp: parse_interval_def val_type_def split: option.split intro!: safe_die set\<close>)
  have "ty \<in> {1001..1007}" using assms(2,4) by (auto simp: decls_ok_def ran_def dbi_types)
  then consider "ty = DBI_INT" | "ty = DBI_STRING" | "ty = DBI_BOOL" | "ty = DBI_CHAR" | "ty = DBI_TIMESTAMP" | "ty = DBI_INTERVAL" | "ty = DBI_INT_OR_NULL"
    by (force simp: dbi_types)
  then show ?thesis
    by cases (use assms(3) ts iv in \<open>auto simp: fetch_col_def dbi_types val_type_def intro!: set split: option.split\<close>)
qed

lemma safe_fetch_cols:
  assumes "runs t w" "decls_ok \<Gamma>" "list_all (col_typed \<Gamma>) ots" "st_typed \<Gamma> a d"
  shows "safe (st_typed \<Gamma> a) w (fetch_cols K Q L r row i ots) (\<lambda>_. True) d"
  using assms(3,4)
proof (induction ots arbitrary: i d)
  case (Cons ot ots)
  have "safe (st_typed \<Gamma> a) w (case o_varptr ot of None \<Rightarrow> retW ()
      | Some x \<Rightarrow> if o_type ot \<noteq> 0 then fetch_col K L (o_type ot) x (cell Q r row i) else retW ()) (\<lambda>_. True) d"
    using Cons.prems safe_fetch_col [OF assms(1,2)] by (auto simp: col_typed_def split: option.split)
  then show ?case unfolding fetch_cols.simps by (rule safe_bind) (use Cons in simp)
qed simp

lemma safe_get_st: "st_typed \<Gamma> a d \<Longrightarrow> safe (st_typed \<Gamma> a) w (get_st a) (\<lambda>st. \<forall>ots. outtypes st = Some ots \<longrightarrow> list_all (col_typed \<Gamma>) ots) d"
  by (auto simp: safe_def get_st_def st_typed_def)

lemma safe_upd_st:
  assumes "st_typed \<Gamma> a d" "\<And>st ots. outtypes (g st) = Some ots \<Longrightarrow> (\<forall>ots. outtypes st = Some ots \<longrightarrow> list_all (col_typed \<Gamma>) ots) \<Longrightarrow> list_all (col_typed \<Gamma>) ots"
  shows "safe (st_typed \<Gamma> a) w (upd_st a g) (\<lambda>_. True) d"
  using assms by (auto simp: safe_def upd_st_def st_typed_def)

lemma safe_fetch:
  fixes Q :: "('u, 'r) pq_ops"
  assumes "runs t w" "decls_ok \<Gamma>" "st_typed \<Gamma> a d"
  shows "safe (st_typed \<Gamma> a) w (st_fetch K Q L a) (\<lambda>_. True) d"
proof -
  have die: "safe (st_typed \<Gamma> a) w (die_or K msg x) (\<lambda>_. True) d'" if "st_typed \<Gamma> a d'" for msg and x :: int and d' :: "'r dbi"
    using that by (simp add: die_or_def safe_die [where Inv = "st_typed \<Gamma> a", OF assms(1)])
  have row: "safe (st_typed \<Gamma> a) w (bindW (case outtypes st of None \<Rightarrow> retW () | Some ots \<Rightarrow> fetch_cols K Q L r (next_tuple st) 0 ots) (\<lambda>_.
      bindW (upd_st a (\<lambda>st. st\<lparr>next_tuple := next_tuple st + 1\<rparr>)) (\<lambda>_. retW (1 :: int)))) (\<lambda>_. True) d'"
    if "st_typed \<Gamma> a d'" "\<forall>ots. outtypes st = Some ots \<longrightarrow> list_all (col_typed \<Gamma>) ots" for st r d'
    by (rule safe_bind [where P = "\<lambda>_. True"])
      (use that safe_fetch_cols [OF assms(1,2)] in \<open>auto split: option.split intro!: safe_bind [OF safe_upd_st]\<close>)
  show ?thesis
    unfolding st_fetch_def
  proof (rule safe_bind [OF safe_get_st [OF assms(3)]])
    fix st :: "'r st_handle" and d' :: "'r dbi" assume "st_typed \<Gamma> a d'" "\<forall>ots. outtypes st = Some ots \<longrightarrow> list_all (col_typed \<Gamma>) ots"
    then show "safe (st_typed \<Gamma> a) w (case (st_result st, fetch_allowed st) of
       (Some r, True) \<Rightarrow>
         if next_tuple st \<ge> PQntuples Q r then retW (0 :: int)
         else bindW (case outtypes st of None \<Rightarrow> retW () | Some ots \<Rightarrow> fetch_cols K Q L r (next_tuple st) 0 ots) (\<lambda>_.
              bindW (upd_st a (\<lambda>st. st\<lparr>next_tuple := next_tuple st + 1\<rparr>)) (\<lambda>_. retW 1))
     | _ \<Rightarrow> die_or K ''dbi: st_fetch: fetch without execute, or on a non-SELECT statement'' (-1)) (\<lambda>_. True) d'"
      by (cases "st_result st"; cases "fetch_allowed st") (simp_all add: die row)
  qed
qed

text \<open>Binding columns and then fetching rows.\<close>

fun bind_all :: "addr \<Rightarrow> (nat \<times> nat \<times> int) list \<Rightarrow> ('w, 'r, unit) db" where
  "bind_all a [] = retW ()"
| "bind_all a ((col, x, ty) # bs) = bindW (st_bind a col x ty) (\<lambda>_. bind_all a bs)"

lemma safe_st_bind:
  assumes "st_typed \<Gamma> a d" "\<Gamma> x = Some ty"
  shows "safe (st_typed \<Gamma> a) w (st_bind a col x ty) (\<lambda>_. True) d"
  unfolding st_bind_def
proof (rule safe_upd_st [OF assms(1)])
  fix st :: "'a st_handle" and ots
  assume h: "outtypes (let ots = case outtypes st of None \<Rightarrow> [] | Some ots \<Rightarrow> ots;
      ext = ots @ replicate (col + 1 - length ots) \<lparr>o_type = 0, o_varptr = None\<rparr>
    in st\<lparr>outtypes := Some (ext[col := \<lparr>o_type = ty, o_varptr = Some x\<rparr>])\<rparr>) = Some ots"
    "\<forall>ots. outtypes st = Some ots \<longrightarrow> list_all (col_typed \<Gamma>) ots"
  define ys where "ys = (case outtypes st of None \<Rightarrow> [] | Some ots \<Rightarrow> ots)"
  have "list_all (col_typed \<Gamma>) ys" using h(2) by (cases "outtypes st") (auto simp: ys_def)
  moreover have "ots = (ys @ replicate (col + 1 - length ys) \<lparr>o_type = 0, o_varptr = None\<rparr>)[col := \<lparr>o_type = ty, o_varptr = Some x\<rparr>]"
    using h(1) unfolding ys_def [symmetric] Let_def by simp
  ultimately show "list_all (col_typed \<Gamma>) ots"
    using assms(2) by (auto intro!: list_all_update list_all_replicate simp: col_typed_def)
qed

lemma safe_bind_all:
  "st_typed \<Gamma> a d \<Longrightarrow> list_all (\<lambda>(col, x, ty). \<Gamma> x = Some ty) bs \<Longrightarrow> safe (st_typed \<Gamma> a) w (bind_all a bs) (\<lambda>_. True) d"
proof (induction bs arbitrary: d)
  case (Cons b bs)
  obtain col x ty where b: "b = (col, x, ty)" by (cases b)
  show ?case unfolding b bind_all.simps by (rule safe_bind [OF safe_st_bind]) (use Cons b in auto)
qed simp

definition row_typed :: "dbi_decls \<Rightarrow> nat list \<Rightarrow> dbi_val list \<Rightarrow> bool" where
  "row_typed \<Gamma> xs vs \<longleftrightarrow> list_all2 (\<lambda>x v. case \<Gamma> x of None \<Rightarrow> True | Some ty \<Rightarrow> val_type ty v) xs vs"

lemma safe_fetch_rows:
  fixes Q :: "('u, 'r) pq_ops"
  assumes "runs t w" "decls_ok \<Gamma>" "st_typed \<Gamma> a d"
  shows "safe (st_typed \<Gamma> a) w (fetch_rows K Q L a xs n) (list_all (row_typed \<Gamma> xs)) d"
  using assms(3)
proof (induction n arbitrary: d)
  case (Suc n)
  show ?case
    unfolding fetch_rows.simps
  proof (rule safe_bind [OF safe_fetch [OF assms(1,2) Suc.prems]])
    fix r and d' :: "'r dbi" assume d: "st_typed \<Gamma> a d'"
    have "row_typed \<Gamma> xs (map (vars d') xs)" using d
      by (auto simp: row_typed_def list_all2_conv_all_nth st_typed_def vars_typed_def split: option.split)
    then show "safe (st_typed \<Gamma> a) w (if r \<noteq> 1 then retW [] else bindW get_d (\<lambda>d. bindW (fetch_rows K Q L a xs n) (\<lambda>rows. retW (map (vars d) xs # rows))))
        (list_all (row_typed \<Gamma> xs)) d'"
      using d by (auto intro!: safe_bind [OF Suc.IH])
  qed
qed simp

section \<open>Properties\<close>

text \<open>
  C36: Well-typed bindings do not go wrong. When the variables of a program hold values of their declared
  types and columns are bound to variables with these types, then binding any columns and fetching any
  number of rows never reaches the \<open>abort\<close> for an unknown type or an undefined access: the calls return or
  raise an exception, whatever the server has sent. In every case all variables still hold values of
  their types, and so do all the rows that were read.
\<close>

theorem fetch_well_typed:
  assumes "runs t w" "decls_ok \<Gamma>" "st_typed \<Gamma> a d" "list_all (\<lambda>(col, x, ty). \<Gamma> x = Some ty) bs"
  shows "\<exists>r d' w'. bindW (bind_all a bs) (\<lambda>_. fetch_rows K Q L a xs n) (d, w) = Some (r, d', w') \<and> vars_typed \<Gamma> (vars d') \<and>
    (case r of Ret rows \<Rightarrow> w' = w \<and> list_all (row_typed \<Gamma> xs) rows | _ \<Rightarrow> True)"
proof -
  have "safe (st_typed \<Gamma> a) w (bindW (bind_all a bs) (\<lambda>_. fetch_rows K Q L a xs n)) (list_all (row_typed \<Gamma> xs)) d"
    by (rule safe_bind [OF safe_bind_all [OF assms(3,4)]]) (rule safe_fetch_rows [OF assms(1,2)])
  then obtain r d' w' where "bindW (bind_all a bs) (\<lambda>_. fetch_rows K Q L a xs n) (d, w) = Some (r, d', w')" "st_typed \<Gamma> a d'"
    "\<forall>rows. r = Ret rows \<longrightarrow> w' = w \<and> list_all (row_typed \<Gamma> xs) rows" unfolding safe_def by blast
  then show ?thesis by (intro exI [of _ r] exI [of _ d'] exI [of _ w']) (simp add: st_typed_def split: outcome.split)
qed

definition demo_decls :: dbi_decls where
  "demo_decls = [10 \<mapsto> DBI_INT, 11 \<mapsto> DBI_STRING, 12 \<mapsto> DBI_BOOL]"

definition demo_select :: "string dbi" where
  "demo_select = demo_dbi\<lparr>stmts := [1 \<mapsto> (demo_st [''select''] [])\<lparr>st_result := Some ''select'', fetch_allowed := True\<rparr>],
     vars := (\<lambda>x. if x = 11 then Str_val None else Int_val 99)\<rparr>"

theorem fetch_well_typed_witness:
  "\<exists>r d' w'. bindW (bind_all 1 [(0, 10, DBI_INT), (3, 12, DBI_BOOL), (1, 11, DBI_STRING)])
       (\<lambda>_. fetch_rows db_kernel demo_pq demo_lib 1 [10, 11] 5) (demo_select, db_world) = Some (r, d', w') \<and> vars_typed demo_decls (vars d') \<and>
     (case r of Ret rows \<Rightarrow> w' = db_world \<and> list_all (row_typed demo_decls [10, 11]) rows | _ \<Rightarrow> True)"
proof (rule fetch_well_typed [OF db_world_runs(1)])
  show "decls_ok demo_decls" by (auto simp: decls_ok_def demo_decls_def ran_def dbi_types split: if_splits)
  show "st_typed demo_decls 1 demo_select"
    by (auto simp: st_typed_def vars_typed_def demo_decls_def demo_select_def demo_st_def val_type_def split: if_splits)
  show "list_all (\<lambda>(col, x, ty). demo_decls x = Some ty) [(0, 10, DBI_INT), (3, 12, DBI_BOOL), (1, 11, DBI_STRING)]"
    by (simp add: demo_decls_def)
qed

end
