(* ===== verification/Dbi_Patterns.thy ===== *)
theory Dbi_Patterns
  imports Dbi_Rows
begin

text \<open>
  The regular expressions that \<open>init_dbi\<close> (\<open>src/src/pthr_dbi.c\<close>) compiles. The other theories of the
  database interface take the results of matching as parameters with laws; here the expressions are
  written down as they stand in the source. The library that matches them is a parameter as well; its
  law (\<open>perl_matching\<close>) is that it has the documented semantics of Perl expressions: the first
  alternative that lets the rest match, repetitions and options greedy. Then the expressions satisfy
  the laws of the other theories, and they give what is read from timestamps with fractions and from
  intervals.
\<close>

section \<open>Matching\<close>

datatype regex =
    Eps
  | Cls "char \<Rightarrow> bool"
  | Sequ regex regex
  | Alt regex regex
  | Opt regex
  | Many "char \<Rightarrow> bool"
  | Grp nat regex

type_synonym captures = "nat \<Rightarrow> string option"

text \<open>
  The rest of the expression is a continuation. A repetition applies to a class of characters, which
  is all that the source uses.
\<close>

fun many :: "(char \<Rightarrow> bool) \<Rightarrow> string \<Rightarrow> captures \<Rightarrow> (string \<Rightarrow> captures \<Rightarrow> 'r option) \<Rightarrow> 'r option" where
  "many p [] g k = k [] g"
| "many p (c # s) g k = (case (if p c then many p s g k else None) of None \<Rightarrow> k (c # s) g | Some r \<Rightarrow> Some r)"

fun rx :: "regex \<Rightarrow> string \<Rightarrow> captures \<Rightarrow> (string \<Rightarrow> captures \<Rightarrow> 'r option) \<Rightarrow> 'r option" where
  "rx Eps s g k = k s g"
| "rx (Cls p) s g k = (case s of [] \<Rightarrow> None | c # t \<Rightarrow> if p c then k t g else None)"
| "rx (Sequ a b) s g k = rx a s g (\<lambda>s1 g1. rx b s1 g1 k)"
| "rx (Alt a b) s g k = (case rx a s g k of None \<Rightarrow> rx b s g k | Some r \<Rightarrow> Some r)"
| "rx (Opt a) s g k = (case rx a s g k of None \<Rightarrow> k s g | Some r \<Rightarrow> Some r)"
| "rx (Many p) s g k = many p s g k"
| "rx (Grp n a) s g k = rx a s g (\<lambda>s1 g1. k s1 (g1(n \<mapsto> take (length s - length s1) s)))"

text \<open>The first position at which there is a match: the text before it, the match, the text behind it and the groups.\<close>

fun search :: "regex \<Rightarrow> string \<Rightarrow> string \<Rightarrow> (string \<times> string \<times> string \<times> captures) option" where
  "search r u s =
     (case rx r s Map.empty (\<lambda>s1 g. Some (s1, g)) of
        Some (s1, g) \<Rightarrow> Some (u, take (length s - length s1) s, s1, g)
      | None \<Rightarrow> (case s of [] \<Rightarrow> None | c # t \<Rightarrow> search r (u @ [c]) t))"

declare search.simps [simp del]

text \<open>
  The match and all \<open>n\<close> groups, those that did not take part as null. \<open>prematch\<close> of c2lib gives this vector,
  from which it may leave out null groups at the end.
\<close>

definition prematch :: "nat \<Rightarrow> regex \<Rightarrow> string \<Rightarrow> string option list option" where
  "prematch n r s = map_option (\<lambda>(u, m, v, g). Some m # map g [1 ..< Suc n]) (search r [] s)"

text \<open>
  \<open>pstrresplit2\<close> of c2lib gives the parts between the matches and the matches; parts that are empty
  are left out.
\<close>

function resplit2 :: "regex \<Rightarrow> string \<Rightarrow> string list" where
  "resplit2 r s =
     (case search r [] s of
        None \<Rightarrow> if s = [] then [] else [s]
      | Some (u, m, v, g) \<Rightarrow> if length v < length s then (if u = [] then [] else [u]) @ m # resplit2 r v else [s])"
  by pat_completeness auto
termination by (relation "measure (length \<circ> snd)") auto

declare resplit2.simps [simp del]

section \<open>The expressions\<close>

fun sequ :: "regex list \<Rightarrow> regex" where
  "sequ [] = Eps"
| "sequ (r # rs) = Sequ r (sequ rs)"

abbreviation chr :: "char \<Rightarrow> regex" where "chr c \<equiv> Cls (\<lambda>x. x = c)"
abbreviation lit :: "string \<Rightarrow> regex" where "lit s \<equiv> sequ (map chr s)"
abbreviation D :: regex where "D \<equiv> Cls isdigit"

definition DD :: regex where "DD = sequ [D, D]"
definition DDDD :: regex where "DDDD = sequ [D, D, D, D]"
definition Ds :: regex where "Ds = sequ [D, Many isdigit]"

definition re_space :: "char \<Rightarrow> bool" where
  "re_space c \<longleftrightarrow> c \<in> {CHR '' '', CHR 0x09, CHR 0x0A, CHR 0x0C, CHR 0x0D}"

definition pat_qs :: regex where
  "pat_qs = Alt (chr CHR ''?'') (chr CHR ''@'')"

definition pat_timestamp :: regex where
  "pat_timestamp = sequ
    [sequ [Grp 1 DDDD, chr CHR ''-'', Grp 2 DD, chr CHR ''-'', Grp 3 DD],
     Many re_space,
     Opt (sequ [Grp 4 DD, chr CHR '':'', Grp 5 DD,
       Opt (sequ [chr CHR '':'', Grp 6 DD]),
       Opt (sequ [chr CHR ''.'', Grp 7 Ds]),
       Opt (sequ [Grp 8 (Cls (\<lambda>c. c = CHR ''+'' \<or> c = CHR ''-'')), Grp 9 DD])])]"

text \<open>A part of an interval such as \<open>(?:(\d+)\syears?)?\<close>.\<close>

definition unit_part :: "nat \<Rightarrow> string \<Rightarrow> regex" where
  "unit_part n name = Opt (sequ [Grp n Ds, Cls re_space, lit name, Opt (chr CHR ''s'')])"

definition pat_interval :: regex where
  "pat_interval = sequ
    [unit_part 1 ''year'', Many re_space, unit_part 2 ''mon'', Many re_space, unit_part 3 ''day'', Many re_space,
     Opt (sequ [Grp 4 DD, chr CHR '':'', Grp 5 DD, Opt (sequ [chr CHR '':'', Grp 6 DD])])]"

text \<open>\<open>init_dbi\<close> makes a pool and compiles the expressions in it; \<open>free_dbi\<close> deletes the pool.\<close>

record dbi_globals =
  dbi_pool :: pool
  g_qs :: regex
  g_timestamp :: regex
  g_interval :: regex

definition init_dbi :: "'P pool_ops \<Rightarrow> pool \<Rightarrow> 'P \<Rightarrow> dbi_globals \<times> 'P" where
  "init_dbi PO global_pool P =
     (let (p, P1) = new_subpool PO P global_pool
      in (\<lparr>dbi_pool = p, g_qs = pat_qs, g_timestamp = pat_timestamp, g_interval = pat_interval\<rparr>, P1))"

definition free_dbi :: "'P pool_ops \<Rightarrow> dbi_globals \<Rightarrow> 'P \<Rightarrow> cleanup list \<times> 'P" where
  "free_dbi PO G P = delete_pool PO P (dbi_pool G)"

text \<open>The library with the matcher \<open>M\<close> and the splitter \<open>R\<close> applied to the compiled expressions.\<close>

definition pcre_lib ::
  "(nat \<Rightarrow> regex \<Rightarrow> string \<Rightarrow> string option list option) \<Rightarrow> (regex \<Rightarrow> string \<Rightarrow> string list) \<Rightarrow> dbi_globals \<Rightarrow> dbi_lib" where
  "pcre_lib M R G = \<lparr>pitoa = show_int, pjoin = join_strings, re_qs = R (g_qs G),
     re_timestamp = M 9 (g_timestamp G), re_interval = M 6 (g_interval G), st_junk = 77\<rparr>"

locale perl_matching =
  fixes M :: "nat \<Rightarrow> regex \<Rightarrow> string \<Rightarrow> string option list option" and R :: "regex \<Rightarrow> string \<Rightarrow> string list"
  assumes match_law: "rel_option (\<lambda>v' v. \<exists>k. v = v' @ replicate k None) (M n r s) (prematch n r s)"
    and split_law: "R r s = resplit2 r s"

section \<open>Rules of matching\<close>

lemma many_greedy:
  assumes "list_all p ds" "s = [] \<or> \<not> p (hd s)" "k s g = Some r"
  shows "many p (ds @ s) g k = Some r"
  using assms(1)
proof (induction ds)
  case Nil
  then show ?case using assms(2,3) by (cases s) auto
qed simp

lemma many_fails:
  assumes "list_all p ds" "s = [] \<or> \<not> p (hd s)" "\<And>a b. ds = a @ b \<Longrightarrow> k (b @ s) g = None"
  shows "many p (ds @ s) g k = None"
  using assms(1,3)
proof (induction ds)
  case Nil
  then show ?case using assms(2) by (cases s) auto
next
  case (Cons d ds)
  have "many p (ds @ s) g k = None"
  proof (rule Cons.IH)
    show "k (b @ s) g = None" if "ds = a @ b" for a b using Cons.prems(2) [of "d # a" b] that by simp
  qed (use Cons.prems in simp)
  then show ?case using Cons.prems(1) Cons.prems(2) [of "[]" "d # ds"] by simp
qed

lemma many_stop: "s = [] \<or> \<not> p (hd s) \<Longrightarrow> many p s g k = k s g"
  by (cases s) (auto split: option.splits)

text \<open>An expression all of whose parts may be left out cannot fail.\<close>

fun skippable :: "regex \<Rightarrow> bool" where
  "skippable Eps = True"
| "skippable (Sequ a b) = (skippable a \<and> skippable b)"
| "skippable (Opt a) = True"
| "skippable (Many p) = True"
| "skippable r = False"

lemma many_total: "(\<And>s g. k s g \<noteq> None) \<Longrightarrow> many p s g k \<noteq> None"
  by (induction p s g k rule: many.induct) (auto split: option.splits)

lemma skippable_total: "skippable r \<Longrightarrow> (\<And>s g. k s g \<noteq> None) \<Longrightarrow> rx r s g k \<noteq> None"
  by (induction r arbitrary: s g k) (auto simp: many_total split: option.splits)

lemma digit_cases:
  assumes "isdigit c"
  shows "\<not> re_space c" "c \<noteq> CHR '':''" "c \<noteq> CHR ''.''"
  using assms by (auto simp: isdigit_def between_def re_space_def)

section \<open>The laws of the other theories\<close>

lemma search_qs:
  assumes "set s \<inter> {CHR ''?'', CHR ''@''} = {}" "c = CHR ''?'' \<or> c = CHR ''@''"
  shows "search pat_qs u (s @ c # r) = Some (u @ s, [c], r, Map.empty)"
  using assms(1)
proof (induction s arbitrary: u)
  case Nil
  then show ?case using assms(2) by (subst search.simps) (auto simp: pat_qs_def)
next
  case (Cons x s)
  then show ?case by (subst search.simps) (auto simp: pat_qs_def)
qed

lemma search_qs_none: "set s \<inter> {CHR ''?'', CHR ''@''} = {} \<Longrightarrow> search pat_qs u s = None"
  by (induction s arbitrary: u) (subst search.simps, auto simp: pat_qs_def)+

lemma resplit2_qs_plain: "set s \<inter> {CHR ''?'', CHR ''@''} = {} \<Longrightarrow> resplit2 pat_qs s = (if s = [] then [] else [s])"
  by (subst resplit2.simps) (simp add: search_qs_none)

lemma resplit2_qs:
  assumes "set s \<inter> {CHR ''?'', CHR ''@''} = {}" "c = CHR ''?'' \<or> c = CHR ''@''"
  shows "resplit2 pat_qs (s @ c # r) = (if s = [] then [] else [s]) @ [c] # resplit2 pat_qs r"
  by (subst resplit2.simps) (simp add: search_qs [OF assms])

text \<open>Splitting with the expression is the same as splitting by a scan for the two characters; no text is lost.\<close>

lemma resplit2_is_scan: "resplit2 pat_qs s = qs_split s"
proof (induction s rule: length_induct)
  case (1 s)
  show ?case
  proof (cases "\<exists>c \<in> set s. c = CHR ''?'' \<or> c = CHR ''@''")
    case True
    then obtain u c r where s: "s = u @ c # r" "c = CHR ''?'' \<or> c = CHR ''@''" "\<forall>x \<in> set u. \<not> (x = CHR ''?'' \<or> x = CHR ''@'')"
      using split_list_first_prop [OF True] by blast
    then have u: "set u \<inter> {CHR ''?'', CHR ''@''} = {}" by auto
    have "resplit2 pat_qs r = qs_split r" using 1 s(1) by simp
    then show ?thesis
      using resplit2_qs [OF u s(2), of r] qs_split_place [OF _ u s(2), of r] s(1,2) by (cases "u = []") auto
  next
    case False
    then have "set s \<inter> {CHR ''?'', CHR ''@''} = {}" by auto
    then show ?thesis using resplit2_qs_plain qs_split_plain by (cases "s = []") auto
  qed
qed

lemma resplit2_concat: "concat (resplit2 pat_qs s) = s"
proof -
  have "concat (qs_split s) = s" by (induction s rule: qs_split.induct) (auto split: list.splits)
  then show ?thesis by (simp add: resplit2_is_scan)
qed

lemma list_len2: "length xs = 2 \<Longrightarrow> \<exists>a b. xs = [a, b]"
  by (auto simp: numeral_2_eq_2 length_Suc_conv)

lemma list_len4: "length xs = 4 \<Longrightarrow> \<exists>a b c d. xs = [a, b, c, d]"
  by (auto simp: numeral_eq_Suc length_Suc_conv)

text \<open>Date and time of a timestamp; what follows is left to the last two options.\<close>

definition ts_text :: "string \<Rightarrow> string \<Rightarrow> string \<Rightarrow> string \<Rightarrow> string \<Rightarrow> string \<Rightarrow> string \<Rightarrow> string" where
  "ts_text y mo d h mi s r = y @ ''-'' @ mo @ ''-'' @ d @ '' '' @ h @ '':'' @ mi @ '':'' @ s @ r"

definition ts_fields :: "string \<Rightarrow> string \<Rightarrow> string \<Rightarrow> string \<Rightarrow> string \<Rightarrow> string \<Rightarrow> captures" where
  "ts_fields y mo d h mi s = [1 \<mapsto> y, 2 \<mapsto> mo, 3 \<mapsto> d, 4 \<mapsto> h, 5 \<mapsto> mi, 6 \<mapsto> s]"

definition pat_ts_end :: regex where
  "pat_ts_end = sequ [Opt (sequ [chr CHR ''.'', Grp 7 Ds]), Opt (sequ [Grp 8 (Cls (\<lambda>c. c = CHR ''+'' \<or> c = CHR ''-'')), Grp 9 DD])]"

lemma rx_DD: "length ds = 2 \<Longrightarrow> list_all isdigit ds \<Longrightarrow> rx (Grp n DD) (ds @ s) g k = k s (g(n \<mapsto> ds))"
  using list_len2 [of ds] by (auto simp: DD_def)

lemma rx_DDDD: "length ds = 4 \<Longrightarrow> list_all isdigit ds \<Longrightarrow> rx (Grp n DDDD) (ds @ s) g k = k s (g(n \<mapsto> ds))"
  using list_len4 [of ds] by (auto simp: DDDD_def)

lemma rx_OptI: "rx a s g k = Some x \<Longrightarrow> rx (Opt a) s g k = Some x"
  by simp

text \<open>The hours, minutes and seconds, in both expressions; \<open>e\<close> is the rest of the option.\<close>

lemma rx_hms:
  assumes "length h = 2" "length mi = 2" "length s = 2" "list_all isdigit (h @ mi @ s)"
    "rx (sequ e) r (g(n \<mapsto> h, m \<mapsto> mi, q \<mapsto> s)) k = Some x"
  shows "rx (Opt (sequ ([Grp n DD, chr CHR '':'', Grp m DD, Opt (sequ [chr CHR '':'', Grp q DD])] @ e)))
    (h @ '':'' @ mi @ '':'' @ s @ r) g k = Some x"
proof -
  have "rx (Opt (sequ [chr CHR '':'', Grp q DD])) ('':'' @ s @ r) (g(n \<mapsto> h, m \<mapsto> mi)) (\<lambda>s1 g1. rx (sequ e) s1 g1 k) = Some x"
    using assms by (intro rx_OptI) (simp add: rx_DD del: rx.simps(7))
  then show ?thesis
    using assms(1-4) by (intro rx_OptI) (simp add: rx_DD del: rx.simps(5,7))
qed

lemma rx_timestamp:
  assumes "length y = 4" "length mo = 2" "length d = 2" "length h = 2" "length mi = 2" "length s = 2"
    "list_all isdigit (y @ mo @ d @ h @ mi @ s)" "rx pat_ts_end r (ts_fields y mo d h mi s) k = Some x"
  shows "rx pat_timestamp (ts_text y mo d h mi s r) Map.empty k = Some x"
proof -
  let ?t = "h @ '':'' @ mi @ '':'' @ s @ r"
  let ?e = "[Opt (sequ [chr CHR ''.'', Grp 7 Ds]), Opt (sequ [Grp 8 (Cls (\<lambda>c. c = CHR ''+'' \<or> c = CHR ''-'')), Grp 9 DD])]"
  let ?r = "Opt (sequ ([Grp 4 DD, chr CHR '':'', Grp 5 DD, Opt (sequ [chr CHR '':'', Grp 6 DD])] @ ?e))"
  let ?g = "[1 \<mapsto> y, 2 \<mapsto> mo, 3 \<mapsto> d]"
  have 1: "rx ?r ?t ?g k = Some x"
    using assms by (intro rx_hms) (simp_all add: ts_fields_def pat_ts_end_def)
  have "h = hd h # tl h" "isdigit (hd h)" using assms(4,7) by (cases h; simp)+
  then have 2: "\<not> re_space (hd ?t)" using digit_cases(1) by (metis append_Cons list.sel(1))
  have "many re_space ('' '' @ ?t) ?g (\<lambda>s1 g1. rx ?r s1 g1 k) = Some x"
    using 1 2 by (intro many_greedy) (auto simp: re_space_def)
  then show ?thesis
    using assms(1-7) by (simp add: pat_timestamp_def ts_text_def rx_DD rx_DDDD del: rx.simps(5,7) many.simps)
qed

lemma rx_ts_end_nothing: "rx pat_ts_end [] g k = k [] g"
  by (simp add: pat_ts_end_def split: option.splits)

lemma rx_Ds:
  assumes "list_all isdigit ds" "ds \<noteq> []" "s = [] \<or> \<not> isdigit (hd s)" "k s (g(n \<mapsto> ds)) = Some x"
  shows "rx (Grp n Ds) (ds @ s) g k = Some x"
proof -
  obtain c cs where c: "ds = c # cs" using assms(2) by (cases ds) auto
  have "many isdigit (cs @ s) g (\<lambda>s1 g1. k s1 (g1(n \<mapsto> take (Suc (length cs + length s) - length s1) (c # cs @ s)))) = Some x"
    using assms c by (intro many_greedy) (auto simp: Suc_diff_le)
  then show ?thesis using assms(1) c by (simp add: Ds_def)
qed

text \<open>An offset from UTC: a sign and two digits.\<close>

lemma rx_ts_end:
  assumes "list_all isdigit f" "f \<noteq> []" "sign = CHR ''+'' \<or> sign = CHR ''-''" "length z = 2" "list_all isdigit z"
  shows "rx pat_ts_end (CHR ''.'' # f) g (\<lambda>s1 g1. Some (s1, g1)) = Some ([], g(7 \<mapsto> f))"
    "rx pat_ts_end (CHR ''.'' # f @ sign # z) g (\<lambda>s1 g1. Some (s1, g1)) = Some ([], g(7 \<mapsto> f, 8 \<mapsto> [sign], 9 \<mapsto> z))"
proof -
  let ?o = "Opt (sequ [Grp 8 (Cls (\<lambda>c. c = CHR ''+'' \<or> c = CHR ''-'')), Grp 9 DD])"
  let ?k = "\<lambda>s1 g1. Some (s1, g1)"
  have 1: "rx ?o (sign # z) g ?k = Some ([], g(8 \<mapsto> [sign], 9 \<mapsto> z))" for g
    using assms(3-5) rx_DD [of z 9 "[]"] by (intro rx_OptI) (auto simp del: rx.simps(7) simp add: rx.simps(7) [of 8])
  have 0: "rx ?o [] g ?k = Some ([], g)" for g by (simp split: option.splits)
  have "rx (Grp 7 Ds) (f @ []) g (\<lambda>s1 g1. rx ?o s1 g1 ?k) = Some ([], g(7 \<mapsto> f))"
    using assms(1,2) 0 by (intro rx_Ds) auto
  then show "rx pat_ts_end (CHR ''.'' # f) g ?k = Some ([], g(7 \<mapsto> f))"
    by (simp add: pat_ts_end_def del: rx.simps(7))
  have "\<not> isdigit sign" using assms(3) by (auto simp: isdigit_def between_def)
  then have "rx (Grp 7 Ds) (f @ sign # z) g (\<lambda>s1 g1. rx ?o s1 g1 ?k) = Some ([], g(7 \<mapsto> f, 8 \<mapsto> [sign], 9 \<mapsto> z))"
    using assms(1,2) 1 by (intro rx_Ds) auto
  then show "rx pat_ts_end (CHR ''.'' # f @ sign # z) g ?k = Some ([], g(7 \<mapsto> f, 8 \<mapsto> [sign], 9 \<mapsto> z))"
    by (simp add: pat_ts_end_def del: rx.simps(7))
qed

lemma prematch_whole:
  "rx r s Map.empty (\<lambda>s1 g. Some (s1, g)) = Some ([], g) \<Longrightarrow> prematch n r s = Some (Some s # map g [1 ..< Suc n])"
  by (simp add: prematch_def search.simps)

lemma pcre_sel [simp]:
  "re_qs (pcre_lib M R (fst (init_dbi PO gp P))) = R pat_qs"
  "re_timestamp (pcre_lib M R (fst (init_dbi PO gp P))) = M 9 pat_timestamp"
  "re_interval (pcre_lib M R (fst (init_dbi PO gp P))) = M 6 pat_interval"
  "pitoa (pcre_lib M R G) = show_int" "pjoin (pcre_lib M R G) = join_strings"
  by (simp_all add: pcre_lib_def init_dbi_def split: prod.splits)

lemma group_pad: "group (v @ replicate k None) = group v"
  by (rule ext) (simp add: group_def nth_append)

lemma interval_pad: "interval_of (v @ replicate k None) = interval_of v"
  by (simp add: interval_of_def group_pad)

lemma timestamp_pad: "timestamp_of (v @ replicate k None) = timestamp_of v"
  by (simp add: timestamp_of_def group_pad group_def split: option.splits)

lemma padded_fields:
  assumes "v' @ replicate k None = map Some xs @ replicate n None"
  shows "\<exists>j. v' = map Some xs @ replicate j None"
proof -
  from assms obtain us where "v' = map Some xs @ us \<and> us @ replicate k None = replicate n None \<or>
      map Some xs = v' @ us \<and> replicate k None = us @ replicate n None"
    unfolding append_eq_append_conv2 by metis
  then show ?thesis
  proof
    assume u: "v' = map Some xs @ us \<and> us @ replicate k None = replicate n None"
    then have "us = replicate (length us) None"
      by (metis append_eq_conv_conj take_replicate length_replicate)
    then show ?thesis using u by blast
  next
    assume u: "map Some xs = v' @ us \<and> replicate k None = us @ replicate n None"
    then have "set us \<subseteq> {None}" "None \<notin> set us"
      by (metis Un_upper1 order_trans set_append set_replicate_conv_if empty_subsetI subset_refl, metis Un_iff ex_map_conv option.distinct(1) set_append)
    then have "us = []" by (cases us) auto
    then have "v' = map Some xs @ replicate 0 None" using u by simp
    then show ?thesis by blast
  qed
qed

context perl_matching
begin

lemma match_some: "prematch n r s = Some v \<Longrightarrow> \<exists>v' k. M n r s = Some v' \<and> v = v' @ replicate k None"
  using match_law [of n r s] by (auto simp: option_rel_Some2)

lemma interval_match: "prematch 6 pat_interval s = Some v \<Longrightarrow>
  parse_interval K (pcre_lib M R (fst (init_dbi PO gp P))) s (db, w) = Some (Ret (interval_of v), db, w)"
  using match_some [of 6 pat_interval s v] by (auto simp: parse_interval_def retW_def interval_pad)

lemma timestamp_match: "prematch 9 pat_timestamp s = Some v \<Longrightarrow>
  parse_timestamp K (pcre_lib M R (fst (init_dbi PO gp P))) s (db, w) = Some (Ret (timestamp_of v), db, w)"
  using match_some [of 9 pat_timestamp s v] by (auto simp: parse_timestamp_def retW_def timestamp_pad)

lemma patterns_ok: "dbi_strings (pcre_lib M R (fst (init_dbi PO gp P)))"
proof
  fix y mo d h mi s :: string
  assume a: "length y = 4" "length mo = 2" "length d = 2" "length h = 2" "length mi = 2" "length s = 2"
    "list_all isdigit (y @ mo @ d @ h @ mi @ s)"
  let ?t = "y @ ''-'' @ mo @ ''-'' @ d @ '' '' @ h @ '':'' @ mi @ '':'' @ s"
  have t: "ts_text y mo d h mi s [] = ?t" by (simp add: ts_text_def)
  have "rx pat_timestamp ?t Map.empty (\<lambda>s1 g. Some (s1, g)) = Some ([], ts_fields y mo d h mi s)"
    unfolding t [symmetric] by (rule rx_timestamp [OF a]) (simp add: rx_ts_end_nothing)
  from prematch_whole [OF this, of 9]
  have "prematch 9 pat_timestamp ?t = Some ([Some ?t, Some y, Some mo, Some d, Some h, Some mi, Some s] @ replicate 3 None)"
    by (simp add: ts_fields_def upt_rec numeral_eq_Suc)
  from match_some [OF this] obtain v k where m: "M 9 pat_timestamp ?t = Some v"
    "v @ replicate k None = map Some [?t, y, mo, d, h, mi, s] @ replicate 3 None" by auto
  from padded_fields [OF m(2)] m(1)
  show "\<exists>k. re_timestamp (pcre_lib M R (fst (init_dbi PO gp P))) ?t =
      Some ([Some ?t, Some y, Some mo, Some d, Some h, Some mi, Some s] @ replicate k None)"
    unfolding pcre_sel by auto
qed (auto simp: split_law resplit2_qs_plain resplit2_qs)

end

interpretation reference: perl_matching prematch resplit2
proof
  fix n r s
  show "rel_option (\<lambda>v' v. \<exists>k. v = v' @ replicate k None) (prematch n r s) (prematch n r s)"
    by (cases "prematch n r s") (auto intro: exI [of _ 0])
qed simp

text \<open>A matcher that leaves out all null groups at the end.\<close>

definition short_match :: "nat \<Rightarrow> regex \<Rightarrow> string \<Rightarrow> string option list option" where
  "short_match n r s = map_option (\<lambda>v. rev (dropWhile ((=) None) (rev v))) (prematch n r s)"

lemma trailing_nulls: "\<exists>k. v = rev (dropWhile ((=) None) (rev v)) @ replicate k None"
proof -
  let ?t = "takeWhile ((=) None) (rev v)"
  have "list_all ((=) None) ?t" by (auto simp: list_all_iff dest: set_takeWhileD)
  then have "?t = replicate (length ?t) None" by (induction ?t) (auto intro: replicate_eqI simp: list_all_iff)
  then have "rev ?t = replicate (length ?t) None" by (metis rev_replicate)
  then have "v = rev (dropWhile ((=) None) (rev v)) @ replicate (length ?t) None"
    by (metis rev_append rev_rev_ident takeWhile_dropWhile_id)
  then show ?thesis by blast
qed

interpretation short: perl_matching short_match resplit2
proof
  fix n r s
  show "rel_option (\<lambda>v' v. \<exists>k. v = v' @ replicate k None) (short_match n r s) (prematch n r s)"
    using trailing_nulls by (cases "prematch n r s") (auto simp: short_match_def)
qed simp

interpretation patterns: dbi_strings "pcre_lib prematch resplit2 (fst (init_dbi cpool_ops 0 P))" for P
  by (rule reference.patterns_ok)

section \<open>Timestamps with a fraction\<close>

lemma scan_int_digits:
  assumes "list_all isdigit f" "f \<noteq> []" "int (digits_val f) < 2147483648"
  shows "scan_int f = Some (int (digits_val f))"
proof -
  have c: "isdigit (hd f)" using assms(1,2) by (cases f) auto
  have t: "takeWhile isdigit f = f" using assms(1) by (simp only: takeWhile_eq_all_conv list_all_iff)
  moreover have "dropWhile isspace f = f" using c assms(2) digit_not_special(1) by (cases f) auto
  ultimately show ?thesis using assms digit_not_special(2,3) [OF c] by (simp add: scan_int_def t Let_def fits_int_def del: takeWhile_eq_all_conv)
qed

text \<open>
  C38: the digits behind the decimal point of a timestamp are read as a number of microseconds, whatever
  their number: for \<open>YYYY-MM-DD hh:mm:ss.f\<close> followed by a sign and two digits, all fields are the numbers
  that are printed, \<open>microsecs\<close> is the value of the digits \<open>f\<close> as an integer (so a quarter of a second, printed as .25,
  becomes 25 microseconds), and \<open>utc_offset\<close> has the sign that is printed.
\<close>

theorem parse_timestamp_fraction:
  assumes "perl_matching M R"
    and "y < 10000" "mo < 100" "d < 100" "h < 100" "mi < 100" "s < 100" "z < 100"
    and "list_all isdigit f" "f \<noteq> []" "int (digits_val f) < 2147483648" "sign = CHR ''+'' \<or> sign = CHR ''-''"
  shows "parse_timestamp K (pcre_lib M R (fst (init_dbi PO gp P)))
      (ts_text (four y) (two mo) (two d) (two h) (two mi) (two s) (CHR ''.'' # f @ sign # two z)) (db, w) =
    Some (Ret \<lparr>ts_is_null = False, year = int y, month = int mo, day = int d, hour = int h, minute = int mi, sec = int s,
      microsecs = int (digits_val f), utc_offset = (if sign = CHR ''-'' then - int z else int z)\<rparr>, db, w)"
proof -
  let ?t = "ts_text (four y) (two mo) (two d) (two h) (two mi) (two s) (CHR ''.'' # f @ sign # two z)"
  let ?g = "(ts_fields (four y) (two mo) (two d) (two h) (two mi) (two s))(7 \<mapsto> f, 8 \<mapsto> [sign], 9 \<mapsto> two z)"
  have "rx pat_timestamp ?t Map.empty (\<lambda>s1 g. Some (s1, g)) = Some ([], ?g)"
    using rx_ts_end(2) [OF assms(9,10,12)] by (intro rx_timestamp) (simp_all add: two_four_digits)
  from prematch_whole [OF this, of 9]
  have "prematch 9 pat_timestamp ?t = Some (map Some [?t, four y, two mo, two d, two h, two mi, two s, f, [sign], two z])"
    by (simp add: ts_fields_def upt_rec numeral_eq_Suc)
  then show ?thesis
    using fixed_four [OF assms(2)] fixed_two [OF assms(3)] fixed_two [OF assms(4)] fixed_two [OF assms(5)] fixed_two [OF assms(6)]
      fixed_two [OF assms(7)] fixed_two [OF assms(8)] scan_int_digits [OF assms(9-11)]
    by (simp add: perl_matching.timestamp_match [OF assms(1)] timestamp_of_def fixed_def scanned_def group_def c_nth_def)
qed

text \<open>A pool manager with the global pool only.\<close>

definition demo_pools :: cpools where
  "demo_pools = \<lparr>pnext = 1, palive = (\<lambda>q. q = 0), panc = (\<lambda>_. [0]), pown = (\<lambda>_. [])\<rparr>"

theorem parse_timestamp_fraction_witness:
  "parse_timestamp db_kernel (pcre_lib prematch resplit2 (fst (init_dbi cpool_ops 0 demo_pools))) ''2003-02-05 09:07:30.25-05'' (demo_dbi, db_world) =
    Some (Ret \<lparr>ts_is_null = False, year = 2003, month = 2, day = 5, hour = 9, minute = 7, sec = 30, microsecs = 25, utc_offset = -5\<rparr>,
      demo_dbi, db_world)"
proof -
  have "ts_text (four 2003) (two 2) (two 5) (two 9) (two 7) (two 30) (CHR ''.'' # ''25'' @ CHR ''-'' # two 5) = ''2003-02-05 09:07:30.25-05''"
    "list_all isdigit ''25''" "digits_val ''25'' = 25" by code_simp+
  then show ?thesis
    using parse_timestamp_fraction [OF reference.perl_matching_axioms, of 2003 2 5 9 7 30 5 "''25''" "CHR ''-''" db_kernel cpool_ops 0 demo_pools demo_dbi db_world] by simp
qed

section \<open>Intervals\<close>

text \<open>
  Intervals as the server prints them: years, months and days, each only when it is not left out, then
  the time.
\<close>

definition unit_text :: "string \<Rightarrow> nat \<Rightarrow> string" where
  "unit_text name n = dec n @ '' '' @ name @ (if n = 1 then [] else ''s'')"

definition part_text :: "string \<Rightarrow> nat option \<Rightarrow> string \<Rightarrow> string" where
  "part_text name v r = (case v of None \<Rightarrow> r | Some n \<Rightarrow> unit_text name n @ (if r = [] then [] else '' '' @ r))"

definition time_text :: "(nat \<times> nat \<times> nat) option \<Rightarrow> string" where
  "time_text t = (case t of None \<Rightarrow> [] | Some (h, mi, s) \<Rightarrow> two h @ '':'' @ two mi @ '':'' @ two s)"

definition interval_text :: "nat option \<Rightarrow> nat option \<Rightarrow> nat option \<Rightarrow> (nat \<times> nat \<times> nat) option \<Rightarrow> string" where
  "interval_text y mo d t = part_text ''year'' y (part_text ''mon'' mo (part_text ''day'' d (time_text t)))"

text \<open>A text that the part \<open>name\<close> does not match: digits, but not with this name behind them.\<close>

definition other_unit :: "string \<Rightarrow> string \<Rightarrow> bool" where
  "other_unit name t \<longleftrightarrow> t = [] \<or>
     (\<exists>ds u. t = ds @ u \<and> ds \<noteq> [] \<and> list_all isdigit ds \<and> u \<noteq> [] \<and> \<not> isdigit (hd u) \<and>
        (\<not> re_space (hd u) \<or> tl u \<noteq> [] \<and> hd (tl u) \<noteq> hd name))"

lemma rx_unit_miss:
  assumes "other_unit name t" "name \<noteq> []"
  shows "rx (unit_part n name) t g k = k t g"
proof (cases "t = []")
  case True
  then show ?thesis by (simp add: unit_part_def Ds_def)
next
  case False
  then obtain ds u where u: "t = ds @ u" "ds \<noteq> []" "list_all isdigit ds" "u \<noteq> []" "\<not> isdigit (hd u)"
    "\<not> re_space (hd u) \<or> tl u \<noteq> [] \<and> hd (tl u) \<noteq> hd name" using assms(1) by (auto simp: other_unit_def)
  obtain c cs where c: "ds = c # cs" using u(2) by (cases ds) auto
  let ?r = "sequ [Cls re_space, lit name, Opt (chr CHR ''s'')]"
  have "rx ?r (b @ u) g' k' = None" if "cs = a @ b" for a b g' and k' :: "string \<Rightarrow> captures \<Rightarrow> 'a option"
  proof (cases b)
    case Nil
    then show ?thesis using u(4,6) assms(2) by (cases u; cases "tl u"; cases name) auto
  next
    case (Cons x xs)
    then have "isdigit x" using that u(3) c by simp
    then show ?thesis using Cons digit_cases(1) by simp
  qed
  then have "many isdigit (cs @ u) g (\<lambda>s1 g1. rx ?r s1 (g1(n \<mapsto> take (length t - length s1) t)) k) = None"
    using u(3,5) c by (intro many_fails) auto
  then have "rx (Grp n Ds) t g (\<lambda>s1 g1. rx ?r s1 g1 k) = None"
    using u(3) c unfolding u(1) by (simp add: Ds_def)
  then show ?thesis by (simp add: unit_part_def del: rx.simps(7))
qed



lemma rx_lit: "rx (lit name) (name @ s) g k = k s g"
  by (induction name) simp_all

lemma rx_unit_hit:
  assumes "s = [] \<or> hd s = CHR '' ''" "k s (g(n \<mapsto> dec v)) = Some x"
  shows "rx (unit_part n name) (unit_text name v @ s) g k = Some x"
proof -
  let ?e = "if v = 1 then [] else ''s''"
  have "rx (Opt (chr CHR ''s'')) (?e @ s) (g(n \<mapsto> dec v)) k = Some x"
    using assms by (cases s) auto
  then have "rx (sequ [Cls re_space, lit name, Opt (chr CHR ''s'')]) ('' '' @ name @ ?e @ s) (g(n \<mapsto> dec v)) k = Some x"
    by (simp add: re_space_def rx_lit del: rx.simps(5))
  then have "rx (Grp n Ds) (dec v @ '' '' @ name @ ?e @ s) g (\<lambda>s1 g1. rx (sequ [Cls re_space, lit name, Opt (chr CHR ''s'')]) s1 g1 k) = Some x"
    using dec_digits [of v] by (intro rx_Ds) (simp_all add: isdigit_def between_def)
  then show ?thesis
    unfolding unit_part_def by (intro rx_OptI) (simp add: unit_text_def del: rx.simps(5,7))
qed

definition capture :: "nat \<Rightarrow> nat option \<Rightarrow> captures \<Rightarrow> captures" where
  "capture n v g = (case v of None \<Rightarrow> g | Some m \<Rightarrow> g(n \<mapsto> dec m))"

lemma other_unit_start: "other_unit name r \<Longrightarrow> r = [] \<or> isdigit (hd r)"
  by (auto simp: other_unit_def list_all_iff)

lemma other_unit_time: "other_unit name (time_text t)"
proof (cases t)
  case (Some x)
  obtain h mi s where x: "x = (h, mi, s)" by (cases x) auto
  have "\<not> isdigit CHR '':''" "\<not> re_space CHR '':''" by (simp_all add: isdigit_def between_def re_space_def)
  then show ?thesis unfolding other_unit_def
    by (intro disjI2 exI [of _ "two h"] exI [of _ "'':'' @ two mi @ '':'' @ two s"])
      (simp add: Some x time_text_def two_def digit_char_props)
qed (simp add: time_text_def other_unit_def)

lemma other_unit_part:
  assumes "other_unit name r" "name' \<noteq> []" "hd name' \<noteq> hd name"
  shows "other_unit name (part_text name' v r)"
proof (cases v)
  case None
  then show ?thesis using assms(1) by (simp add: part_text_def)
next
  case (Some n)
  let ?u = "'' '' @ name' @ (if n = 1 then [] else ''s'') @ (if r = [] then [] else '' '' @ r)"
  have "part_text name' v r = dec n @ ?u" by (simp add: Some part_text_def unit_text_def)
  moreover have "tl ?u \<noteq> []" "hd (tl ?u) \<noteq> hd name" using assms(2,3) by simp_all
  moreover have "\<not> isdigit (hd ?u)" by (simp add: isdigit_def between_def)
  ultimately show ?thesis using dec_digits [of n] unfolding other_unit_def by (metis append_is_Nil_conv list.sel(2))
qed

text \<open>One part and the white space behind it.\<close>

lemma rx_part:
  assumes "other_unit name r" "name \<noteq> []" "rx X r (capture n v g) k = Some x"
  shows "rx (unit_part n name) (part_text name v r) g (\<lambda>s1 g1. many re_space s1 g1 (\<lambda>s2 g2. rx X s2 g2 k)) = Some x"
proof -
  have r: "r = [] \<or> \<not> re_space (hd r)" using other_unit_start [OF assms(1)] digit_cases(1) by blast
  let ?k = "\<lambda>s1 g1. many re_space s1 g1 (\<lambda>s2 g2. rx X s2 g2 k)"
  show ?thesis
  proof (cases v)
    case None
    then show ?thesis
      using assms(3) by (simp add: part_text_def capture_def rx_unit_miss [OF assms(1,2)] many_stop [of r re_space, OF r])
  next
    case (Some m)
    let ?s = "if r = [] then [] else '' '' @ r"
    have "?k ?s (g(n \<mapsto> dec m)) = Some x"
    proof (cases "r = []")
      case False
      have "many re_space ('' '' @ r) (g(n \<mapsto> dec m)) (\<lambda>s2 g2. rx X s2 g2 k) = Some x"
        using assms(3) r Some by (intro many_greedy) (simp_all add: capture_def re_space_def)
      then show ?thesis using False by simp
    qed (use assms(3) Some in \<open>simp add: capture_def\<close>)
    from rx_unit_hit [of ?s ?k, OF _ this] show ?thesis using Some by (simp add: part_text_def)
  qed
qed

definition time_captures :: "(nat \<times> nat \<times> nat) option \<Rightarrow> captures \<Rightarrow> captures" where
  "time_captures t g = (case t of None \<Rightarrow> g | Some (h, mi, s) \<Rightarrow> g(4 \<mapsto> two h, 5 \<mapsto> two mi, 6 \<mapsto> two s))"

lemma rx_time:
  "rx (Opt (sequ [Grp 4 DD, chr CHR '':'', Grp 5 DD, Opt (sequ [chr CHR '':'', Grp 6 DD])])) (time_text t) g (\<lambda>s1 g1. Some (s1, g1)) =
    Some ([], time_captures t g)"
proof (cases t)
  case None
  then show ?thesis by (simp add: time_text_def time_captures_def DD_def)
next
  case (Some x)
  obtain h mi s where x: "x = (h, mi, s)" by (cases x) auto
  show ?thesis
    using rx_hms [of "two h" "two mi" "two s" "[]" "[]" g 4 5 6 "\<lambda>s1 g1. Some (s1, g1)" "([], time_captures t g)"]
    by (simp add: Some x time_text_def time_captures_def two_four_digits del: rx.simps(5))
qed

lemma rx_interval:
  "rx pat_interval (interval_text y mo d t) Map.empty (\<lambda>s1 g1. Some (s1, g1)) =
    Some ([], time_captures t (capture 3 d (capture 2 mo (capture 1 y Map.empty))))"
proof -
  let ?k = "\<lambda>s1 g1. Some (s1, g1)" and ?x = "([], time_captures t (capture 3 d (capture 2 mo (capture 1 y Map.empty))))"
  let ?T = "sequ [Opt (sequ [Grp 4 DD, chr CHR '':'', Grp 5 DD, Opt (sequ [chr CHR '':'', Grp 6 DD])])]"
  let ?D = "Sequ (unit_part 3 ''day'') (Sequ (Many re_space) ?T)"
  let ?M = "Sequ (unit_part 2 ''mon'') (Sequ (Many re_space) ?D)"
  let ?d = "part_text ''day'' d (time_text t)" let ?m = "part_text ''mon'' mo ?d"
  have t: "rx ?T (time_text t) g ?k = Some ([], time_captures t g)" for g using rx_time [of t g] by (simp del: rx.simps(5))
  have d: "rx ?D ?d g ?k = Some ([], time_captures t (capture 3 d g))" for g
    using rx_part [where n = 3, OF other_unit_time _ t] by simp
  have "other_unit ''mon'' ?d" by (intro other_unit_part other_unit_time) simp_all
  from rx_part [where n = 2, OF this _ d]
  have m: "rx ?M ?m g ?k = Some ([], time_captures t (capture 3 d (capture 2 mo g)))" for g by simp
  have "other_unit ''year'' ?m" by (intro other_unit_part other_unit_time) simp_all
  from rx_part [where n = 1 and v = y, OF this _ m]
  show ?thesis by (simp add: pat_interval_def interval_text_def)
qed

section \<open>Properties of intervals\<close>

definition num :: "nat option \<Rightarrow> int" where
  "num v = (case v of None \<Rightarrow> 0 | Some n \<Rightarrow> int n)"

definition fits_num :: "nat option \<Rightarrow> bool" where
  "fits_num v \<longleftrightarrow> num v < 2147483648"

lemma scanned_dec: "fits_num v \<Longrightarrow> scanned (map_option dec v) = num v"
  using scan_int_dec [of _ "[]"] by (cases v) (auto simp: scanned_def num_def fits_num_def)

text \<open>
  C37: an interval that the server prints as years, months, days and a time, each of which may be
  missing, is parsed into exactly these numbers, and the parts that are missing are zero; a unit may
  be printed in the singular or in the plural.
\<close>

theorem parse_interval_roundtrip:
  assumes "perl_matching M R"
    and "fits_num y" "fits_num mo" "fits_num d" "h < 100" "mi < 100" "s < 100"
    and "t = Some (h, mi, s) \<or> t = None \<and> h = 0 \<and> mi = 0 \<and> s = 0"
  shows "parse_interval K (pcre_lib M R (fst (init_dbi PO gp P))) (interval_text y mo d t) (db, w) =
    Some (Ret \<lparr>iv_is_null = False, secs = int s, mins = int mi, hours = int h, days = num d, months = num mo, years = num y\<rparr>, db, w)"
proof -
  define g where "g = time_captures t (capture 3 d (capture 2 mo (capture 1 y Map.empty)))"
  have c: "g 1 = map_option dec y" "g 2 = map_option dec mo" "g 3 = map_option dec d"
    by (auto simp: g_def time_captures_def capture_def split: option.splits)
  have f: "fixed (g 4) 2 = int h" "fixed (g 5) 2 = int mi" "fixed (g 6) 2 = int s"
    using assms(8) fixed_two [OF assms(5)] fixed_two [OF assms(6)] fixed_two [OF assms(7)]
    by (auto simp: g_def time_captures_def capture_def fixed_def split: option.splits)
  from prematch_whole [OF rx_interval [of y mo d t], of 6, folded g_def]
  have "prematch 6 pat_interval (interval_text y mo d t) =
      Some [Some (interval_text y mo d t), g 1, g 2, g 3, g 4, g 5, g 6]"
    by (simp add: upt_rec numeral_eq_Suc)
  then show ?thesis
    using scanned_dec [OF assms(2)] scanned_dec [OF assms(3)] scanned_dec [OF assms(4)]
    by (simp add: perl_matching.interval_match [OF assms(1)] interval_of_def group_def c [simplified] f)
qed

theorem parse_interval_roundtrip_witness:
  "parse_interval db_kernel (pcre_lib prematch resplit2 (fst (init_dbi cpool_ops 0 demo_pools))) ''1 year 3 days 04:05:06'' (demo_dbi, db_world) =
    Some (Ret \<lparr>iv_is_null = False, secs = 6, mins = 5, hours = 4, days = 3, months = 0, years = 1\<rparr>, demo_dbi, db_world)"
proof -
  have "interval_text (Some 1) None (Some 3) (Some (4, 5, 6)) = ''1 year 3 days 04:05:06''" by code_simp
  then show ?thesis
    using parse_interval_roundtrip [OF reference.perl_matching_axioms, of "Some 1" None "Some 3" 4 5 6 "Some (4, 5, 6)" db_kernel cpool_ops 0 demo_pools demo_dbi db_world]
    by (simp add: fits_num_def num_def)
qed

text \<open>
  C39: \<open>parse_interval\<close> never reports an invalid interval: it returns for every text. All parts
  of the expression are optional and it need not match the whole text, so a text that starts with a
  character that is neither a digit nor a space, such as the minus sign of a negative interval, is read as the
  interval zero.
\<close>

theorem parse_interval_never_fails:
  assumes "perl_matching M R"
  shows "(\<exists>iv. parse_interval K (pcre_lib M R (fst (init_dbi PO gp P))) str (db, w) = Some (Ret iv, db, w))
   \<and> (str = c # r \<longrightarrow> \<not> isdigit c \<longrightarrow> \<not> re_space c \<longrightarrow>
       parse_interval K (pcre_lib M R (fst (init_dbi PO gp P))) str (db, w) =
         Some (Ret \<lparr>iv_is_null = False, secs = 0, mins = 0, hours = 0, days = 0, months = 0, years = 0\<rparr>, db, w))"
proof (intro conjI impI)
  have "rx pat_interval str Map.empty (\<lambda>s1 g1. Some (s1, g1)) \<noteq> None"
    by (rule skippable_total) (simp_all add: pat_interval_def unit_part_def)
  then have "prematch 6 pat_interval str \<noteq> None"
    unfolding prematch_def by (subst search.simps) (auto split: option.splits)
  then show "\<exists>iv. parse_interval K (pcre_lib M R (fst (init_dbi PO gp P))) str (db, w) = Some (Ret iv, db, w)"
    by (cases "prematch 6 pat_interval str") (auto simp: perl_matching.interval_match [OF assms])
next
  assume c: "str = c # r" "\<not> isdigit c" "\<not> re_space c"
  have "rx pat_interval str Map.empty (\<lambda>s1 g1. Some (s1, g1)) = Some (str, Map.empty)"
    using c by (simp add: pat_interval_def unit_part_def Ds_def DD_def)
  then have "prematch 6 pat_interval str = Some (Some [] # replicate 6 None)"
    by (simp add: prematch_def search.simps upt_rec numeral_eq_Suc)
  then show "parse_interval K (pcre_lib M R (fst (init_dbi PO gp P))) str (db, w) =
      Some (Ret \<lparr>iv_is_null = False, secs = 0, mins = 0, hours = 0, days = 0, months = 0, years = 0\<rparr>, db, w)"
    by (simp add: perl_matching.interval_match [OF assms] interval_of_def group_def fixed_def scanned_def)
qed

theorem parse_interval_never_fails_witness:
  "parse_interval db_kernel (pcre_lib prematch resplit2 (fst (init_dbi cpool_ops 0 demo_pools))) ''-3 days'' (demo_dbi, db_world) =
    Some (Ret \<lparr>iv_is_null = False, secs = 0, mins = 0, hours = 0, days = 0, months = 0, years = 0\<rparr>, demo_dbi, db_world)"
proof -
  have "\<not> isdigit CHR ''-''" "\<not> re_space CHR ''-''" by (simp_all add: isdigit_def between_def re_space_def)
  then show ?thesis
    using parse_interval_never_fails [OF reference.perl_matching_axioms, of db_kernel cpool_ops 0 demo_pools "''-3 days''" demo_dbi db_world "CHR ''-''" "''3 days''"] by simp
qed

end
