(* ===== verification/Bytea.thy ===== *)
theory Bytea
  imports Dbi_Query
begin

text \<open>
  \<open>PQescapeBytea\<close> (\<open>src/src/pthr_dbi.c\<close>, a copy from PostgreSQL that the preprocessor leaves out at present): binary
  data as the text of a string literal. One loop computes the length of the result, a second one
  writes it into a buffer of that length; a write outside the buffer is \<open>None\<close> here.
\<close>

definition unprintable :: "char \<Rightarrow> bool" where
  "unprintable c \<longleftrightarrow> of_char c = (0 :: nat) \<or> (128 :: nat) \<le> of_char c"

fun bytea_len :: "nat \<Rightarrow> string \<Rightarrow> nat" where
  "bytea_len len [] = len"
| "bytea_len len (c # vp) =
     bytea_len (if unprintable c then len + 5 else if c = QUOTE then len + 2 else if c = BACKSLASH then len + 4 else len + 1) vp"

definition poke :: "nat \<Rightarrow> char \<Rightarrow> string \<Rightarrow> string option" where
  "poke i c buf = (if i < length buf then Some (buf[i := c]) else None)"

fun pokes :: "nat \<Rightarrow> string \<Rightarrow> string \<Rightarrow> string option" where
  "pokes i [] buf = Some buf"
| "pokes i (c # cs) buf = Option.bind (poke i c buf) (pokes (Suc i) cs)"

text \<open>The conversion \<open>%03o\<close> of a byte.\<close>

definition oct3 :: "char \<Rightarrow> string" where
  "oct3 c = (let n = of_char c :: nat in [digit_char (n div 64), digit_char (n div 8 mod 8), digit_char (n mod 8)])"

text \<open>\<open>sprintf\<close> writes a terminating null byte as well, behind the five characters.\<close>

fun bytea_write :: "string \<Rightarrow> nat \<Rightarrow> string \<Rightarrow> string option" where
  "bytea_write [] rp buf = poke rp NUL buf"
| "bytea_write (c # vp) rp buf =
     (if unprintable c then Option.bind (pokes rp ([BACKSLASH, BACKSLASH] @ oct3 c @ [NUL]) buf) (bytea_write vp (rp + 5))
      else if c = QUOTE then Option.bind (pokes rp [BACKSLASH, QUOTE] buf) (bytea_write vp (rp + 2))
      else if c = BACKSLASH then Option.bind (pokes rp [BACKSLASH, BACKSLASH, BACKSLASH, BACKSLASH] buf) (bytea_write vp (rp + 4))
      else Option.bind (poke rp c buf) (bytea_write vp (rp + 1)))"

text \<open>\<open>malloc\<close> gives a buffer with any contents, or null (the inner \<open>None\<close>).\<close>

definition PQescapeBytea :: "(nat \<Rightarrow> string option) \<Rightarrow> string \<Rightarrow> (string \<times> nat) option option" where
  "PQescapeBytea malloc bintext =
     (let len = bytea_len 1 bintext
      in case malloc len of
           None \<Rightarrow> Some None
         | Some buf \<Rightarrow> map_option (\<lambda>b. Some (b, len)) (bytea_write bintext 0 buf))"

section \<open>The text that is written\<close>

definition bytea_esc :: "char \<Rightarrow> string" where
  "bytea_esc c =
     (if unprintable c then [BACKSLASH, BACKSLASH] @ oct3 c else if c = QUOTE then [BACKSLASH, QUOTE]
      else if c = BACKSLASH then [BACKSLASH, BACKSLASH, BACKSLASH, BACKSLASH] else [c])"

lemma length_oct3 [simp]: "length (oct3 c) = 3"
  by (simp add: oct3_def Let_def)

lemma bytea_len_spec: "bytea_len n bs = n + length (concat (map bytea_esc bs))"
  by (induction n bs rule: bytea_len.induct) (simp_all add: bytea_esc_def)

lemma pokes_single: "pokes i [c] buf = poke i c buf"
  by (simp add: bind_eq_Some_conv split: Option.bind_splits)

lemma poke_at: "poke (length p) c (p @ x # r) = Some (p @ c # r)"
  by (simp add: poke_def)

lemma pokes_at: "length cs \<le> length r \<Longrightarrow> pokes (length p) cs (p @ r) = Some (p @ cs @ drop (length cs) r)"
proof (induction cs arbitrary: p r)
  case (Cons c cs)
  then obtain x r' where r: "r = x # r'" by (cases r) auto
  show ?case using Cons.IH [of r' "p @ [c]"] Cons.prems by (simp add: r poke_at)
qed simp

lemma bytea_write_spec:
  assumes "length r = Suc (length (concat (map bytea_esc bs)))"
  shows "bytea_write bs (length p) (p @ r) = Some (p @ concat (map bytea_esc bs) @ [NUL])"
  using assms
proof (induction bs arbitrary: p r)
  case Nil
  then obtain x where "r = [x]" by (auto simp: length_Suc_conv)
  then show ?case by (simp add: poke_at)
next
  case (Cons c bs)
  let ?e = "bytea_esc c" and ?n = "if unprintable c then [NUL] else []"
  have l: "length (?n @ drop (length (?e @ ?n)) r) = Suc (length (concat (map bytea_esc bs)))"
    using Cons.prems by simp
  have "bytea_write (c # bs) (length p) (p @ r) =
      Option.bind (pokes (length p) (?e @ ?n) (p @ r)) (bytea_write bs (length p + length ?e))"
    by (simp add: bytea_esc_def pokes_single numeral_eq_Suc del: pokes.simps)
  also have "\<dots> = bytea_write bs (length (p @ ?e)) ((p @ ?e) @ (?n @ drop (length (?e @ ?n)) r))"
    using Cons.prems by (subst pokes_at) simp_all
  also have "\<dots> = Some ((p @ ?e) @ concat (map bytea_esc bs) @ [NUL])"
    using l by (intro Cons.IH) simp
  finally show ?case by simp
qed

section \<open>Reading it back\<close>

text \<open>
  The input conversion of the type \<open>bytea\<close>, which the server applies to the value of the literal: a
  doubled backslash is a backslash, a backslash with three octal digits a byte.
\<close>

fun bytea_in :: "string \<Rightarrow> string option" where
  "bytea_in [] = Some []"
| "bytea_in (c # s) =
     (if c \<noteq> BACKSLASH then map_option ((#) c) (bytea_in s)
      else (case s of
          x # y # z # t \<Rightarrow>
            if x = BACKSLASH then map_option ((#) BACKSLASH) (bytea_in (y # z # t))
            else map_option ((#) (char_of (digit_val x * 64 + digit_val y * 8 + digit_val z))) (bytea_in t)
        | x # t \<Rightarrow> if x = BACKSLASH then map_option ((#) BACKSLASH) (bytea_in t) else None
        | [] \<Rightarrow> None))"

definition bytea_value :: "char \<Rightarrow> string" where
  "bytea_value c = (if unprintable c then BACKSLASH # oct3 c else if c = BACKSLASH then [BACKSLASH, BACKSLASH] else [c])"

lemma octal_digits:
  "d < 8 \<Longrightarrow> digit_val (digit_char d) = d \<and> digit_char d \<noteq> BACKSLASH \<and> digit_char d \<noteq> QUOTE"
  using digit_char_props [of d] by (auto simp: isdigit_def between_def)

lemma byte_digits:
  fixes n :: nat
  assumes "n < 256"
  shows "n div 64 < 8" "n div 64 * 64 + n div 8 mod 8 * 8 + n mod 8 = n"
proof -
  show "n div 64 < 8" using assms by simp
  have "n div 8 = n div 64 * 8 + n div 8 mod 8" using div_mult_mod_eq [of "n div 8" 8] by (simp flip: div_mult2_eq)
  then show "n div 64 * 64 + n div 8 mod 8 * 8 + n mod 8 = n" using div_mult_mod_eq [of n 8] by linarith
qed

lemma sql_literal_bytea:
  "r = [] \<or> hd r \<noteq> QUOTE \<Longrightarrow> sql_literal (concat (map bytea_esc bs) @ QUOTE # r) = Some (concat (map bytea_value bs), r)"
proof (induction bs)
  case Nil
  then show ?case by (cases r) auto
next
  case (Cons c bs)
  have o: "x \<noteq> BACKSLASH \<and> x \<noteq> QUOTE" if "x \<in> set (oct3 c)" for x
    using that byte_digits(1) [of "of_char c"] octal_digits by (auto simp: oct3_def Let_def)
  have "oct3 c = [oct3 c ! 0, oct3 c ! 1, oct3 c ! 2]" by (simp add: oct3_def Let_def)
  then obtain x y z where xyz: "oct3 c = [x, y, z]" by blast
  show ?case using Cons o by (auto simp: bytea_esc_def bytea_value_def xyz)
qed

lemma bytea_in_byte:
  "bytea_in (bytea_value c @ s) = map_option ((#) c) (bytea_in s)"
proof (cases "unprintable c")
  case True
  let ?n = "of_char c :: nat"
  have n: "?n < 256" by simp
  have "bytea_in (bytea_value c @ s) = map_option ((#) (char_of (?n div 64 * 64 + ?n div 8 mod 8 * 8 + ?n mod 8))) (bytea_in s)"
    using True octal_digits [of "?n div 64"] octal_digits [of "?n div 8 mod 8"] octal_digits [of "?n mod 8"] byte_digits(1) [OF n]
    by (simp add: bytea_value_def oct3_def Let_def)
  also have "\<dots> = map_option ((#) c) (bytea_in s)" by (simp only: byte_digits(2) [OF n] char_of_char)
  finally show ?thesis .
next
  case False
  have b: "bytea_in (BACKSLASH # BACKSLASH # s) = map_option ((#) BACKSLASH) (bytea_in s)"
    by (cases s; cases "tl s") (simp_all del: bytea_in.simps(2) add: bytea_in.simps(2) [of BACKSLASH])
  show ?thesis
  proof (cases "c = BACKSLASH")
    case True
    then show ?thesis using False b by (simp add: bytea_value_def del: bytea_in.simps)
  qed (use False in \<open>simp add: bytea_value_def\<close>)
qed

lemma bytea_in_value: "bytea_in (concat (map bytea_value bs)) = Some bs"
  by (induction bs) (simp_all add: bytea_in_byte)

section \<open>Properties\<close>

text \<open>
  \<open>PQescapeBytea\<close> never writes outside the buffer that it allocates, the null bytes of \<open>sprintf\<close> included, and
  fills it to the last byte, which is the terminator. When the text is put between quotes into a
  query, the server reads exactly the given bytes.
\<close>

theorem bytea_fits_and_reads_back:
  assumes "\<And>n. length (buf n) = n" "r = [] \<or> hd r \<noteq> QUOTE"
  shows "\<exists>text v. PQescapeBytea (\<lambda>n. Some (buf n)) bs = Some (Some (text @ [NUL], length text + 1))
    \<and> sql_literal (text @ QUOTE # r) = Some (v, r) \<and> bytea_in v = Some bs"
proof -
  let ?t = "concat (map bytea_esc bs)"
  have "bytea_write bs 0 (buf (bytea_len 1 bs)) = Some (?t @ [NUL])"
    using bytea_write_spec [of "buf (bytea_len 1 bs)" bs "[]"] assms(1) by (simp add: bytea_len_spec)
  then have "PQescapeBytea (\<lambda>n. Some (buf n)) bs = Some (Some (?t @ [NUL], length ?t + 1))"
    by (simp add: PQescapeBytea_def bytea_len_spec)
  then show ?thesis using sql_literal_bytea [OF assms(2)] bytea_in_value by blast
qed

theorem bytea_fits_and_reads_back_witness:
  "\<exists>text v. PQescapeBytea (\<lambda>n. Some (replicate n CHR 0x55)) [CHR 0x00, QUOTE, BACKSLASH, CHR 0xFF] = Some (Some (text @ [NUL], length text + 1))
    \<and> sql_literal (text @ QUOTE # '')'') = Some (v, '')'') \<and> bytea_in v = Some [CHR 0x00, QUOTE, BACKSLASH, CHR 0xFF]"
  by (rule bytea_fits_and_reads_back) simp_all

end
