(* ===== verification/Cgi_Escape.thy ===== *)
theory Cgi_Escape
  imports Cstring
begin

unbundle bit_operations_syntax

text \<open>
  \<open>cgi_escape\<close> and \<open>cgi_unescape\<close> of \<open>src/src/pthr_cgi.c\<close>: the encoding of parameter values in query
  strings. Unescaping inverts escaping, and both stay within the buffers they allocate.
\<close>

section \<open>Escaping\<close>

definition hexdigits :: string where
  "hexdigits = ''0123456789abcdef''"

definition cgi_plain :: "char \<Rightarrow> bool" where
  "cgi_plain c \<longleftrightarrow> isalnum c \<or> c = CHR '','' \<or> c = CHR ''-''"

text \<open>The size computed in the first loop.\<close>

fun escaped_len :: "string \<Rightarrow> nat" where
  "escaped_len [] = 0"
| "escaped_len (c # s) = (if cgi_plain c \<or> c = CHR '' '' then 1 else 3) + escaped_len s"

definition escape_char :: "char \<Rightarrow> string" where
  "escape_char c =
     (if cgi_plain c then [c]
      else if c = CHR '' '' then ''+''
      else [CHR ''%'', hexdigits ! nat (drop_bit 4 (schar c) AND 15), hexdigits ! nat (schar c AND 15)])"

definition cgi_escape :: "string \<Rightarrow> string" where
  "cgi_escape s = concat (map escape_char s)"

section \<open>Unescaping\<close>

definition hex_to_int :: "char \<Rightarrow> int" where
  "hex_to_int c =
     (if between CHR ''0'' CHR ''9'' c then of_char c - of_char CHR ''0''
      else if between CHR ''a'' CHR ''f'' c then of_char c - of_char CHR ''a'' + 10
      else if between CHR ''A'' CHR ''F'' c then of_char c - of_char CHR ''A'' + 10
      else -1)"

text \<open>The bytes stored in the buffer; \<open>%00\<close> stores a zero byte, at which the string then ends.\<close>

fun unescape_bytes :: "string \<Rightarrow> string" where
  "unescape_bytes [] = []"
| "unescape_bytes (c # s) =
     (if c = CHR ''%'' then
        (case s of
           x # y # r \<Rightarrow>
             if hex_to_int x \<ge> 0 \<and> hex_to_int y \<ge> 0
             then char_of (push_bit 4 (hex_to_int x) OR hex_to_int y) # unescape_bytes r
             else c # unescape_bytes s
         | _ \<Rightarrow> c # unescape_bytes s)
      else if c = CHR ''+'' then CHR '' '' # unescape_bytes s
      else c # unescape_bytes s)"

definition cgi_unescape :: "string \<Rightarrow> string" where
  "cgi_unescape s = c_str (unescape_bytes s)"

section \<open>Lemmas\<close>

lemma and_15: "x AND 15 = x mod (16 :: int)"
proof -
  have m: "mask 4 = (15 :: int)" by (simp add: mask_eq_exp_minus_1)
  have "x AND mask 4 = x mod 2 ^ 4" by (simp only: take_bit_eq_mask [symmetric] take_bit_eq_mod)
  then show ?thesis by (simp add: m)
qed

lemma schar_nibbles:
  "nat (schar c AND 15) = of_char c mod 16" "nat (drop_bit 4 (schar c) AND 15) = of_char c div 16"
proof -
  let ?x = "of_char c :: nat"
  have x: "of_char c = int ?x" "?x < 256" using of_char_less [of c] by (simp_all only: of_nat_of_char)
  have lo: "schar c mod 16 = int ?x mod 16"
    unfolding schar_def x by (simp add: mod_diff_eq [symmetric])
  show "nat (schar c AND 15) = ?x mod 16" unfolding and_15 lo by (simp add: nat_mod_distrib)
  have "schar c div 16 mod 16 = int ?x div 16"
  proof (cases "?x \<ge> 128")
    case True
    then have "schar c = int ?x - 16 * 16" by (simp add: schar_def x)
    then have "schar c div 16 = int ?x div 16 - 16" by simp
    moreover have "0 \<le> int ?x div 16" "int ?x div 16 < 16" using x(2) by linarith+
    ultimately show ?thesis by (simp add: mod_diff_eq [symmetric])
  next
    case False
    then have "schar c = int ?x" by (simp add: schar_def x)
    moreover have "0 \<le> int ?x div 16" "int ?x div 16 < 16" using x(2) by linarith+
    ultimately show ?thesis by simp
  qed
  then show "nat (drop_bit 4 (schar c) AND 15) = ?x div 16"
    unfolding and_15 by (simp add: drop_bit_eq_div nat_div_distrib)
qed

lemma hexdigit_props:
  assumes "k < 16"
  shows "hex_to_int (hexdigits ! k) = int k" "isalnum (hexdigits ! k)"
proof -
  have "k \<in> set [0..<16]" using assms by simp
  moreover have "list_all (\<lambda>k. hex_to_int (hexdigits ! k) = int k \<and> isalnum (hexdigits ! k)) [0..<16]"
    by code_simp
  ultimately show "hex_to_int (hexdigits ! k) = int k" "isalnum (hexdigits ! k)"
    by (auto simp only: list_all_iff)
qed

lemma nibbles_join:
  assumes "b < 16"
  shows "push_bit 4 (int a) OR int b = 16 * int a + int b"
proof -
  have "\<not> (bit (push_bit 4 (int a)) n \<and> bit (int b) n)" for n
  proof (cases "n < 4")
    case True
    then show ?thesis by (simp add: bit_simps)
  next
    case False
    have "int b = take_bit 4 (int b)" using assms by (simp add: take_bit_eq_mod)
    then show ?thesis using False by (metis bit_take_bit_iff)
  qed
  then show ?thesis by (subst disjunctive_add [symmetric]) (auto simp: push_bit_eq_mult)
qed

lemma escape_char_cases:
  obtains (plain) "cgi_plain c" "escape_char c = [c]"
  | (space) "c = CHR '' ''" "escape_char c = ''+''"
  | (hex) x y where "escape_char c = [CHR ''%'', x, y]" "isalnum x" "isalnum y" "hex_to_int x \<ge> 0" "hex_to_int y \<ge> 0"
      "char_of (push_bit 4 (hex_to_int x) OR hex_to_int y) = c" "\<not> cgi_plain c" "c \<noteq> CHR '' ''"
proof -
  let ?x = "of_char c :: nat"
  have k: "?x div 16 < 16" "?x mod 16 < 16" using of_char_less [of c] by (simp_all add: less_mult_imp_div_less)
  have "char_of (push_bit 4 (int (?x div 16)) OR int (?x mod 16)) = c"
  proof -
    have "16 * int (?x div 16) + int (?x mod 16) = of_char c"
      by (metis mult_div_mod_eq of_nat_add of_nat_mult of_nat_numeral of_nat_of_char)
    then show ?thesis using nibbles_join [OF k(2)] by simp
  qed
  then show thesis
    using that hexdigit_props [OF k(1)] hexdigit_props [OF k(2)]
    by (cases "cgi_plain c"; cases "c = CHR '' ''") (auto simp: escape_char_def schar_nibbles)
qed

lemma plain_not_special: "cgi_plain c \<Longrightarrow> c \<noteq> CHR ''%'' \<and> c \<noteq> CHR ''+'' \<and> c \<noteq> CHR ''&'' \<and> c \<noteq> CHR ''='' \<and> c \<noteq> NUL"
  by (auto simp: cgi_plain_def isalnum_def isdigit_def isupper_def between_def)

lemma unescape_escape_char: "unescape_bytes (escape_char c @ r) = c # unescape_bytes r"
  by (cases c rule: escape_char_cases) (auto dest: plain_not_special)

lemma unescape_bytes_escape: "unescape_bytes (cgi_escape s) = s"
  by (induction s) (simp_all add: cgi_escape_def unescape_escape_char)

lemma escape_char_set: "x \<in> set (escape_char c) \<Longrightarrow> cgi_plain x \<or> x = CHR ''%'' \<or> x = CHR ''+''"
  by (cases c rule: escape_char_cases) (auto simp: cgi_plain_def)

lemma cgi_escape_clean: "CHR ''&'' \<notin> set (cgi_escape s)" "CHR ''='' \<notin> set (cgi_escape s)" "NUL \<notin> set (cgi_escape s)"
  by (auto simp: cgi_escape_def dest!: escape_char_set dest: plain_not_special)

lemma length_escape: "length (cgi_escape s) = escaped_len s"
proof (induction s)
  case (Cons c s)
  have "length (escape_char c) = (if cgi_plain c \<or> c = CHR '' '' then 1 else 3)"
    by (cases c rule: escape_char_cases) (auto simp: escape_char_def)
  then show ?case using Cons by (simp add: cgi_escape_def)
qed (simp add: cgi_escape_def)

lemma unescape_step:
  "(\<exists>d. unescape_bytes (c # t) = d # unescape_bytes t) \<or>
   (\<exists>d x y r. t = x # y # r \<and> unescape_bytes (c # t) = d # unescape_bytes r)"
  supply unescape_bytes.simps(2) [simp del]
  by (subst (1 2) unescape_bytes.simps(2)) (auto split: list.split)

lemma length_unescape: "length (unescape_bytes s) \<le> length s"
proof (induction s rule: length_induct)
  case (1 s)
  show ?case
  proof (cases s)
    case (Cons c t)
    have t: "length (unescape_bytes t) \<le> length t" using 1 Cons by simp
    have "length (unescape_bytes r) \<le> length r" if "t = x # y # r" for x y r using 1 Cons that by simp
    then show ?thesis using t unescape_step [of c t] unfolding Cons by fastforce
  qed simp
qed

section \<open>Properties\<close>

text \<open>
  C21: \<open>cgi_unescape\<close> inverts \<open>cgi_escape\<close> on every C string, and the escaped text has none of the
  characters that structure a query string.
\<close>

theorem cgi_escape_roundtrip:
  assumes "NUL \<notin> set s"
  shows "cgi_unescape (cgi_escape s) = s \<and> CHR ''&'' \<notin> set (cgi_escape s) \<and> CHR ''='' \<notin> set (cgi_escape s)"
  using assms by (simp add: cgi_unescape_def unescape_bytes_escape cgi_escape_clean)

theorem cgi_escape_roundtrip_witness:
  "cgi_escape (''a&b c'' @ [CHR 0xE9]) = ''a%26b+c%e9'' \<and> cgi_unescape (cgi_escape (''a&b c'' @ [CHR 0xE9])) = ''a&b c'' @ [CHR 0xE9]"
proof -
  have "cgi_escape (''a&b c'' @ [CHR 0xE9]) = ''a%26b+c%e9''" by code_simp
  then show ?thesis using cgi_escape_roundtrip [of "''a&b c'' @ [CHR 0xE9]"] by simp
qed

text \<open>
  C22: no buffer overflow. The second loop of \<open>cgi_escape\<close> stores exactly the number of bytes that the
  first loop has computed, and \<open>cgi_unescape\<close> never stores more bytes than its input has.
\<close>

theorem cgi_escape_bounds:
  "length (cgi_escape s) = escaped_len s \<and> length (unescape_bytes s) \<le> length s \<and>
   length s \<le> length (cgi_escape s) \<and> length (cgi_escape s) \<le> 3 * length s"
proof -
  have "length s \<le> escaped_len s" "escaped_len s \<le> 3 * length s" by (induction s) auto
  then show ?thesis by (simp add: length_escape length_unescape)
qed

end
