(* ===== verification/Http.thy ===== *)
theory Http
  imports Iolib Cgi_Escape
begin

unbundle bit_operations_syntax

text \<open>
  The HTTP library (\<open>src/src/pthr_http.c\<close>): reading a request from a connection, its parts and
  cookies, and writing a response with its headers. The functions work on the handle of the
  connection through the functions of the I/O library. Hashes and string functions of c2lib,
  \<open>pth_die\<close>, the clock, \<open>strftime\<close>, the server name, the log file and \<open>getpeername\<close> are fields of an
  environment; messages to \<open>syslog\<close> are left out.
\<close>

section \<open>Requests\<close>

datatype http_method = HTTP_METHOD_GET | HTTP_METHOD_HEAD | HTTP_METHOD_POST

record 'h http_request =
  req_pool :: pool
  req_time :: int
  req_method :: http_method
  original_url :: string
  url :: string
  path :: string
  query_string :: "string option"
  is_http09 :: bool
  major :: int
  minor :: int
  headers :: 'h

record ('w, 'h) http_env =
  h_io :: "'w io_ops"
  h_str :: c2_str
  h_hash :: "('h, string, string) hash_ops"
  h_die :: "string \<Rightarrow> ('w, unit) comp"
  h_now :: "'w \<Rightarrow> int"
  h_strftime :: "string \<Rightarrow> int \<Rightarrow> string"
  h_servername :: string
  h_log :: "(string \<Rightarrow> 'w \<Rightarrow> 'w) option"
  h_peer :: "int \<Rightarrow> 'w \<Rightarrow> string \<times> int"

text \<open>The global variables \<open>servername\<close> and \<open>log_fp\<close>; a log file is what writing a line to it does.\<close>

definition http_get_servername :: "('w, 'h) http_env \<Rightarrow> string" where
  "http_get_servername E = h_servername E"

definition http_set_servername :: "string \<Rightarrow> ('w, 'h) http_env \<Rightarrow> string \<times> ('w, 'h) http_env" where
  "http_set_servername new_server_name E = (new_server_name, E\<lparr>h_servername := new_server_name\<rparr>)"

definition http_set_log_file ::
  "(string \<Rightarrow> 'w \<Rightarrow> 'w) option \<Rightarrow> ('w, 'h) http_env \<Rightarrow> (string \<Rightarrow> 'w \<Rightarrow> 'w) option \<times> ('w, 'h) http_env" where
  "http_set_log_file fp E = (fp, E\<lparr>h_log := fp\<rparr>)"

definition http_get_log_file :: "('w, 'h) http_env \<Rightarrow> (string \<Rightarrow> 'w \<Rightarrow> 'w) option" where
  "http_get_log_file E = h_log E"

definition MAX_LINE_LENGTH :: nat where "MAX_LINE_LENGTH = 4096"

text \<open>A call that does not return.\<close>

definition never :: "('w, unit) comp \<Rightarrow> ('w, 'a) comp" where
  "never m w =
     (case m w of
        Some (Exit_thread, w1) \<Rightarrow> Some (Exit_thread, w1)
      | Some (Jump j, w1) \<Rightarrow> Some (Jump j, w1)
      | _ \<Rightarrow> None)"

text \<open>Answer with an error and die.\<close>

definition bad_request :: "('w, 'h) http_env \<Rightarrow> string \<Rightarrow> string \<Rightarrow> ('w, 'a) io" where
  "bad_request E resp msg = bindW (io_fputs (h_io E) resp) (\<lambda>_. liftW (never (h_die E msg)))"

text \<open>The line buffer after \<open>io_fgets\<close>, read as a C string.\<close>

definition get_line :: "('w, 'h) http_env \<Rightarrow> ('w, string option) io" where
  "get_line E = bindW (io_fgets (h_io E) MAX_LINE_LENGTH False) (\<lambda>l. retW (map_option c_str l))"

partial_function (option) first_line ::
  "('w, 'h) http_env \<Rightarrow> io_handle \<times> 'w \<Rightarrow> (string option outcome \<times> io_handle \<times> 'w) option" where
  "first_line E s = bindW (get_line E) (\<lambda>l. if l = Some [] then first_line E else retW l) s"

definition parse_method :: "string \<Rightarrow> (http_method \<times> string) option" where
  "parse_method line =
     (if prefix ''GET '' line then Some (HTTP_METHOD_GET, drop 4 line)
      else if prefix ''HEAD '' line then Some (HTTP_METHOD_HEAD, drop 5 line)
      else if prefix ''POST '' line then Some (HTTP_METHOD_POST, drop 5 line)
      else None)"

definition parse_url :: "'h http_request \<Rightarrow> 'h http_request" where
  "parse_url h =
     (if req_method h = HTTP_METHOD_POST then h\<lparr>path := url h, query_string := None\<rparr>
      else (case split_chr CHR ''?'' (url h) of
              None \<Rightarrow> h\<lparr>path := url h, query_string := None\<rparr>
            | Some (p, q) \<Rightarrow> h\<lparr>path := p, query_string := Some q\<rparr>))"

definition version_ok :: "string \<Rightarrow> bool" where
  "version_ok v \<longleftrightarrow> prefix ''HTTP/'' v \<and> isdigit (c_nth v 5) \<and> c_nth v 6 = CHR ''.'' \<and> isdigit (c_nth v 7)"

definition add_header :: "('w, 'h) http_env \<Rightarrow> string \<Rightarrow> string \<Rightarrow> 'h \<Rightarrow> 'h" where
  "add_header E k v hs = hash_insert (h_hash E) hs (pstrlwr (h_str E) k) (ptrim (h_str E) v)"

partial_function (option) read_headers ::
  "('w, 'h) http_env \<Rightarrow> 'h \<Rightarrow> io_handle \<times> 'w \<Rightarrow> ('h outcome \<times> io_handle \<times> 'w) option" where
  "read_headers E hs s =
     bindW (get_line E) (\<lambda>l.
       if l = None then bad_request E (''HTTP/1.1 400 Unexpected EOF in request'' @ CRLF) ''unexpected EOF reading headers''
       else if l = Some [] then retW hs
       else if split_chr CHR '':'' (the l) = None
       then bad_request E (''HTTP/1.1 400 Badly formed header'' @ CRLF) ''badly formed header in request''
       else read_headers E (add_header E (fst (the (split_chr CHR '':'' (the l)))) (snd (the (split_chr CHR '':'' (the l)))) hs)) s"

definition blank_request :: "('w, 'h) http_env \<Rightarrow> pool \<Rightarrow> int \<Rightarrow> http_method \<Rightarrow> string \<Rightarrow> 'h http_request" where
  "blank_request E p t m u = \<lparr>req_pool = p, req_time = t, req_method = m, original_url = u, url = u, path = [],
     query_string = None, is_http09 = False, major = 0, minor = 0, headers = hash_new (h_hash E)\<rparr>"

text \<open>Everything behind the first line, given that line.\<close>

definition request_of_line :: "('w, 'h) http_env \<Rightarrow> pool \<Rightarrow> int \<Rightarrow> string \<Rightarrow> ('w, 'h http_request option) io" where
  "request_of_line E p t line =
     (case parse_method line of
        None \<Rightarrow>
          bad_request E (''HTTP/1.1 405 Method not allowed'' @ CRLF @ ''Allow: GET, HEAD, POST'' @ CRLF @ CRLF)
            ''bad method (not a GET, HEAD or POST request)''
      | Some (m, start_url) \<Rightarrow>
          (case split_chr CHR '' '' start_url of
             None \<Rightarrow>
               retW (Some ((parse_url (blank_request E p t m start_url))\<lparr>is_http09 := True, major := 0, minor := 9\<rparr>))
           | Some (u, v) \<Rightarrow>
               (let h = parse_url (blank_request E p t m u)
                in if \<not> version_ok v
                   then bad_request E (''HTTP/1.1 400 Badly formed request'' @ CRLF) ''badly formed request -- no HTTP/x.y''
                   else bindW (read_headers E (headers h)) (\<lambda>hs.
                        retW (Some (h\<lparr>is_http09 := False, major := int (digit_val (c_nth v 5)),
                                      minor := int (digit_val (c_nth v 7)), headers := hs\<rparr>))))))"

text \<open>\<open>None\<close> is the null pointer for the end of the connection.\<close>

definition new_http_request :: "('w, 'h) http_env \<Rightarrow> pool \<Rightarrow> ('w, 'h http_request option) io" where
  "new_http_request E p =
     bindW (liftW (getW (\<lambda>w. Some (h_now E w div 1000)))) (\<lambda>t.
     bindW (first_line E) (\<lambda>l.
     case l of None \<Rightarrow> retW None | Some line \<Rightarrow> request_of_line E p t line))"

definition http_request_time :: "'h http_request \<Rightarrow> int" where "http_request_time h = req_time h"
definition http_request_get_url :: "'h http_request \<Rightarrow> string" where "http_request_get_url h = url h"
definition http_request_path :: "'h http_request \<Rightarrow> string" where "http_request_path h = path h"
definition http_request_query_string :: "'h http_request \<Rightarrow> string option" where "http_request_query_string h = query_string h"
definition http_request_method :: "'h http_request \<Rightarrow> http_method" where "http_request_method h = req_method h"

definition http_request_set_url :: "'h http_request \<Rightarrow> string \<Rightarrow> 'h http_request" where
  "http_request_set_url h u = parse_url (h\<lparr>url := u\<rparr>)"

definition http_request_method_string :: "'h http_request \<Rightarrow> string" where
  "http_request_method_string h =
     (case req_method h of HTTP_METHOD_GET \<Rightarrow> ''GET'' | HTTP_METHOD_HEAD \<Rightarrow> ''HEAD'' | HTTP_METHOD_POST \<Rightarrow> ''POST'')"

definition http_request_is_HEAD :: "'h http_request \<Rightarrow> bool" where
  "http_request_is_HEAD h \<longleftrightarrow> req_method h = HTTP_METHOD_HEAD"

definition http_request_version :: "'h http_request \<Rightarrow> int \<times> int" where
  "http_request_version h = (major h, minor h)"

definition http_request_get_headers :: "('w, 'h) http_env \<Rightarrow> 'h http_request \<Rightarrow> (string \<times> string option) list" where
  "http_request_get_headers E h = map (\<lambda>k. (k, hash_get (h_hash E) (headers h) k)) (hash_keys (h_hash E) (headers h))"

definition http_request_nr_headers :: "('w, 'h) http_env \<Rightarrow> 'h http_request \<Rightarrow> nat" where
  "http_request_nr_headers E h = length (hash_keys (h_hash E) (headers h))"

definition http_request_get_header :: "('w, 'h) http_env \<Rightarrow> 'h http_request \<Rightarrow> string \<Rightarrow> string option" where
  "http_request_get_header E h key = hash_get (h_hash E) (headers h) (pstrlwr (h_str E) key)"

definition cookie_separators :: "char set" where
  "cookie_separators = {CHR '' '', CHR 0x09, CHR 0x0A, CHR '','', CHR '';''}"

definition cookie_matches :: "string \<Rightarrow> string \<Rightarrow> bool" where
  "cookie_matches key str \<longleftrightarrow> c_nth str 0 \<noteq> CHR ''$'' \<and> caseprefix key str \<and> c_nth str (length key) = CHR ''=''"

definition http_request_get_cookie :: "('w, 'h) http_env \<Rightarrow> 'h http_request \<Rightarrow> string \<Rightarrow> string option" where
  "http_request_get_cookie E h key =
     (case http_request_get_header E h ''Cookie'' of
        None \<Rightarrow> None
      | Some cookie_hdr \<Rightarrow>
          map_option (\<lambda>str. cgi_unescape (drop (length key + 1) str))
            (List.find (cookie_matches key) (pstrresplit (h_str E) cookie_hdr cookie_separators)))"

section \<open>Responses\<close>

definition XH_SERVER :: "32 word" where "XH_SERVER = 1"
definition XH_DATE :: "32 word" where "XH_DATE = 2"
definition XH_CONTENT_TYPE :: "32 word" where "XH_CONTENT_TYPE = 4"
definition XH_CONNECTION :: "32 word" where "XH_CONNECTION = 8"
definition XH_CONTENT_LENGTH :: "32 word" where "XH_CONTENT_LENGTH = 16"
definition XH_TRANSFER_ENCODING_CHUNKED :: "32 word" where "XH_TRANSFER_ENCODING_CHUNKED = 32"
definition XH_LENGTH_DEFINED :: "32 word" where
  "XH_LENGTH_DEFINED = XH_CONTENT_LENGTH OR XH_TRANSFER_ENCODING_CHUNKED"

text \<open>The handle of a response is the one that the computation works on.\<close>

record 'h http_response =
  resp_pool :: pool
  resp_request :: "'h http_request"
  resp_code :: int
  extra_headers :: "32 word"
  content_length :: int

definition new_http_response ::
  "('w, 'h) http_env \<Rightarrow> pool \<Rightarrow> 'h http_request \<Rightarrow> int \<Rightarrow> string \<Rightarrow> ('w, 'h http_response) io" where
  "new_http_response E p request code msg =
     (let h = \<lparr>resp_pool = p, resp_request = request, resp_code = code, extra_headers = NOT 0, content_length = 0\<rparr>
      in bindW (upd_io (\<lambda>io. io_setbufmode io IO_MODE_FULLY_BUFFERED)) (\<lambda>_.
         if is_http09 request then retW h
         else bindW (io_fprintf (h_io E) (''HTTP/1.1 '' @ show_int code @ '' '' @ msg @ CRLF)) (\<lambda>_. retW h)))"

definition clear_if :: "bool \<Rightarrow> 32 word \<Rightarrow> 'h http_response \<Rightarrow> 'h http_response" where
  "clear_if b m h = (if b then h\<lparr>extra_headers := extra_headers h AND NOT m\<rparr> else h)"

definition scan_length :: "string \<Rightarrow> 'h http_response \<Rightarrow> 'h http_response" where
  "scan_length v h = (case scan_int v of None \<Rightarrow> h | Some n \<Rightarrow> h\<lparr>content_length := n\<rparr>)"

definition note_header :: "string \<Rightarrow> string \<Rightarrow> 'h http_response \<Rightarrow> 'h http_response" where
  "note_header key v h =
     (let h1 = clear_if (strcaseeq key ''Server'') XH_SERVER h;
          h2 = clear_if (strcaseeq key ''Date'') XH_DATE h1;
          h3 = clear_if (strcaseeq key ''Content-Type'') XH_CONTENT_TYPE h2;
          h4 = clear_if (strcaseeq key ''Connection'') XH_CONNECTION h3;
          h5 = (if strcaseeq key ''Content-Length'' then scan_length v (clear_if True XH_CONTENT_LENGTH h4) else h4)
      in clear_if (strcaseeq key ''Transfer-Encoding'' \<and> strcaseeq v ''chunked'') XH_TRANSFER_ENCODING_CHUNKED h5)"

definition http_response_send_header ::
  "('w, 'h) http_env \<Rightarrow> 'h http_response \<Rightarrow> string \<Rightarrow> string \<Rightarrow> ('w, 'h http_response) io" where
  "http_response_send_header E h key v =
     (if is_http09 (resp_request h) then retW h
      else bindW (io_fputs (h_io E) key) (\<lambda>_.
           bindW (io_fputs (h_io E) '': '') (\<lambda>_.
           bindW (io_fputs (h_io E) v) (\<lambda>_.
           bindW (io_fputs (h_io E) CRLF) (\<lambda>_. retW (note_header key v h))))))"

fun send_header_list ::
  "('w, 'h) http_env \<Rightarrow> 'h http_response \<Rightarrow> (string \<times> string) list \<Rightarrow> ('w, 'h http_response) io" where
  "send_header_list E h [] = retW h"
| "send_header_list E h ((k, v) # hs) = bindW (http_response_send_header E h k v) (\<lambda>h1. send_header_list E h1 hs)"

definition http_response_send_headers ::
  "('w, 'h) http_env \<Rightarrow> 'h http_response \<Rightarrow> (string \<times> string) list \<Rightarrow> ('w, 'h http_response) io" where
  "http_response_send_headers E h hs = (if is_http09 (resp_request h) then retW h else send_header_list E h hs)"

text \<open>The line that is written to the log file.\<close>

definition log_entry :: "('w, 'h) http_env \<Rightarrow> 'h http_response \<Rightarrow> string \<Rightarrow> int \<Rightarrow> string" where
  "log_entry E h addr_str port =
     (let rq = resp_request h;
          referer = (case http_request_get_header E rq ''Referer'' of None \<Rightarrow> ''-'' | Some v \<Rightarrow> v);
          user_agent = (case http_request_get_header E rq ''User-Agent'' of None \<Rightarrow> ''-'' | Some v \<Rightarrow> v);
          (maj, mi) = http_request_version rq
      in h_strftime E ''%Y/%m/%d %H:%M:%S'' (req_time rq) @ '' '' @ addr_str @ '':'' @ show_int port @
         '' '' @ [CHR 0x22] @ http_request_method_string rq @ '' '' @ original_url rq @
         '' HTTP/'' @ show_int maj @ ''.'' @ show_int mi @ [CHR 0x22] @ '' '' @ show_int (resp_code h) @
         '' '' @ show_int (content_length h) @ '' '' @ [CHR 0x22] @ referer @ [CHR 0x22] @
         '' '' @ [CHR 0x22] @ user_agent @ [CHR 0x22, LF])"

definition do_logging :: "('w, 'h) http_env \<Rightarrow> 'h http_response \<Rightarrow> ('w, unit) io" where
  "do_logging E h =
     bindW get_io (\<lambda>io.
     liftW (updW (\<lambda>w. case h_log E of
       None \<Rightarrow> Some w
     | Some put \<Rightarrow> Some (put (log_entry E h (fst (h_peer E (sock io) w)) (snd (h_peer E (sock io) w))) w))))"

definition default_header ::
  "('w, 'h) http_env \<Rightarrow> 32 word \<Rightarrow> string \<Rightarrow> string \<Rightarrow> 'h http_response \<Rightarrow> ('w, 'h http_response) io" where
  "default_header E m k v h = (if extra_headers h AND m \<noteq> 0 then http_response_send_header E h k v else retW h)"

text \<open>Whether the connection has to be closed, when the caller has not sent a \<open>Connection\<close> header.\<close>

definition must_close :: "('w, 'h) http_env \<Rightarrow> 'h http_response \<Rightarrow> bool" where
  "must_close E h =
     (if extra_headers h AND XH_LENGTH_DEFINED = XH_LENGTH_DEFINED then True
      else (case http_request_get_header E (resp_request h) ''Connection'' of
              Some conn_hdr \<Rightarrow>
                if strcaseeq conn_hdr ''close'' then True
                else if strcaseeq conn_hdr ''keep-alive'' then False
                else True
            | None \<Rightarrow> if major (resp_request h) = 1 \<and> minor (resp_request h) \<ge> 1 then False else True))"

definition connection_header :: "('w, 'h) http_env \<Rightarrow> 'h http_response \<Rightarrow> ('w, bool \<times> 'h http_response) io" where
  "connection_header E h =
     (if extra_headers h AND XH_CONNECTION \<noteq> 0
      then bindW (http_response_send_header E h ''Connection'' (if must_close E h then ''close'' else ''keep-alive'')) (\<lambda>h1.
           retW (must_close E h, h1))
      else retW (True, h))"

definition http_response_end_headers :: "('w, 'h) http_env \<Rightarrow> 'h http_response \<Rightarrow> ('w, bool) io" where
  "http_response_end_headers E h =
     bindW
       (if is_http09 (resp_request h) then retW (True, h)
        else bindW (default_header E XH_SERVER ''Server'' (h_servername E) h) (\<lambda>h1.
             bindW (default_header E XH_DATE ''Date''
               (h_strftime E ''%a, %d %b %Y %H:%M:%S GMT'' (req_time (resp_request h1))) h1) (\<lambda>h2.
             bindW (default_header E XH_CONTENT_TYPE ''Content-Type'' ''text/plain'' h2) (\<lambda>h3.
             bindW (connection_header E h3) (\<lambda>x.
             bindW (io_fputs (h_io E) CRLF) (\<lambda>_. retW x))))))
       (\<lambda>x. bindW (do_logging E (snd x)) (\<lambda>_. retW (fst x)))"

definition http_response_write_chunk :: "('w, 'h) http_env \<Rightarrow> string \<Rightarrow> ('w, unit) io" where
  "http_response_write_chunk E data =
     bindW (io_fprintf (h_io E) (hexa (length data) @ CRLF)) (\<lambda>_.
     bindW (io_fwrite (h_io E) data) (\<lambda>_.
     bindW (io_fprintf (h_io E) CRLF) (\<lambda>_. retW ())))"

definition http_response_write_chunk_string :: "('w, 'h) http_env \<Rightarrow> string \<Rightarrow> ('w, unit) io" where
  "http_response_write_chunk_string E str =
     bindW (io_fprintf (h_io E) (hexa (length str) @ CRLF @ str @ CRLF)) (\<lambda>_. retW ())"

definition http_response_write_chunk_end :: "('w, 'h) http_env \<Rightarrow> ('w, unit) io" where
  "http_response_write_chunk_end E = bindW (io_fputs (h_io E) (''0'' @ CRLF)) (\<lambda>_. retW ())"

section \<open>Reading a request\<close>

definition clean_line :: "string \<Rightarrow> bool" where
  "clean_line l \<longleftrightarrow> set l \<inter> {NUL, CR, LF, CHR 0xFF} = {} \<and> length l + 2 < MAX_LINE_LENGTH"

text \<open>The text of a request as a client sends it.\<close>

definition header_line :: "string \<times> string \<Rightarrow> string" where
  "header_line h = fst h @ '': '' @ snd h @ CRLF"

definition header_ok :: "string \<times> string \<Rightarrow> bool" where
  "header_ok h \<longleftrightarrow> clean_line (fst h @ '': '' @ snd h) \<and> CHR '':'' \<notin> set (fst h) \<and> trim (snd h) = snd h"

definition method_name :: "http_method \<Rightarrow> string" where
  "method_name m = (case m of HTTP_METHOD_GET \<Rightarrow> ''GET'' | HTTP_METHOD_HEAD \<Rightarrow> ''HEAD'' | HTTP_METHOD_POST \<Rightarrow> ''POST'')"

definition request_line :: "http_method \<Rightarrow> string \<Rightarrow> nat \<Rightarrow> nat \<Rightarrow> string" where
  "request_line m u a b = method_name m @ '' '' @ u @ '' HTTP/'' @ [digit_char a] @ ''.'' @ [digit_char b]"

definition request_text :: "http_method \<Rightarrow> string \<Rightarrow> nat \<Rightarrow> nat \<Rightarrow> (string \<times> string) list \<Rightarrow> string" where
  "request_text m u a b hs = request_line m u a b @ CRLF @ concat (map header_line hs) @ CRLF"

definition header_map :: "(string \<times> string) list \<Rightarrow> string \<rightharpoonup> string" where
  "header_map hs = map_of (rev (map (\<lambda>h. (map tolower (fst h), snd h)) hs))"

lemma parse_method_line: "parse_method (method_name m @ '' '' @ r) = Some (m, r)"
  by (cases m) (simp_all add: parse_method_def method_name_def)

lemma version_line:
  assumes "a < 10" "b < 10"
  shows "version_ok (''HTTP/'' @ [digit_char a] @ ''.'' @ [digit_char b])"
    "digit_val (c_nth (''HTTP/'' @ [digit_char a] @ ''.'' @ [digit_char b]) 5) = a"
    "digit_val (c_nth (''HTTP/'' @ [digit_char a] @ ''.'' @ [digit_char b]) 7) = b"
  using assms by (simp_all add: version_ok_def c_nth_def digit_char_props)

lemma trim_space: "trim (CHR '' '' # v) = trim v"
  by (simp add: trim_def isspace_def)

locale http = socket "h_io E" good rest sent + hash: c2_hash "h_hash E" + str: c2_strings "h_str E"
  for E :: "('w, 'h) http_env" and good :: "'w \<Rightarrow> bool" and rest :: "'w \<Rightarrow> int \<Rightarrow> string" and sent :: "'w \<Rightarrow> int \<Rightarrow> string"
begin

definition reads :: "('w, 'a) io \<Rightarrow> io_handle \<Rightarrow> 'w \<Rightarrow> 'a \<Rightarrow> string \<Rightarrow> bool" where
  "reads m io w a r \<longleftrightarrow> (\<exists>io' w'. m (io, w) = Some (Ret a, io', w') \<and> io_ok io' \<and> good w' \<and>
     only_input rest sent io w io' w' \<and> unread rest io' w' = r)"

lemma reads_bind:
  assumes "reads m io w a r" "\<And>io' w'. io_ok io' \<Longrightarrow> good w' \<Longrightarrow> unread rest io' w' = r \<Longrightarrow> reads (f a) io' w' b r'"
  shows "reads (bindW m f) io w b r'"
proof -
  obtain io' w' where m: "m (io, w) = Some (Ret a, io', w')" "io_ok io'" "good w'"
    "only_input rest sent io w io' w'" "unread rest io' w' = r" using assms(1) by (auto simp: reads_def)
  obtain io2 w2 where f: "f a (io', w') = Some (Ret b, io2, w2)" "io_ok io2" "good w2"
    "only_input rest sent io' w' io2 w2" "unread rest io2 w2 = r'" using assms(2) [OF m(2,3,5)] by (auto simp: reads_def)
  show ?thesis
    unfolding reads_def using m(1) f only_input_trans [OF m(4) f(4)]
    by (intro exI [of _ io2] exI [of _ w2]) (simp add: bindW_def)
qed

lemma reads_ret: "io_ok io \<Longrightarrow> good w \<Longrightarrow> unread rest io w = r \<Longrightarrow> reads (retW a) io w a r"
  by (auto simp: reads_def retW_def)

lemma get_line_reads:
  assumes "good w" "io_ok io" "clean_line l" "unread rest io w = l @ CRLF @ r"
  shows "reads (get_line E) io w (Some l) r"
proof -
  let ?k = "MAX_LINE_LENGTH - 1"
  have l: "LF \<notin> set l" "set l \<inter> {CR, LF} = {}" "NUL \<notin> set l" "CHR 0xFF \<notin> set l" "length l + 2 \<le> ?k"
    using assms(3) by (auto simp: clean_line_def)
  have line: "line_of ?k (unread rest io w) = l @ CRLF" using line_of_crlf [OF l(1,5)] assms(4) by simp
  have eof: "\<not> line_eof ?k (unread rest io w)" using line by (simp add: line_eof_def)
  have "CHR 0xFF \<notin> set (line_of ?k (unread rest io w))" using line l(4) by simp
  from fgets_spec [OF assms(1,2) this, of False] line eof strip_crlf [OF l(2)] assms(4) l(3)
  show ?thesis by (auto simp: reads_def get_line_def bindW_def retW_def Let_def)
qed

lemma first_line_reads:
  assumes "good w" "io_ok io" "clean_line l" "l \<noteq> []" "unread rest io w = concat (replicate n CRLF) @ l @ CRLF @ r"
  shows "reads (first_line E) io w (Some l) r"
  using assms
proof (induction n arbitrary: io w)
  case 0
  then have "reads (get_line E) io w (Some l) r" using get_line_reads by simp
  then have "reads (bindW (get_line E) (\<lambda>l. if l = Some [] then first_line E else retW l)) io w (Some l) r"
    by (rule reads_bind) (use 0 in \<open>simp add: reads_ret\<close>)
  then show ?case by (simp add: reads_def first_line.simps)
next
  case (Suc n)
  have "clean_line []" by (simp add: clean_line_def MAX_LINE_LENGTH_def)
  then have "reads (get_line E) io w (Some []) (concat (replicate n CRLF) @ l @ CRLF @ r)"
    using get_line_reads [of w io "[]"] Suc.prems by simp
  then have "reads (bindW (get_line E) (\<lambda>l. if l = Some [] then first_line E else retW l)) io w (Some l) r"
    by (rule reads_bind) (use Suc in simp)
  then show ?case by (simp add: reads_def first_line.simps)
qed

lemma read_headers_unfold:
  "read_headers E hs = bindW (get_line E) (\<lambda>l.
       if l = None then bad_request E (''HTTP/1.1 400 Unexpected EOF in request'' @ CRLF) ''unexpected EOF reading headers''
       else if l = Some [] then retW hs
       else if split_chr CHR '':'' (the l) = None
       then bad_request E (''HTTP/1.1 400 Badly formed header'' @ CRLF) ''badly formed header in request''
       else read_headers E (add_header E (fst (the (split_chr CHR '':'' (the l)))) (snd (the (split_chr CHR '':'' (the l)))) hs))"
  by (rule ext) (rule read_headers.simps)

lemma read_headers_reads:
  assumes "good w" "io_ok io" "\<forall>h \<in> set hs. header_ok h" "unread rest io w = concat (map header_line hs) @ CRLF @ r"
  shows "reads (read_headers E H) io w (foldl (\<lambda>H h. add_header E (fst h) (snd h) H) H hs) r"
  using assms
proof (induction hs arbitrary: io w H)
  case Nil
  have "clean_line []" by (simp add: clean_line_def MAX_LINE_LENGTH_def)
  then have "reads (get_line E) io w (Some []) r" using get_line_reads [of w io "[]"] Nil by simp
  then show ?case by (subst read_headers_unfold) (rule reads_bind, auto simp: reads_ret)
next
  case (Cons h hs)
  let ?l = "fst h @ '': '' @ snd h"
  have h: "clean_line ?l" "CHR '':'' \<notin> set (fst h)" using Cons.prems(3) by (simp_all add: header_ok_def)
  have "reads (get_line E) io w (Some ?l) (concat (map header_line hs) @ CRLF @ r)"
    using get_line_reads [OF Cons.prems(1,2) h(1)] Cons.prems(4) by (simp add: header_line_def [of h])
  moreover have "split_chr CHR '':'' ?l = Some (fst h, CHR '' '' # snd h)" using split_chr_append [OF h(2)] by simp
  moreover have "add_header E (fst h) (CHR '' '' # snd h) H = add_header E (fst h) (snd h) H"
    by (simp add: add_header_def str.trims trim_space)
  ultimately show ?case
    using Cons.IH Cons.prems(3) by (subst read_headers_unfold) (rule reads_bind, auto)
qed

lemma headers_get:
  assumes "\<forall>h \<in> set hs. header_ok h"
  shows "hash_get (h_hash E) (foldl (\<lambda>H h. add_header E (fst h) (snd h) H) H hs) = hash_get (h_hash E) H ++ header_map hs"
  using assms
proof (induction hs arbitrary: H)
  case (Cons h hs)
  then show ?case
    by (simp add: header_map_def add_header_def hash.get_insert str.lowers str.trims header_ok_def map_add_def fun_eq_iff split: option.split)
qed (simp add: header_map_def)

lemma new_http_request_reads:
  assumes "good w" "io_ok io" and line: "clean_line (request_line m u a b)" "a < 10" "b < 10" "CHR '' '' \<notin> set u"
    and hs: "\<forall>h \<in> set hs. header_ok h"
    and un: "unread rest io w = concat (replicate n CRLF) @ request_text m u a b hs @ r"
  shows "reads (new_http_request E p) io w (Some ((parse_url (blank_request E p (h_now E w div 1000) m u))
     \<lparr>is_http09 := False, major := int a, minor := int b,
      headers := foldl (\<lambda>H h. add_header E (fst h) (snd h) H) (hash_new (h_hash E)) hs\<rparr>)) r"
proof -
  let ?h = "parse_url (blank_request E p (h_now E w div 1000) m u)"
  let ?v = "''HTTP/'' @ [digit_char a] @ ''.'' @ [digit_char b]"
  have ne: "request_line m u a b \<noteq> []" by (cases m) (simp_all add: request_line_def method_name_def)
  have now: "reads (liftW (getW (\<lambda>w. Some (h_now E w div 1000)))) io w (h_now E w div 1000) (unread rest io w)"
    using assms(1,2) by (auto simp: reads_def liftW_def getW_def)
  have pm: "parse_method (request_line m u a b) = Some (m, u @ CHR '' '' # ?v)"
    using parse_method_line [of m "u @ CHR '' '' # ?v"] by (simp add: request_line_def)
  have hd0: "headers ?h = hash_new (h_hash E)" by (simp add: parse_url_def blank_request_def split: option.split)
  note simps = pm split_chr_append [OF line(4)] version_line [OF line(2,3)] hd0 Let_def
  show ?thesis
    unfolding new_http_request_def
  proof (rule reads_bind [OF now], rule reads_bind)
    fix io1 w1 assume 1: "io_ok io1" "good w1" "unread rest io1 w1 = unread rest io w"
    show "reads (first_line E) io1 w1 (Some (request_line m u a b)) (concat (map header_line hs) @ CRLF @ r)"
      using first_line_reads [OF 1(2,1) line(1) ne, of n] 1(3) un by (simp add: request_text_def)
  next
    fix io1 w1 assume 1: "io_ok io1" "good w1" "unread rest io1 w1 = concat (map header_line hs) @ CRLF @ r"
    have "reads (request_of_line E p (h_now E w div 1000) (request_line m u a b)) io1 w1
      (Some (?h\<lparr>is_http09 := False, major := int a, minor := int b,
        headers := foldl (\<lambda>H h. add_header E (fst h) (snd h) H) (hash_new (h_hash E)) hs\<rparr>)) r"
      using read_headers_reads [OF 1(2,1) hs 1(3), of "hash_new (h_hash E)"] version_line [OF line(2,3)]
      unfolding request_of_line_def by (simp add: simps) (rule reads_bind, auto simp: reads_ret)
    then show "reads (case Some (request_line m u a b) of None \<Rightarrow> retW None | Some line \<Rightarrow> request_of_line E p (h_now E w div 1000) line)
      io1 w1 (Some (?h\<lparr>is_http09 := False, major := int a, minor := int b,
        headers := foldl (\<lambda>H h. add_header E (fst h) (snd h) H) (hash_new (h_hash E)) hs\<rparr>)) r" by simp
  qed
qed

end

section \<open>Writing a response\<close>

text \<open>The default headers that a header sent by the caller replaces, by the number of their bit.\<close>

definition clears :: "nat \<Rightarrow> string \<times> string \<Rightarrow> bool" where
  "clears n h =
     (if n = 0 then strcaseeq (fst h) ''Server''
      else if n = 1 then strcaseeq (fst h) ''Date''
      else if n = 2 then strcaseeq (fst h) ''Content-Type''
      else if n = 3 then strcaseeq (fst h) ''Connection''
      else if n = 4 then strcaseeq (fst h) ''Content-Length''
      else n = 5 \<and> strcaseeq (fst h) ''Transfer-Encoding'' \<and> strcaseeq (snd h) ''chunked'')"

definition note_headers :: "(string \<times> string) list \<Rightarrow> 'h http_response \<Rightarrow> 'h http_response" where
  "note_headers hs h = foldl (\<lambda>h x. note_header (fst x) (snd x) h) h hs"

lemma XH_powers:
  "XH_SERVER = 2 ^ 0" "XH_DATE = 2 ^ 1" "XH_CONTENT_TYPE = 2 ^ 2" "XH_CONNECTION = 2 ^ 3"
  "XH_CONTENT_LENGTH = 2 ^ 4" "XH_TRANSFER_ENCODING_CHUNKED = 2 ^ 5"
  by (simp_all add: XH_SERVER_def XH_DATE_def XH_CONTENT_TYPE_def XH_CONNECTION_def XH_CONTENT_LENGTH_def
    XH_TRANSFER_ENCODING_CHUNKED_def)

lemma bit_clear_if:
  "m < 32 \<Longrightarrow> n < 32 \<Longrightarrow> bit (extra_headers (clear_if b (2 ^ m) h)) n \<longleftrightarrow> bit (extra_headers h) n \<and> \<not> (b \<and> n = m)"
  by (auto simp: clear_if_def bit_simps)

lemma clear_if_same [simp]: "resp_request (clear_if b m h) = resp_request h" "resp_code (clear_if b m h) = resp_code h"
  by (simp_all add: clear_if_def)

lemma scan_length_same [simp]: "resp_request (scan_length v h) = resp_request h" "resp_code (scan_length v h) = resp_code h"
  "extra_headers (scan_length v h) = extra_headers h"
  by (simp_all add: scan_length_def split: option.split)

lemma note_header_same [simp]: "resp_request (note_header k v h) = resp_request h" "resp_code (note_header k v h) = resp_code h"
  by (simp_all add: note_header_def Let_def)

lemma note_header_bits:
  "n < 6 \<Longrightarrow> bit (extra_headers (note_header k v h)) n \<longleftrightarrow> bit (extra_headers h) n \<and> \<not> clears n (k, v)"
  by (simp only: note_header_def Let_def XH_powers if_distrib [of extra_headers] if_distrib [of "\<lambda>x. bit x n"]
      scan_length_same bit_clear_if) (auto simp: clears_def bit_clear_if)

lemma note_headers_same [simp]: "resp_request (note_headers hs h) = resp_request h" "resp_code (note_headers hs h) = resp_code h"
  by (induction hs arbitrary: h) (simp_all add: note_headers_def)

lemma note_headers_bits:
  "n < 6 \<Longrightarrow> bit (extra_headers (note_headers hs h)) n \<longleftrightarrow> bit (extra_headers h) n \<and> \<not> list_ex (clears n) hs"
  by (induction hs arbitrary: h) (auto simp: note_headers_def note_header_bits)

lemma and_power_iff: "n < 32 \<Longrightarrow> (x :: 32 word) AND 2 ^ n \<noteq> 0 \<longleftrightarrow> bit x n"
  by (simp add: and_exp_eq_0_iff_not_bit)

lemma length_defined_iff: "(x :: 32 word) AND XH_LENGTH_DEFINED = XH_LENGTH_DEFINED \<longleftrightarrow> bit x 4 \<and> bit x 5"
proof -
  have b: "bit XH_LENGTH_DEFINED n \<longleftrightarrow> n = 4 \<or> n = 5" for n
    unfolding XH_LENGTH_DEFINED_def XH_powers by (simp only: bit_or_iff bit_exp_iff) auto
  show ?thesis
  proof
    assume h: "x AND XH_LENGTH_DEFINED = XH_LENGTH_DEFINED"
    have "bit (x AND XH_LENGTH_DEFINED) n \<longleftrightarrow> bit XH_LENGTH_DEFINED n" for n using h by simp
    then show "bit x 4 \<and> bit x 5" using b by (simp add: bit_and_iff) (metis)
  next
    assume "bit x 4 \<and> bit x 5"
    then show "x AND XH_LENGTH_DEFINED = XH_LENGTH_DEFINED"
      by (intro bit_word_eqI) (auto simp: bit_and_iff b)
  qed
qed

lemma default_names:
  "clears n (''Server'', v) \<longleftrightarrow> n = 0" "clears n (''Date'', v) \<longleftrightarrow> n = 1" "clears n (''Content-Type'', v) \<longleftrightarrow> n = 2"
  "clears n (''Connection'', v) \<longleftrightarrow> n = 3"
  by (auto simp: clears_def strcaseeq_def tolower_def isupper_def between_def)

text \<open>What the library decides and sends when the caller has sent \<open>hs\<close>.\<close>

definition closes :: "('w, 'h) http_env \<Rightarrow> 'h http_request \<Rightarrow> (string \<times> string) list \<Rightarrow> bool" where
  "closes E rq hs \<longleftrightarrow>
     \<not> (list_ex (clears 4) hs \<or> list_ex (clears 5) hs) \<or>
     (case http_request_get_header E rq ''Connection'' of
        Some c \<Rightarrow> \<not> strcaseeq c ''keep-alive''
      | None \<Rightarrow> \<not> (major rq = 1 \<and> minor rq \<ge> 1))"

definition default_headers :: "('w, 'h) http_env \<Rightarrow> 'h http_request \<Rightarrow> (string \<times> string) list \<Rightarrow> (string \<times> string) list" where
  "default_headers E rq hs =
     (if list_ex (clears 0) hs then [] else [(''Server'', h_servername E)]) @
     (if list_ex (clears 1) hs then [] else [(''Date'', h_strftime E ''%a, %d %b %Y %H:%M:%S GMT'' (req_time rq))]) @
     (if list_ex (clears 2) hs then [] else [(''Content-Type'', ''text/plain'')]) @
     (if list_ex (clears 3) hs then [] else [(''Connection'', if closes E rq hs then ''close'' else ''keep-alive'')])"

context http
begin

definition writes :: "('w, 'a) io \<Rightarrow> io_handle \<Rightarrow> 'w \<Rightarrow> 'a \<Rightarrow> string \<Rightarrow> bool" where
  "writes m io w a t \<longleftrightarrow> (\<exists>io' w'. m (io, w) = Some (Ret a, io', w') \<and> io_ok io' \<and> good w' \<and> sock io' = sock io \<and>
     io_pool io' = io_pool io \<and> produced sent io' w' = produced sent io w @ t \<and> unread rest io' w' = unread rest io w \<and>
     (\<forall>s. s \<noteq> sock io \<longrightarrow> sent w' s = sent w s \<and> rest w' s = rest w s))"

lemma writes_bind:
  assumes "writes m io w a t" "\<And>io' w'. io_ok io' \<Longrightarrow> good w' \<Longrightarrow> writes (f a) io' w' b t'"
  shows "writes (bindW m f) io w b (t @ t')"
proof -
  obtain io' w' where m: "m (io, w) = Some (Ret a, io', w')" "io_ok io'" "good w'" "sock io' = sock io" "io_pool io' = io_pool io"
    "produced sent io' w' = produced sent io w @ t" "unread rest io' w' = unread rest io w"
    "\<forall>s. s \<noteq> sock io \<longrightarrow> sent w' s = sent w s \<and> rest w' s = rest w s"
    using assms(1) by (auto simp: writes_def)
  obtain io2 w2 where f: "f a (io', w') = Some (Ret b, io2, w2)" "io_ok io2" "good w2" "sock io2 = sock io'" "io_pool io2 = io_pool io'"
    "produced sent io2 w2 = produced sent io' w' @ t'" "unread rest io2 w2 = unread rest io' w'"
    "\<forall>s. s \<noteq> sock io' \<longrightarrow> sent w2 s = sent w' s \<and> rest w2 s = rest w' s"
    using assms(2) [OF m(2,3)] by (auto simp: writes_def)
  show ?thesis
    unfolding writes_def using m f by (intro exI [of _ io2] exI [of _ w2]) (simp add: bindW_def)
qed

lemma writes_ret: "io_ok io \<Longrightarrow> good w \<Longrightarrow> writes (retW a) io w a []"
  by (auto simp: writes_def retW_def)

lemma writes_fputs:
  assumes "io_ok io" "good w" "NUL \<notin> set cs"
  shows "writes (io_fputs (h_io E) cs) io w 1 cs"
proof -
  obtain io' w' where "io_fputs (h_io E) cs (io, w) = Some (Ret 1, io', w')" "io_ok io'" "same_input io io'"
    "produced sent io' w' = produced sent io w @ cs" "rest w' = rest w" "good w'" "\<forall>t. t \<noteq> sock io \<longrightarrow> sent w' t = sent w t"
    using fputs_spec [OF assms(2,1,3)] by blast
  then show ?thesis
    using same_input_window [of io io'] unfolding writes_def
    by (intro exI [of _ io'] exI [of _ w']) (simp add: unread_def same_input_def)
qed

lemma writes_fprintf:
  assumes "io_ok io" "good w" "NUL \<notin> set cs" "length cs \<noteq> 4096"
  shows "writes (io_fprintf (h_io E) cs) io w (length cs) cs"
proof -
  have "io_fprintf (h_io E) cs = bindW (io_fputs (h_io E) cs) (\<lambda>_. retW (length cs))"
    using assms(4) by (auto simp: io_fprintf_def vsnprintf_def Let_def)
  moreover have "writes (bindW (io_fputs (h_io E) cs) (\<lambda>_. retW (length cs))) io w (length cs) (cs @ [])"
    by (rule writes_bind [OF writes_fputs [OF assms(1-3)]]) (rule writes_ret)
  ultimately show ?thesis by simp
qed

lemma send_header_writes:
  assumes "io_ok io" "good w" "\<not> is_http09 (resp_request h)" "NUL \<notin> set k" "NUL \<notin> set v"
  shows "writes (http_response_send_header E h k v) io w (note_header k v h) (header_line (k, v))"
proof -
  have "writes (http_response_send_header E h k v) io w (note_header k v h) (k @ '': '' @ v @ CRLF @ [])"
    unfolding http_response_send_header_def using assms
    by (simp only: if_False) (intro writes_bind [OF writes_fputs] writes_ret; simp)
  then show ?thesis by (simp add: header_line_def)
qed

lemma send_header_list_writes:
  assumes "io_ok io" "good w" "\<not> is_http09 (resp_request h)" "\<forall>x \<in> set hs. NUL \<notin> set (fst x) \<and> NUL \<notin> set (snd x)"
  shows "writes (send_header_list E h hs) io w (note_headers hs h) (concat (map header_line hs))"
  using assms
proof (induction hs arbitrary: h io w)
  case Nil
  then show ?case by (simp add: note_headers_def writes_ret)
next
  case (Cons x hs)
  obtain k v where x: "x = (k, v)" by fastforce
  have "writes (send_header_list E h ((k, v) # hs)) io w (note_headers hs (note_header k v h))
      (header_line (k, v) @ concat (map header_line hs))"
    using Cons x by (simp only: send_header_list.simps) (rule writes_bind [OF send_header_writes], auto)
  then show ?case by (simp add: x note_headers_def)
qed

end

text \<open>The bits from \<open>m\<close> on are set for exactly the default headers that the caller has not sent.\<close>

definition open_bits :: "nat \<Rightarrow> (string \<times> string) list \<Rightarrow> 'h http_response \<Rightarrow> bool" where
  "open_bits m hs h \<longleftrightarrow> (\<forall>n. m \<le> n \<longrightarrow> n < 6 \<longrightarrow> bit (extra_headers h) n = (\<not> list_ex (clears n) hs))"

definition with_default :: "nat \<Rightarrow> (string \<times> string) list \<Rightarrow> string \<times> string \<Rightarrow> 'h http_response \<Rightarrow> 'h http_response" where
  "with_default m hs x h = (if list_ex (clears m) hs then h else note_header (fst x) (snd x) h)"

definition default_list :: "nat \<Rightarrow> (string \<times> string) list \<Rightarrow> string \<times> string \<Rightarrow> (string \<times> string) list" where
  "default_list m hs x = (if list_ex (clears m) hs then [] else [x])"

lemma with_default_next:
  assumes "open_bits m hs h" "\<And>n. clears n x \<longleftrightarrow> n = m"
  shows "open_bits (Suc m) hs (with_default m hs x h)"
  using assms by (simp add: open_bits_def with_default_def note_header_bits)

lemma with_default_same [simp]: "resp_request (with_default m hs x h) = resp_request h" "resp_code (with_default m hs x h) = resp_code h"
  by (simp_all add: with_default_def)

lemma must_close_open:
  assumes "open_bits 3 hs h"
  shows "must_close E h \<longleftrightarrow> closes E (resp_request h) hs"
proof -
  have "strcaseeq c ''close'' \<Longrightarrow> \<not> strcaseeq c ''keep-alive''" for c
    by (auto simp: strcaseeq_def tolower_def isupper_def between_def)
  then show ?thesis
    using assms by (auto simp: open_bits_def must_close_def closes_def length_defined_iff split: option.split)
qed

lemma default_headers_list:
  "default_headers E rq hs = default_list 0 hs (''Server'', h_servername E) @
     default_list 1 hs (''Date'', h_strftime E ''%a, %d %b %Y %H:%M:%S GMT'' (req_time rq)) @
     default_list 2 hs (''Content-Type'', ''text/plain'') @
     default_list 3 hs (''Connection'', if closes E rq hs then ''close'' else ''keep-alive'')"
  by (simp add: default_headers_def default_list_def)

text \<open>Writing to the log file leaves the connections alone.\<close>

locale http_server = http +
  assumes log_law: "h_log E = Some put \<Longrightarrow> good w \<Longrightarrow> good (put s w) \<and> rest (put s w) = rest w \<and> sent (put s w) = sent w"
begin

lemma logging_writes: "io_ok io \<Longrightarrow> good w \<Longrightarrow> writes (do_logging E h) io w () []"
  using log_law unfolding writes_def
  by (cases "h_log E") (auto simp: do_logging_def bindW_def get_io_def liftW_def updW_def produced_def unread_def)

lemma default_header_writes:
  assumes "io_ok io" "good w" "\<not> is_http09 (resp_request h)" "NUL \<notin> set (fst x)" "NUL \<notin> set (snd x)" "open_bits m hs h" "m < 6"
  shows "writes (default_header E (2 ^ m) (fst x) (snd x) h) io w (with_default m hs x h) (concat (map header_line (default_list m hs x)))"
  using assms send_header_writes [OF assms(1-5)]
  by (simp add: default_header_def and_power_iff writes_ret open_bits_def with_default_def default_list_def)

lemma connection_header_writes:
  assumes "io_ok io" "good w" "\<not> is_http09 (resp_request h)" "open_bits 3 hs h"
  defines "x \<equiv> (''Connection'', if closes E (resp_request h) hs then ''close'' else ''keep-alive'')"
  shows "writes (connection_header E h) io w (list_ex (clears 3) hs \<or> closes E (resp_request h) hs, with_default 3 hs x h)
    (concat (map header_line (default_list 3 hs x)))"
proof (cases "list_ex (clears 3) hs")
  case True
  then have b: "extra_headers h AND XH_CONNECTION = 0"
    using assms(4) and_power_iff [of 3 "extra_headers h"] by (simp add: XH_powers open_bits_def)
  then show ?thesis
    using assms True by (simp add: connection_header_def writes_ret with_default_def default_list_def)
next
  case False
  then have b: "extra_headers h AND XH_CONNECTION \<noteq> 0"
    using assms(4) and_power_iff [of 3 "extra_headers h"] by (simp add: XH_powers open_bits_def)
  have "writes (http_response_send_header E h (fst x) (snd x)) io w (note_header (fst x) (snd x) h) (header_line x)"
    using send_header_writes [OF assms(1-3), of "fst x" "snd x"] by (simp add: x_def)
  then have "writes (bindW (http_response_send_header E h (fst x) (snd x)) (\<lambda>h1. retW (must_close E h, h1))) io w
      (must_close E h, note_header (fst x) (snd x) h) (header_line x @ [])"
    by (rule writes_bind) (rule writes_ret)
  then show ?thesis
    using False b must_close_open [OF assms(4), of E]
    by (simp add: connection_header_def x_def with_default_def default_list_def)
qed

lemma end_headers_writes:
  assumes "io_ok io" "good w" and rq: "resp_request h = rq" "\<not> is_http09 rq" and bits: "open_bits 0 hs h"
    and nul: "NUL \<notin> set (h_servername E)" "\<And>f t. NUL \<notin> set (h_strftime E f t)"
  shows "writes (http_response_end_headers E h) io w (list_ex (clears 3) hs \<or> closes E rq hs)
    (concat (map header_line (default_headers E rq hs)) @ CRLF)"
proof -
  let ?d = "h_strftime E ''%a, %d %b %Y %H:%M:%S GMT'' (req_time rq)"
  let ?x0 = "(''Server'', h_servername E)" and ?x1 = "(''Date'', ?d)" and ?x2 = "(''Content-Type'', ''text/plain'')"
  let ?x3 = "(''Connection'', if closes E rq hs then ''close'' else ''keep-alive'')"
  let ?h1 = "with_default 0 hs ?x0 h"
  let ?h2 = "with_default 1 hs ?x1 ?h1"
  let ?h3 = "with_default 2 hs ?x2 ?h2"
  let ?c = "list_ex (clears 3) hs \<or> closes E rq hs"
  have o1: "open_bits 1 hs ?h1" using with_default_next [OF bits, of ?x0] default_names(1) by simp
  have o2: "open_bits 2 hs ?h2" using with_default_next [OF o1, of ?x1] default_names(2) by (simp add: numeral_2_eq_2)
  have o3: "open_bits 3 hs ?h3" using with_default_next [OF o2, of ?x2] default_names(3) by (simp add: numeral_3_eq_3)
  have d0: "writes (default_header E XH_SERVER ''Server'' (h_servername E) h) io w ?h1 (concat (map header_line (default_list 0 hs ?x0)))"
    if "io_ok io" "good w" for io w
    using default_header_writes [OF that _ _ _ bits, of ?x0] rq nul by (simp add: XH_powers)
  have d1: "writes (default_header E XH_DATE ''Date'' ?d ?h1) io w ?h2 (concat (map header_line (default_list 1 hs ?x1)))"
    if "io_ok io" "good w" for io w
    using default_header_writes [OF that _ _ _ o1, of ?x1] rq nul by (simp add: XH_powers)
  have d2: "writes (default_header E XH_CONTENT_TYPE ''Content-Type'' ''text/plain'' ?h2) io w ?h3 (concat (map header_line (default_list 2 hs ?x2)))"
    if "io_ok io" "good w" for io w
    using default_header_writes [OF that _ _ _ o2, of ?x2] rq by (simp add: XH_powers)
  have d3: "writes (connection_header E ?h3) io w (?c, with_default 3 hs ?x3 ?h3) (concat (map header_line (default_list 3 hs ?x3)))"
    if "io_ok io" "good w" for io w
    using connection_header_writes [OF that _ o3] rq by simp
  have crlf: "writes (io_fputs (h_io E) CRLF) io w 1 CRLF" if "io_ok io" "good w" for io w
    using writes_fputs [OF that, of CRLF] by simp
  have "writes (http_response_end_headers E h) io w ?c
     ((concat (map header_line (default_list 0 hs ?x0)) @ concat (map header_line (default_list 1 hs ?x1)) @
       concat (map header_line (default_list 2 hs ?x2)) @ concat (map header_line (default_list 3 hs ?x3)) @ CRLF @ []) @ [] @ [])"
    unfolding http_response_end_headers_def rq(1)
  proof (rule writes_bind [where a = "(?c, with_default 3 hs ?x3 ?h3)"], simp only: rq if_False)
    show "writes (bindW (default_header E XH_SERVER ''Server'' (h_servername E) h) (\<lambda>h1.
             bindW (default_header E XH_DATE ''Date''
               (h_strftime E ''%a, %d %b %Y %H:%M:%S GMT'' (req_time (resp_request h1))) h1) (\<lambda>h2.
             bindW (default_header E XH_CONTENT_TYPE ''Content-Type'' ''text/plain'' h2) (\<lambda>h3.
             bindW (connection_header E h3) (\<lambda>x.
             bindW (io_fputs (h_io E) CRLF) (\<lambda>_. retW x)))))) io w (?c, with_default 3 hs ?x3 ?h3)
       (concat (map header_line (default_list 0 hs ?x0)) @ concat (map header_line (default_list 1 hs ?x1)) @
        concat (map header_line (default_list 2 hs ?x2)) @ concat (map header_line (default_list 3 hs ?x3)) @ CRLF @ [])"
      by (rule writes_bind [OF d0 [OF assms(1,2)]], simp only: with_default_same rq, rule writes_bind [OF d1], assumption+,
          rule writes_bind [OF d2], assumption+, rule writes_bind [OF d3], assumption+, rule writes_bind [OF crlf], assumption+,
          rule writes_ret)
  next
    fix io1 w1 assume a: "io_ok io1" "good w1"
    show "writes (bindW (do_logging E (snd (?c, with_default 3 hs ?x3 ?h3))) (\<lambda>_. retW (fst (?c, with_default 3 hs ?x3 ?h3)))) io1 w1 ?c ([] @ [])"
      by (rule writes_bind [OF logging_writes [OF a]]) (simp add: writes_ret)
  qed
  then show ?thesis by (simp add: default_headers_list)
qed

text \<open>The whole head of a response.\<close>

lemma head_writes:
  assumes w: "io_ok io" "good w" and rq: "\<not> is_http09 rq"
    and nul: "NUL \<notin> set (h_servername E)" "\<And>f d. NUL \<notin> set (h_strftime E f d)" "NUL \<notin> set msg"
      "\<forall>x \<in> set hs. NUL \<notin> set (fst x) \<and> NUL \<notin> set (snd x)"
    and len: "length (''HTTP/1.1 '' @ show_int code @ '' '' @ msg @ CRLF) \<noteq> 4096"
  shows "writes (bindW (new_http_response E p rq code msg) (\<lambda>h. bindW (http_response_send_headers E h hs) (http_response_end_headers E)))
    io w (list_ex (clears 3) hs \<or> closes E rq hs)
    (''HTTP/1.1 '' @ show_int code @ '' '' @ msg @ CRLF @ concat (map header_line (hs @ default_headers E rq hs)) @ CRLF)"
proof -
  let ?h = "\<lparr>resp_pool = p, resp_request = rq, resp_code = code, extra_headers = NOT 0, content_length = 0\<rparr>"
  let ?st = "''HTTP/1.1 '' @ show_int code @ '' '' @ msg @ CRLF"
  let ?io = "io_setbufmode io IO_MODE_FULLY_BUFFERED"
  let ?c = "list_ex (clears 3) hs \<or> closes E rq hs"
  have io: "io_ok ?io" "sock ?io = sock io" "io_pool ?io = io_pool io" "produced sent ?io w = produced sent io w" "unread rest ?io w = unread rest io w"
    using w(1) by (simp_all add: io_setbufmode_def io_ok_def produced_def buffered_def unread_def window_def)
  have st: "NUL \<notin> set ?st"
  proof -
    have "NUL \<notin> set (dec n)" for n using dec_digits(1) [of n] digit_not_special(6) by (auto simp: list_all_iff)
    then show ?thesis using nul(3) by (simp add: show_int_def)
  qed
  have bits: "open_bits 0 hs (note_headers hs ?h)"
    by (simp add: open_bits_def note_headers_bits bit_simps)
  have 1: "writes (io_fprintf (h_io E) ?st) ?io w (length ?st) ?st" by (rule writes_fprintf [OF io(1) w(2) st len])
  have 2: "writes (http_response_send_headers E ?h hs) io1 w1 (note_headers hs ?h) (concat (map header_line hs))"
    if "io_ok io1" "good w1" for io1 w1
    using send_header_list_writes [OF that, of ?h hs] rq nul(4) by (simp add: http_response_send_headers_def)
  have 3: "writes (http_response_end_headers E (note_headers hs ?h)) io1 w1 ?c
      (concat (map header_line (default_headers E rq hs)) @ CRLF)" if "io_ok io1" "good w1" for io1 w1
    by (rule end_headers_writes [OF that _ rq bits nul(1,2)]) simp
  have "writes (bindW (io_fprintf (h_io E) ?st) (\<lambda>_. bindW (http_response_send_headers E ?h hs) (http_response_end_headers E))) ?io w ?c
      (?st @ concat (map header_line hs) @ concat (map header_line (default_headers E rq hs)) @ CRLF)"
    by (rule writes_bind [OF 1], rule writes_bind [OF 2], assumption+, rule 3)
  moreover have "bindW (new_http_response E p rq code msg) (\<lambda>h. bindW (http_response_send_headers E h hs) (http_response_end_headers E)) (io, w) =
      bindW (io_fprintf (h_io E) ?st) (\<lambda>_. bindW (http_response_send_headers E ?h hs) (http_response_end_headers E)) (?io, w)"
    using rq by (simp only: new_http_response_def Let_def bindW_assoc if_False) (simp add: bindW_def upd_io_def retW_def split: option.split outcome.split)
  ultimately show ?thesis unfolding writes_def io(2-5) by simp
qed

text \<open>At the end of the connection there is no request.\<close>

lemma no_request_reads:
  assumes "good w" "io_ok io" "unread rest io w = []"
  shows "reads (new_http_request E p) io w None []"
proof -
  have g: "reads (get_line E) io1 w1 None []" if "io_ok io1" "good w1" "unread rest io1 w1 = []" for io1 w1
    using fgets_spec [OF that(2,1), of MAX_LINE_LENGTH False] that(3)
    by (auto simp: reads_def get_line_def bindW_def retW_def Let_def line_eof_def MAX_LINE_LENGTH_def)
  have f: "reads (first_line E) io1 w1 None []" if "io_ok io1" "good w1" "unread rest io1 w1 = []" for io1 w1
  proof -
    have "reads (bindW (get_line E) (\<lambda>l. if l = Some [] then first_line E else retW l)) io1 w1 None []"
      by (rule reads_bind [OF g [OF that]]) (simp add: reads_ret)
    then show ?thesis by (simp add: reads_def first_line.simps)
  qed
  have now: "reads (liftW (getW (\<lambda>w. Some (h_now E w div 1000)))) io w (h_now E w div 1000) []"
    using assms by (auto simp: reads_def liftW_def getW_def)
  show ?thesis
    unfolding new_http_request_def by (rule reads_bind [OF now], rule reads_bind, rule f, assumption+, simp add: reads_ret)
qed

end

section \<open>Cookies\<close>

definition cookie_piece :: "string \<times> string \<Rightarrow> string" where
  "cookie_piece x = fst x @ ''='' @ cgi_escape (snd x)"

fun cookie_text :: "(string \<times> string) list \<Rightarrow> string" where
  "cookie_text [] = []"
| "cookie_text [x] = cookie_piece x"
| "cookie_text (x # y # xs) = cookie_piece x @ ''; '' @ cookie_text (y # xs)"

definition cookie_ok :: "string \<times> string \<Rightarrow> bool" where
  "cookie_ok x \<longleftrightarrow> fst x \<noteq> [] \<and> hd (fst x) \<noteq> CHR ''$'' \<and> set (fst x) \<inter> (cookie_separators \<union> {CHR ''=''}) = {} \<and>
     NUL \<notin> set (snd x) \<and> CHR '','' \<notin> set (snd x)"

lemma escape_no_separator: "CHR '','' \<notin> set s \<Longrightarrow> set (cgi_escape s) \<inter> cookie_separators = {}"
proof -
  have "x \<notin> cookie_separators" if "x \<in> set (escape_char c)" "c \<noteq> CHR '',''" for x c
  proof -
    have "isalnum x \<Longrightarrow> x \<notin> cookie_separators"
      by (auto simp: cookie_separators_def isalnum_def isdigit_def isupper_def between_def)
    then show ?thesis
      using that by (cases c rule: escape_char_cases) (auto simp: cgi_plain_def cookie_separators_def)
  qed
  then show "CHR '','' \<notin> set s \<Longrightarrow> set (cgi_escape s) \<inter> cookie_separators = {}" by (fastforce simp: cgi_escape_def)
qed

lemma cookie_piece_clean: "cookie_ok x \<Longrightarrow> cookie_piece x \<noteq> [] \<and> set (cookie_piece x) \<inter> cookie_separators = {}"
  using escape_no_separator [of "snd x"] by (auto simp: cookie_ok_def cookie_piece_def cookie_separators_def)

lemma tolower_eq_iff: "tolower c = CHR ''='' \<longleftrightarrow> c = CHR ''=''"
proof
  assume h: "tolower c = CHR ''=''"
  show "c = CHR ''=''"
  proof (cases "isupper c")
    case True
    then have u: "(of_char c :: nat) \<le> 90" "65 \<le> (of_char c :: nat)" by (simp_all add: isupper_def between_def)
    have "of_char (tolower c) = (of_char c + 32 :: nat)" using True u by (simp add: tolower_def)
    then show ?thesis using u h by simp
  qed (use h in \<open>simp add: tolower_def\<close>)
qed (simp add: tolower_def isupper_def between_def)

lemma cookie_matches_piece:
  assumes "CHR ''='' \<notin> set key" "CHR ''='' \<notin> set n" "n \<noteq> []" "hd n \<noteq> CHR ''$''"
  shows "cookie_matches key (n @ CHR ''='' # v) \<longleftrightarrow> strcaseeq key n"
proof
  assume m: "cookie_matches key (n @ CHR ''='' # v)"
  have len: "length key \<le> length (n @ CHR ''='' # v)"
    using m by (auto simp: cookie_matches_def caseprefix_def dest: prefix_length_le)
  have "length key = length n"
  proof (rule ccontr)
    assume "length key \<noteq> length n"
    then consider "length key < length n" | "length key > length n" by linarith
    then show False
    proof cases
      case 1
      then have "c_nth (n @ CHR ''='' # v) (length key) = n ! length key" by (simp add: c_nth_def nth_append)
      then show False using m 1 assms(2) nth_mem [OF 1] by (auto simp: cookie_matches_def)
    next
      case 2
      have "map tolower key ! length n = map tolower (n @ CHR ''='' # v) ! length n"
        using m 2 by (auto simp: cookie_matches_def caseprefix_def prefix_def nth_append dest!: arg_cong [of _ _ "\<lambda>s. s ! length n"])
      then have "tolower (key ! length n) = CHR ''=''" using 2 tolower_eq_iff [of "CHR ''=''"] by (simp add: nth_append)
      then have "key ! length n = CHR ''=''" by (simp only: tolower_eq_iff)
      then show False using 2 assms(1) nth_mem [OF 2] by auto
    qed
  qed
  then show "strcaseeq key n" using m by (auto simp: cookie_matches_def caseprefix_def strcaseeq_def prefix_def)
next
  assume e: "strcaseeq key n"
  then have "length key = length n" unfolding strcaseeq_def by (metis length_map)
  then show "cookie_matches key (n @ CHR ''='' # v)"
    using e assms(3,4) by (cases n) (auto simp: cookie_matches_def caseprefix_def strcaseeq_def c_nth_def nth_append prefix_def)
qed

lemma resplit_cookies:
  assumes "c2_strings CS" "\<forall>x \<in> set xs. cookie_ok x" "xs \<noteq> []"
  shows "pstrresplit CS (cookie_text xs) cookie_separators = map cookie_piece xs"
  using assms(2,3)
proof (induction xs rule: cookie_text.induct)
  case (2 x)
  then show ?case using c2_strings.resplit_one [OF assms(1)] cookie_piece_clean by simp
next
  case (3 x y xs)
  have ne: "cookie_text (y # xs) \<noteq> []" "hd (cookie_text (y # xs)) \<notin> cookie_separators"
    using cookie_piece_clean [of y] 3(2) by (cases xs; cases "cookie_piece y"; auto)+
  have sep: "set ''; '' \<subseteq> cookie_separators" by (simp add: cookie_separators_def)
  have "pstrresplit CS (cookie_piece x @ ''; '' @ cookie_text (y # xs)) cookie_separators =
      cookie_piece x # pstrresplit CS (cookie_text (y # xs)) cookie_separators"
    by (rule c2_strings.resplit_more [OF assms(1)]) (use cookie_piece_clean [of x] 3(2) sep ne in auto)
  then show ?case using 3 by simp
qed simp

section \<open>Properties\<close>

lemma http_of:
  assumes "connection K t rd wr busy rest sent" "h_io E = pth_io K rd wr cl" "c2_hash (h_hash E)" "c2_strings (h_str E)"
  shows "http E (runs t) (\<lambda>w. rest (os w)) (\<lambda>w. sent (os w))"
  unfolding http_def using connection.is_socket [OF assms(1), of cl] assms(2-4) by simp

text \<open>An environment on the network, with hashes and strings of the library.\<close>

definition net_http :: "((tid option list, nat list, cpools, nat \<times> (addr \<rightharpoonup> int), net) world, (string \<times> string) list) http_env" where
  "net_http = \<lparr>h_io = pth_io net_kernel net_read net_write net_close, h_str = list_strings, h_hash = alist_hash,
     h_die = pth_die net_kernel, h_now = (\<lambda>w. uint (reactor_time (w_re w))), h_strftime = (\<lambda>f t. ''now''),
     h_servername = ''pthrlib-httpd'', h_log = None, h_peer = (\<lambda>s w. (''127.0.0.1'', 80))\<rparr>"

lemma net_http_ok: "h_io net_http = pth_io net_kernel net_read net_write net_close"
  "c2_hash (h_hash net_http)" "c2_strings (h_str net_http)"
  using alist_hash.c2_hash_axioms list_strings.c2_strings_axioms by (simp_all add: net_http_def)

interpretation net_http: http_server net_http "runs 7" "\<lambda>w. n_in (os w)" "\<lambda>w. n_out (os w)"
  using http_of [OF net.connection_axioms net_http_ok]
  by (simp add: http_server_def http_server_axioms_def net_http_def)

text \<open>
  C19: a request round trip. Whatever the packets in which the text of a well-formed request arrives,
  even behind blank lines, \<open>new_http_request\<close> returns the request that was sent: method, URL, path
  and query string, version, and every header under its name in any case (the last one of a name).
  What follows the request is left to be read, and nothing is written.
\<close>

theorem http_request_roundtrip:
  assumes C: "connection K t rd wr busy rest sent" and E: "h_io E = pth_io K rd wr cl" "c2_hash (h_hash E)" "c2_strings (h_str E)"
    and w: "runs t w" "io_ok io"
    and line: "clean_line (request_line m u a b)" "a < 10" "b < 10" "CHR '' '' \<notin> set u" and hs: "\<forall>h \<in> set hs. header_ok h"
    and un: "arriving rest io w = concat (replicate n CRLF) @ request_text m u a b hs @ r"
  shows "\<exists>io' w' h. new_http_request E p (io, w) = Some (Ret (Some h), io', w') \<and> io_ok io' \<and> runs t w' \<and>
    req_method h = m \<and> url h = u \<and> \<not> is_http09 h \<and> http_request_version h = (int a, int b) \<and>
    u = path h @ (case query_string h of None \<Rightarrow> [] | Some q \<Rightarrow> ''?'' @ q) \<and>
    (query_string h = None \<longleftrightarrow> m = HTTP_METHOD_POST \<or> CHR ''?'' \<notin> set u) \<and>
    (\<forall>k. http_request_get_header E h k = header_map hs (map tolower k)) \<and>
    arriving rest io' w' = r \<and> written sent io' w' = written sent io w"
proof -
  note H = http_of [OF C E]
  let ?h = "(parse_url (blank_request E p (h_now E w div 1000) m u))
     \<lparr>is_http09 := False, major := int a, minor := int b,
      headers := foldl (\<lambda>H h. add_header E (fst h) (snd h) H) (hash_new (h_hash E)) hs\<rparr>"
  from http.new_http_request_reads [OF H w line hs un, of p]
  obtain io' w' where r: "new_http_request E p (io, w) = Some (Ret (Some ?h), io', w')" "io_ok io'" "runs t w'"
    "only_input (\<lambda>w. rest (os w)) (\<lambda>w. sent (os w)) io w io' w'" "arriving rest io' w' = r"
    by (auto simp: http.reads_def [OF H])
  have "req_method ?h = m" "url ?h = u"
    by (simp_all add: parse_url_def blank_request_def split: option.split)
  moreover have "u = path ?h @ (case query_string ?h of None \<Rightarrow> [] | Some q \<Rightarrow> ''?'' @ q)"
    "query_string ?h = None \<longleftrightarrow> m = HTTP_METHOD_POST \<or> CHR ''?'' \<notin> set u"
    using split_chr_Some [of "CHR ''?''" u] split_chr_None [of "CHR ''?''" u]
    by (auto simp: parse_url_def blank_request_def simp del: split_chr_None split: option.split)
  moreover have "http_request_get_header E ?h k = header_map hs (map tolower k)" for k
    using http.headers_get [OF H hs, of "hash_new (h_hash E)"] c2_hash.get_new [OF E(2)] c2_strings.lowers [OF E(3)]
    by (simp add: http_request_get_header_def)
  ultimately show ?thesis
    using r by (intro exI [of _ io'] exI [of _ w'] exI [of _ ?h]) (simp add: http_request_version_def only_input_def)
qed

theorem http_request_roundtrip_witness:
  "\<exists>io' w' h. new_http_request net_http 0 (fresh_handle 3, net_world (\<lambda>_.
      request_text HTTP_METHOD_GET ''/a?x=1'' 1 1 [(''Host'', ''example'')] @ ''body'')) = Some (Ret (Some h), io', w') \<and>
    url h = ''/a?x=1'' \<and> http_request_version h = (1, 1) \<and>
    http_request_get_header net_http h ''HOST'' = Some ''example'' \<and> arriving n_in io' w' = ''body''"
proof -
  let ?hs = "[(''Host'', ''example'')]"
  let ?w = "net_world (\<lambda>_. request_text HTTP_METHOD_GET ''/a?x=1'' 1 1 ?hs @ ''body'')"
  have un: "arriving n_in (fresh_handle 3) ?w = concat (replicate 0 CRLF) @ request_text HTTP_METHOD_GET ''/a?x=1'' 1 1 ?hs @ ''body''"
    by (simp add: net_start)
  have ok: "clean_line (request_line HTTP_METHOD_GET ''/a?x=1'' 1 1)" "CHR '' '' \<notin> set ''/a?x=1''" "\<forall>h \<in> set ?hs. header_ok h"
    "header_map ?hs (map tolower ''HOST'') = Some ''example''"
    by code_simp+
  obtain io' w' h where r: "new_http_request net_http 0 (fresh_handle 3, ?w) = Some (Ret (Some h), io', w')" "url h = ''/a?x=1''"
    "http_request_version h = (int 1, int 1)" "\<forall>k. http_request_get_header net_http h k = header_map ?hs (map tolower k)"
    "arriving n_in io' w' = ''body''"
    using http_request_roundtrip [OF net.connection_axioms net_http_ok net_world_ok(1) fresh_handle_ok(1) ok(1) _ _ ok(2,3) un, of 0]
    by auto
  have "http_request_get_header net_http h ''HOST'' = Some ''example''" using r(4) ok(4) by metis
  then show ?thesis using r by (intro exI [of _ io'] exI [of _ w'] exI [of _ h]) simp
qed

text \<open>
  C20: the head of a response. For a request above HTTP/0.9 the library writes the status line, the
  headers of the caller in their order, then exactly those of \<open>Server\<close>, \<open>Date\<close>, \<open>Content-Type\<close> and
  \<open>Connection\<close> that the caller has not sent under any spelling, and an empty line. It tells the caller
  to keep the connection only if it said so itself: the caller gave the length of the body (or
  sends chunks) and no \<open>Connection\<close> header, and the client asked for \<open>keep-alive\<close> or speaks HTTP/1.1.
\<close>

theorem http_response_head:
  assumes C: "connection K t rd wr busy rest sent" and E: "h_io E = pth_io K rd wr cl" "c2_hash (h_hash E)" "c2_strings (h_str E)"
    and lg: "h_log E = None" and w: "runs t w" "io_ok io" and rq: "\<not> is_http09 rq"
    and nul: "NUL \<notin> set (h_servername E)" "\<And>f d. NUL \<notin> set (h_strftime E f d)" "NUL \<notin> set msg"
      "\<forall>x \<in> set hs. NUL \<notin> set (fst x) \<and> NUL \<notin> set (snd x)"
    and len: "length (''HTTP/1.1 '' @ show_int code @ '' '' @ msg @ CRLF) \<noteq> 4096"
  shows "\<exists>io' w'. bindW (new_http_response E p rq code msg) (\<lambda>h. bindW (http_response_send_headers E h hs) (http_response_end_headers E)) (io, w) =
      Some (Ret (list_ex (clears 3) hs \<or> closes E rq hs), io', w') \<and> io_ok io' \<and> runs t w' \<and>
    written sent io' w' = written sent io w @ ''HTTP/1.1 '' @ show_int code @ '' '' @ msg @ CRLF @
      concat (map header_line (hs @ default_headers E rq hs)) @ CRLF"
proof -
  note H = http_of [OF C E]
  have S: "http_server E (runs t) (\<lambda>w. rest (os w)) (\<lambda>w. sent (os w))"
    using H lg by (simp add: http_server_def http_server_axioms_def)
  from http_server.head_writes [OF S w(2,1) rq nul len, of p] show ?thesis by (auto simp: http.writes_def [OF H])
qed

definition demo_request :: "(string \<times> string) list http_request" where
  "demo_request = \<lparr>req_pool = 0, req_time = 1, req_method = HTTP_METHOD_GET, original_url = ''/'', url = ''/'', path = ''/'',
     query_string = None, is_http09 = False, major = 1, minor = 1, headers = [(''cookie'', ''a=1; user=J+Doe'')]\<rparr>"

theorem http_response_head_witness:
  "\<exists>io' w'. bindW (new_http_response net_http 0 demo_request 200 ''OK'') (\<lambda>h.
      bindW (http_response_send_headers net_http h [(''content-type'', ''text/html''), (''Content-Length'', ''5'')])
        (http_response_end_headers net_http)) (fresh_handle 3, net_world (\<lambda>_. [])) = Some (Ret False, io', w') \<and>
    written n_out io' w' = ''HTTP/1.1 200 OK'' @ CRLF @ ''content-type: text/html'' @ CRLF @ ''Content-Length: 5'' @ CRLF @
      ''Server: pthrlib-httpd'' @ CRLF @ ''Date: now'' @ CRLF @ ''Connection: keep-alive'' @ CRLF @ CRLF"
proof -
  let ?hs = "[(''content-type'', ''text/html''), (''Content-Length'', ''5'')]"
  have v: "\<not> (list_ex (clears 3) ?hs \<or> closes net_http demo_request ?hs)" 
    "default_headers net_http demo_request ?hs = [(''Server'', ''pthrlib-httpd''), (''Date'', ''now''), (''Connection'', ''keep-alive'')]"
    "show_int 200 = ''200''"
    by code_simp+
  have h: "h_log net_http = None" "\<not> is_http09 demo_request" "NUL \<notin> set (h_servername net_http)" "\<And>f d. NUL \<notin> set (h_strftime net_http f d)"
    "NUL \<notin> set ''OK''" "\<forall>x \<in> set ?hs. NUL \<notin> set (fst x) \<and> NUL \<notin> set (snd x)"
    "length (''HTTP/1.1 '' @ show_int 200 @ '' '' @ ''OK'' @ CRLF) \<noteq> 4096"
    by (simp_all add: net_http_def demo_request_def v(3))
  have b: "(list_ex (clears 3) ?hs \<or> closes net_http demo_request ?hs) = False" using v(1) by simp
  from http_response_head [OF net.connection_axioms net_http_ok h(1) net_world_ok(1) fresh_handle_ok(1) h(2-), of 0 3 "\<lambda>_. []"]
  obtain io' w' where "bindW (new_http_response net_http 0 demo_request 200 ''OK'') (\<lambda>h.
      bindW (http_response_send_headers net_http h ?hs) (http_response_end_headers net_http)) (fresh_handle 3, net_world (\<lambda>_. [])) =
      Some (Ret False, io', w')"
    "written n_out io' w' = [] @ ''HTTP/1.1 '' @ ''200'' @ '' '' @ ''OK'' @ CRLF @ concat (map header_line
      (?hs @ [(''Server'', ''pthrlib-httpd''), (''Date'', ''now''), (''Connection'', ''keep-alive'')])) @ CRLF"
    unfolding v(2,3) b net_start by blast
  then show ?thesis by (intro exI [of _ io'] exI [of _ w']) (simp add: header_line_def)
qed

text \<open>
  cookies. When the \<open>Cookie\<close> header of a request holds name and value pairs whose values were
  escaped with \<open>cgi_escape\<close>, \<open>http_request_get_cookie\<close> gives the original value of the first pair with
  that name in any case, and null if there is none; for values without a comma, which \<open>cgi_escape\<close>
  leaves alone and at which the header is split.
\<close>

theorem http_cookie_roundtrip:
  assumes S: "c2_strings (h_str E)" and h: "http_request_get_header E h ''Cookie'' = Some (cookie_text xs)"
    and xs: "\<forall>x \<in> set xs. cookie_ok x" "xs \<noteq> []" and key: "CHR ''='' \<notin> set key"
  shows "http_request_get_cookie E h key = map_option snd (List.find (\<lambda>x. strcaseeq key (fst x)) xs)"
proof -
  have m: "cookie_matches key (cookie_piece x) \<longleftrightarrow> strcaseeq key (fst x)" if "cookie_ok x" for x
    using cookie_matches_piece [OF key, of "fst x"] that by (auto simp: cookie_ok_def cookie_piece_def)
  have u: "cgi_unescape (drop (length key + 1) (cookie_piece x)) = snd x" if "cookie_ok x" "strcaseeq key (fst x)" for x
  proof -
    have "length key = length (fst x)" using that(2) unfolding strcaseeq_def by (metis length_map)
    then show ?thesis using that(1) by (simp add: cookie_piece_def cgi_unescape_def unescape_bytes_escape cookie_ok_def)
  qed
  have "map_option (\<lambda>str. cgi_unescape (drop (length key + 1) str)) (List.find (cookie_matches key) (map cookie_piece xs)) =
      map_option snd (List.find (\<lambda>x. strcaseeq key (fst x)) xs)"
    using xs(1)
  proof (induction xs)
    case (Cons x xs)
    then show ?case using m [of x] u [of x] by (cases "strcaseeq key (fst x)") simp_all
  qed simp
  then show ?thesis using h resplit_cookies [OF S xs] by (simp add: http_request_get_cookie_def)
qed

theorem http_cookie_roundtrip_witness:
  "http_request_get_cookie net_http demo_request ''USER'' = Some ''J Doe''"
proof -
  have h: "http_request_get_header net_http demo_request ''Cookie'' = Some (cookie_text [(''a'', ''1''), (''user'', ''J Doe'')])"
    "\<forall>x \<in> set [(''a'', ''1''), (''user'', ''J Doe'')]. cookie_ok x" "CHR ''='' \<notin> set ''USER''"
    "map_option snd (List.find (\<lambda>x. strcaseeq ''USER'' (fst x)) [(''a'', ''1''), (''user'', ''J Doe'')]) = Some ''J Doe''"
    by code_simp+
  from http_cookie_roundtrip [OF net_http_ok(3) h(1,2) _ h(3)] h(4) show ?thesis by simp
qed

end
