(* ===== verification/Cgi.thy ===== *)
theory Cgi
  imports Http
begin

text \<open>
  CGI parameters (\<open>src/src/pthr_cgi.c\<close>): parsing the query string of a GET or HEAD request or the body
  of a POST request into a hash from names to vectors of values. The hash and the vectors are those
  of c2lib.
\<close>

section \<open>Parameters\<close>

record 'p cgi =
  cgi_pool :: pool
  params :: 'p

record ('p, 'v) cgi_ops =
  c_params :: "('p, string, 'v) hash_ops"
  c_values :: "('v, string) vec_ops"

text \<open>The global limit on the size of a POST body; negative means no limit.\<close>

definition cgi_get_post_max :: "int \<Rightarrow> int" where
  "cgi_get_post_max post_max = post_max"

definition cgi_set_post_max :: "int \<Rightarrow> int \<times> int" where
  "cgi_set_post_max new_post_max = (new_post_max, new_post_max)"

definition add_value :: "('p, 'v) cgi_ops \<Rightarrow> 'p cgi \<Rightarrow> string \<Rightarrow> string \<Rightarrow> 'p cgi" where
  "add_value C c name s =
     (let v = (case hash_get (c_params C) (params c) name of None \<Rightarrow> vec_new (c_values C) | Some v \<Rightarrow> v)
      in c\<lparr>params := hash_insert (c_params C) (params c) name (vec_push_back (c_values C) v s)\<rparr>)"

definition insert_param :: "('p, 'v) cgi_ops \<Rightarrow> 'p cgi \<Rightarrow> string \<Rightarrow> string \<Rightarrow> 'p cgi" where
  "insert_param C c name v = add_value C c name (cgi_unescape v)"

definition parse_param :: "('p, 'v) cgi_ops \<Rightarrow> 'p cgi \<Rightarrow> string \<Rightarrow> 'p cgi" where
  "parse_param C c param =
     (case split_chr CHR ''='' param of
        None \<Rightarrow> insert_param C c param ''1''
      | Some (name, v) \<Rightarrow> insert_param C c name v)"

definition parse_qs :: "c2_str \<Rightarrow> ('p, 'v) cgi_ops \<Rightarrow> 'p cgi \<Rightarrow> string option \<Rightarrow> 'p cgi" where
  "parse_qs CS C c qs =
     (case qs of
        None \<Rightarrow> c
      | Some s \<Rightarrow> if s = [] then c else foldl (parse_param C) c (pstrcsplit CS s CHR ''&''))"

definition std_type :: string where
  "std_type = ''application/x-www-form-urlencoded''"

text \<open>
  Reading a body of unknown length through the buffer \<open>char t[1024]\<close>; \<open>None\<close> as the result of the
  loop is a body that is too long. The statement \<open>t[r] = '\0'\<close> stores inside the buffer if
  \<open>r < 1024\<close>. What a store behind its end does, C does not say: it is the parameter \<open>wild\<close>, which
  gets the index.
\<close>

definition store_nul :: "(nat \<Rightarrow> ('w, unit) io) \<Rightarrow> nat \<Rightarrow> ('w, unit) io" where
  "store_nul wild r = (if r < 1024 then retW () else wild r)"

partial_function (option) post_loop ::
  "(nat \<Rightarrow> ('w, unit) io) \<Rightarrow> 'w io_ops \<Rightarrow> int \<Rightarrow> int \<Rightarrow> string \<Rightarrow> io_handle \<times> 'w
     \<Rightarrow> (string option outcome \<times> io_handle \<times> 'w) option" where
  "post_loop wild IO post_max n content s =
     bindW (io_fread IO 1024) (\<lambda>t.
       if t = [] then retW (Some content)
       else if post_max \<ge> 0 \<and> n + int (length t) > post_max then retW None
       else bindW (store_nul wild (length t)) (\<lambda>_.
            post_loop wild IO post_max (n + int (length t)) (content @ c_str t))) s"

definition read_body :: "(nat \<Rightarrow> ('w, unit) io) \<Rightarrow> 'w io_ops \<Rightarrow> int \<Rightarrow> int \<Rightarrow> ('w, string option) io" where
  "read_body wild IO post_max len =
     (if len \<ge> 0
      then bindW (io_fread IO (nat len)) (\<lambda>t.
           retW (if int (length t) < len then None else Some (c_str t)))
      else post_loop wild IO post_max 0 [])"

text \<open>The value of the \<open>Content-Length\<close> header, \<open>-1\<close> without one, \<open>None\<close> if it is not a number.\<close>

definition body_length :: "string option \<Rightarrow> int option" where
  "body_length content_length_s = (case content_length_s of None \<Rightarrow> Some (-1) | Some s \<Rightarrow> scan_int s)"

definition new_cgi_with ::
  "(nat \<Rightarrow> ('w, unit) io) \<Rightarrow> ('w, 'h) http_env \<Rightarrow> ('p, 'v) cgi_ops \<Rightarrow> int \<Rightarrow> pool \<Rightarrow> 'h http_request
     \<Rightarrow> ('w, 'p cgi option) io" where
  "new_cgi_with wild E C post_max p h =
     (let c = \<lparr>cgi_pool = p, params = hash_new (c_params C)\<rparr>
      in if req_method h \<noteq> HTTP_METHOD_POST
         then retW (Some (parse_qs (h_str E) C c (query_string h)))
         else (case body_length (http_request_get_header E h ''Content-Length'') of
                 None \<Rightarrow> retW None
               | Some n \<Rightarrow>
                   if post_max \<ge> 0 \<and> n \<ge> 0 \<and> n > post_max then retW None
                   else if (case http_request_get_header E h ''Content-Type'' of
                              None \<Rightarrow> False | Some ct \<Rightarrow> \<not> caseprefix std_type ct) then retW None
                   else bindW (read_body wild (h_io E) post_max n) (\<lambda>content.
                        retW (map_option (\<lambda>s. parse_qs (h_str E) C c (Some s)) content))))"

text \<open>The rest of the library is modelled with a store behind the buffer as a crash.\<close>

definition new_cgi ::
  "('w, 'h) http_env \<Rightarrow> ('p, 'v) cgi_ops \<Rightarrow> int \<Rightarrow> pool \<Rightarrow> 'h http_request \<Rightarrow> ('w, 'p cgi option) io" where
  "new_cgi = new_cgi_with (\<lambda>_ _. None)"

definition cgi_params :: "('p, 'v) cgi_ops \<Rightarrow> 'p cgi \<Rightarrow> string list" where
  "cgi_params C c = hash_keys (c_params C) (params c)"

definition cgi_param_list :: "('p, 'v) cgi_ops \<Rightarrow> 'p cgi \<Rightarrow> string \<Rightarrow> 'v option" where
  "cgi_param_list C c name = hash_get (c_params C) (params c) name"

definition cgi_param :: "('p, 'v) cgi_ops \<Rightarrow> 'p cgi \<Rightarrow> string \<Rightarrow> string option" where
  "cgi_param C c name = map_option (\<lambda>v. vec_get (c_values C) v 0) (cgi_param_list C c name)"

definition cgi_erase :: "('p, 'v) cgi_ops \<Rightarrow> 'p cgi \<Rightarrow> string \<Rightarrow> 'p cgi \<times> bool" where
  "cgi_erase C c name = (let (h, b) = hash_erase (c_params C) (params c) name in (c\<lparr>params := h\<rparr>, b))"

definition copy_values :: "('p, 'v) cgi_ops \<Rightarrow> 'p cgi \<Rightarrow> 'p cgi \<Rightarrow> string \<Rightarrow> 'p cgi" where
  "copy_values C c nc key =
     (case cgi_param_list C c key of
        None \<Rightarrow> nc
      | Some vs \<Rightarrow> foldl (\<lambda>nc s. add_value C nc key s) nc (elems (c_values C) vs))"

definition copy_cgi :: "('p, 'v) cgi_ops \<Rightarrow> pool \<Rightarrow> 'p cgi \<Rightarrow> 'p cgi" where
  "copy_cgi C npool c =
     foldl (copy_values C c) \<lparr>cgi_pool = npool, params = hash_new (c_params C)\<rparr> (hash_keys (c_params C) (params c))"

section \<open>Values of a name\<close>

definition values_of :: "('p, 'v) cgi_ops \<Rightarrow> 'p cgi \<Rightarrow> string \<Rightarrow> string list" where
  "values_of C c name = (case cgi_param_list C c name of None \<Rightarrow> [] | Some v \<Rightarrow> elems (c_values C) v)"

definition param_text :: "string \<times> string \<Rightarrow> string" where
  "param_text x = fst x @ ''='' @ cgi_escape (snd x)"

definition qs_text :: "(string \<times> string) list \<Rightarrow> string" where
  "qs_text ps = join CHR ''&'' (map param_text ps)"

definition param_ok :: "string \<times> string \<Rightarrow> bool" where
  "param_ok x \<longleftrightarrow> set (fst x) \<inter> {CHR ''&'', CHR ''='', NUL} = {} \<and> NUL \<notin> set (snd x)"

locale cgi_env = params: c2_hash "c_params C" + vals: c2_vector "c_values C" for C :: "('p, 'v) cgi_ops"
begin

lemma values_new: "values_of C \<lparr>cgi_pool = p, params = hash_new (c_params C)\<rparr> = (\<lambda>_. [])"
  by (simp add: fun_eq_iff values_of_def cgi_param_list_def params.get_new)

lemma values_add: "values_of C (add_value C c n s) = (values_of C c)(n := values_of C c n @ [s])"
  by (auto simp: fun_eq_iff values_of_def cgi_param_list_def add_value_def Let_def params.get_insert
      vals.elems_push_back vals.elems_new split: option.split)

lemma present_add: "cgi_param_list C (add_value C c n s) m \<noteq> None \<longleftrightarrow> m = n \<or> cgi_param_list C c m \<noteq> None"
  by (auto simp: cgi_param_list_def add_value_def Let_def params.get_insert split: option.split)

lemma values_parse_param:
  assumes "param_ok x"
  shows "values_of C (parse_param C c (param_text x)) = (values_of C c)(fst x := values_of C c (fst x) @ [snd x])"
proof -
  have "split_chr CHR ''='' (param_text x) = Some (fst x, cgi_escape (snd x))"
    using assms split_chr_append [of "CHR ''=''" "fst x"] by (simp add: param_text_def param_ok_def)
  moreover have "cgi_unescape (cgi_escape (snd x)) = snd x"
    using assms by (simp add: cgi_unescape_def unescape_bytes_escape param_ok_def)
  ultimately show ?thesis by (simp add: parse_param_def insert_param_def values_add)
qed

lemma values_parse_params:
  assumes "\<forall>x \<in> set ps. param_ok x"
  shows "values_of C (foldl (parse_param C) c (map param_text ps)) n = values_of C c n @ map snd (filter (\<lambda>x. fst x = n) ps)"
  using assms
proof (induction ps arbitrary: c)
  case (Cons x ps)
  then show ?case using values_parse_param [of x] by simp
qed simp

lemma values_copy_one:
  "values_of C (foldl (\<lambda>nc s. add_value C nc k s) nc vs) = (values_of C nc)(k := values_of C nc k @ vs)"
  by (induction vs arbitrary: nc) (auto simp: values_add)

lemma values_copy:
  assumes "distinct ks" "\<forall>k \<in> set ks. values_of C nc k = []"
  shows "values_of C (foldl (copy_values C c) nc ks) n = (if n \<in> set ks then values_of C c n else values_of C nc n)"
  using assms
proof (induction ks arbitrary: nc)
  case (Cons k ks)
  have one: "values_of C (copy_values C c nc k) = (values_of C nc)(k := values_of C nc k @ values_of C c k)"
    by (auto simp: copy_values_def values_copy_one values_of_def [of C c] fun_eq_iff split: option.split)
  then have "\<forall>j \<in> set ks. values_of C (copy_values C c nc k) j = []" using Cons.prems by auto
  then show ?case using Cons.IH [of "copy_values C c nc k"] Cons.prems one by auto
qed simp

lemma present_parse:
  assumes "\<forall>x \<in> set ps. param_ok x"
  shows "cgi_param_list C (foldl (parse_param C) c (map param_text ps)) m \<noteq> None \<longleftrightarrow> m \<in> fst ` set ps \<or> cgi_param_list C c m \<noteq> None"
  using assms
proof (induction ps arbitrary: c)
  case (Cons x ps)
  have "split_chr CHR ''='' (param_text x) = Some (fst x, cgi_escape (snd x))"
    using Cons.prems split_chr_append [of "CHR ''=''" "fst x"] by (auto simp: param_text_def param_ok_def)
  then have "cgi_param_list C (parse_param C c (param_text x)) m \<noteq> None \<longleftrightarrow> m = fst x \<or> cgi_param_list C c m \<noteq> None"
    by (simp only: parse_param_def option.case prod.case insert_param_def present_add)
  then show ?case using Cons by auto
qed simp

lemma keys_present: "set (cgi_params C c) = {m. cgi_param_list C c m \<noteq> None}" "distinct (cgi_params C c)"
  by (auto simp: cgi_params_def cgi_param_list_def params.keys_set params.keys_distinct)

lemma keys_new: "cgi_param_list C \<lparr>cgi_pool = p, params = hash_new (c_params C)\<rparr> m = None"
  by (simp add: cgi_param_list_def params.get_new)

end

definition list_cgi :: "((string \<times> string list) list, string list) cgi_ops" where
  "list_cgi = \<lparr>c_params = alist_hash, c_values = list_vec\<rparr>"

interpretation list_cgi: cgi_env list_cgi
  by (simp add: cgi_env_def list_cgi_def alist_hash.c2_hash_axioms list_vec.c2_vector_axioms)

lemma qs_text_clean:
  assumes "\<forall>x \<in> set ps. param_ok x"
  shows "\<forall>p \<in> set (map param_text ps). CHR ''&'' \<notin> set p" "NUL \<notin> set (qs_text ps)" "ps \<noteq> [] \<Longrightarrow> qs_text ps \<noteq> []"
proof -
  show "\<forall>p \<in> set (map param_text ps). CHR ''&'' \<notin> set p"
    using assms by (auto simp: param_text_def param_ok_def cgi_escape_clean)
  have "NUL \<notin> set (param_text x)" if "x \<in> set ps" for x
    using assms that by (auto simp: param_text_def param_ok_def cgi_escape_clean)
  then show "NUL \<notin> set (qs_text ps)"
    using set_join [of "CHR ''&''" "map param_text ps"] by (auto simp: qs_text_def)
  show "qs_text ps \<noteq> []" if "ps \<noteq> []"
    using that by (cases ps rule: remdups_adj.cases) (simp_all add: qs_text_def param_text_def)
qed

lemma parse_qs_params:
  assumes "c2_strings CS" "\<forall>x \<in> set ps. param_ok x"
  shows "parse_qs CS C c (Some (qs_text ps)) = foldl (parse_param C) c (map param_text ps)"
proof (cases "ps = []")
  case False
  note clean = qs_text_clean [OF assms(2)]
  have "pstrcsplit CS (qs_text ps) CHR ''&'' = map param_text ps"
    unfolding qs_text_def
    by (rule c2_strings.split_of_join [OF assms(1)]) (use False clean in \<open>simp_all add: qs_text_def\<close>)
  then show ?thesis using clean(3) [OF False] by (simp add: parse_qs_def)
qed (simp add: parse_qs_def qs_text_def)

lemma parse_qs_values:
  assumes "c2_strings CS" "cgi_env C" "\<forall>x \<in> set ps. param_ok x"
  shows "values_of C (parse_qs CS C \<lparr>cgi_pool = p, params = hash_new (c_params C)\<rparr> (Some (qs_text ps))) n =
    map snd (filter (\<lambda>x. fst x = n) ps)"
  by (simp add: parse_qs_params [OF assms(1,3)] cgi_env.values_parse_params [OF assms(2,3)] cgi_env.values_new [OF assms(2)])

lemma cgi_param_hd:
  assumes "cgi_env C" "values_of C c n \<noteq> []"
  shows "cgi_param C c n = Some (hd (values_of C c n))"
proof -
  obtain v where v: "cgi_param_list C c n = Some v" "elems (c_values C) v \<noteq> []"
    using assms(2) by (auto simp: values_of_def split: option.splits)
  have V: "c2_vector (c_values C)" using assms(1) by (simp add: cgi_env_def)
  have "vec_size (c_values C) v \<noteq> 0" using v(2) c2_vector.size_0_iff [OF V] by blast
  then have "elems (c_values C) v ! 0 = vec_get (c_values C) v 0" using c2_vector.elems_nth [OF V] by simp
  then show ?thesis using v by (simp add: cgi_param_def values_of_def hd_conv_nth)
qed

section \<open>Properties\<close>

text \<open>
  C23: parameters survive the way from a form to the program. When names and values are sent as a
  query string of a request that is not a POST, or as the body of a POST request with its exact
  length in \<open>Content-Length\<close>, within the limit on bodies and with the \<open>Content-Type\<close> of forms or none,
  values escaped with \<open>cgi_escape\<close>, \<open>new_cgi\<close> gives for every name exactly the values sent with it, in order,
  \<open>cgi_param\<close> the first of them, and only the body is consumed. Names are not unescaped, so they may not
  contain \<open>&\<close> or \<open>=\<close>, the characters that structure a query string (\<open>param_ok\<close>).
\<close>

theorem cgi_params_roundtrip:
  assumes C: "connection K t rd wr busy rest sent" and E: "h_io E = pth_io K rd wr cl" "c2_strings (h_str E)"
    and P: "cgi_env C" and w: "runs t w" "io_ok io" and ps: "\<forall>x \<in> set ps. param_ok x" and lim: "int (length (qs_text ps)) < 2147483648"
    and src: "req_method h \<noteq> HTTP_METHOD_POST \<and> query_string h = Some (qs_text ps) \<and> arriving rest io w = r \<or>
      req_method h = HTTP_METHOD_POST \<and> http_request_get_header E h ''Content-Length'' = Some (dec (length (qs_text ps))) \<and>
      (case http_request_get_header E h ''Content-Type'' of None \<Rightarrow> True | Some ct \<Rightarrow> caseprefix std_type ct) \<and>
      (post_max < 0 \<or> int (length (qs_text ps)) \<le> post_max) \<and> arriving rest io w = qs_text ps @ r"
  shows "\<exists>io' w' c. new_cgi E C post_max p h (io, w) = Some (Ret (Some c), io', w') \<and> io_ok io' \<and> runs t w' \<and>
    arriving rest io' w' = r \<and> (\<forall>n. values_of C c n = map snd (filter (\<lambda>x. fst x = n) ps)) \<and>
    (\<forall>x \<in> set ps. cgi_param C c (fst x) = Some (hd (map snd (filter (\<lambda>y. fst y = fst x) ps))))"
proof -
  let ?c = "parse_qs (h_str E) C \<lparr>cgi_pool = p, params = hash_new (c_params C)\<rparr> (Some (qs_text ps))"
  note vals = parse_qs_values [OF E(2) P ps, of p]
  have first: "\<forall>x \<in> set ps. cgi_param C ?c (fst x) = Some (hd (map snd (filter (\<lambda>y. fst y = fst x) ps)))"
    using cgi_param_hd [OF P, of ?c] vals by (auto simp: filter_empty_conv)
  have "\<exists>io' w'. new_cgi E C post_max p h (io, w) = Some (Ret (Some ?c), io', w') \<and> io_ok io' \<and> runs t w' \<and> arriving rest io' w' = r"
    using src
  proof
    assume "req_method h \<noteq> HTTP_METHOD_POST \<and> query_string h = Some (qs_text ps) \<and> arriving rest io w = r"
    then show ?thesis using w by (simp add: new_cgi_def new_cgi_with_def retW_def)
  next
    assume "req_method h = HTTP_METHOD_POST \<and> http_request_get_header E h ''Content-Length'' = Some (dec (length (qs_text ps))) \<and>
      (case http_request_get_header E h ''Content-Type'' of None \<Rightarrow> True | Some ct \<Rightarrow> caseprefix std_type ct) \<and>
      (post_max < 0 \<or> int (length (qs_text ps)) \<le> post_max) \<and> arriving rest io w = qs_text ps @ r"
    then have h: "req_method h = HTTP_METHOD_POST" "http_request_get_header E h ''Content-Length'' = Some (dec (length (qs_text ps)))"
      "case http_request_get_header E h ''Content-Type'' of None \<Rightarrow> True | Some ct \<Rightarrow> caseprefix std_type ct"
      "post_max < 0 \<or> int (length (qs_text ps)) \<le> post_max" "arriving rest io w = qs_text ps @ r" by simp_all
    obtain io' w' where rd: "io_fread (h_io E) (length (qs_text ps)) (io, w) = Some (Ret (take (length (qs_text ps)) (arriving rest io w)), io', w')"
      "io_ok io'" "runs t w'" "arriving rest io' w' = drop (length (qs_text ps)) (arriving rest io w)"
      using socket.fread_spec [OF connection.is_socket [OF C, of cl] w] unfolding E(1) by blast
    have "scan_int (dec (length (qs_text ps))) = Some (int (length (qs_text ps)))" using scan_int_dec [OF lim, of "[]"] by simp
    moreover have lim': "\<not> (0 \<le> post_max \<and> post_max < int (length (qs_text ps)))" using h(4) by auto
    moreover have "\<not> (case http_request_get_header E h ''Content-Type'' of None \<Rightarrow> False | Some ct \<Rightarrow> \<not> caseprefix std_type ct)"
      using h(3) by (simp split: option.splits)
    ultimately have "new_cgi E C post_max p h (io, w) = Some (Ret (Some ?c), io', w')"
      using h(1,2,5) lim' rd(1) qs_text_clean(2) [OF ps]
      by (simp add: new_cgi_def new_cgi_with_def body_length_def read_body_def bindW_def retW_def)
    then show ?thesis using rd h(5) by auto
  qed
  then show ?thesis using vals first by blast
qed

definition demo_post :: "(string \<times> string) list \<Rightarrow> (string \<times> string) list http_request" where
  "demo_post hs = demo_request\<lparr>req_method := HTTP_METHOD_POST, headers := hs\<rparr>"

theorem cgi_params_roundtrip_witness:
  "\<exists>io' w' c. new_cgi net_http list_cgi (-1) 0 (demo_post [(''content-length'', ''11''), (''content-type'', std_type)])
      (fresh_handle 3, net_world (\<lambda>_. ''a=x+y&a=%26'' @ CRLF)) = Some (Ret (Some c), io', w') \<and>
    values_of list_cgi c ''a'' = [''x y'', ''&''] \<and> cgi_param list_cgi c ''a'' = Some ''x y'' \<and> arriving n_in io' w' = CRLF"
proof -
  let ?ps = "[(''a'', ''x y''), (''a'', ''&'')]"
  let ?h = "demo_post [(''content-length'', ''11''), (''content-type'', std_type)]"
  let ?w = "net_world (\<lambda>_. ''a=x+y&a=%26'' @ CRLF)"
  have q: "qs_text ?ps = ''a=x+y&a=%26''" "dec 11 = ''11''" "\<forall>x \<in> set ?ps. param_ok x"
    "http_request_get_header net_http ?h ''Content-Length'' = Some ''11''"
    "http_request_get_header net_http ?h ''Content-Type'' = Some std_type"
    by code_simp+
  have len: "length (qs_text ?ps) = 11" "int (length (qs_text ?ps)) < 2147483648" unfolding q(1) by simp_all
  have d: "dec (length (qs_text ?ps)) = ''11''" unfolding len(1) by (rule q(2))
  have src: "req_method ?h \<noteq> HTTP_METHOD_POST \<and> query_string ?h = Some (qs_text ?ps) \<and> arriving n_in (fresh_handle 3) ?w = CRLF \<or>
      req_method ?h = HTTP_METHOD_POST \<and> http_request_get_header net_http ?h ''Content-Length'' = Some (dec (length (qs_text ?ps))) \<and>
      (case http_request_get_header net_http ?h ''Content-Type'' of None \<Rightarrow> True | Some ct \<Rightarrow> caseprefix std_type ct) \<and>
      ((-1 :: int) < 0 \<or> int (length (qs_text ?ps)) \<le> -1) \<and> arriving n_in (fresh_handle 3) ?w = qs_text ?ps @ CRLF"
    by (rule disjI2, intro conjI, simp add: demo_post_def, simp only: d q(4), simp add: q(5) caseprefix_def, simp (no_asm_simp), simp only: net_start q(1))
  from cgi_params_roundtrip [OF net.connection_axioms net_http_ok(1,3) list_cgi.cgi_env_axioms net_world_ok(1) fresh_handle_ok(1) q(3) len(2) src, of 0]
  obtain io' w' c where "new_cgi net_http list_cgi (-1) 0 ?h (fresh_handle 3, ?w) = Some (Ret (Some c), io', w')"
    "arriving n_in io' w' = CRLF" "\<forall>n. values_of list_cgi c n = map snd (filter (\<lambda>x. fst x = n) ?ps)"
    "\<forall>x \<in> set ?ps. cgi_param list_cgi c (fst x) = Some (hd (map snd (filter (\<lambda>y. fst y = fst x) ?ps)))"
    by blast
  then show ?thesis by (intro exI [of _ io'] exI [of _ w'] exI [of _ c]) simp
qed

text \<open>
  \<open>copy_cgi\<close> makes a copy with exactly the same values for every name, and erasing a name from
  one leaves it without values and the other names alone.
\<close>

theorem copy_cgi_same:
  assumes "cgi_env C"
  shows "values_of C (copy_cgi C p c) = values_of C c \<and> values_of C (fst (cgi_erase C c n)) = (values_of C c)(n := []) \<and>
    (snd (cgi_erase C c n) \<longleftrightarrow> cgi_param_list C c n \<noteq> None)"
proof -
  have H: "c2_hash (c_params C)" using assms by (simp add: cgi_env_def)
  let ?ks = "hash_keys (c_params C) (params c)"
  let ?nc = "\<lparr>cgi_pool = p, params = hash_new (c_params C)\<rparr>"
  have new: "values_of C ?nc k = []" for k using cgi_env.values_new [OF assms, of p] by simp
  have keys: "m \<notin> set ?ks \<Longrightarrow> values_of C c m = []" for m
    using c2_hash.keys_set [OF H, of "params c"] by (auto simp: values_of_def cgi_param_list_def domIff)
  have "\<forall>k \<in> set ?ks. values_of C ?nc k = []" using new by simp
  from cgi_env.values_copy [OF assms c2_hash.keys_distinct [OF H] this, of c]
  have "values_of C (copy_cgi C p c) = values_of C c" using new keys by (simp add: copy_cgi_def fun_eq_iff)
  moreover have "values_of C (fst (cgi_erase C c n)) = (values_of C c)(n := [])"
    "snd (cgi_erase C c n) \<longleftrightarrow> cgi_param_list C c n \<noteq> None"
    using c2_hash.get_erase [OF H, of "params c" n] c2_hash.erase_found [OF H, of "params c" n]
    by (auto simp: cgi_erase_def values_of_def cgi_param_list_def fun_eq_iff split: prod.split)
  ultimately show ?thesis by blast
qed

theorem copy_cgi_same_witness:
  "values_of list_cgi (copy_cgi list_cgi 1 \<lparr>cgi_pool = 0, params = [(''a'', [''1'', ''2'']), (''b'', [''3''])]\<rparr>) ''a'' = [''1'', ''2''] \<and>
   values_of list_cgi (fst (cgi_erase list_cgi \<lparr>cgi_pool = 0, params = [(''a'', [''1'', ''2'']), (''b'', [''3''])]\<rparr> ''a'')) ''b'' = [''3'']"
  using copy_cgi_same [OF list_cgi.cgi_env_axioms, of 1 "\<lparr>cgi_pool = 0, params = [(''a'', [''1'', ''2'']), (''b'', [''3''])]\<rparr>" "''a''"]
  by (simp add: values_of_def cgi_param_list_def list_cgi_def)

text \<open>
  C24: a POST request without \<open>Content-Length\<close>, without a \<open>Content-Type\<close> or with the one of forms, and with
  at least 1024 bytes of body makes \<open>new_cgi\<close> write behind the end of its buffer, unless the limit on
  bodies is set below 1024: it reads the first 1024 bytes and then stores the terminating zero
  byte at \<open>t[1024]\<close>, and goes on with whatever that has done.
\<close>

theorem cgi_post_overflow:
  assumes C: "connection K t rd wr busy rest sent" and E: "h_io E = pth_io K rd wr cl" and w: "runs t w" "io_ok io"
    and h: "req_method h = HTTP_METHOD_POST" "http_request_get_header E h ''Content-Length'' = None"
      "case http_request_get_header E h ''Content-Type'' of None \<Rightarrow> True | Some ct \<Rightarrow> caseprefix std_type ct"
      "length (arriving rest io w) \<ge> 1024" "post_max < 0 \<or> 1024 \<le> post_max"
  shows "\<exists>io' w'. arriving rest io' w' = drop 1024 (arriving rest io w) \<and>
    (\<forall>wild. new_cgi_with wild E C post_max p h (io, w) = bindW (wild 1024) (\<lambda>_.
       bindW (post_loop wild (h_io E) post_max 1024 (c_str (take 1024 (arriving rest io w)))) (\<lambda>content.
       retW (map_option (\<lambda>s. parse_qs (h_str E) C \<lparr>cgi_pool = p, params = hash_new (c_params C)\<rparr> (Some s)) content))) (io', w'))"
proof -
  let ?t = "take 1024 (arriving rest io w)"
  obtain io' w' where rd: "io_fread (h_io E) 1024 (io, w) = Some (Ret ?t, io', w')"
    "arriving rest io' w' = drop 1024 (arriving rest io w)"
    using socket.fread_spec [OF connection.is_socket [OF C, of cl] w] unfolding E(1) by blast
  have t: "length ?t = 1024" using h(4) by simp
  then have ne: "?t \<noteq> []" by (metis list.size(3) zero_neq_numeral)
  have lim: "(post_max \<ge> 0 \<and> 0 + int 1024 > post_max) = False" using h(5) by auto
  have z: "0 + int 1024 = 1024" by simp
  let ?k = "\<lambda>wild _. post_loop wild (h_io E) post_max 1024 (c_str ?t)"
  have loop: "post_loop wild (h_io E) post_max 0 [] (io, w) = bindW (wild 1024) (?k wild) (io', w')" for wild
    by (subst post_loop.simps)
      (simp only: bindW_def rd option.case prod.case outcome.case ne lim store_nul_def t if_False, simp add: bindW_def, unfold z append_Nil, rule refl)
  let ?c = "\<lparr>cgi_pool = p, params = hash_new (c_params C)\<rparr>"
  have ct: "\<not> (case http_request_get_header E h ''Content-Type'' of None \<Rightarrow> False | Some ct \<Rightarrow> \<not> caseprefix std_type ct)"
    using h(3) by (simp split: option.splits)
  have "new_cgi_with wild E C post_max p h (io, w) =
      bindW (wild 1024) (\<lambda>x. bindW (?k wild x) (\<lambda>content. retW (map_option (\<lambda>s. parse_qs (h_str E) C ?c (Some s)) content))) (io', w')" for wild
    using h(1,2) ct loop [of wild]
    by (auto simp: new_cgi_with_def body_length_def read_body_def bindW_def split: option.splits outcome.splits)
  then show ?thesis using rd(2) by (intro exI [of _ io'] exI [of _ w']) blast
qed

theorem cgi_post_overflow_witness:
  "\<exists>io' w'. arriving n_in io' w' = [] \<and>
    (\<forall>wild. new_cgi_with wild net_http list_cgi 2048 0 (demo_post [(''content-type'', std_type)])
       (fresh_handle 3, net_world (\<lambda>_. replicate 1024 CHR ''a'')) = bindW (wild 1024) (\<lambda>_.
       bindW (post_loop wild (h_io net_http) 2048 1024 (c_str (replicate 1024 CHR ''a''))) (\<lambda>content.
       retW (map_option (\<lambda>s. parse_qs (h_str net_http) list_cgi \<lparr>cgi_pool = 0, params = hash_new (c_params list_cgi)\<rparr> (Some s)) content))) (io', w'))"
proof -
  let ?h = "demo_post [(''content-type'', std_type)]" and ?w = "net_world (\<lambda>_. replicate 1024 CHR ''a'')"
  have q: "http_request_get_header net_http ?h ''Content-Length'' = None"
    "http_request_get_header net_http ?h ''Content-Type'' = Some std_type" by code_simp+
  have a: "arriving n_in (fresh_handle 3) ?w = replicate 1024 CHR ''a''" by (simp add: net_start)
  have m: "req_method ?h = HTTP_METHOD_POST" "length (arriving n_in (fresh_handle 3) ?w) \<ge> 1024" "(2048 :: int) < 0 \<or> 1024 \<le> (2048 :: int)"
    "case http_request_get_header net_http ?h ''Content-Type'' of None \<Rightarrow> True | Some ct \<Rightarrow> caseprefix std_type ct"
    by (simp_all add: q a, simp_all add: demo_post_def caseprefix_def)
  show ?thesis
    using cgi_post_overflow [OF net.connection_axioms net_http_ok(1) net_world_ok(1) fresh_handle_ok(1) m(1) q(1) m(4,2,3), of list_cgi 0]
    unfolding a by simp
qed

end
