(* ===== verification/Listener.thy ===== *)
theory Listener
  imports Pseudothread
begin

text \<open>
  The listener thread (\<open>src/src/pthr_listener.c\<close>): it accepts connections, makes each socket
  non-blocking and hands it to the processor function, which starts a thread for it.
\<close>

record listener =
  l_pth :: tid
  l_sock :: int
  l_data :: nat

text \<open>\<open>new_pool\<close> gives the pool of the thread; the number of the thread's function is \<open>run\<close>.\<close>

definition new_listener ::
  "('v, 'j, 'P, 'm, 'u) kernel \<Rightarrow> pool \<Rightarrow> nat \<Rightarrow> int \<Rightarrow> nat \<Rightarrow> tid
     \<Rightarrow> ('v, 'j, 'P, 'm, 'u) world \<Rightarrow> (listener \<times> ('v, 'j, 'P, 'm, 'u) world) option" where
  "new_listener K p run s d t w =
     do {
       (pth, w1) \<leftarrow> new_pseudothread K p run d ''listener'' t w;
       w2 \<leftarrow> pth_start K pth w1;
       Some (\<lparr>l_pth = pth, l_sock = s, l_data = d\<rparr>, w2)
     }"

text \<open>
  One round of the loop of \<open>run\<close>. \<open>accept\<close> is the non-blocking system call, \<open>fcntl\<close> the call that
  makes the new socket non-blocking, whose failure aborts the program.
\<close>

definition listener_round ::
  "('v, 'j, 'P, 'm, 'u) kernel \<Rightarrow> ('u, 'x) syscall \<Rightarrow> (int \<Rightarrow> ('u, unit) syscall)
     \<Rightarrow> (int \<Rightarrow> nat \<Rightarrow> (('v, 'j, 'P, 'm, 'u) world, unit) comp) \<Rightarrow> listener
     \<Rightarrow> (('v, 'j, 'P, 'm, 'u) world, unit) comp" where
  "listener_round K accept fcntl processor_fn p =
     bindW (pth_accept K (l_sock p) accept) (\<lambda>x.
       if fst x < 0 then retW ()
       else bindW (do_sys (fcntl (fst x))) (\<lambda>y.
            if fst y < 0 then (\<lambda>_. None)
            else processor_fn (fst x) (l_data p)))"

text \<open>The first \<open>n\<close> rounds of the endless loop.\<close>

fun listener_run ::
  "('v, 'j, 'P, 'm, 'u) kernel \<Rightarrow> ('u, 'x) syscall \<Rightarrow> (int \<Rightarrow> ('u, unit) syscall)
     \<Rightarrow> (int \<Rightarrow> nat \<Rightarrow> (('v, 'j, 'P, 'm, 'u) world, unit) comp) \<Rightarrow> listener \<Rightarrow> nat
     \<Rightarrow> (('v, 'j, 'P, 'm, 'u) world, unit) comp" where
  "listener_run K accept fcntl processor_fn p 0 = retW ()"
| "listener_run K accept fcntl processor_fn p (Suc n) =
     bindW (listener_round K accept fcntl processor_fn p) (\<lambda>_. listener_run K accept fcntl processor_fn p n)"

section \<open>Every connection is handed on\<close>

text \<open>
  \<open>pend\<close> are the results that the coming calls of \<open>accept\<close> will give, errors included; \<open>given\<close> are the
  arguments with which the processor function has been called so far, as the program's state shows
  them, and \<open>nonblock\<close> are the sockets in non-blocking mode. The other threads and the processor
  function do not accept connections themselves, and the processor function works on a socket that is
  non-blocking.
\<close>

locale listener_env =
  fixes K :: "('v, 'j, 'P, 'm, 'u) kernel" and t :: tid and accept :: "('u, 'x) syscall" and fcntl :: "int \<Rightarrow> ('u, unit) syscall"
    and processor_fn :: "int \<Rightarrow> nat \<Rightarrow> (('v, 'j, 'P, 'm, 'u) world, unit) comp" and pend :: "'u \<Rightarrow> int list"
    and given :: "'u \<Rightarrow> (int \<times> nat) list" and nonblock :: "'u \<Rightarrow> int set"
  assumes switches: "polite K"
    and switch_law: "k_switch K w = Some w' \<Longrightarrow> runs t w \<Longrightarrow>
      map_option alarm_received (w_pths w' t) = Some False \<and> pend (os w') = pend (os w) \<and> given (os w') = given (os w)"
    and accept_law: "pend u = r # rs \<Longrightarrow>
      \<exists>e x u'. accept u = ((r, e, x), u') \<and> \<not> (r = -1 \<and> e = EWOULDBLOCK) \<and> pend u' = rs \<and> given u' = given u"
    and fcntl_law: "\<exists>r e u'. fcntl s u = ((r, e, ()), u') \<and> 0 \<le> r \<and> pend u' = pend u \<and> given u' = given u \<and> s \<in> nonblock u'"
    and processor_law: "runs t w \<Longrightarrow> 0 \<le> s \<Longrightarrow> s \<in> nonblock (os w) \<Longrightarrow>
      \<exists>w'. processor_fn s d w = Some (Ret (), w') \<and> runs t w' \<and> pend (os w') = pend (os w) \<and>
        given (os w') = given (os w) @ [(s, d)]"
begin

lemma accept_spec:
  assumes "runs t w" "pend (os w) = r # rs"
  shows "\<exists>x w'. pth_accept K s accept w = Some (Ret (r, x), w') \<and> runs t w' \<and> pend (os w') = rs \<and> given (os w') = given (os w)"
proof -
  have f: "fits_short REACTOR_READ" by (simp add: fits_short_def REACTOR_READ_def)
  have al: "\<forall>w1 ws. k_switch K w1 = Some ws \<longrightarrow> runs t w1 \<longrightarrow> map_option alarm_received (w_pths ws t) = Some False"
    using switch_law by blast
  obtain w' w1 ws where b: "block K s REACTOR_READ w = Some (Ret (), w')" "runs t w'" "runs t w1" "os w1 = os w"
    "k_switch K w1 = Some ws" "os w' = os ws"
    using block_runs [OF switches assms(1) f al] by blast
  have g: "pend (os w') = r # rs" "given (os w') = given (os w)" using switch_law [OF b(5,3)] b(4,6) assms(2) by simp_all
  from accept_law [OF g(1)] obtain e x u where a: "accept (os w') = ((r, e, x), u)" "\<not> (r = -1 \<and> e = EWOULDBLOCK)" "pend u = rs"
    "given u = given (os w')" by blast
  have "pth_accept K s accept w = Some (Ret (r, x), set_os u w')"
    using b(1) a(1,2) by (subst pth_accept.simps) (auto simp: bindW_def do_sys_def retW_def)
  then show ?thesis using a(3,4) b(2) g(2) by auto
qed

lemma round_spec:
  assumes "runs t w" "pend (os w) = r # rs"
  shows "\<exists>w'. listener_round K accept fcntl processor_fn p w = Some (Ret (), w') \<and> runs t w' \<and> pend (os w') = rs \<and>
    given (os w') = given (os w) @ (if r < 0 then [] else [(r, l_data p)])"
proof -
  obtain x w1 where a: "pth_accept K (l_sock p) accept w = Some (Ret (r, x), w1)" "runs t w1" "pend (os w1) = rs"
    "given (os w1) = given (os w)" using accept_spec [OF assms] by blast
  show ?thesis
  proof (cases "r < 0")
    case True
    then show ?thesis using a by (simp add: listener_round_def bindW_def retW_def)
  next
    case False
    obtain q e u where f: "fcntl r (os w1) = ((q, e, ()), u)" "0 \<le> q" "pend u = pend (os w1)" "given u = given (os w1)" "r \<in> nonblock u"
      using fcntl_law by blast
    have "runs t (set_os u w1)" "os (set_os u w1) = u" using a by simp_all
    then obtain w' where "processor_fn r (l_data p) (set_os u w1) = Some (Ret (), w')" "runs t w'" "pend (os w') = rs"
      "given (os w') = given (os w) @ [(r, l_data p)]"
      using processor_law [of "set_os u w1" r "l_data p"] False f(3-5) a(3,4) by auto
    then show ?thesis using False a f by (simp add: listener_round_def bindW_def do_sys_def)
  qed
qed

lemma run_spec:
  assumes "runs t w" "n \<le> length (pend (os w))"
  shows "\<exists>w'. listener_run K accept fcntl processor_fn p n w = Some (Ret (), w') \<and> runs t w' \<and>
    given (os w') = given (os w) @ map (\<lambda>s. (s, l_data p)) (filter (\<lambda>s. 0 \<le> s) (take n (pend (os w)))) \<and>
    pend (os w') = drop n (pend (os w))"
  using assms
proof (induction n arbitrary: w)
  case 0
  then show ?case by (simp add: retW_def)
next
  case (Suc n)
  obtain r rs where p: "pend (os w) = r # rs" using Suc.prems(2) by (cases "pend (os w)") auto
  obtain w1 where 1: "listener_round K accept fcntl processor_fn p w = Some (Ret (), w1)"
    "runs t w1" "pend (os w1) = rs" "given (os w1) = given (os w) @ (if r < 0 then [] else [(r, l_data p)])"
    using round_spec [OF Suc.prems(1) p] by blast
  obtain w' where "listener_run K accept fcntl processor_fn p n w1 = Some (Ret (), w')" "runs t w'"
    "given (os w') = given (os w1) @ map (\<lambda>s. (s, l_data p)) (filter (\<lambda>s. 0 \<le> s) (take n rs))" "pend (os w') = drop n rs"
    using Suc.IH [OF 1(2)] 1(3) Suc.prems(2) p by auto
  then show ?case using 1(1,4) p by (simp add: bindW_def)
qed

end

text \<open>
  An instance: the processor function notes its arguments, and the operating system's state is the
  list of results with the sockets in non-blocking mode.
\<close>

record listen_os =
  q_results :: "int list"
  q_given :: "(int \<times> nat) list"
  q_nonblock :: "int set"

definition listen_kernel :: "(tid option list, nat list, cpools, nat \<times> (addr \<rightharpoonup> int), listen_os) kernel" where
  "listen_kernel = \<lparr>k_threads = list_vec, k_jumps = list_vec, k_pools = cpool_ops, k_stack = bump_sys,
     k_cleanup = (\<lambda>_. Some), k_handle_junk = (\<lambda>_. \<lparr>offset = 9, hfn = Return_from_block, hdata = 0\<rparr>),
     k_pollfd_junk = (\<lambda>_. \<lparr>fd = 0, events = 0, revents = 4\<rparr>), k_timer_addr = (\<lambda>_. 4),
     k_timer_junk = \<lparr>tpool = 0, tprev = None, tnext = None, delta = 0, tfn = Return_from_block, tdata = 0\<rparr>,
     k_switch = Some, k_run = (\<lambda>_. Some)\<rparr>"

definition pop_accept :: "(listen_os, unit) syscall" where
  "pop_accept u = (case q_results u of [] \<Rightarrow> ((-1, 0, ()), u) | r # rs \<Rightarrow> ((r, 0, ()), u\<lparr>q_results := rs\<rparr>))"

definition set_nonblock :: "int \<Rightarrow> (listen_os, unit) syscall" where
  "set_nonblock s u = ((0, 0, ()), u\<lparr>q_nonblock := insert s (q_nonblock u)\<rparr>)"

definition note_socket ::
  "int \<Rightarrow> nat \<Rightarrow> ((tid option list, nat list, cpools, nat \<times> (addr \<rightharpoonup> int), listen_os) world, unit) comp" where
  "note_socket s d w =
     (if s \<in> q_nonblock (os w) then Some (Ret (), set_os ((os w)\<lparr>q_given := q_given (os w) @ [(s, d)]\<rparr>) w) else None)"

interpretation listening: listener_env listen_kernel 7 pop_accept set_nonblock note_socket q_results q_given q_nonblock
proof
  show "polite listen_kernel" by (simp add: polite_def listen_kernel_def)
next
  fix w w' assume "k_switch listen_kernel w = Some w'" "runs 7 w"
  then show "map_option alarm_received (w_pths w' 7) = Some False \<and> q_results (os w') = q_results (os w) \<and> q_given (os w') = q_given (os w)"
    by (auto simp: listen_kernel_def runs_def)
next
  fix u :: listen_os and rs r assume "q_results u = r # rs"
  then show "\<exists>e x u'. pop_accept u = ((r, e, x), u') \<and> \<not> (r = -1 \<and> e = EWOULDBLOCK) \<and> q_results u' = rs \<and> q_given u' = q_given u"
    by (simp add: pop_accept_def EWOULDBLOCK_def)
qed (auto simp: set_nonblock_def note_socket_def)

section \<open>Properties\<close>

text \<open>
  C25: the listener hands on every connection. In any number of rounds, the processor function is
  called with each socket that \<open>accept\<close> returns and with the listener's data, exactly once per socket and
  in order, when the socket is non-blocking, and with nothing else; an \<open>accept\<close> that fails stops
  nothing.
\<close>

theorem listener_hands_on:
  assumes "listener_env K t accept fcntl processor_fn pend given nonblock" "runs t w" "n \<le> length (pend (os w))"
  shows "\<exists>w'. listener_run K accept fcntl processor_fn p n w = Some (Ret (), w') \<and> runs t w' \<and>
    given (os w') = given (os w) @ map (\<lambda>s. (s, l_data p)) (filter (\<lambda>s. 0 \<le> s) (take n (pend (os w)))) \<and>
    pend (os w') = drop n (pend (os w))"
  by (rule listener_env.run_spec [OF assms])

definition listen_world :: "listen_os \<Rightarrow> (tid option list, nat list, cpools, nat \<times> (addr \<rightharpoonup> int), listen_os) world" where
  "listen_world u = \<lparr>w_re = \<lparr>r_table = empty_table, r_timers = empty_queue, head_prepoll = [], reactor_time = 1000,
       r_pools = demo_pools, r_user = u\<rparr>,
     w_pths = [7 \<mapsto> demo_pth], current_pth = Some 7, w_threads = [Some 7, None], default_stack_size = 65536,
     w_stacks = \<lparr>pending_stack_base = None, pending_stack_size = 0, memory = (6, [5 \<mapsto> 65536])\<rparr>, w_env = Map.empty\<rparr>"

theorem listener_hands_on_witness:
  "\<exists>w'. listener_run listen_kernel pop_accept set_nonblock note_socket \<lparr>l_pth = 7, l_sock = 3, l_data = 9\<rparr> 3
      (listen_world \<lparr>q_results = [5, -1, 6, 8], q_given = [], q_nonblock = {}\<rparr>) = Some (Ret (), w') \<and>
    q_given (os w') = [(5, 9), (6, 9)] \<and> q_results (os w') = [8]"
proof -
  let ?u = "\<lparr>q_results = [5, -1, 6, 8], q_given = [], q_nonblock = {}\<rparr>"
  have r: "runs 7 (listen_world ?u)" and u: "os (listen_world ?u) = ?u"
    by (simp_all add: runs_def listen_world_def demo_pth_def)
  from listener_hands_on [OF listening.listener_env_axioms r, of 3 "\<lparr>l_pth = 7, l_sock = 3, l_data = 9\<rparr>"]
  show ?thesis unfolding u by auto
qed

end
