(* ===== verification/Server.thy ===== *)
theory Server
  imports Listener Cstring
begin

text \<open>
  The server main loop (\<open>src/src/pthr_server.c\<close>): options, binding the socket, giving up privileges,
  going to the background, and the loop that runs the reactor. The system calls act on a small
  model of the process (credentials, root and working directory, descriptors); each call may
  fail, as the environment says. The part from \<open>startup_fn\<close> on is a parameter, which gets the
  process as the code before has left it.
\<close>

section \<open>Configuration\<close>

record server_config =
  default_port :: int
  port_option_name :: char
  default_address :: "32 word"
  address_option_name :: char
  disable_syslog :: bool
  package_name :: string
  disable_fork :: bool
  disable_chdir :: bool
  disable_close :: bool
  root :: "string option"
  username :: "string option"
  stderr_file :: "string option"
  startup_fn :: "nat option"
  enable_stack_trace_on_segv :: bool

definition server_defaults :: "string \<Rightarrow> server_config" where
  "server_defaults name = \<lparr>default_port = 80, port_option_name = CHR ''p'', default_address = 0, address_option_name = CHR ''a'',
     disable_syslog = False, package_name = name, disable_fork = False, disable_chdir = False, disable_close = False,
     root = None, username = None, stderr_file = None, startup_fn = None, enable_stack_trace_on_segv = False\<rparr>"

definition pthr_server_default_port :: "int \<Rightarrow> server_config \<Rightarrow> server_config" where
  "pthr_server_default_port p cfg = cfg\<lparr>default_port := p\<rparr>"

definition pthr_server_port_option_name :: "char \<Rightarrow> server_config \<Rightarrow> server_config" where
  "pthr_server_port_option_name c cfg = cfg\<lparr>port_option_name := c\<rparr>"

definition pthr_server_default_address :: "32 word \<Rightarrow> server_config \<Rightarrow> server_config" where
  "pthr_server_default_address a cfg = cfg\<lparr>default_address := a\<rparr>"

definition pthr_server_address_option_name :: "char \<Rightarrow> server_config \<Rightarrow> server_config" where
  "pthr_server_address_option_name c cfg = cfg\<lparr>address_option_name := c\<rparr>"

definition pthr_server_disable_syslog :: "server_config \<Rightarrow> server_config" where
  "pthr_server_disable_syslog cfg = cfg\<lparr>disable_syslog := True\<rparr>"

definition pthr_server_package_name :: "string \<Rightarrow> server_config \<Rightarrow> server_config" where
  "pthr_server_package_name n cfg = cfg\<lparr>package_name := n\<rparr>"

definition pthr_server_disable_fork :: "server_config \<Rightarrow> server_config" where
  "pthr_server_disable_fork cfg = cfg\<lparr>disable_fork := True\<rparr>"

definition pthr_server_disable_chdir :: "server_config \<Rightarrow> server_config" where
  "pthr_server_disable_chdir cfg = cfg\<lparr>disable_chdir := True\<rparr>"

definition pthr_server_disable_close :: "server_config \<Rightarrow> server_config" where
  "pthr_server_disable_close cfg = cfg\<lparr>disable_close := True\<rparr>"

definition pthr_server_chroot :: "string \<Rightarrow> server_config \<Rightarrow> server_config" where
  "pthr_server_chroot r cfg = cfg\<lparr>root := Some r\<rparr>"

definition pthr_server_username :: "string \<Rightarrow> server_config \<Rightarrow> server_config" where
  "pthr_server_username u cfg = cfg\<lparr>username := Some u\<rparr>"

definition pthr_server_stderr_file :: "string \<Rightarrow> server_config \<Rightarrow> server_config" where
  "pthr_server_stderr_file f cfg = cfg\<lparr>stderr_file := Some f\<rparr>"

definition pthr_server_startup_fn :: "nat \<Rightarrow> server_config \<Rightarrow> server_config" where
  "pthr_server_startup_fn f cfg = cfg\<lparr>startup_fn := Some f\<rparr>"

definition pthr_server_enable_stack_trace_on_segv :: "server_config \<Rightarrow> server_config" where
  "pthr_server_enable_stack_trace_on_segv cfg = cfg\<lparr>enable_stack_trace_on_segv := True\<rparr>"

section \<open>The process\<close>

datatype open_file = Dev_null | Disk_file string | Inet_socket | Terminal

record process =
  p_euid :: int
  p_gid :: int
  p_groups :: "int list"
  p_root :: string
  p_cwd :: string
  p_fds :: "nat \<Rightarrow> open_file option"
  p_bound :: "(nat \<times> 32 word \<times> 16 word) option"
  p_leader :: bool
  p_syslog :: "string list"
  p_catches_segv :: bool

datatype srv_call =
    Call_socket | Call_bind | Call_listen | Call_fcntl | Call_chroot | Call_initgroups | Call_setgid | Call_setuid
  | Call_open string

text \<open>
  Which calls fail, the user database as seen from a root directory (user and group of a name),
  the groups of a user, \<open>inet_addr\<close> (\<open>None\<close> is \<open>INADDR_NONE\<close>) and the result of \<open>fork\<close>.
\<close>

record srv_env =
  e_fails :: "srv_call \<Rightarrow> bool"
  e_pwnam :: "string \<Rightarrow> string \<Rightarrow> (int \<times> int) option"
  e_groups :: "string \<Rightarrow> int \<Rightarrow> int list"
  e_inet_addr :: "string \<Rightarrow> 32 word option"
  e_fork :: int

datatype 'a proc = Running 'a | Exited int | Aborted

fun bindP :: "'a proc \<Rightarrow> ('a \<Rightarrow> 'b proc) \<Rightarrow> 'b proc" where
  "bindP (Running a) f = f a"
| "bindP (Exited n) f = Exited n"
| "bindP Aborted f = Aborted"

text \<open>\<open>open\<close> and \<open>socket\<close> return the lowest free descriptor.\<close>

definition first_free :: "(nat \<Rightarrow> open_file option) \<Rightarrow> nat" where
  "first_free t = first_index (\<lambda>d. t d = None) [0..<1024]"

definition open_fd :: "open_file \<Rightarrow> process \<Rightarrow> process" where
  "open_fd f s = s\<lparr>p_fds := (p_fds s)(first_free (p_fds s) := Some f)\<rparr>"

definition close_p :: "nat \<Rightarrow> process \<Rightarrow> process" where
  "close_p d s = s\<lparr>p_fds := (p_fds s)(d := None)\<rparr>"

definition dup2_p :: "nat \<Rightarrow> nat \<Rightarrow> process \<Rightarrow> process" where
  "dup2_p d n s = (if p_fds s d = None then s else s\<lparr>p_fds := (p_fds s)(n := p_fds s d)\<rparr>)"

section \<open>Start-up\<close>

text \<open>The loop over the options that \<open>getopt\<close> returns, with their arguments.\<close>

fun server_options :: "server_config \<Rightarrow> srv_env \<Rightarrow> (char \<times> string) list \<Rightarrow> int \<times> 32 word \<Rightarrow> (int \<times> 32 word) proc" where
  "server_options cfg env [] pa = Running pa"
| "server_options cfg env ((c, optarg) # opts) pa =
     (if port_option_name cfg = c
      then (case scan_int optarg of None \<Rightarrow> Exited 1 | Some port \<Rightarrow> server_options cfg env opts (port, snd pa))
      else if address_option_name cfg = c
      then (case e_inet_addr env optarg of None \<Rightarrow> Exited 1 | Some a \<Rightarrow> server_options cfg env opts (fst pa, a))
      else server_options cfg env opts pa)"

definition bind_socket :: "srv_env \<Rightarrow> int \<times> 32 word \<Rightarrow> process \<Rightarrow> (nat \<times> process) proc" where
  "bind_socket env pa s =
     (if e_fails env Call_socket then Aborted
      else (let sock = first_free (p_fds s); s1 = open_fd Inet_socket s
            in if e_fails env Call_bind then Exited 1
               else if e_fails env Call_listen then Aborted
               else if e_fails env Call_fcntl then Aborted
               else Running (sock, s1\<lparr>p_bound := Some (sock, snd pa, word_of_int (fst pa))\<rparr>)))"

definition change_root :: "server_config \<Rightarrow> srv_env \<Rightarrow> process \<Rightarrow> process proc" where
  "change_root cfg env s =
     (case root cfg of
        None \<Rightarrow> Running s
      | Some r \<Rightarrow>
          if p_euid s = 0 then (if e_fails env Call_chroot then Exited 1 else Running (s\<lparr>p_root := r\<rparr>))
          else Running s)"

definition change_user :: "server_config \<Rightarrow> srv_env \<Rightarrow> process \<Rightarrow> process proc" where
  "change_user cfg env s =
     (case username cfg of
        None \<Rightarrow> Running s
      | Some u \<Rightarrow>
          if p_euid s = 0
          then (case e_pwnam env (p_root s) u of
                  None \<Rightarrow> Exited 1
                | Some (uid, gid) \<Rightarrow>
                    if e_fails env Call_initgroups \<or> e_fails env Call_setgid \<or> e_fails env Call_setuid then Exited 1
                    else Running (s\<lparr>p_groups := e_groups env u gid, p_gid := gid, p_euid := uid\<rparr>))
          else Running s)"

definition leave_directory :: "server_config \<Rightarrow> process \<Rightarrow> process" where
  "leave_directory cfg s = (if disable_chdir cfg then s else s\<lparr>p_cwd := ''/''\<rparr>)"

definition close_terminal :: "server_config \<Rightarrow> srv_env \<Rightarrow> process \<Rightarrow> process" where
  "close_terminal cfg env s =
     (if disable_close cfg then s
      else (let s1 = close_p 2 (close_p 1 (close_p 0 s));
                s2 = (if e_fails env (Call_open ''/dev/null'') then s1 else open_fd Dev_null s1)
            in (dup2_p 0 2 (dup2_p 0 1 s2))\<lparr>p_leader := True\<rparr>))"

definition reopen_stderr :: "server_config \<Rightarrow> srv_env \<Rightarrow> process \<Rightarrow> process proc" where
  "reopen_stderr cfg env s =
     (case stderr_file cfg of
        None \<Rightarrow> Running s
      | Some f \<Rightarrow>
          if e_fails env (Call_open f) then Aborted else Running (open_fd (Disk_file f) (close_p 2 s)))"

definition fork_p :: "server_config \<Rightarrow> srv_env \<Rightarrow> process \<Rightarrow> process proc" where
  "fork_p cfg env s =
     (if disable_fork cfg then Running s
      else if e_fork env < 0 then Exited 1
      else if e_fork env > 0 then Exited 0
      else Running s)"

definition open_syslog :: "server_config \<Rightarrow> int \<Rightarrow> process \<Rightarrow> process" where
  "open_syslog cfg port s =
     (if disable_syslog cfg then s
      else s\<lparr>p_syslog := p_syslog s @ [package_name cfg @ '' starting up on port '' @ show_int port]\<rparr>)"

definition catch_segv :: "server_config \<Rightarrow> process \<Rightarrow> process" where
  "catch_segv cfg s = (if enable_stack_trace_on_segv cfg then s\<lparr>p_catches_segv := True\<rparr> else s)"

text \<open>
  \<open>catch_sigsegv\<close>, for a call stack given as the lines that \<open>backtrace_symbols_fd\<close> prints: what is written to
  which file, and the end of the process. Nothing is written when descriptor 2 is closed.
\<close>

definition MAX_ADDRS :: nat where
  "MAX_ADDRS = 50"

definition catch_sigsegv :: "string list \<Rightarrow> process \<Rightarrow> (open_file \<times> string) option \<times> 'a proc" where
  "catch_sigsegv trace s =
     (map_option (\<lambda>f. (f, ''** Segmentation fault **'' @ [LF, LF] @ ''Stack trace:'' @ [LF, LF] @
        concat (map (\<lambda>l. l @ [LF]) (take MAX_ADDRS trace)))) (p_fds s 2), Aborted)"

definition pthr_server_main_loop ::
  "server_config \<Rightarrow> srv_env \<Rightarrow> (char \<times> string) list \<Rightarrow> (nat \<Rightarrow> process \<Rightarrow> 'r proc) \<Rightarrow> process \<Rightarrow> 'r proc" where
  "pthr_server_main_loop cfg env opts serve s =
     bindP (server_options cfg env opts (default_port cfg, default_address cfg)) (\<lambda>pa.
     bindP (bind_socket env pa s) (\<lambda>(sock, s1).
     bindP (change_root cfg env s1) (\<lambda>s2.
     bindP (change_user cfg env s2) (\<lambda>s3.
     bindP (reopen_stderr cfg env (close_terminal cfg env (leave_directory cfg s3))) (\<lambda>s4.
     bindP (fork_p cfg env s4) (\<lambda>s5.
     serve sock (catch_segv cfg (open_syslog cfg (fst pa) s5))))))))"

text \<open>The loop that runs the reactor until no thread is left.\<close>

partial_function (option) reactor_loop ::
  "('v, 'j, 'P, 'm, 'u) kernel \<Rightarrow> (('v, 'j, 'P, 'm, 'u) world \<Rightarrow> ('v, 'j, 'P, 'm, 'u) world option)
     \<Rightarrow> ('v, 'j, 'P, 'm, 'u) world \<Rightarrow> ('v, 'j, 'P, 'm, 'u) world option" where
  "reactor_loop K invoke w =
     (if pseudothread_count_threads K w > 0 then Option.bind (invoke w) (reactor_loop K invoke) else Some w)"

section \<open>Descriptors\<close>

lemma first_free_free: "first_free t < 1024 \<Longrightarrow> t (first_free t) = None"
  using first_index_hit [of "\<lambda>d. t d = None" "[0..<1024]"] by (simp add: first_free_def)

lemma first_free_least:
  assumes "t d = None" "d < 1024"
  shows "first_free t \<le> d"
proof (rule ccontr)
  assume "\<not> first_free t \<le> d"
  then have "d < first_index (\<lambda>d. t d = None) [0..<1024]" by (simp add: first_free_def)
  from first_index_before [OF this] show False using assms by simp
qed

lemma first_free_eq:
  assumes "t d = None" "d < 1024" "\<And>i. i < d \<Longrightarrow> t i \<noteq> None"
  shows "first_free t = d"
  proof -
  have le: "first_free t \<le> d" by (rule first_free_least) (fact assms)+
  then have "t (first_free t) = None" using first_free_free [of t] assms(2) by simp
  then show ?thesis using le assms(3) [of "first_free t"] by fastforce
qed

text \<open>The standard descriptors of a process that has been started in the usual way.\<close>

definition std_open :: "process \<Rightarrow> bool" where
  "std_open s \<longleftrightarrow> (\<forall>d < 3. p_fds s d \<noteq> None) \<and> first_free (p_fds s) < 1024"

lemma std_open_socket: "std_open s \<Longrightarrow> 3 \<le> first_free (p_fds s)"
  using first_free_free [of "p_fds s"] by (auto simp: std_open_def not_le [symmetric])

section \<open>What the start-up establishes\<close>

lemma change_root_cases:
  assumes "change_root cfg env s = Running s'" "p_euid s = 0"
  shows "s' = (case root cfg of None \<Rightarrow> s | Some r \<Rightarrow> s\<lparr>p_root := r\<rparr>)"
  using assms by (auto simp: change_root_def split: option.splits if_splits)

lemma change_user_cases:
  assumes "change_user cfg env s = Running s'" "p_euid s = 0"
  shows "case username cfg of None \<Rightarrow> s' = s | Some u \<Rightarrow> \<exists>uid gid. e_pwnam env (p_root s) u = Some (uid, gid) \<and>
    s' = s\<lparr>p_groups := e_groups env u gid, p_gid := gid, p_euid := uid\<rparr>"
  using assms by (auto simp: change_user_def split: option.splits if_splits)

text \<open>The descriptors at the end, seen from those after the socket was bound.\<close>

lemma close_terminal_fds:
  assumes "\<not> disable_close cfg"
  shows "p_fds (close_terminal cfg env s) d =
    (if d < 3 then (if e_fails env (Call_open ''/dev/null'') then None else Some Dev_null) else p_fds s d)"
proof -
  let ?t = "(p_fds s)(0 := None, 1 := None, 2 := None)"
  have "first_free ?t = 0" by (rule first_free_eq) simp_all
  moreover have "d < 3 \<longleftrightarrow> d = 0 \<or> d = 1 \<or> d = 2" by auto
  ultimately show ?thesis
    using assms by (auto simp: close_terminal_def close_p_def open_fd_def dup2_p_def Let_def numeral_2_eq_2)
qed

lemma reopen_stderr_fds:
  assumes "reopen_stderr cfg env s = Running s'" "d \<noteq> first_free ((p_fds s)(2 := None))" "d \<noteq> 2"
  shows "p_fds s' d = p_fds s d"
  using assms by (auto simp: reopen_stderr_def open_fd_def close_p_def split: option.splits if_splits)

lemma reopen_stderr_log:
  assumes "reopen_stderr cfg env s = Running s'" "stderr_file cfg = Some f" "p_fds s 0 \<noteq> None" "p_fds s 1 \<noteq> None"
  shows "p_fds s' 2 = Some (Disk_file f)"
proof -
  have "first_free ((p_fds s)(2 := None)) = 2"
    by (rule first_free_eq) (use assms(3,4) in \<open>auto simp: less_2_cases_iff\<close>)
  then show ?thesis using assms(1,2) by (auto simp: reopen_stderr_def open_fd_def close_p_def split: if_splits)
qed

lemma reopen_stderr_frame:
  assumes "reopen_stderr cfg env s = Running s'"
  shows "p_euid s' = p_euid s" "p_gid s' = p_gid s" "p_groups s' = p_groups s" "p_root s' = p_root s" "p_cwd s' = p_cwd s"
    "p_bound s' = p_bound s"
  using assms by (auto simp: reopen_stderr_def open_fd_def close_p_def split: option.splits if_splits)

lemma frames [simp]:
  "p_euid (close_terminal cfg env s) = p_euid s" "p_gid (close_terminal cfg env s) = p_gid s"
  "p_groups (close_terminal cfg env s) = p_groups s" "p_root (close_terminal cfg env s) = p_root s"
  "p_cwd (close_terminal cfg env s) = p_cwd s" "p_bound (close_terminal cfg env s) = p_bound s"
  "p_euid (leave_directory cfg s) = p_euid s" "p_gid (leave_directory cfg s) = p_gid s"
  "p_groups (leave_directory cfg s) = p_groups s" "p_root (leave_directory cfg s) = p_root s"
  "p_bound (leave_directory cfg s) = p_bound s" "p_fds (leave_directory cfg s) = p_fds s"
  by (simp_all add: close_terminal_def leave_directory_def close_p_def open_fd_def dup2_p_def Let_def)

lemma late_frames [simp]:
  "p_euid (catch_segv cfg s) = p_euid s" "p_gid (catch_segv cfg s) = p_gid s" "p_groups (catch_segv cfg s) = p_groups s"
  "p_root (catch_segv cfg s) = p_root s" "p_cwd (catch_segv cfg s) = p_cwd s" "p_bound (catch_segv cfg s) = p_bound s"
  "p_fds (catch_segv cfg s) = p_fds s"
  "p_euid (open_syslog cfg n s) = p_euid s" "p_gid (open_syslog cfg n s) = p_gid s" "p_groups (open_syslog cfg n s) = p_groups s"
  "p_root (open_syslog cfg n s) = p_root s" "p_cwd (open_syslog cfg n s) = p_cwd s" "p_bound (open_syslog cfg n s) = p_bound s"
  "p_fds (open_syslog cfg n s) = p_fds s"
  by (simp_all add: catch_segv_def open_syslog_def)

lemma bindP_cases:
  assumes "bindP m f = r"
  shows "(\<exists>n. m = Exited n \<and> r = Exited n) \<or> (m = Aborted \<and> r = Aborted) \<or> (\<exists>a. m = Running a \<and> f a = r)"
  using assms by (cases m) auto

text \<open>What holds of the process that the application's own code runs in.\<close>

definition served_ok :: "server_config \<Rightarrow> srv_env \<Rightarrow> nat \<Rightarrow> process \<Rightarrow> bool" where
  "served_ok cfg env sock s \<longleftrightarrow>
     (case root cfg of None \<Rightarrow> True | Some r \<Rightarrow> p_root s = r) \<and>
     (case username cfg of
        None \<Rightarrow> True
      | Some u \<Rightarrow> e_pwnam env (p_root s) u = Some (p_euid s, p_gid s) \<and> p_groups s = e_groups env u (p_gid s)) \<and>
     (disable_chdir cfg \<or> p_cwd s = ''/'') \<and>
     p_fds s sock = Some Inet_socket \<and> map_option fst (p_bound s) = Some sock \<and>
     (case stderr_file cfg of
        None \<Rightarrow> True
      | Some f \<Rightarrow> disable_close cfg \<or> e_fails env (Call_open ''/dev/null'') \<or> p_fds s 2 = Some (Disk_file f))"

lemma startup_served:
  assumes root0: "p_euid s = 0" and fds: "std_open s"
    and b: "bind_socket env pa s = Running (sock, s1)" and r: "change_root cfg env s1 = Running s2"
    and u: "change_user cfg env s2 = Running s3"
    and e: "reopen_stderr cfg env (close_terminal cfg env (leave_directory cfg s3)) = Running s4"
  shows "served_ok cfg env sock s4"
proof -
  have s1: "sock = first_free (p_fds s)" "p_euid s1 = 0" "p_fds s1 = (p_fds s)(sock := Some Inet_socket)" "map_option fst (p_bound s1) = Some sock"
    using b root0 by (auto simp: bind_socket_def open_fd_def Let_def split: if_splits)
  have sk: "3 \<le> sock" using std_open_socket [OF fds] s1(1) by simp
  have s2: "p_euid s2 = 0" "p_fds s2 = p_fds s1" "p_bound s2 = p_bound s1" "case root cfg of None \<Rightarrow> True | Some x \<Rightarrow> p_root s2 = x"
    using change_root_cases [OF r s1(2)] s1(2) by (auto split: option.split)
  have s3: "p_fds s3 = p_fds s1" "p_bound s3 = p_bound s1" "p_root s3 = p_root s2"
    "case username cfg of None \<Rightarrow> True
      | Some u \<Rightarrow> e_pwnam env (p_root s3) u = Some (p_euid s3, p_gid s3) \<and> p_groups s3 = e_groups env u (p_gid s3)"
    using change_user_cases [OF u s2(1)] s2(2,3) by (auto split: option.splits)
  let ?t = "close_terminal cfg env (leave_directory cfg s3)"
  have t: "p_fds ?t sock = Some Inet_socket"
    using close_terminal_fds [of cfg env "leave_directory cfg s3" sock] sk s3(1) s1(3)
    by (cases "disable_close cfg") (simp_all add: close_terminal_def)
  have free: "sock \<noteq> first_free ((p_fds ?t)(2 := None))"
    using first_free_least [of "(p_fds ?t)(2 := None)" 2] sk by simp
  have "p_fds s4 sock = Some Inet_socket" using reopen_stderr_fds [OF e free] sk t by simp
  moreover have "p_fds s4 2 = Some (Disk_file f)"
    if "stderr_file cfg = Some f" "\<not> disable_close cfg" "\<not> e_fails env (Call_open ''/dev/null'')" for f
    using reopen_stderr_log [OF e that(1)] close_terminal_fds [OF that(2), of env "leave_directory cfg s3"] that(3) by simp
  moreover have "disable_chdir cfg \<or> p_cwd s4 = ''/''" using reopen_stderr_frame(5) [OF e] by (simp add: leave_directory_def)
  ultimately show ?thesis
    using reopen_stderr_frame [OF e] s3 s2(4) s1(4) by (auto simp: served_ok_def split: option.splits)
qed

text \<open>The report of a crash goes to the file that was configured for the error output.\<close>

lemma segv_report:
  assumes "served_ok cfg env sock s" "stderr_file cfg = Some f" "\<not> disable_close cfg" "\<not> e_fails env (Call_open ''/dev/null'')"
  shows "\<exists>text. catch_sigsegv trace s = (Some (Disk_file f, text), Aborted)"
  using assms by (simp add: served_ok_def catch_sigsegv_def)

section \<open>Properties\<close>

text \<open>
  C26: privileges are gone before the application runs. A server started by root either ends before
  it serves anything, or runs the application's code in a process that is confined to the
  configured root directory, has the user, group and supplementary groups of the configured user,
  has left the directory it was started in, and still has the bound socket open, with the
  error output going to the configured file.
\<close>

theorem server_drops_privileges:
  assumes "p_euid s = 0" "std_open s"
  shows "(\<exists>n. pthr_server_main_loop cfg env opts serve s = Exited n) \<or> pthr_server_main_loop cfg env opts serve s = Aborted \<or>
    (\<exists>sock s'. pthr_server_main_loop cfg env opts serve s = serve sock s' \<and> served_ok cfg env sock s')"
proof -
  let ?r = "pthr_server_main_loop cfg env opts serve s"
  show ?thesis
  proof (rule ccontr)
    assume n: "\<not> ?thesis"
    obtain pa where 1: "server_options cfg env opts (default_port cfg, default_address cfg) = Running pa"
      using bindP_cases [of _ _ ?r, OF pthr_server_main_loop_def [symmetric]] n by blast
    obtain x where 2: "bind_socket env pa s = Running x"
      using n 1 by (cases "bind_socket env pa s") (auto simp: pthr_server_main_loop_def)
    obtain sock s1 where x: "x = (sock, s1)" by fastforce
    obtain s2 where 3: "change_root cfg env s1 = Running s2"
      using n 1 2 x by (cases "change_root cfg env s1") (auto simp: pthr_server_main_loop_def)
    obtain s3 where 4: "change_user cfg env s2 = Running s3"
      using n 1 2 x 3 by (cases "change_user cfg env s2") (auto simp: pthr_server_main_loop_def)
    let ?e = "reopen_stderr cfg env (close_terminal cfg env (leave_directory cfg s3))"
    obtain s4 where 5: "?e = Running s4"
      using n 1 2 x 3 4 by (cases ?e) (auto simp: pthr_server_main_loop_def)
    have "served_ok cfg env sock s4" using startup_served [OF assms _ 3 4 5] 2 x by blast
    then have ok: "served_ok cfg env sock (catch_segv cfg (open_syslog cfg m s4))" for m
      by (auto simp: served_ok_def split: option.splits)
    have "fork_p cfg env s4 = Running s4"
      using n 1 2 x 3 4 5 by (auto simp: pthr_server_main_loop_def fork_p_def split: if_splits)
    then show False using n 1 2 x 3 4 5 ok by (auto simp: pthr_server_main_loop_def)
  qed
qed

definition demo_process :: process where
  "demo_process = \<lparr>p_euid = 0, p_gid = 0, p_groups = [0], p_root = ''/'', p_cwd = ''/root'',
     p_fds = (\<lambda>d. if d < 3 then Some Terminal else None), p_bound = None, p_leader = False, p_syslog = [], p_catches_segv = False\<rparr>"

definition demo_env :: srv_env where
  "demo_env = \<lparr>e_fails = (\<lambda>_. False), e_pwnam = (\<lambda>r u. Some (99, 98)), e_groups = (\<lambda>u g. [g]), e_inet_addr = (\<lambda>_. None), e_fork = 0\<rparr>"

theorem server_drops_privileges_witness:
  "\<exists>sock s'. pthr_server_main_loop (pthr_server_username ''nobody'' (server_defaults ''web'')) demo_env [(CHR ''p'', ''8080'')]
      (\<lambda>sock s. Running (sock, p_euid s)) demo_process = Running (sock, 99) \<and>
    served_ok (pthr_server_username ''nobody'' (server_defaults ''web'')) demo_env sock s' \<and> p_euid s' = 99"
proof -
  let ?cfg = "pthr_server_username ''nobody'' (server_defaults ''web'')"
  let ?r = "pthr_server_main_loop ?cfg demo_env [(CHR ''p'', ''8080'')] (\<lambda>sock s. Running (sock, p_euid s)) demo_process"
  have f: "first_free (p_fds demo_process) = 3" by (rule first_free_eq) (simp_all add: demo_process_def)
  have std: "p_euid demo_process = 0" "std_open demo_process" using f by (simp_all add: std_open_def demo_process_def)
  have scan: "scan_int ''8080'' = Some 8080" by code_simp
  have r: "?r = Running (3, 99)"
    using f std(1) scan by (simp add: pthr_server_main_loop_def pthr_server_username_def server_defaults_def bind_socket_def change_root_def
      change_user_def reopen_stderr_def fork_p_def demo_env_def open_fd_def Let_def)
  from server_drops_privileges [OF std, of ?cfg demo_env "[(CHR ''p'', ''8080'')]" "\<lambda>sock s. Running (sock, p_euid s)"]
  obtain sock s' where "?r = Running (sock, p_euid s')" "served_ok ?cfg demo_env sock s'" using r by auto
  then show ?thesis using r by auto
qed

end
