(* ===== verification/Http_Thread.thy ===== *)
theory Http_Thread
  imports Thread_IO Cgi Server
begin

text \<open>
  A thread that speaks HTTP on one connection, as the two example programs of the library do: it opens
  a handle for its socket, reads requests and writes responses on it, closes the handle and ends.
  The locale \<open>http_thread\<close> puts the contracts of the threads, the handles and the HTTP library together
  for such threads.
\<close>

section \<open>Operations\<close>

text \<open>The three calls that write the head of a response; the result says whether to close the connection.\<close>

definition send_head ::
  "('w, 'h) http_env \<Rightarrow> pool \<Rightarrow> 'h http_request \<Rightarrow> int \<Rightarrow> string \<Rightarrow> (string \<times> string) list \<Rightarrow> ('w, bool) io" where
  "send_head E p rq code msg hs =
     bindW (new_http_response E p rq code msg) (\<lambda>h. bindW (http_response_send_headers E h hs) (http_response_end_headers E))"

text \<open>A computation on a handle that is gone afterwards.\<close>

definition with_handle :: "io_handle \<Rightarrow> ('w, 'a) io \<Rightarrow> ('w, 'a) comp" where
  "with_handle io m w = map_option (\<lambda>(r, io', w'). (r, w')) (m (io, w))"

text \<open>
  The loop of such a thread: \<open>body\<close> answers one request and says whether to leave the loop, which also
  ends with the input.
\<close>

partial_function (option) request_loop ::
  "('w, 'h) http_env \<Rightarrow> pool \<Rightarrow> ('h http_request \<Rightarrow> ('w, bool) io) \<Rightarrow> io_handle \<times> 'w \<Rightarrow> (unit outcome \<times> io_handle \<times> 'w) option" where
  "request_loop E p body s =
     bindW (new_http_request E p) (\<lambda>rq.
       if rq = None then retW ()
       else bindW (body (the rq)) (\<lambda>close. if close then retW () else request_loop E p body)) s"

section \<open>What client and server exchange\<close>

text \<open>The answers to a sequence of requests: the server stops when an answer closes the connection.\<close>

fun session :: "('q \<Rightarrow> string \<times> bool) \<Rightarrow> 'q list \<Rightarrow> string" where
  "session ans [] = []"
| "session ans (rq # rqs) = fst (ans rq) @ (if snd (ans rq) then [] else session ans rqs)"

definition head_text :: "('w, 'h) http_env \<Rightarrow> 'h http_request \<Rightarrow> int \<Rightarrow> string \<Rightarrow> (string \<times> string) list \<Rightarrow> string" where
  "head_text E rq code msg hs =
     ''HTTP/1.1 '' @ show_int code @ '' '' @ msg @ CRLF @ concat (map header_line (hs @ default_headers E rq hs)) @ CRLF"

definition last_answer :: "('w, 'h) http_env \<Rightarrow> 'h http_request \<Rightarrow> (string \<times> string) list \<Rightarrow> bool" where
  "last_answer E rq hs \<longleftrightarrow> list_ex (clears 3) hs \<or> closes E rq hs"

text \<open>The requests of a client, as they are sent and as the library parses them at time \<open>time\<close>.\<close>

record client_request =
  c_method :: http_method
  c_url :: string
  c_major :: nat
  c_minor :: nat
  c_headers :: "(string \<times> string) list"

definition request_bytes :: "client_request \<Rightarrow> string" where
  "request_bytes c = request_text (c_method c) (c_url c) (c_major c) (c_minor c) (c_headers c)"

definition sendable :: "client_request \<Rightarrow> bool" where
  "sendable c \<longleftrightarrow> clean_line (request_line (c_method c) (c_url c) (c_major c) (c_minor c)) \<and> c_major c < 10 \<and> c_minor c < 10 \<and>
     CHR '' '' \<notin> set (c_url c) \<and> list_all header_ok (c_headers c)"

definition parsed :: "('w, 'h) http_env \<Rightarrow> pool \<Rightarrow> int \<Rightarrow> client_request \<Rightarrow> 'h http_request" where
  "parsed E p time c = (parse_url (blank_request E p time (c_method c) (c_url c)))
     \<lparr>is_http09 := False, major := int (c_major c), minor := int (c_minor c),
      headers := foldl (\<lambda>H h. add_header E (fst h) (snd h) H) (hash_new (h_hash E)) (c_headers c)\<rparr>"

definition url_path :: "client_request \<Rightarrow> string" where
  "url_path c = (if c_method c = HTTP_METHOD_POST then c_url c else case split_chr CHR ''?'' (c_url c) of None \<Rightarrow> c_url c | Some (n, q) \<Rightarrow> n)"

lemma parsed_props [simp]: "\<not> is_http09 (parsed E p time c)" "http_request_path (parsed E p time c) = url_path c"
  by (simp_all add: parsed_def http_request_path_def url_path_def parse_url_def blank_request_def del: split_chr_None split: option.split)

lemma request_loop_unfold:
  "request_loop E p body = bindW (new_http_request E p) (\<lambda>rq.
       if rq = None then retW ()
       else bindW (body (the rq)) (\<lambda>close. if close then retW () else request_loop E p body))"
  by (rule ext) (rule request_loop.simps)

section \<open>The thread\<close>

text \<open>\<open>socks\<close> are the sockets of connections, in contrast to descriptors of other files.\<close>

locale http_thread =
  thread_io K t rd wr cl busy rest sent pinv live sub own blk
  for K :: "('v, 'j, 'P, 'm, 'u) kernel" and t :: tid
    and rd :: "int \<Rightarrow> nat \<Rightarrow> ('u, string) syscall" and wr :: "int \<Rightarrow> string \<Rightarrow> ('u, unit) syscall"
    and cl :: "int \<Rightarrow> ('u, unit) syscall" and busy :: "'u \<Rightarrow> nat"
    and rest :: "'u \<Rightarrow> int \<Rightarrow> string" and sent :: "'u \<Rightarrow> int \<Rightarrow> string"
    and pinv :: "'P \<Rightarrow> bool" and live :: "'P \<Rightarrow> pool set"
    and sub :: "'P \<Rightarrow> pool \<Rightarrow> pool set" and own :: "'P \<Rightarrow> pool \<Rightarrow> cleanup multiset" and blk :: "'u \<Rightarrow> addr \<times> string \<times> string" +
  fixes E :: "(('v, 'j, 'P, 'm, 'u) world, 'h) http_env" and socks :: "int set"
  assumes env: "h_io E = pth_io K rd wr cl" "c2_hash (h_hash E)" "c2_strings (h_str E)" "h_log E = None"
      "NUL \<notin> set (h_servername E)" "NUL \<notin> set (h_strftime E f d)"
begin

abbreviation ready where "ready q \<equiv> \<lambda>w. runs t w \<and> holds pinv live sub own t q w"

lemma http_with: "http_server E (ready q) (\<lambda>w. rest (os w)) (\<lambda>w. sent (os w))"
  using socket_with [OF holds_local holds_keeps, of q] env by (simp add: http_server_def http_def http_server_axioms_def)

lemma http_of_server: "http E (ready q) (\<lambda>w. rest (os w)) (\<lambda>w. sent (os w))"
  using http_with [of q] by (simp add: http_server_def)

abbreviation puts where "puts q \<equiv> http.writes (ready q) (\<lambda>w :: ('v, 'j, 'P, 'm, 'u) world. rest (os w)) (\<lambda>w. sent (os w))"

lemmas puts_def = http.writes_def [OF http_of_server]
  and puts_bind = http.writes_bind [OF http_of_server]
  and puts_ret = http.writes_ret [OF http_of_server]
  and puts_fputs = http.writes_fputs [OF http_of_server]
  and puts_fprintf = http.writes_fprintf [OF http_of_server]

lemma holds_set_os [simp]: "holds pinv live sub own t q (set_os u w) = holds pinv live sub own t q w"
  by (simp add: local_to_set_os [OF holds_local])

lemma puts_head:
  assumes "io_ok io" "ready q w" "\<not> is_http09 rq" "NUL \<notin> set msg" "list_all (\<lambda>x. NUL \<notin> set (fst x) \<and> NUL \<notin> set (snd x)) hs"
    "length (''HTTP/1.1 '' @ show_int code @ '' '' @ msg @ CRLF) \<noteq> 4096"
  shows "puts q (send_head E p rq code msg hs) io w (last_answer E rq hs) (head_text E rq code msg hs)"
  unfolding send_head_def head_text_def last_answer_def
  using http_server.head_writes [OF http_with assms(1-3) env(5,6) assms(4) _ assms(6)] assms(5) by (simp add: list_all_iff)

text \<open>Answering on a connection.\<close>

definition serving :: "io_handle \<Rightarrow> ('v, 'j, 'P, 'm, 'u) world \<Rightarrow> bool" where
  "serving io w \<longleftrightarrow> io_ok io \<and> ready (io_pool io) w \<and> sock io \<in> socks"

definition said :: "io_handle \<Rightarrow> ('v, 'j, 'P, 'm, 'u) world \<Rightarrow> string \<Rightarrow> io_handle \<Rightarrow> ('v, 'j, 'P, 'm, 'u) world \<Rightarrow> bool" where
  "said io w x io' w' \<longleftrightarrow> serving io' w' \<and> sock io' = sock io \<and> io_pool io' = io_pool io \<and>
     written sent io' w' = written sent io w @ x \<and> arriving rest io' w' = arriving rest io w"

definition says :: "(('v, 'j, 'P, 'm, 'u) world, 'a) io \<Rightarrow> io_handle \<Rightarrow> ('v, 'j, 'P, 'm, 'u) world \<Rightarrow> 'a \<Rightarrow> string \<Rightarrow> bool" where
  "says m io w a x \<longleftrightarrow> (\<exists>io' w'. m (io, w) = Some (Ret a, io', w') \<and> said io w x io' w')"

lemma said_trans: "said io w x io1 w1 \<Longrightarrow> said io1 w1 y io2 w2 \<Longrightarrow> said io w (x @ y) io2 w2"
  by (simp add: said_def)

lemma puts_said:
  assumes "puts (io_pool io) m io w a x" "serving io w"
  shows "\<exists>io' w'. m (io, w) = Some (Ret a, io', w') \<and> said io w x io' w' \<and>
    (\<forall>s. s \<noteq> sock io \<longrightarrow> sent (os w') s = sent (os w) s \<and> rest (os w') s = rest (os w) s)"
proof -
  from assms(1) obtain io' w' where "m (io, w) = Some (Ret a, io', w')" "io_ok io'" "ready (io_pool io) w'" "sock io' = sock io"
    "io_pool io' = io_pool io" "written sent io' w' = written sent io w @ x" "arriving rest io' w' = arriving rest io w"
    "\<forall>s. s \<noteq> sock io \<longrightarrow> sent (os w') s = sent (os w) s \<and> rest (os w') s = rest (os w) s"
    unfolding puts_def by blast
  then show ?thesis using assms(2) by (intro exI [of _ io'] exI [of _ w']) (auto simp: said_def serving_def)
qed

lemma says_puts:
  assumes "puts (io_pool io) m io w a x" "serving io w"
  shows "says m io w a x"
proof -
  from puts_said [OF assms] obtain io' w' where "m (io, w) = Some (Ret a, io', w')" "said io w x io' w'" by (elim exE conjE)
  then show ?thesis unfolding says_def by (intro exI conjI)
qed

lemma unchanged: "serving io w \<Longrightarrow> rest u = rest (os w) \<Longrightarrow> sent u = sent (os w) \<Longrightarrow> said io w [] io (set_os u w)"
  by (simp add: said_def serving_def produced_def unread_def)

lemma saysD:
  assumes "says m io w a x"
  obtains io' w' where "m (io, w) = Some (Ret a, io', w')" "said io w x io' w'"
  using assms unfolding says_def by (elim exE conjE)

lemma says_then:
  assumes "m (io, w) = Some (Ret a, io1, w1)" "said io w x io1 w1" "says (f a) io1 w1 b y"
  shows "says (bindW m f) io w b (x @ y)"
proof -
  obtain io2 w2 where "f a (io1, w1) = Some (Ret b, io2, w2)" "said io1 w1 y io2 w2" using assms(3) by (rule saysD)
  then show ?thesis
    unfolding says_def using assms(1) said_trans [OF assms(2)] by (intro exI [of _ io2] exI [of _ w2]) (simp add: bindW_def)
qed

lemma says_ret: "serving io w \<Longrightarrow> says (retW a) io w a []"
  by (simp add: says_def said_def retW_def)

lemma new_request:
  assumes "serving io w" "sendable c" "arriving rest io w = request_bytes c @ r"
  shows "\<exists>io' w'. new_http_request E p (io, w) = Some (Ret (Some (parsed E p (h_now E w div 1000) c)), io', w') \<and> serving io' w' \<and>
    sock io' = sock io \<and> io_pool io' = io_pool io \<and> written sent io' w' = written sent io w \<and> arriving rest io' w' = r"
proof -
  have sv: "ready (io_pool io) w" "io_ok io" "sock io \<in> socks" using assms(1) by (auto simp: serving_def)
  have ok: "clean_line (request_line (c_method c) (c_url c) (c_major c) (c_minor c))" "c_major c < 10" "c_minor c < 10"
    "CHR '' '' \<notin> set (c_url c)" "\<forall>h \<in> set (c_headers c). header_ok h" using assms(2) by (simp_all add: sendable_def list_all_iff)
  have un: "arriving rest io w = concat (replicate 0 CRLF) @ request_text (c_method c) (c_url c) (c_major c) (c_minor c) (c_headers c) @ r"
    using assms(3) by (simp add: request_bytes_def)
  from http.new_http_request_reads [OF http_of_server sv(1,2) ok un, of p] obtain io' w' where
    "new_http_request E p (io, w) = Some (Ret (Some (parsed E p (h_now E w div 1000) c)), io', w')" "io_ok io'" "ready (io_pool io) w'"
    "only_input (\<lambda>w. rest (os w)) (\<lambda>w. sent (os w)) io w io' w'" "arriving rest io' w' = r"
    unfolding http.reads_def [OF http_of_server] parsed_def by blast
  then show ?thesis using sv(3) by (intro exI [of _ io'] exI [of _ w']) (simp add: serving_def only_input_def)
qed

lemma no_request:
  assumes "serving io w" "arriving rest io w = []"
  shows "\<exists>io' w'. new_http_request E p (io, w) = Some (Ret None, io', w') \<and> serving io' w' \<and>
    sock io' = sock io \<and> io_pool io' = io_pool io \<and> written sent io' w' = written sent io w"
proof -
  have sv: "ready (io_pool io) w" "io_ok io" "sock io \<in> socks" using assms(1) by (auto simp: serving_def)
  from http_server.no_request_reads [OF http_with sv(1,2) assms(2), of p] obtain io' w' where
    "new_http_request E p (io, w) = Some (Ret None, io', w')" "io_ok io'" "ready (io_pool io) w'"
    "only_input (\<lambda>w. rest (os w)) (\<lambda>w. sent (os w)) io w io' w'"
    unfolding http.reads_def [OF http_of_server] by blast
  then show ?thesis using sv(3) by (intro exI [of _ io'] exI [of _ w']) (simp add: serving_def only_input_def)
qed

text \<open>The loop.\<close>

lemma loop_step:
  assumes "serving io w" "sendable c" "arriving rest io w = request_bytes c @ r"
    and body: "\<And>io w time. serving io w \<Longrightarrow> says (body (parsed E p time c)) io w (snd (ans (parsed E p time c))) (fst (ans (parsed E p time c)))"
  shows "\<exists>io' w' time. request_loop E p body (io, w) =
      (if snd (ans (parsed E p time c)) then Some (Ret (), io', w') else request_loop E p body (io', w')) \<and> serving io' w' \<and>
    sock io' = sock io \<and> io_pool io' = io_pool io \<and> written sent io' w' = written sent io w @ fst (ans (parsed E p time c)) \<and> arriving rest io' w' = r"
proof -
  let ?t = "h_now E w div 1000"
  let ?rq = "parsed E p ?t c" and ?a = "ans (parsed E p ?t c)"
  obtain io1 w1 where n: "new_http_request E p (io, w) = Some (Ret (Some ?rq), io1, w1)" "serving io1 w1" "sock io1 = sock io"
    "io_pool io1 = io_pool io" "written sent io1 w1 = written sent io w" "arriving rest io1 w1 = r"
    using new_request [OF assms(1-3), of p] by (elim exE conjE)
  obtain io2 w2 where s: "body ?rq (io1, w1) = Some (Ret (snd ?a), io2, w2)" "said io1 w1 (fst ?a) io2 w2"
    using body [OF n(2)] by (rule saysD)
  have "request_loop E p body (io, w) = (if snd ?a then Some (Ret (), io2, w2) else request_loop E p body (io2, w2))"
    using n(1) s(1) by (subst request_loop_unfold) (simp add: bindW_def retW_def)
  then show ?thesis using n s(2) by (intro exI [of _ io2] exI [of _ w2] exI [of _ ?t]) (simp add: said_def)
qed

lemma loop_spec:
  assumes "serving io w" "list_all sendable cs" "arriving rest io w = concat (map request_bytes cs)"
    and body: "\<And>io w time c. serving io w \<Longrightarrow> c \<in> set cs \<Longrightarrow>
      says (body (parsed E p time c)) io w (snd (ans (parsed E p time c))) (fst (ans (parsed E p time c)))"
  shows "\<exists>times io' w'. length times = length cs \<and> request_loop E p body (io, w) = Some (Ret (), io', w') \<and> serving io' w' \<and>
    sock io' = sock io \<and> written sent io' w' = written sent io w @ session ans (map2 (parsed E p) times cs)"
  using assms
proof (induction cs arbitrary: io w)
  case Nil
  obtain io' w' where r: "new_http_request E p (io, w) = Some (Ret None, io', w')" "serving io' w'" "sock io' = sock io"
    "written sent io' w' = written sent io w" using no_request [of io w p] Nil by auto
  then have "request_loop E p body (io, w) = Some (Ret (), io', w')" by (subst request_loop_unfold) (simp add: bindW_def retW_def)
  then show ?case using r by (intro exI [of _ "[]"] exI [of _ io'] exI [of _ w']) simp
next
  case (Cons c cs)
  have c: "sendable c" "arriving rest io w = request_bytes c @ concat (map request_bytes cs)" using Cons.prems by simp_all
  from loop_step [OF Cons.prems(1) c, of body p ans] Cons.prems(4) obtain io2 w2 time where
    s: "request_loop E p body (io, w) = (if snd (ans (parsed E p time c)) then Some (Ret (), io2, w2) else request_loop E p body (io2, w2))"
    "serving io2 w2" "sock io2 = sock io" "written sent io2 w2 = written sent io w @ fst (ans (parsed E p time c))"
    "arriving rest io2 w2 = concat (map request_bytes cs)" by auto
  show ?case
  proof (cases "snd (ans (parsed E p time c))")
    case True
    then show ?thesis using s by (intro exI [of _ "time # replicate (length cs) 0"] exI [of _ io2] exI [of _ w2]) simp
  next
    case False
    from Cons.IH [OF s(2) _ s(5)] Cons.prems(2,4) obtain times io' w' where
      "length times = length cs" "request_loop E p body (io2, w2) = Some (Ret (), io', w')" "serving io' w'" "sock io' = sock io2"
      "written sent io' w' = written sent io2 w2 @ session ans (map2 (parsed E p) times cs)" by auto
    then show ?thesis using s False by (intro exI [of _ "time # times"] exI [of _ io'] exI [of _ w']) simp
  qed
qed

text \<open>The whole thread around its loop \<open>m\<close>.\<close>

lemma handle_thread:
  assumes w: "runs t w" "settled pinv live t w" "s \<in> socks"
    and loop: "\<And>io w1. serving io w1 \<Longrightarrow> sock io = s \<Longrightarrow> arriving rest io w1 = rest (os w) s \<Longrightarrow> written sent io w1 = sent (os w) s \<Longrightarrow>
      \<exists>io' w'. m (io, w1) = Some (Ret (), io', w') \<and> serving io' w' \<and> sock io' = s \<and> Q (written sent io' w')"
  shows "\<exists>w'. bindW (open_handle K blk s) (\<lambda>io. bindW (with_handle io (bindW m (\<lambda>_. io_fclose K (h_io E)))) (\<lambda>_. pth_exit)) w =
      Some (Exit_thread :: 'z outcome, w') \<and> runs t w' \<and> settled pinv live t w' \<and> Q (sent (os w') s)"
proof -
  obtain io w1 where o: "open_handle K blk s w = Some (Ret io, w1)" "runs t w1" "os w1 = os w"
    "holds pinv live sub own t (io_pool io) w1" "io_ok io" "window io = []" "buffered io = []" "sock io = s"
    using open_spec [OF w(1,2)] by blast
  have sv: "serving io w1" using o w(3) by (simp add: serving_def)
  have un: "arriving rest io w1 = rest (os w) s" "written sent io w1 = sent (os w) s"
    using o by (simp_all add: unread_def produced_def)
  from loop [OF sv o(8) un] obtain io2 w2 where l: "m (io, w1) = Some (Ret (), io2, w2)" "serving io2 w2" "sock io2 = s"
    "Q (written sent io2 w2)" by blast
  have sv2: "runs t w2" "holds pinv live sub own t (io_pool io2) w2" "io_ok io2" using l(2) by (auto simp: serving_def)
  from close_spec [OF sv2] obtain io3 w3 where c: "io_fclose K (pth_io K rd wr cl) (io2, w2) = Some (Ret (), io3, w3)" "runs t w3"
    "settled pinv live t w3" "sent (os w3) = (sent (os w2))(sock io2 := written sent io2 w2)" by blast
  have "with_handle io (bindW m (\<lambda>_. io_fclose K (h_io E))) w1 = Some (Ret (), w3)"
    using l(1) c(1) env(1) by (simp add: with_handle_def bindW_def)
  moreover have "pth_exit w3 = Some (Exit_thread :: 'z outcome, w3)" using c(2) by (auto simp: pth_exit_def runs_def cur_def)
  ultimately show ?thesis
    using o(1) l(3,4) c by (intro exI [of _ w3]) (simp add: bindW_def)
qed

end

section \<open>The network\<close>

interpretation net_http_thread: http_thread net_kernel 7 net_read net_write net_close n_lag n_in n_out
  cpool_inv cpool_live "\<lambda>P p. set (cpool_under P p)" cpool_own net_block net_http "{3}"
  by (intro http_thread.intro net_thread.thread_io_axioms http_thread_axioms.intro)
    (simp_all add: net_http_def alist_hash.c2_hash_axioms list_strings.c2_strings_axioms)

end
