(* ===== verification/File_Server.thy ===== *)
theory File_Server
  imports Http_Thread
begin

text \<open>
  The file server that comes with the library (\<open>src/examples/pthr_eg2_server.c\<close> and
  \<open>src/examples/pthr_eg2_server_main.c\<close>): a thread per connection, which reads HTTP requests in a loop
  and answers them with files and directory listings. It uses threads, handles, the HTTP library and
  the server main loop. The calls on the file system are parameters (\<open>eg2_sys\<close>).
\<close>

section \<open>State\<close>

datatype file_type = S_IFDIR | S_IFREG | S_IFLNK | S_IFOTHER

record stat =
  st_type :: file_type
  st_size :: int

text \<open>
  The system calls; a null pointer is a negative result. \<open>opendir\<close> gives a directory stream, on which
  \<open>readdir\<close> gives the next name. \<open>pitoa\<close> belongs to c2lib.
\<close>

record 'u eg2_sys =
  g_stat :: "string \<Rightarrow> ('u, stat) syscall"
  g_lstat :: "string \<Rightarrow> ('u, stat) syscall"
  g_open :: "string \<Rightarrow> ('u, unit) syscall"
  g_read :: "int \<Rightarrow> nat \<Rightarrow> ('u, string) syscall"
  g_close :: "int \<Rightarrow> ('u, unit) syscall"
  g_opendir :: "string \<Rightarrow> ('u, unit) syscall"
  g_readdir :: "int \<Rightarrow> ('u, string) syscall"
  g_readlink :: "string \<Rightarrow> nat \<Rightarrow> ('u, string) syscall"
  NAME_MAX :: nat
  g_pitoa :: "int \<Rightarrow> string"

text \<open>The request and the handle are arguments of the functions below.\<close>

record eg2_server_processor =
  q_pth :: tid
  q_sock :: int
  q_pool :: pool

definition DISTANT_PAST :: string where
  "DISTANT_PAST = ''Thu, 01 Dec 1994 16:00:00 GMT''"

definition NO_CACHE_HEADERS :: "(string \<times> string) list" where
  "NO_CACHE_HEADERS = [(''Cache-Control'', ''must-revalidate''), (''Expires'', DISTANT_PAST), (''Pragma'', ''no-cache'')]"

section \<open>Answers\<close>

definition on_file :: "('u, 'x) syscall \<Rightarrow> (('v, 'j, 'P, 'm, 'u) world, int \<times> 'x) io" where
  "on_file f = bindW (liftW (do_sys f)) (\<lambda>(r, e, x). retW (r, x))"

abbreviation DQ :: char where "DQ \<equiv> CHR 0x22"

definition not_found_page :: string where
  "not_found_page =
     ''<html><head><title>File or directory not found</title></head>'' @ CRLF @
     ''<body bgcolor='' @ [DQ] @ ''#ffffff'' @ [DQ] @ ''>'' @ CRLF @
     ''<h1>404 File or directory not found</h1>'' @ CRLF @
     ''The file you requested was not found on this server.'' @ CRLF @
     ''</body></html>'' @ CRLF"

definition page_headers :: "(string \<times> string) list" where
  "page_headers = (''Content-Type'', ''text/html'') # NO_CACHE_HEADERS"

definition file_not_found_error :: "('w, 'h) http_env \<Rightarrow> pool \<Rightarrow> 'h http_request \<Rightarrow> ('w, bool) io" where
  "file_not_found_error E p rq =
     bindW (send_head E p rq 404 ''File or directory not found'' page_headers) (\<lambda>close.
     if http_request_is_HEAD rq then retW close
     else bindW (io_fprintf (h_io E) not_found_page) (\<lambda>_. retW close))"

definition moved_headers :: "string \<Rightarrow> (string \<times> string) list" where
  "moved_headers location = [(''Content-Length'', ''0''), (''Location'', location)]"

definition moved_permanently :: "('w, 'h) http_env \<Rightarrow> pool \<Rightarrow> 'h http_request \<Rightarrow> string \<Rightarrow> ('w, bool) io" where
  "moved_permanently E p rq location = send_head E p rq 301 ''Moved permanently'' (moved_headers location)"

definition type_name :: "file_type \<Rightarrow> string" where
  "type_name ft = (case ft of S_IFDIR \<Rightarrow> ''dir'' | S_IFREG \<Rightarrow> ''file'' | S_IFLNK \<Rightarrow> ''link'' | S_IFOTHER \<Rightarrow> ''special'')"

definition directory_row :: "stat \<Rightarrow> string \<Rightarrow> string" where
  "directory_row st name =
     ''<tr><td>[ '' @ type_name (st_type st) @ '' ]</td><td align=right>'' @ show_int (c_int (st_size st)) @
     ''</td><td><a href='' @ [DQ] @ name @ (if st_type st = S_IFDIR then ''/'' else []) @ [DQ] @ ''>'' @ name @ ''</a>''"

text \<open>The row of one name of a directory; a name that cannot be examined is left out.\<close>

definition directory_entry ::
  "('v, 'j, 'P, 'm, 'u) world io_ops \<Rightarrow> 'u eg2_sys \<Rightarrow> string \<Rightarrow> string \<Rightarrow> (('v, 'j, 'P, 'm, 'u) world, unit) io" where
  "directory_entry IO S pathname name =
     bindW (on_file (g_lstat S (pathname @ ''/'' @ name))) (\<lambda>(r, st).
     if r \<noteq> 0 then retW ()
     else bindW (io_fprintf IO (directory_row st name)) (\<lambda>_.
       bindW (if st_type st = S_IFLNK
              then bindW (on_file (g_readlink S (pathname @ ''/'' @ name) (NAME_MAX S))) (\<lambda>(r, link).
                   io_fprintf IO ('' -&gt; '' @ (if r \<ge> 0 then c_str link else ''unknown'')))
              else retW 0) (\<lambda>_.
       bindW (io_fputs IO (''</td></tr>'' @ CRLF)) (\<lambda>_. retW ()))))"

partial_function (option) directory_loop ::
  "('v, 'j, 'P, 'm, 'u) world io_ops \<Rightarrow> 'u eg2_sys \<Rightarrow> string \<Rightarrow> int \<Rightarrow> io_handle \<times> ('v, 'j, 'P, 'm, 'u) world
     \<Rightarrow> (unit outcome \<times> io_handle \<times> ('v, 'j, 'P, 'm, 'u) world) option" where
  "directory_loop IO S pathname dir s =
     bindW (on_file (g_readdir S dir)) (\<lambda>x.
       if fst x < 0 then retW ()
       else bindW (if c_nth (snd x) 0 \<noteq> CHR ''.'' then directory_entry IO S pathname (snd x) else retW ()) (\<lambda>_.
            directory_loop IO S pathname dir)) s"

definition directory_title :: "string \<Rightarrow> string" where
  "directory_title pathname =
     ''<html><head><title>Directory: '' @ pathname @ ''</title></head>'' @ CRLF @
     ''<body bgcolor='' @ [DQ] @ ''#ffffff'' @ [DQ] @ ''>'' @ CRLF @
     ''<h1>Directory: '' @ pathname @ ''</h1>'' @ CRLF @ ''<table>'' @ CRLF @
     ''<tr><td></td><td></td><td><a href='' @ [DQ] @ ''..'' @ [DQ] @ ''>Parent directory</a></td></tr>'' @ CRLF"

text \<open>The last character of an empty path would be read before the start of the string.\<close>

definition serve_directory ::
  "(('v, 'j, 'P, 'm, 'u) world, 'h) http_env \<Rightarrow> 'u eg2_sys \<Rightarrow> pool \<Rightarrow> 'h http_request \<Rightarrow> string
     \<Rightarrow> (('v, 'j, 'P, 'm, 'u) world, bool) io" where
  "serve_directory E S p rq pathname =
     (if pathname = [] then (\<lambda>_. None)
      else if last pathname \<noteq> CHR ''/'' then moved_permanently E p rq (pathname @ ''/'')
      else bindW (on_file (g_opendir S pathname)) (\<lambda>(dir, _).
        if dir < 0 then file_not_found_error E p rq
        else bindW (send_head E p rq 200 ''OK'' page_headers) (\<lambda>close.
          if http_request_is_HEAD rq then retW close
          else bindW (io_fprintf (h_io E) (directory_title pathname)) (\<lambda>_.
            bindW (directory_loop (h_io E) S pathname dir) (\<lambda>_.
            bindW (io_fprintf (h_io E) (''</table></body></html>'' @ CRLF)) (\<lambda>_. retW close))))))"

partial_function (option) send_file ::
  "('v, 'j, 'P, 'm, 'u) world io_ops \<Rightarrow> 'u eg2_sys \<Rightarrow> int \<Rightarrow> io_handle \<times> ('v, 'j, 'P, 'm, 'u) world
     \<Rightarrow> (unit outcome \<times> io_handle \<times> ('v, 'j, 'P, 'm, 'u) world) option" where
  "send_file IO S fdn s =
     bindW (on_file (g_read S fdn 4096)) (\<lambda>x.
       if fst x > 0 then bindW (io_fwrite IO (snd x)) (\<lambda>_. send_file IO S fdn) else retW ()) s"

definition file_headers :: "'u eg2_sys \<Rightarrow> stat \<Rightarrow> (string \<times> string) list" where
  "file_headers S st = [(''Content-Type'', ''text/plain''), (''Content-Length'', g_pitoa S (c_int (st_size st)))]"

definition serve_file ::
  "(('v, 'j, 'P, 'm, 'u) world, 'h) http_env \<Rightarrow> 'u eg2_sys \<Rightarrow> pool \<Rightarrow> 'h http_request \<Rightarrow> string \<Rightarrow> stat
     \<Rightarrow> (('v, 'j, 'P, 'm, 'u) world, bool) io" where
  "serve_file E S p rq pathname st =
     bindW (on_file (g_open S pathname)) (\<lambda>(fdn, _).
     if fdn < 0 then file_not_found_error E p rq
     else bindW (send_head E p rq 200 ''OK'' (file_headers S st)) (\<lambda>cl.
       if http_request_is_HEAD rq then retW cl
       else bindW (send_file (h_io E) S fdn) (\<lambda>_.
         bindW (on_file (g_close S fdn)) (\<lambda>_. retW cl))))"

section \<open>The thread of a connection\<close>

definition serve_request ::
  "(('v, 'j, 'P, 'm, 'u) world, 'h) http_env \<Rightarrow> 'u eg2_sys \<Rightarrow> pool \<Rightarrow> 'h http_request
     \<Rightarrow> (('v, 'j, 'P, 'm, 'u) world, bool) io" where
  "serve_request E S p rq =
     bindW (on_file (g_stat S (http_request_path rq))) (\<lambda>(r, st).
     if r = -1 then file_not_found_error E p rq
     else if st_type st = S_IFDIR then serve_directory E S p rq (http_request_path rq)
     else if st_type st = S_IFREG then serve_file E S p rq (http_request_path rq) st
     else file_not_found_error E p rq)"

definition serve_loop ::
  "(('v, 'j, 'P, 'm, 'u) world, 'h) http_env \<Rightarrow> 'u eg2_sys \<Rightarrow> pool \<Rightarrow> (('v, 'j, 'P, 'm, 'u) world, unit) io" where
  "serve_loop E S p = request_loop E p (serve_request E S p)"

definition eg2_run ::
  "('v, 'j, 'P, 'm, 'u) kernel \<Rightarrow> (('v, 'j, 'P, 'm, 'u) world, 'h) http_env \<Rightarrow> 'u eg2_sys \<Rightarrow> ('u \<Rightarrow> addr \<times> string \<times> string)
     \<Rightarrow> eg2_server_processor \<Rightarrow> (('v, 'j, 'P, 'm, 'u) world, unit) comp" where
  "eg2_run K E S blk p =
     bindW (open_handle K blk (q_sock p)) (\<lambda>io.
     bindW (with_handle io (bindW (serve_loop E S (q_pool p)) (\<lambda>_. io_fclose K (h_io E)))) (\<lambda>_. pth_exit))"

text \<open>\<open>pl\<close> is the pool that \<open>new_pool\<close> gives, \<open>run\<close> and \<open>a\<close> the numbers of the function and of the object.\<close>

definition new_eg2_server_processor ::
  "('v, 'j, 'P, 'm, 'u) kernel \<Rightarrow> pool \<Rightarrow> nat \<Rightarrow> nat \<Rightarrow> tid \<Rightarrow> int
     \<Rightarrow> (('v, 'j, 'P, 'm, 'u) world, eg2_server_processor) comp" where
  "new_eg2_server_processor K pl run a t sk w =
     do {
       (pth, w1) \<leftarrow> new_pseudothread K pl run a ''eg2_server_processor'' t w;
       w2 \<leftarrow> pth_start K pth w1;
       Some (Ret \<lparr>q_pth = pth, q_sock = sk, q_pool = pl\<rparr>, w2)
     }"

definition start_processor ::
  "('v, 'j, 'P, 'm, 'u) kernel \<Rightarrow> pool \<Rightarrow> nat \<Rightarrow> nat \<Rightarrow> tid \<Rightarrow> int \<Rightarrow> nat \<Rightarrow> (('v, 'j, 'P, 'm, 'u) world, unit) comp" where
  "start_processor K pl run a t sk d = bindW (new_eg2_server_processor K pl run a t sk) (\<lambda>_. retW ())"

text \<open>What the process does on a signal; \<open>SA_RESTART\<close> makes interrupted system calls go on.\<close>

datatype signal = SIGINT | SIGQUIT | SIGTERM | SIGPIPE | SIG_other nat

datatype sig_action = SIG_DFL | SIG_IGN | Catch_quit_signal

definition catch_signals :: "(signal \<Rightarrow> sig_action \<times> bool) \<Rightarrow> signal \<Rightarrow> sig_action \<times> bool" where
  "catch_signals sg =
     sg(SIGINT := (Catch_quit_signal, True), SIGQUIT := (Catch_quit_signal, True), SIGTERM := (Catch_quit_signal, True),
        SIGPIPE := (SIG_IGN, True))"

definition catch_quit_signal :: "'r proc" where
  "catch_quit_signal = Exited 0"

text \<open>\<open>serve\<close> is the part of the main loop from the listener on, which runs with the signals \<open>sg\<close>.\<close>

definition eg2_main ::
  "string \<Rightarrow> srv_env \<Rightarrow> (char \<times> string) list \<Rightarrow> ((signal \<Rightarrow> sig_action \<times> bool) \<Rightarrow> nat \<Rightarrow> process \<Rightarrow> 'r proc)
     \<Rightarrow> (signal \<Rightarrow> sig_action \<times> bool) \<Rightarrow> process \<Rightarrow> 'r proc" where
  "eg2_main pkg env opts serve sg s =
     pthr_server_main_loop (pthr_server_username ''nobody'' (pthr_server_chroot ''/tmp'' (server_defaults pkg))) env opts
       (serve (catch_signals sg)) s"

section \<open>What a client sees\<close>

text \<open>
  A file system as the server sees it: what \<open>stat\<close> and \<open>lstat\<close> say of a name, the bytes of a file that can
  be opened, the names in a directory that can be opened, and the target of a link.
\<close>

record filesys =
  node :: "string \<Rightarrow> stat option"
  lnode :: "string \<Rightarrow> stat option"
  content :: "string \<Rightarrow> string option"
  listing :: "string \<Rightarrow> string list option"
  target :: "string \<Rightarrow> string option"

definition link_text :: "filesys \<Rightarrow> string \<Rightarrow> string" where
  "link_text F n = '' -&gt; '' @ (case target F n of None \<Rightarrow> ''unknown'' | Some l \<Rightarrow> l)"

definition row_text :: "filesys \<Rightarrow> string \<Rightarrow> string \<Rightarrow> string" where
  "row_text F n name =
     (case lnode F (n @ ''/'' @ name) of
        None \<Rightarrow> []
      | Some st \<Rightarrow> directory_row st name @ (if st_type st = S_IFLNK then link_text F (n @ ''/'' @ name) else []) @ ''</td></tr>'' @ CRLF)"

definition shown :: "string \<Rightarrow> bool" where
  "shown name \<longleftrightarrow> c_nth name 0 \<noteq> CHR ''.''"

definition page_text :: "filesys \<Rightarrow> string \<Rightarrow> string list \<Rightarrow> string" where
  "page_text F n names =
     directory_title n @ concat (map (row_text F n) (filter shown names)) @ ''</table></body></html>'' @ CRLF"

definition body_of :: "'h http_request \<Rightarrow> string \<Rightarrow> string" where
  "body_of rq t = (if http_request_is_HEAD rq then [] else t)"

definition not_found_answer :: "('w, 'h) http_env \<Rightarrow> 'h http_request \<Rightarrow> string \<times> bool" where
  "not_found_answer E rq =
     (head_text E rq 404 ''File or directory not found'' page_headers @ body_of rq not_found_page, last_answer E rq page_headers)"

definition file_answer :: "('w, 'h) http_env \<Rightarrow> 'u eg2_sys \<Rightarrow> filesys \<Rightarrow> 'h http_request \<Rightarrow> string \<Rightarrow> stat \<Rightarrow> string \<times> bool" where
  "file_answer E S F rq n st =
     (case content F n of
        None \<Rightarrow> not_found_answer E rq
      | Some c \<Rightarrow> (head_text E rq 200 ''OK'' (file_headers S st) @ body_of rq c, last_answer E rq (file_headers S st)))"

definition directory_answer :: "('w, 'h) http_env \<Rightarrow> filesys \<Rightarrow> 'h http_request \<Rightarrow> string \<Rightarrow> string \<times> bool" where
  "directory_answer E F rq n =
     (if last n \<noteq> CHR ''/''
      then (head_text E rq 301 ''Moved permanently'' (moved_headers (n @ ''/'')), last_answer E rq (moved_headers (n @ ''/'')))
      else (case listing F n of
              None \<Rightarrow> not_found_answer E rq
            | Some ns \<Rightarrow> (head_text E rq 200 ''OK'' page_headers @ body_of rq (page_text F n ns), last_answer E rq page_headers)))"

definition answer :: "('w, 'h) http_env \<Rightarrow> 'u eg2_sys \<Rightarrow> filesys \<Rightarrow> 'h http_request \<Rightarrow> string \<times> bool" where
  "answer E S F rq =
     (case node F (http_request_path rq) of
        None \<Rightarrow> not_found_answer E rq
      | Some st \<Rightarrow>
          if st_type st = S_IFDIR then directory_answer E F rq (http_request_path rq)
          else if st_type st = S_IFREG then file_answer E S F rq (http_request_path rq) st
          else not_found_answer E rq)"

text \<open>Names without zero bytes, and no formatted text of exactly 4096 bytes, which \<open>io_fprintf\<close> truncates.\<close>

definition entry_ok :: "filesys \<Rightarrow> string \<Rightarrow> string \<Rightarrow> bool" where
  "entry_ok F n name \<longleftrightarrow> NUL \<notin> set name \<and> (\<forall>st. lnode F (n @ ''/'' @ name) = Some st \<longrightarrow> length (directory_row st name) \<noteq> 4096) \<and>
     NUL \<notin> set (link_text F (n @ ''/'' @ name)) \<and> length (link_text F (n @ ''/'' @ name)) \<noteq> 4096"

definition name_ok :: "filesys \<Rightarrow> string \<Rightarrow> bool" where
  "name_ok F n \<longleftrightarrow> n \<noteq> [] \<and> NUL \<notin> set n \<and> length (directory_title n) \<noteq> 4096 \<and>
     (\<forall>ns. listing F n = Some ns \<longrightarrow> list_all (entry_ok F n) ns)"

text \<open>The names that are left in a directory stream, each with its terminating zero byte.\<close>

definition dirents :: "string list \<Rightarrow> string" where
  "dirents ns = concat (map (\<lambda>n. n @ [NUL]) ns)"

text \<open>
  Files and directories are opened on descriptors outside \<open>socks\<close>, the sockets of connections. \<open>rest\<close> of
  such a descriptor is what has not been read yet.
\<close>

locale file_server =
  http_thread K t rd wr cl busy rest sent pinv live sub own blk E socks
  for K :: "('v, 'j, 'P, 'm, 'u) kernel" and t :: tid
    and rd :: "int \<Rightarrow> nat \<Rightarrow> ('u, string) syscall" and wr :: "int \<Rightarrow> string \<Rightarrow> ('u, unit) syscall"
    and cl :: "int \<Rightarrow> ('u, unit) syscall" and busy :: "'u \<Rightarrow> nat"
    and rest :: "'u \<Rightarrow> int \<Rightarrow> string" and sent :: "'u \<Rightarrow> int \<Rightarrow> string"
    and pinv :: "'P \<Rightarrow> bool" and live :: "'P \<Rightarrow> pool set"
    and sub :: "'P \<Rightarrow> pool \<Rightarrow> pool set" and own :: "'P \<Rightarrow> pool \<Rightarrow> cleanup multiset" and blk :: "'u \<Rightarrow> addr \<times> string \<times> string"
    and E :: "(('v, 'j, 'P, 'm, 'u) world, 'h) http_env" and socks :: "int set" +
  fixes S :: "'u eg2_sys" and F :: filesys
  assumes stat_law: "\<exists>e st u'. g_stat S n u = ((if node F n = None then -1 else 0, e, st), u') \<and> rest u' = rest u \<and> sent u' = sent u \<and>
      (node F n = None \<or> node F n = Some st)"
    and lstat_law: "\<exists>e st u'. g_lstat S n u = ((if lnode F n = None then -1 else 0, e, st), u') \<and> rest u' = rest u \<and> sent u' = sent u \<and>
      (lnode F n = None \<or> lnode F n = Some st)"
    and readlink_law: "\<exists>e l u'. g_readlink S n k u = ((if target F n = None then -1 else int (length l), e, l), u') \<and>
      rest u' = rest u \<and> sent u' = sent u \<and> (target F n = None \<or> target F n = Some (c_str l))"
    and open_law: "\<exists>r e u'. g_open S n u = ((r, e, ()), u') \<and> sent u' = sent u \<and>
      (case content F n of None \<Rightarrow> r < 0 \<and> rest u' = rest u | Some c \<Rightarrow> 0 \<le> r \<and> r \<notin> socks \<and> rest u' = (rest u)(r := c))"
    and opendir_law: "\<exists>r e u'. g_opendir S n u = ((r, e, ()), u') \<and> sent u' = sent u \<and>
      (case listing F n of None \<Rightarrow> r < 0 \<and> rest u' = rest u | Some ns \<Rightarrow> 0 \<le> r \<and> r \<notin> socks \<and> rest u' = (rest u)(r := dirents ns))"
    and file_read: "g_read S d k u = ((r, e, cs), u') \<Longrightarrow> 0 < k \<Longrightarrow> d \<notin> socks \<Longrightarrow> r = int (length cs) \<and>
      rest u d = cs @ rest u' d \<and> (cs = [] \<longrightarrow> rest u d = []) \<and> (\<forall>v. v \<noteq> d \<longrightarrow> rest u' v = rest u v) \<and> sent u' = sent u"
    and readdir_law: "d \<notin> socks \<Longrightarrow> rest u d = dirents ns \<Longrightarrow> list_all (\<lambda>m. NUL \<notin> set m) ns \<Longrightarrow> \<exists>r e x u'. g_readdir S d u = ((r, e, x), u') \<and> sent u' = sent u \<and>
      (case ns of [] \<Rightarrow> r < 0 \<and> rest u' = rest u | m # ms \<Rightarrow> 0 \<le> r \<and> x = m \<and> rest u' = (rest u)(d := dirents ms))"
    and file_close: "\<exists>r e u'. g_close S d u = ((r, e, ()), u') \<and> rest u' = rest u \<and> sent u' = sent u"
    and pitoa_law: "g_pitoa S i = show_int i"
begin

lemma puts_file:
  assumes "io_ok io" "ready q w" "f (os w) = ((r, e, x), u)" "rest u = rest (os w)" "sent u = sent (os w)"
  shows "puts q (on_file f) io w (r, x) []"
proof -
  have "on_file f (io, w) = Some (Ret (r, x), io, set_os u w)"
    using assms(3) by (simp add: on_file_def bindW_def liftW_def do_sys_def retW_def)
  moreover have "ready q (set_os u w)" using assms(2) by simp
  ultimately show ?thesis
    unfolding puts_def using assms(1,4,5) by (intro exI [of _ io] exI [of _ "set_os u w"]) (simp add: produced_def unread_def)
qed

text \<open>The answers that do not read a file.\<close>

lemma puts_not_found:
  assumes "io_ok io" "ready q w" "\<not> is_http09 rq"
  shows "puts q (file_not_found_error E p rq) io w (snd (not_found_answer E rq)) (fst (not_found_answer E rq))"
proof -
  have c: "NUL \<notin> set ''File or directory not found''" "list_all (\<lambda>x. NUL \<notin> set (fst x) \<and> NUL \<notin> set (snd x)) page_headers"
    "length (''HTTP/1.1 '' @ show_int 404 @ '' '' @ ''File or directory not found'' @ CRLF) \<noteq> 4096"
    "NUL \<notin> set not_found_page" "length not_found_page \<noteq> 4096"
    by code_simp+
  show ?thesis
  proof (cases "http_request_is_HEAD rq")
    case True
    then show ?thesis
      unfolding file_not_found_error_def not_found_answer_def body_of_def
      by (simp only: if_True fst_conv snd_conv) (rule puts_bind [OF puts_head [OF assms c(1-3)]], rule puts_ret)
  next
    case False
    have "puts q (file_not_found_error E p rq) io w (last_answer E rq page_headers)
        (head_text E rq 404 ''File or directory not found'' page_headers @ not_found_page @ [])"
      unfolding file_not_found_error_def
      by (rule puts_bind [OF puts_head [OF assms c(1-3)]], simp only: False if_False,
          rule puts_bind [OF puts_fprintf [OF _ _ c(4,5)]], assumption+, rule puts_ret)
    then show ?thesis using False by (simp add: not_found_answer_def body_of_def)
  qed
qed

lemma puts_moved:
  assumes "io_ok io" "ready q w" "\<not> is_http09 rq" "NUL \<notin> set n"
  shows "puts q (moved_permanently E p rq (n @ ''/'')) io w (last_answer E rq (moved_headers (n @ ''/'')))
    (head_text E rq 301 ''Moved permanently'' (moved_headers (n @ ''/'')))"
proof -
  have "length (''HTTP/1.1 '' @ show_int 301 @ '' '' @ ''Moved permanently'' @ CRLF) \<noteq> 4096" by code_simp
  then show ?thesis
    unfolding moved_permanently_def using assms by (intro puts_head) (simp_all add: moved_headers_def)
qed

text \<open>A row of a listing.\<close>

lemma row_clean: "NUL \<notin> set name \<Longrightarrow> NUL \<notin> set (directory_row st name)"
proof -
  have "NUL \<notin> set (dec k)" for k using dec_digits(1) [of k] digit_not_special(6) by (auto simp: list_all_iff)
  then show "NUL \<notin> set name \<Longrightarrow> ?thesis" by (simp add: directory_row_def type_name_def show_int_def split: file_type.split)
qed

lemma puts_link:
  assumes a: "io_ok io" "ready q w" and n: "NUL \<notin> set (link_text F n)" "length (link_text F n) \<noteq> 4096"
  shows "puts q (bindW (on_file (g_readlink S n k)) (\<lambda>(r, link).
      io_fprintf (h_io E) ('' -&gt; '' @ (if r \<ge> 0 then c_str link else ''unknown'')))) io w (length (link_text F n)) ([] @ link_text F n)"
proof -
  obtain e x u where r: "g_readlink S n k (os w) = ((if target F n = None then -1 else int (length x), e, x), u)"
    "rest u = rest (os w)" "sent u = sent (os w)" "target F n = None \<or> target F n = Some (c_str x)" using readlink_law by blast
  have "'' -&gt; '' @ (if (if target F n = None then -1 else int (length x)) \<ge> 0 then c_str x else ''unknown'') = link_text F n"
    using r(4) by (auto simp: link_text_def)
  moreover have "puts q (io_fprintf (h_io E) (link_text F n)) io1 w1 (length (link_text F n)) (link_text F n)" if "io_ok io1" "ready q w1" for io1 w1
    by (rule puts_fprintf [OF that n])
  ultimately show ?thesis
    by (intro puts_bind [OF puts_file [where f = "g_readlink S n k", OF a r(1-3)]]) (simp only: prod.case)
qed

lemma puts_row:
  assumes "io_ok io" "ready q w" "entry_ok F n name"
  shows "puts q (directory_entry (h_io E) S n name) io w () (row_text F n name)"
proof -
  let ?n = "n @ ''/'' @ name" and ?stop = "''</td></tr>'' @ CRLF"
  obtain e st u where l: "g_lstat S ?n (os w) = ((if lnode F ?n = None then -1 else 0, e, st), u)" "rest u = rest (os w)"
    "sent u = sent (os w)" "lnode F ?n = None \<or> lnode F ?n = Some st" using lstat_law by blast
  note s = puts_file [where f = "g_lstat S (n @ ''/'' @ name)", OF assms(1,2) l(1-3)]
  have fin: "puts q (bindW (io_fputs (h_io E) ?stop) (\<lambda>_. retW ())) io1 w1 () (?stop @ [])" if "io_ok io1" "ready q w1" for io1 w1
    by (rule puts_bind [OF puts_fputs puts_ret]) (use that in simp_all)
  show ?thesis
  proof (cases "lnode F ?n")
    case None
    have "puts q (directory_entry (h_io E) S n name) io w () ([] @ [])"
      unfolding directory_entry_def by (rule puts_bind [OF s]) (use None in \<open>simp add: puts_ret\<close>)
    then show ?thesis using None by (simp add: row_text_def)
  next
    case (Some st')
    then have st: "st' = st" "length (directory_row st name) \<noteq> 4096" using l(4) assms(3) by (auto simp: entry_ok_def)
    let ?k = "if st_type st = S_IFLNK then length (link_text F ?n) else 0"
    let ?m = "if st_type st = S_IFLNK then link_text F ?n else []"
    have mid: "puts q (if st_type st = S_IFLNK
              then bindW (on_file (g_readlink S ?n (NAME_MAX S))) (\<lambda>(r, link). io_fprintf (h_io E) ('' -&gt; '' @ (if r \<ge> 0 then c_str link else ''unknown'')))
              else retW 0) io1 w1 ?k ?m" if "io_ok io1" "ready q w1" for io1 w1
      using puts_link [OF that] that assms(3) by (cases "st_type st = S_IFLNK") (simp_all add: puts_ret entry_ok_def)
    have tail: "puts q (bindW (if st_type st = S_IFLNK
              then bindW (on_file (g_readlink S ?n (NAME_MAX S))) (\<lambda>(r, link). io_fprintf (h_io E) ('' -&gt; '' @ (if r \<ge> 0 then c_str link else ''unknown'')))
              else retW 0) (\<lambda>_. bindW (io_fputs (h_io E) ?stop) (\<lambda>_. retW ()))) io1 w1 () (?m @ ?stop @ [])"
      if "io_ok io1" "ready q w1" for io1 w1
      by (rule puts_bind [OF mid [OF that]], rule fin)
    have name: "NUL \<notin> set name" using assms(3) by (simp add: entry_ok_def)
    have "puts q (directory_entry (h_io E) S n name) io w () ([] @ directory_row st name @ ?m @ ?stop @ [])"
      unfolding directory_entry_def
      by (rule puts_bind [OF s], simp only: prod.case Some option.simps if_False simp_thms,
          rule puts_bind [OF puts_fprintf [OF _ _ row_clean [OF name] st(2)]], assumption+, rule tail)
    then show ?thesis using Some st(1) by (simp add: row_text_def)
  qed
qed

end

lemma send_file_unfold:
  "send_file IO S d = bindW (on_file (g_read S d 4096)) (\<lambda>x.
       if fst x > 0 then bindW (io_fwrite IO (snd x)) (\<lambda>_. send_file IO S d) else retW ())"
  by (rule ext) (rule send_file.simps)

lemma directory_loop_unfold:
  "directory_loop IO S n d = bindW (on_file (g_readdir S d)) (\<lambda>x.
       if fst x < 0 then retW ()
       else bindW (if c_nth (snd x) 0 \<noteq> CHR ''.'' then directory_entry IO S n (snd x) else retW ()) (\<lambda>_.
            directory_loop IO S n d))"
  by (rule ext) (rule directory_loop.simps)

lemma on_file_run: "f (os w) = ((r, e, x), u) \<Longrightarrow> on_file f (io, w) = Some (Ret (r, x), io, set_os u w)"
  by (simp add: on_file_def bindW_def liftW_def do_sys_def retW_def)

context file_server
begin

lemma opened:
  assumes "serving io w" "rest u = (rest (os w))(d := c)" "sent u = sent (os w)" "d \<notin> socks"
  shows "said io w [] io (set_os u w)"
proof -
  have "sock io \<noteq> d" using assms(1,4) by (auto simp: serving_def)
  then show ?thesis using assms by (simp add: said_def serving_def produced_def unread_def)
qed

lemma send_file_says:
  assumes "serving io w" "d \<notin> socks" "rest (os w) d = c"
  shows "says (send_file (h_io E) S d) io w () c"
  using assms
proof (induction "length c" arbitrary: io w c rule: less_induct)
  case less
  obtain r e cs u where g: "g_read S d 4096 (os w) = ((r, e, cs), u)" by (metis prod.collapse)
  have k: "(0 :: nat) < 4096" by simp
  have r: "r = int (length cs)" "c = cs @ rest u d" "cs = [] \<longrightarrow> c = []" "\<forall>v. v \<noteq> d \<longrightarrow> rest u v = rest (os w) v" "sent u = sent (os w)"
    using file_read [OF g k less.prems(2)] unfolding less.prems(3) by blast+
  have d: "sock io \<noteq> d" using less.prems by (auto simp: serving_def)
  have up: "rest u = (rest (os w))(d := rest u d)" using r(4) by auto
  note o = opened [OF less.prems(1) up r(5) less.prems(2)]
  show ?case
  proof (cases "cs = []")
    case True
    then have "send_file (h_io E) S d (io, w) = Some (Ret (), io, set_os u w)"
      using r(1) by (subst send_file_unfold) (simp add: bindW_def on_file_run [of "g_read S d 4096", OF g] retW_def)
    then show ?thesis using o r(3) True unfolding says_def by auto
  next
    case False
    let ?w = "set_os u w"
    have sv: "io_ok io" "ready (io_pool io) ?w" using o by (auto simp: said_def serving_def)
    from socket.fwrite_spec [OF socket_with [OF holds_local holds_keeps] sv(2,1), of cs] obtain io1 w1 where
      f: "io_fwrite (pth_io K rd wr cl) cs (io, ?w) = Some (Ret (length cs), io1, w1)" "io_ok io1" "same_input io io1" "buffered io1 = []"
      "sent (os w1) = (sent u)(sock io := sent u (sock io) @ buffered io @ cs)" "rest (os w1) = rest u" "ready (io_pool io) w1" by auto
    have s1: "said io ?w cs io1 w1"
      using f o same_input_window [OF f(3)] by (auto simp: said_def serving_def same_input_def produced_def unread_def)
    have "length (rest u d) < length c" using r(2) False by simp
    moreover have "serving io1 w1" "rest (os w1) d = rest u d" using s1 f(6) by (simp_all add: said_def)
    ultimately have "says (send_file (h_io E) S d) io1 w1 () (rest u d)" using less.hyps less.prems(2) by blast
    then obtain io2 w2 where s2: "send_file (h_io E) S d (io1, w1) = Some (Ret (), io2, w2)" "said io1 w1 (rest u d) io2 w2"
      by (auto simp: says_def)
    have "send_file (h_io E) S d (io, w) = Some (Ret (), io2, w2)"
      using f(1) s2(1) r(1) False env(1) by (subst send_file_unfold) (simp add: bindW_def on_file_run [of "g_read S d 4096", OF g])
    moreover have "said io w c io2 w2" using said_trans [OF o said_trans [OF s1 s2(2)]] r(2) by simp
    ultimately show ?thesis unfolding says_def by blast
  qed
qed

lemma says_file:
  assumes "g (os w) = ((r, e, x), u)" "said io w [] io (set_os u w)" "says (f (r, x)) io (set_os u w) b y"
  shows "says (bindW (on_file g) f) io w b y"
proof -
  have "says (bindW (on_file g) f) io w b ([] @ y)"
    by (rule says_then [where m = "on_file g" and f = f, OF on_file_run [where f = g, OF assms(1)] assms(2,3)])
  then show ?thesis by simp
qed

lemma directory_loop_says:
  assumes "serving io w" "d \<notin> socks" "rest (os w) d = dirents ns" "list_all (entry_ok F n) ns"
  shows "says (directory_loop (h_io E) S n d) io w () (concat (map (row_text F n) (filter shown ns)))"
  using assms
proof (induction ns arbitrary: io w)
  case Nil
  obtain r e x u where g: "g_readdir S d (os w) = ((r, e, x), u)" "sent u = sent (os w)" "r < 0" "rest u = rest (os w)"
    using readdir_law [OF Nil.prems(2,3)] by auto
  have "directory_loop (h_io E) S n d (io, w) = Some (Ret (), io, set_os u w)"
    using g(3) by (subst directory_loop_unfold) (simp add: bindW_def on_file_run [of "g_readdir S d", OF g(1)] retW_def)
  then show ?case using unchanged [OF Nil.prems(1) g(4,2)] unfolding says_def by auto
next
  case (Cons m ms)
  obtain r e u where g: "g_readdir S d (os w) = ((r, e, m), u)" "sent u = sent (os w)" "0 \<le> r" "rest u = (rest (os w))(d := dirents ms)"
    using readdir_law [OF Cons.prems(2,3)] Cons.prems(4) by (auto simp: entry_ok_def list_all_iff)
  note o = opened [OF Cons.prems(1) g(4,2) Cons.prems(2)]
  let ?w = "set_os u w" and ?row = "if shown m then row_text F n m else []"
  have sv: "serving io ?w" "sock io \<noteq> d" "entry_ok F n m" using o Cons.prems by (auto simp: said_def serving_def)
  have "puts (io_pool io) (if c_nth m 0 \<noteq> CHR ''.'' then directory_entry (h_io E) S n m else retW ()) io ?w () ?row"
    using sv(1,3) puts_row [where io = io and w = ?w and n = n and name = m] by (simp add: serving_def puts_ret shown_def)
  from puts_said [OF this sv(1)] sv(2) g(4) obtain io1 w1 where
    r: "(if c_nth m 0 \<noteq> CHR ''.'' then directory_entry (h_io E) S n m else retW ()) (io, ?w) = Some (Ret (), io1, w1)"
    "said io ?w ?row io1 w1" "rest (os w1) d = dirents ms" by auto
  have "says (directory_loop (h_io E) S n d) io1 w1 () (concat (map (row_text F n) (filter shown ms)))"
    using Cons.IH [of io1 w1] r(2,3) Cons.prems(2,4) by (simp add: said_def)
  then have "says (bindW (if c_nth m 0 \<noteq> CHR ''.'' then directory_entry (h_io E) S n m else retW ()) (\<lambda>_. directory_loop (h_io E) S n d))
      io ?w () (?row @ concat (map (row_text F n) (filter shown ms)))"
    by (rule says_then [where m = "if c_nth m 0 \<noteq> CHR ''.'' then directory_entry (h_io E) S n m else retW ()", OF r(1,2)])
  then obtain io2 w2 where l: "bindW (if c_nth m 0 \<noteq> CHR ''.'' then directory_entry (h_io E) S n m else retW ()) (\<lambda>_. directory_loop (h_io E) S n d)
      (io, ?w) = Some (Ret (), io2, w2)" "said io ?w (?row @ concat (map (row_text F n) (filter shown ms))) io2 w2" by (rule saysD)
  have "directory_loop (h_io E) S n d (io, w) = Some (Ret (), io2, w2)"
    using l(1) g(3) unfolding not_less [symmetric]
    by (subst directory_loop_unfold)
      (simp only: bindW_Ret [where m = "on_file (g_readdir S d)", OF on_file_run [of "g_readdir S d", OF g(1)]] fst_conv snd_conv if_False)
  moreover have "said io w (concat (map (row_text F n) (filter shown (m # ms)))) io2 w2"
    using said_trans [OF o l(2)] by (simp split: if_splits)
  ultimately show ?case unfolding says_def by blast
qed

text \<open>An answer with a body that is read from the descriptor \<open>r\<close>, which has just been opened.\<close>

lemma opened_says:
  assumes sv: "serving io w" and rq: "\<not> is_http09 rq" and hs: "list_all (\<lambda>x. NUL \<notin> set (fst x) \<and> NUL \<notin> set (snd x)) hs"
    and u: "rest u = (rest (os w))(r := c)" "sent u = sent (os w)" "r \<notin> socks"
    and body: "\<And>io1 w1. serving io1 w1 \<Longrightarrow> rest (os w1) r = c \<Longrightarrow> says (body (last_answer E rq hs)) io1 w1 (last_answer E rq hs) x"
  shows "says (bindW (send_head E p rq 200 ''OK'' hs) (\<lambda>cl. if http_request_is_HEAD rq then retW cl else body cl))
    io (set_os u w) (last_answer E rq hs) (head_text E rq 200 ''OK'' hs @ body_of rq x)"
proof -
  let ?w = "set_os u w"
  have sv1: "serving io ?w" "sock io \<noteq> r" using opened [OF sv u] u(3) by (auto simp: said_def serving_def)
  have len: "length (''HTTP/1.1 '' @ show_int 200 @ '' '' @ ''OK'' @ CRLF) \<noteq> 4096" by code_simp
  have "puts (io_pool io) (send_head E p rq 200 ''OK'' hs) io ?w (last_answer E rq hs) (head_text E rq 200 ''OK'' hs)"
    by (rule puts_head [OF _ _ rq _ hs len]) (use sv1 in \<open>simp_all add: serving_def\<close>)
  from puts_said [OF this sv1(1)] sv1(2) u(1) obtain io1 w1 where
    h: "send_head E p rq 200 ''OK'' hs (io, ?w) = Some (Ret (last_answer E rq hs), io1, w1)"
    "said io ?w (head_text E rq 200 ''OK'' hs) io1 w1" "rest (os w1) r = c" by auto
  have sv2: "serving io1 w1" using h(2) by (simp add: said_def)
  have "says (if http_request_is_HEAD rq then retW (last_answer E rq hs) else body (last_answer E rq hs)) io1 w1
      (last_answer E rq hs) (body_of rq x)"
    using body [OF sv2 h(3)] by (simp add: body_of_def says_ret [OF sv2])
  then show ?thesis
    by (rule says_then [where m = "send_head E p rq 200 ''OK'' hs" and f = "\<lambda>cl. if http_request_is_HEAD rq then retW cl else body cl", OF h(1,2)])
qed

lemma not_found_says:
  "serving io w \<Longrightarrow> \<not> is_http09 rq \<Longrightarrow> says (file_not_found_error E p rq) io w (snd (not_found_answer E rq)) (fst (not_found_answer E rq))"
  by (rule says_puts [OF puts_not_found]) (simp_all add: serving_def)

lemma file_body_says:
  assumes sv: "serving io w" and d: "r \<notin> socks" "rest (os w) r = c"
  shows "says (bindW (send_file (h_io E) S r) (\<lambda>_. bindW (on_file (g_close S r)) (\<lambda>_. retW a))) io w a c"
proof -
  obtain io2 w2 where f: "send_file (h_io E) S r (io, w) = Some (Ret (), io2, w2)" "said io w c io2 w2"
    using send_file_says [OF sv d] by (rule saysD)
  obtain q e u where g: "g_close S r (os w2) = ((q, e, ()), u)" "rest u = rest (os w2)" "sent u = sent (os w2)"
    using file_close by blast
  have sv2: "serving io2 w2" using f(2) by (simp add: said_def)
  note cl = unchanged [OF sv2 g(2,3)]
  have "says (bindW (on_file (g_close S r)) (\<lambda>_. retW a)) io2 w2 a []"
    by (rule says_file, rule g(1), rule cl, rule says_ret) (use cl in \<open>simp add: said_def\<close>)
  from says_then [where m = "send_file (h_io E) S r", OF f, of "\<lambda>_. bindW (on_file (g_close S r)) (\<lambda>_. retW a)", OF this]
  show ?thesis by simp
qed

lemma serve_file_says:
  assumes sv: "serving io w" and rq: "\<not> is_http09 rq"
  shows "says (serve_file E S p rq n st) io w (snd (file_answer E S F rq n st)) (fst (file_answer E S F rq n st))"
proof -
  obtain r e u where o: "g_open S n (os w) = ((r, e, ()), u)" "sent u = sent (os w)"
    "case content F n of None \<Rightarrow> r < 0 \<and> rest u = rest (os w) | Some c \<Rightarrow> 0 \<le> r \<and> r \<notin> socks \<and> rest u = (rest (os w))(r := c)"
    using open_law by blast
  show ?thesis
  proof (cases "content F n")
    case None
    have "serving io (set_os u w)" using sv by (simp add: serving_def)
    note nf = not_found_says [OF this rq]
    have "says (serve_file E S p rq n st) io w (snd (not_found_answer E rq)) (fst (not_found_answer E rq))"
      unfolding serve_file_def by (rule says_file, rule o(1), rule unchanged [OF sv]) (use o(2,3) None nf in simp_all)
    then show ?thesis using None by (simp add: file_answer_def)
  next
    case (Some c)
    let ?hs = "file_headers S st"
    have d: "r \<notin> socks" "0 \<le> r" "rest u = (rest (os w))(r := c)" using o(3) Some by simp_all
    have "NUL \<notin> set (show_int k)" for k
      using dec_digits(1) digit_not_special(6) by (auto simp: list_all_iff show_int_def)
    then have hs: "list_all (\<lambda>x. NUL \<notin> set (fst x) \<and> NUL \<notin> set (snd x)) ?hs" by (simp add: file_headers_def pitoa_law)
    note sh = opened_says [where body = "\<lambda>a. bindW (send_file (h_io E) S r) (\<lambda>_. bindW (on_file (g_close S r)) (\<lambda>_. retW a))",
        OF sv rq hs d(3) o(2) d(1) file_body_says [OF _ d(1)]]
    have "says (serve_file E S p rq n st) io w (last_answer E rq ?hs) (head_text E rq 200 ''OK'' ?hs @ body_of rq c)"
      unfolding serve_file_def by (rule says_file, rule o(1), rule opened [OF sv d(3) o(2) d(1)]) (use d(2) sh in simp)
    then show ?thesis using Some by (simp add: file_answer_def)
  qed
qed

lemma page_says:
  assumes sv: "serving io w" and d: "r \<notin> socks" "rest (os w) r = dirents ns" and n: "name_ok F n" "listing F n = Some ns"
  shows "says (bindW (io_fprintf (h_io E) (directory_title n)) (\<lambda>_. bindW (directory_loop (h_io E) S n r) (\<lambda>_.
      bindW (io_fprintf (h_io E) (''</table></body></html>'' @ CRLF)) (\<lambda>_. retW a)))) io w a (page_text F n ns)"
proof -
  let ?stop = "''</table></body></html>'' @ CRLF"
  have t: "NUL \<notin> set (directory_title n)" "length (directory_title n) \<noteq> 4096" "list_all (entry_ok F n) ns"
    using n by (simp_all add: name_ok_def directory_title_def)
  have e: "NUL \<notin> set ?stop" "length ?stop \<noteq> 4096" by code_simp+
  have dd: "sock io \<noteq> r" using sv d(1) by (auto simp: serving_def)
  have "puts (io_pool io) (io_fprintf (h_io E) (directory_title n)) io w (length (directory_title n)) (directory_title n)"
    by (rule puts_fprintf [OF _ _ t(1,2)]) (use sv in \<open>simp_all add: serving_def\<close>)
  from puts_said [OF this sv] dd d(2) obtain io2 w2 where
    a: "io_fprintf (h_io E) (directory_title n) (io, w) = Some (Ret (length (directory_title n)), io2, w2)"
    "said io w (directory_title n) io2 w2" "rest (os w2) r = dirents ns" by auto
  have sv2: "serving io2 w2" using a(2) by (simp add: said_def)
  obtain io3 w3 where b: "directory_loop (h_io E) S n r (io2, w2) = Some (Ret (), io3, w3)"
    "said io2 w2 (concat (map (row_text F n) (filter shown ns))) io3 w3"
    using directory_loop_says [OF sv2 d(1) a(3) t(3)] by (rule saysD)
  have sv3: "serving io3 w3" using b(2) by (simp add: said_def)
  have "puts (io_pool io3) (bindW (io_fprintf (h_io E) ?stop) (\<lambda>_. retW a)) io3 w3 a (?stop @ [])"
    by (rule puts_bind [OF puts_fprintf [OF _ _ e]]) (use sv3 in \<open>simp_all add: serving_def puts_ret\<close>)
  note c = says_then [where m = "directory_loop (h_io E) S n r", OF b, of "\<lambda>_. bindW (io_fprintf (h_io E) ?stop) (\<lambda>_. retW a)",
      OF says_puts [OF this sv3]]
  from says_then [where m = "io_fprintf (h_io E) (directory_title n)", OF a(1,2), of "\<lambda>_. bindW (directory_loop (h_io E) S n r)
      (\<lambda>_. bindW (io_fprintf (h_io E) ?stop) (\<lambda>_. retW a))", OF c]
  show ?thesis by (simp add: page_text_def)
qed

lemma serve_directory_says:
  assumes sv: "serving io w" and rq: "\<not> is_http09 rq" and n: "name_ok F n"
  shows "says (serve_directory E S p rq n) io w (snd (directory_answer E F rq n)) (fst (directory_answer E F rq n))"
proof (cases "last n = CHR ''/''")
  case False
  then show ?thesis
    using says_puts [OF puts_moved [OF _ _ rq] sv] sv n by (simp add: serve_directory_def directory_answer_def serving_def name_ok_def)
next
  case slash: True
  obtain r e u where o: "g_opendir S n (os w) = ((r, e, ()), u)" "sent u = sent (os w)"
    "case listing F n of None \<Rightarrow> r < 0 \<and> rest u = rest (os w) | Some ns \<Rightarrow> 0 \<le> r \<and> r \<notin> socks \<and> rest u = (rest (os w))(r := dirents ns)"
    using opendir_law by blast
  have n0: "n \<noteq> []" using n by (simp add: name_ok_def)
  show ?thesis
  proof (cases "listing F n")
    case None
    have "serving io (set_os u w)" using sv by (simp add: serving_def)
    note nf = not_found_says [OF this rq]
    have "says (bindW (on_file (g_opendir S n)) (\<lambda>(dir, _). if dir < 0 then file_not_found_error E p rq else g dir)) io w
        (snd (not_found_answer E rq)) (fst (not_found_answer E rq))" for g
      by (rule says_file, rule o(1), rule unchanged [OF sv]) (use o(2,3) None nf in simp_all)
    then show ?thesis using None slash n0 by (simp add: serve_directory_def directory_answer_def)
  next
    case (Some ns)
    have d: "r \<notin> socks" "0 \<le> r" "rest u = (rest (os w))(r := dirents ns)" using o(3) Some by simp_all
    have hs: "list_all (\<lambda>x. NUL \<notin> set (fst x) \<and> NUL \<notin> set (snd x)) page_headers" by code_simp
    note sh = opened_says [where body = "\<lambda>a. bindW (io_fprintf (h_io E) (directory_title n)) (\<lambda>_. bindW (directory_loop (h_io E) S n r) (\<lambda>_.
        bindW (io_fprintf (h_io E) (''</table></body></html>'' @ CRLF)) (\<lambda>_. retW a)))",
        OF sv rq hs d(3) o(2) d(1) page_says [OF _ d(1) _ n Some]]
    have "says (serve_directory E S p rq n) io w (last_answer E rq page_headers)
        (head_text E rq 200 ''OK'' page_headers @ body_of rq (page_text F n ns))"
      unfolding serve_directory_def using n0 slash
      by (simp only: if_False simp_thms) (rule says_file, rule o(1), rule opened [OF sv d(3) o(2) d(1)], use d(2) sh in simp)
    then show ?thesis using Some slash by (simp add: directory_answer_def)
  qed
qed

lemma serve_request_says:
  assumes sv: "serving io w" and rq: "\<not> is_http09 rq" "name_ok F (http_request_path rq)"
  shows "says (serve_request E S p rq) io w (snd (answer E S F rq)) (fst (answer E S F rq))"
proof -
  let ?n = "http_request_path rq"
  obtain e st u where g: "g_stat S ?n (os w) = ((if node F ?n = None then -1 else 0, e, st), u)" "rest u = rest (os w)"
    "sent u = sent (os w)" "node F ?n = None \<or> node F ?n = Some st" using stat_law by blast
  note un = unchanged [OF sv g(2,3)]
  have sv1: "serving io (set_os u w)" using un by (simp add: said_def)
  have nf: "says (file_not_found_error E p rq) io (set_os u w) (snd (not_found_answer E rq)) (fst (not_found_answer E rq))"
    by (rule says_puts [OF puts_not_found [OF _ _ rq(1)]]) (use sv1 in \<open>simp_all add: serving_def\<close>)
  show ?thesis
    unfolding serve_request_def
    by (rule says_file, rule g(1), rule un)
      (use g(4) nf serve_file_says [OF sv1 rq(1)] serve_directory_says [OF sv1 rq] in \<open>auto simp: answer_def\<close>)
qed

lemma run_spec:
  assumes w: "runs t w" "settled pinv live t w" and p: "q_sock p \<in> socks"
    and cs: "list_all sendable cs" "list_all (\<lambda>c. name_ok F (url_path c)) cs" "rest (os w) (q_sock p) = concat (map request_bytes cs)"
  shows "\<exists>times w'. length times = length cs \<and> eg2_run K E S blk p w = Some (Exit_thread, w') \<and> runs t w' \<and> settled pinv live t w' \<and>
    sent (os w') (q_sock p) = sent (os w) (q_sock p) @ session (answer E S F) (map2 (parsed E (q_pool p)) times cs)"
proof -
  have "\<exists>w'. eg2_run K E S blk p w = Some (Exit_thread, w') \<and> runs t w' \<and> settled pinv live t w' \<and>
    (\<exists>times. length times = length cs \<and>
      sent (os w') (q_sock p) = sent (os w) (q_sock p) @ session (answer E S F) (map2 (parsed E (q_pool p)) times cs))"
    unfolding eg2_run_def
  proof (rule handle_thread [OF w p])
    fix io w1 assume h: "serving io w1" "sock io = q_sock p" "arriving rest io w1 = rest (os w) (q_sock p)"
      "written sent io w1 = sent (os w) (q_sock p)"
    show "\<exists>io' w'. serve_loop E S (q_pool p) (io, w1) = Some (Ret (), io', w') \<and> serving io' w' \<and> sock io' = q_sock p \<and>
      (\<exists>times. length times = length cs \<and>
        written sent io' w' = sent (os w) (q_sock p) @ session (answer E S F) (map2 (parsed E (q_pool p)) times cs))"
      unfolding serve_loop_def
      using loop_spec [OF h(1) cs(1), of "serve_request E S (q_pool p)" "q_pool p" "answer E S F"] h(2-4) cs(2,3) serve_request_says
      by (auto simp: list_all_iff)
  qed
  then show ?thesis by blast
qed

end

section \<open>A file system\<close>

definition demo_stat :: "file_type \<Rightarrow> nat \<Rightarrow> stat" where
  "demo_stat ft k = \<lparr>st_type = ft, st_size = int k\<rparr>"

definition demo_files :: filesys where
  "demo_files = \<lparr>node = [''/a'' \<mapsto> demo_stat S_IFREG 5, ''/d/'' \<mapsto> demo_stat S_IFDIR 0], lnode = [''/d//f'' \<mapsto> demo_stat S_IFREG 7],
     content = [''/a'' \<mapsto> ''hello''], listing = [''/d/'' \<mapsto> [''.'', ''f'']], target = Map.empty\<rparr>"

definition ask :: "'x option \<Rightarrow> 'x \<Rightarrow> (net, 'x) syscall" where
  "ask r x u = (case r of None \<Rightarrow> ((-1, 2, x), u) | Some y \<Rightarrow> ((0, 0, y), u))"

definition open_on :: "int \<Rightarrow> string option \<Rightarrow> (net, unit) syscall" where
  "open_on d r u = (case r of None \<Rightarrow> ((-1, 2, ()), u) | Some c \<Rightarrow> ((d, 0, ()), u\<lparr>n_in := (n_in u)(d := c)\<rparr>))"

definition demo_sys :: "net eg2_sys" where
  "demo_sys = \<lparr>g_stat = (\<lambda>n. ask (node demo_files n) (demo_stat S_IFREG 0)), g_lstat = (\<lambda>n. ask (lnode demo_files n) (demo_stat S_IFREG 0)),
     g_open = (\<lambda>n. open_on 9 (content demo_files n)),
     g_read = (\<lambda>d k u. ((int (length (take k (n_in u d))), 0, take k (n_in u d)), u\<lparr>n_in := (n_in u)(d := drop k (n_in u d))\<rparr>)),
     g_close = (\<lambda>d u. ((0, 0, ()), u)), g_opendir = (\<lambda>n. open_on 10 (map_option dirents (listing demo_files n))),
     g_readdir = (\<lambda>d u. if n_in u d = [] then ((-1, 0, []), u)
       else ((0, 0, takeWhile (\<lambda>c. c \<noteq> NUL) (n_in u d)), u\<lparr>n_in := (n_in u)(d := tl (dropWhile (\<lambda>c. c \<noteq> NUL) (n_in u d)))\<rparr>)),
     g_readlink = (\<lambda>n k u. ((-1, 2, []), u)), NAME_MAX = 255, g_pitoa = show_int\<rparr>"

lemma dirents_step:
  assumes "NUL \<notin> set m"
  shows "takeWhile (\<lambda>c. c \<noteq> NUL) (dirents (m # ms)) = m" "tl (dropWhile (\<lambda>c. c \<noteq> NUL) (dirents (m # ms))) = dirents ms" "dirents (m # ms) \<noteq> []"
proof -
  have "\<forall>c \<in> set m. c \<noteq> NUL" using assms by auto
  then show "takeWhile (\<lambda>c. c \<noteq> NUL) (dirents (m # ms)) = m" "tl (dropWhile (\<lambda>c. c \<noteq> NUL) (dirents (m # ms))) = dirents ms"
    "dirents (m # ms) \<noteq> []"
    by (simp_all add: dirents_def takeWhile_append2 dropWhile_append2)
qed

interpretation demo_server: file_server net_kernel 7 net_read net_write net_close n_lag n_in n_out
  cpool_inv cpool_live "\<lambda>P p. set (cpool_under P p)" cpool_own net_block net_http "{3}" demo_sys demo_files
proof (intro file_server.intro net_http_thread.http_thread_axioms file_server_axioms.intro)
  show "g_read demo_sys d k u = ((r, e, cs), u') \<Longrightarrow> 0 < k \<Longrightarrow> d \<notin> {3} \<Longrightarrow> r = int (length cs) \<and>
      n_in u d = cs @ n_in u' d \<and> (cs = [] \<longrightarrow> n_in u d = []) \<and> (\<forall>v. v \<noteq> d \<longrightarrow> n_in u' v = n_in u v) \<and> n_out u' = n_out u"
    for d k u r e cs u' by (auto simp: demo_sys_def)
  show "\<exists>r e x u'. g_readdir demo_sys d u = ((r, e, x), u') \<and> n_out u' = n_out u \<and>
      (case ns of [] \<Rightarrow> r < 0 \<and> n_in u' = n_in u | m # ms \<Rightarrow> 0 \<le> r \<and> x = m \<and> n_in u' = (n_in u)(d := dirents ms))"
    if "d \<notin> {3}" "n_in u d = dirents ns" "list_all (\<lambda>m. NUL \<notin> set m) ns" for d u ns
  proof (cases ns)
    case Nil
    then show ?thesis using that(2) by (simp add: demo_sys_def dirents_def)
  next
    case (Cons m ms)
    then show ?thesis using that dirents_step [of m ms] by (simp add: demo_sys_def)
  qed
qed (auto simp: demo_sys_def demo_files_def ask_def open_on_def split: option.split)

section \<open>Properties\<close>

text \<open>
  C34: The file server end to end. When a client sends a sequence of well-formed requests on a
  connection, however the network splits and delays them, the thread of the connection answers them in
  order: with the file and its length, the listing of a directory, a redirection to the name with a
  slash, or the error page, and with just the head for \<open>HEAD\<close>. It goes on until an answer has announced
  the end of the connection or the client has sent everything, then puts all that is buffered on the
  wire, closes the socket and ends.
\<close>

theorem file_server_serves:
  assumes "file_server K t rd wr cl busy rest sent pinv live sub own blk E socks S F"
    and "runs t w" "settled pinv live t w" "q_sock p \<in> socks"
    and "list_all sendable cs" "list_all (\<lambda>c. name_ok F (url_path c)) cs" "rest (os w) (q_sock p) = concat (map request_bytes cs)"
  shows "\<exists>times w'. length times = length cs \<and> eg2_run K E S blk p w = Some (Exit_thread, w') \<and> runs t w' \<and> settled pinv live t w' \<and>
    sent (os w') (q_sock p) = sent (os w) (q_sock p) @ session (answer E S F) (map2 (parsed E (q_pool p)) times cs)"
  by (rule file_server.run_spec [OF assms])

definition demo_get :: "string \<Rightarrow> client_request" where
  "demo_get u = \<lparr>c_method = HTTP_METHOD_GET, c_url = u, c_major = 1, c_minor = 1, c_headers = []\<rparr>"

lemma demo_answers:
  "answer net_http demo_sys demo_files (parsed net_http 0 time (demo_get ''/a'')) =
     (''HTTP/1.1 200 OK'' @ CRLF @ ''Content-Type: text/plain'' @ CRLF @ ''Content-Length: 5'' @ CRLF @ ''Server: pthrlib-httpd'' @ CRLF @
      ''Date: now'' @ CRLF @ ''Connection: keep-alive'' @ CRLF @ CRLF @ ''hello'', False)"
  "answer net_http demo_sys demo_files (parsed net_http 0 time (demo_get ''/b'')) =
     (''HTTP/1.1 404 File or directory not found'' @ CRLF @ ''Content-Type: text/html'' @ CRLF @ ''Cache-Control: must-revalidate'' @ CRLF @
      ''Expires: '' @ DISTANT_PAST @ CRLF @ ''Pragma: no-cache'' @ CRLF @ ''Server: pthrlib-httpd'' @ CRLF @
      ''Date: now'' @ CRLF @ ''Connection: close'' @ CRLF @ CRLF @ not_found_page, True)"
  by code_simp+

theorem file_server_serves_witness:
  "\<exists>w'. eg2_run net_kernel net_http demo_sys net_block \<lparr>q_pth = 7, q_sock = 3, q_pool = 0\<rparr>
      (net_world (\<lambda>_. request_bytes (demo_get ''/a'') @ request_bytes (demo_get ''/b'') @ request_bytes (demo_get ''/a''))) = Some (Exit_thread, w') \<and>
    n_out (os w') 3 = ''HTTP/1.1 200 OK'' @ CRLF @ ''Content-Type: text/plain'' @ CRLF @ ''Content-Length: 5'' @ CRLF @ ''Server: pthrlib-httpd'' @ CRLF @
      ''Date: now'' @ CRLF @ ''Connection: keep-alive'' @ CRLF @ CRLF @ ''hello'' @
      ''HTTP/1.1 404 File or directory not found'' @ CRLF @ ''Content-Type: text/html'' @ CRLF @ ''Cache-Control: must-revalidate'' @ CRLF @
      ''Expires: '' @ DISTANT_PAST @ CRLF @ ''Pragma: no-cache'' @ CRLF @ ''Server: pthrlib-httpd'' @ CRLF @
      ''Date: now'' @ CRLF @ ''Connection: close'' @ CRLF @ CRLF @ not_found_page"
proof -
  let ?p = "\<lparr>q_pth = 7, q_sock = 3, q_pool = 0\<rparr>" and ?cs = "[demo_get ''/a'', demo_get ''/b'', demo_get ''/a'']"
  let ?w = "net_world (\<lambda>_. request_bytes (demo_get ''/a'') @ request_bytes (demo_get ''/b'') @ request_bytes (demo_get ''/a''))"
  have ok: "list_all sendable ?cs" by code_simp
  have "url_path (demo_get ''/a'') = ''/a''" "url_path (demo_get ''/b'') = ''/b''"
    "length (directory_title ''/a'') \<noteq> 4096" "length (directory_title ''/b'') \<noteq> 4096"
    by code_simp+
  then have n: "list_all (\<lambda>c. name_ok demo_files (url_path c)) ?cs" by (simp add: name_ok_def demo_files_def)
  have w: "q_sock ?p \<in> {3}" "n_in (os ?w) (q_sock ?p) = concat (map request_bytes ?cs)" by (simp_all add: net_world_ok)
  obtain times w' where r: "length times = length ?cs" "eg2_run net_kernel net_http demo_sys net_block ?p ?w = Some (Exit_thread, w')"
    "n_out (os w') (q_sock ?p) = n_out (os ?w) (q_sock ?p) @ session (answer net_http demo_sys demo_files) (map2 (parsed net_http (q_pool ?p)) times ?cs)"
    using file_server_serves [OF demo_server.file_server_axioms net_world_ok(1) net_settled w(1) ok n w(2)] by blast
  obtain a b c where "times = [a, b, c]" using r(1) by (auto simp: length_Suc_conv)
  then have "n_out (os w') 3 = fst (answer net_http demo_sys demo_files (parsed net_http 0 a (demo_get ''/a''))) @
      fst (answer net_http demo_sys demo_files (parsed net_http 0 b (demo_get ''/b'')))"
    using r(3) by (simp add: net_world_ok demo_answers)
  then show ?thesis using r(2) unfolding demo_answers by auto
qed

end
