(* ===== verification/Echo_Server.thy ===== *)
theory Echo_Server
  imports Http_Thread
begin

text \<open>
  The echo server that comes with the library (\<open>src/examples/pthr_eg1_echo.c\<close> and
  \<open>src/examples/pthr_eg1_echo_main.c\<close>): a thread per connection, which answers every request with a page
  that shows the headers, the URL and the parameters the client has sent. It uses threads, handles, the
  HTTP library, the CGI library and the server main loop.
\<close>

section \<open>Operations\<close>

record eg1_echo_processor =
  e_pth :: tid
  e_sock :: int

definition header_row :: "string \<Rightarrow> string \<Rightarrow> string" where
  "header_row k v = [CHR 0x09] @ k @ '': '' @ v @ CRLF"

definition param_row :: "string \<Rightarrow> string \<Rightarrow> string" where
  "param_row n v = [CHR 0x09] @ n @ ''='' @ v @ CRLF"

definition url_row :: "string \<Rightarrow> string" where "url_row u = ''The URL was: '' @ u @ CRLF"
definition path_row :: "string \<Rightarrow> string" where "path_row n = ''The path component was: '' @ n @ CRLF"
definition query_row :: "string \<Rightarrow> string" where "query_row q = ''The query string was: '' @ q @ CRLF"

text \<open>
  The texts that the calls of \<open>io_fprintf\<close> print, in order. An argument of \<open>%s\<close> may be a null pointer,
  which is undefined behaviour: the row is then \<open>None\<close>, and printing it crashes. The query string is such
  a null pointer when the request has none.
\<close>

definition hello_rows :: "string option list" where
  "hello_rows = [Some (''Hello. This is your server.'' @ CRLF @ CRLF), Some (''Your browser sent the following headers:'' @ CRLF)]"

definition request_rows :: "'h http_request \<Rightarrow> string option list" where
  "request_rows rq =
     [Some (''----- end of headers -----'' @ CRLF), Some (url_row (http_request_get_url rq)), Some (path_row (http_request_path rq)),
      map_option query_row (http_request_query_string rq), Some (''The query arguments were:'' @ CRLF)]"

definition echo_rows :: "('w, 'h) http_env \<Rightarrow> ('p, 'v) cgi_ops \<Rightarrow> 'h http_request \<Rightarrow> 'p cgi \<Rightarrow> string option list" where
  "echo_rows E C rq c =
     hello_rows @ map (\<lambda>h. map_option (header_row (fst h)) (snd h)) (http_request_get_headers E rq) @
     request_rows rq @ map (\<lambda>n. map_option (param_row n) (cgi_param C c n)) (cgi_params C c) @
     [Some (''----- end of parameters -----'' @ CRLF)]"

fun print_rows :: "'w io_ops \<Rightarrow> string option list \<Rightarrow> ('w, unit) io" where
  "print_rows IO [] = retW ()"
| "print_rows IO (None # ts) = (\<lambda>_. None)"
| "print_rows IO (Some t # ts) = bindW (io_fprintf IO t) (\<lambda>_. print_rows IO ts)"

text \<open>One round of the loop; the result says whether it is the last one.\<close>

definition echo_request ::
  "('w, 'h) http_env \<Rightarrow> ('p, 'v) cgi_ops \<Rightarrow> int \<Rightarrow> pool \<Rightarrow> 'h http_request \<Rightarrow> ('w, bool) io" where
  "echo_request E C post_max p rq =
     bindW (new_cgi E C post_max p rq) (\<lambda>cg.
     case cg of
       None \<Rightarrow> retW True
     | Some c \<Rightarrow>
         bindW (new_http_response E p rq 200 ''OK'') (\<lambda>h.
         bindW (http_response_send_header E h ''Content-Type'' ''text/plain'') (\<lambda>h1.
         bindW (http_response_end_headers E h1) (\<lambda>close.
         if \<not> http_request_is_HEAD rq then bindW (print_rows (h_io E) (echo_rows E C rq c)) (\<lambda>_. retW close)
         else retW close))))"

definition eg1_run ::
  "('v, 'j, 'P, 'm, 'u) kernel \<Rightarrow> (('v, 'j, 'P, 'm, 'u) world, 'h) http_env \<Rightarrow> ('p, 'x) cgi_ops \<Rightarrow> int
     \<Rightarrow> ('u \<Rightarrow> addr \<times> string \<times> string) \<Rightarrow> eg1_echo_processor \<Rightarrow> (('v, 'j, 'P, 'm, 'u) world, unit) comp" where
  "eg1_run K E C post_max blk p =
     bindW (getW (pth_get_pool (e_pth p))) (\<lambda>pl.
     bindW (open_handle K blk (e_sock p)) (\<lambda>io.
     bindW (with_handle io (bindW (request_loop E pl (echo_request E C post_max pl)) (\<lambda>_. io_fclose K (h_io E)))) (\<lambda>_. pth_exit)))"

text \<open>\<open>pl\<close> is the pool that \<open>new_pool\<close> gives, \<open>run\<close> and \<open>a\<close> the numbers of the function and of the object.\<close>

definition new_eg1_echo_processor ::
  "('v, 'j, 'P, 'm, 'u) kernel \<Rightarrow> pool \<Rightarrow> nat \<Rightarrow> nat \<Rightarrow> tid \<Rightarrow> int
     \<Rightarrow> (('v, 'j, 'P, 'm, 'u) world, eg1_echo_processor) comp" where
  "new_eg1_echo_processor K pl run a t sk w =
     do {
       (pth, w1) \<leftarrow> new_pseudothread K pl run a ''eg1_echo_processor'' t w;
       w2 \<leftarrow> pth_start K pth w1;
       Some (Ret \<lparr>e_pth = pth, e_sock = sk\<rparr>, w2)
     }"

definition start_echo_processor ::
  "('v, 'j, 'P, 'm, 'u) kernel \<Rightarrow> pool \<Rightarrow> nat \<Rightarrow> nat \<Rightarrow> tid \<Rightarrow> int \<Rightarrow> nat \<Rightarrow> (('v, 'j, 'P, 'm, 'u) world, unit) comp" where
  "start_echo_processor K pl run a t sk d = bindW (new_eg1_echo_processor K pl run a t sk) (\<lambda>_. retW ())"

definition eg1_main :: "string \<Rightarrow> srv_env \<Rightarrow> (char \<times> string) list \<Rightarrow> (nat \<Rightarrow> process \<Rightarrow> 'r proc) \<Rightarrow> process \<Rightarrow> 'r proc" where
  "eg1_main pkg env opts serve s = pthr_server_main_loop (server_defaults pkg) env opts serve s"

section \<open>What a client sees\<close>

text \<open>
  A request other than POST for the path \<open>n\<close> with the parameters \<open>ps\<close>; \<open>q\<close> is its query string, which only
  a HEAD request may lack.
\<close>

definition asks :: "client_request \<Rightarrow> string \<Rightarrow> string option \<Rightarrow> (string \<times> string) list \<Rightarrow> bool" where
  "asks c n q ps \<longleftrightarrow> sendable c \<and> c_method c \<noteq> HTTP_METHOD_POST \<and> CHR ''?'' \<notin> set n \<and> list_all param_ok ps \<and>
     (q = Some (qs_text ps) \<and> c_url c = n @ ''?'' @ qs_text ps \<or>
      q = None \<and> ps = [] \<and> c_url c = n \<and> c_method c = HTTP_METHOD_HEAD)"

definition first_value :: "(string \<times> string) list \<Rightarrow> string \<Rightarrow> string" where
  "first_value ps n = hd (map snd (filter (\<lambda>x. fst x = n) ps))"

text \<open>
  The page, given an order \<open>hks\<close> of the names of the headers and an order \<open>pks\<close> of the names of the
  parameters, which depend on the hash tables.
\<close>

definition echo_page :: "client_request \<Rightarrow> string \<Rightarrow> (string \<times> string) list \<Rightarrow> string list \<Rightarrow> string list \<Rightarrow> string" where
  "echo_page c n ps hks pks =
     ''Hello. This is your server.'' @ CRLF @ CRLF @ ''Your browser sent the following headers:'' @ CRLF @
     concat (map (\<lambda>k. header_row k (the (header_map (c_headers c) k))) hks) @ ''----- end of headers -----'' @ CRLF @
     url_row (c_url c) @ path_row n @ query_row (qs_text ps) @ ''The query arguments were:'' @ CRLF @
     concat (map (\<lambda>k. param_row k (first_value ps k)) pks) @ ''----- end of parameters -----'' @ CRLF"

definition echo_headers :: "(string \<times> string) list" where
  "echo_headers = [(''Content-Type'', ''text/plain'')]"

text \<open>No line of exactly 4096 bytes, which \<open>io_fprintf\<close> truncates.\<close>

definition rows_ok :: "client_request \<Rightarrow> string \<Rightarrow> (string \<times> string) list \<Rightarrow> bool" where
  "rows_ok c n ps \<longleftrightarrow>
     list_all (\<lambda>h. length (header_row (fst h) (snd h)) \<noteq> 4096) (c_headers c) \<and>
     list_all (\<lambda>x. length (param_row (fst x) (snd x)) \<noteq> 4096) ps \<and>
     length (url_row (c_url c)) \<noteq> 4096 \<and> length (path_row n) \<noteq> 4096 \<and> length (query_row (qs_text ps)) \<noteq> 4096"

lemma first_value_in:
  assumes "n \<in> fst ` set ps"
  shows "(n, first_value ps n) \<in> set ps" "map snd (filter (\<lambda>x. fst x = n) ps) \<noteq> []"
proof -
  have ne: "filter (\<lambda>x. fst x = n) ps \<noteq> []" using assms by (auto simp: filter_empty_conv)
  then have "hd (filter (\<lambda>x. fst x = n) ps) \<in> set (filter (\<lambda>x. fst x = n) ps)" by (rule hd_in_set)
  then show "(n, first_value ps n) \<in> set ps" using ne by (metis (mono_tags, lifting) first_value_def hd_map mem_Collect_eq prod.collapse set_filter)
  show "map snd (filter (\<lambda>x. fst x = n) ps) \<noteq> []" using ne by simp
qed

lemma tolower_NUL: "tolower c = NUL \<longleftrightarrow> c = NUL"
proof (cases "isupper c")
  case True
  then have "of_char c + (32 :: nat) < 256" "of_char c \<ge> (65 :: nat)" by (auto simp: isupper_def between_def)
  then have "of_char (tolower c) = (of_char c + 32 :: nat)" "of_char c \<noteq> (0 :: nat)" using True by (simp_all add: tolower_def)
  moreover have "of_char NUL = (0 :: nat)" by simp
  ultimately show ?thesis by (metis add_eq_0_iff_both_eq_0 zero_neq_numeral)
qed (simp add: tolower_def)

lemma lower_NUL: "NUL \<in> tolower ` A \<longleftrightarrow> NUL \<in> A"
proof
  assume "NUL \<in> tolower ` A"
  then obtain c where "c \<in> A" "NUL = tolower c" by (rule imageE)
  then show "NUL \<in> A" using tolower_NUL [of c] by simp
next
  assume "NUL \<in> A"
  moreover have "tolower NUL = NUL" unfolding tolower_NUL ..
  ultimately show "NUL \<in> tolower ` A" by (rule rev_image_eqI [OF _ sym])
qed

lemma header_map_in:
  assumes "header_map hs k = Some v"
  shows "\<exists>h \<in> set hs. k = map tolower (fst h) \<and> v = snd h"
  using map_of_SomeD [of "rev (map (\<lambda>h. (map tolower (fst h), snd h)) hs)" k v] assms by (auto simp: header_map_def)

lemma parse_qs_keys:
  assumes "c2_strings CS" "cgi_env C" "\<forall>x \<in> set ps. param_ok x"
  shows "set (cgi_params C (parse_qs CS C \<lparr>cgi_pool = p, params = hash_new (c_params C)\<rparr> (Some (qs_text ps)))) = fst ` set ps"
  unfolding parse_qs_params [OF assms(1,3)] cgi_env.keys_present [OF assms(2)] cgi_env.present_parse [OF assms(2,3)]
  by (simp add: cgi_env.keys_new [OF assms(2)])

text \<open>The request as the thread sees it.\<close>

lemma asked:
  assumes "asks c n q ps"
  shows "http_request_get_url (parsed E p time c) = c_url c" "http_request_path (parsed E p time c) = n"
    "http_request_query_string (parsed E p time c) = q" "req_method (parsed E p time c) = c_method c"
proof -
  have u: "split_chr CHR ''?'' (c_url c) = map_option (Pair n) q" "c_method c \<noteq> HTTP_METHOD_POST" "q = None \<Longrightarrow> c_url c = n"
    using assms split_chr_append [of "CHR ''?''" n "qs_text ps"] by (auto simp: asks_def)
  show "http_request_get_url (parsed E p time c) = c_url c" "http_request_path (parsed E p time c) = n"
    "http_request_query_string (parsed E p time c) = q" "req_method (parsed E p time c) = c_method c"
    using u by (cases q; simp add: parsed_def parse_url_def blank_request_def http_request_get_url_def http_request_path_def
        http_request_query_string_def del: split_chr_None)+
qed

locale echo_server =
  http_thread K t rd wr cl busy rest sent pinv live sub own blk E socks + cgi_env C
  for K :: "('v, 'j, 'P, 'm, 'u) kernel" and t :: tid
    and rd :: "int \<Rightarrow> nat \<Rightarrow> ('u, string) syscall" and wr :: "int \<Rightarrow> string \<Rightarrow> ('u, unit) syscall"
    and cl :: "int \<Rightarrow> ('u, unit) syscall" and busy :: "'u \<Rightarrow> nat"
    and rest :: "'u \<Rightarrow> int \<Rightarrow> string" and sent :: "'u \<Rightarrow> int \<Rightarrow> string"
    and pinv :: "'P \<Rightarrow> bool" and live :: "'P \<Rightarrow> pool set"
    and sub :: "'P \<Rightarrow> pool \<Rightarrow> pool set" and own :: "'P \<Rightarrow> pool \<Rightarrow> cleanup multiset" and blk :: "'u \<Rightarrow> addr \<times> string \<times> string"
    and E :: "(('v, 'j, 'P, 'm, 'u) world, 'h) http_env" and socks :: "int set" and C :: "('p, 'x) cgi_ops"
begin

definition params_sent :: "pool \<Rightarrow> (string \<times> string) list \<Rightarrow> 'p cgi" where
  "params_sent p ps = parse_qs (h_str E) C \<lparr>cgi_pool = p, params = hash_new (c_params C)\<rparr> (Some (qs_text ps))"

lemma cgi_asked: "asks c n q ps \<Longrightarrow> new_cgi E C m p (parsed E p time c) = retW (Some (params_sent p ps))"
  using asked [of c n q ps E p time]
  by (auto simp: new_cgi_def new_cgi_with_def asks_def params_sent_def http_request_query_string_def parse_qs_def qs_text_def)

lemma headers_asked:
  assumes "asks c n q ps"
  shows "hash_get (h_hash E) (headers (parsed E p time c)) = header_map (c_headers c)"
proof -
  have "\<forall>h \<in> set (c_headers c). header_ok h" using assms by (simp add: asks_def sendable_def list_all_iff)
  from http.headers_get [OF http_of_server this] show ?thesis
    by (simp add: parsed_def c2_hash.get_new [OF env(2)])
qed

lemma shown_value:
  assumes "\<forall>x \<in> set ps. param_ok x" "k \<in> set (cgi_params C (params_sent p ps))"
  shows "cgi_param C (params_sent p ps) k = Some (first_value ps k)" "(k, first_value ps k) \<in> set ps"
proof -
  have P: "cgi_env C" by (rule cgi_env_axioms)
  have k: "k \<in> fst ` set ps" using assms(2) parse_qs_keys [OF env(3) P assms(1)] by (simp add: params_sent_def)
  then have "values_of C (params_sent p ps) k \<noteq> []" "values_of C (params_sent p ps) k = map snd (filter (\<lambda>y. fst y = k) ps)"
    using first_value_in(2) parse_qs_values [OF env(3) P assms(1)] by (simp_all add: params_sent_def)
  then show "cgi_param C (params_sent p ps) k = Some (first_value ps k)"
    using cgi_param_hd [OF P] by (simp add: first_value_def)
  show "(k, first_value ps k) \<in> set ps" by (rule first_value_in(1) [OF k])
qed

text \<open>The page as a list of texts, none of which has a null pointer in it.\<close>

definition page_rows :: "client_request \<Rightarrow> string \<Rightarrow> (string \<times> string) list \<Rightarrow> string list \<Rightarrow> string list \<Rightarrow> string list" where
  "page_rows c n ps hks pks =
     [''Hello. This is your server.'' @ CRLF @ CRLF, ''Your browser sent the following headers:'' @ CRLF] @
     map (\<lambda>k. header_row k (the (header_map (c_headers c) k))) hks @
     [''----- end of headers -----'' @ CRLF, url_row (c_url c), path_row n, query_row (qs_text ps), ''The query arguments were:'' @ CRLF] @
     map (\<lambda>k. param_row k (first_value ps k)) pks @ [''----- end of parameters -----'' @ CRLF]"

lemma concat_page_rows: "concat (page_rows c n ps hks pks) = echo_page c n ps hks pks"
  by (simp add: page_rows_def echo_page_def)

lemma rows_of_page:
  assumes "asks c n q ps" "c_method c \<noteq> HTTP_METHOD_HEAD"
  shows "echo_rows E C (parsed E p time c) (params_sent p ps) =
    map Some (page_rows c n ps (hash_keys (h_hash E) (headers (parsed E p time c))) (cgi_params C (params_sent p ps)))"
proof -
  let ?rq = "parsed E p time c" and ?c = "params_sent p ps"
  have ps: "\<forall>x \<in> set ps. param_ok x" and q: "q = Some (qs_text ps)" using assms by (auto simp: asks_def list_all_iff)
  have k: "header_map (c_headers c) x = Some (the (header_map (c_headers c) x))" if "x \<in> set (hash_keys (h_hash E) (headers ?rq))" for x
    using that c2_hash.keys_set [OF env(2)] headers_asked [OF assms(1)] by auto
  have h: "map (\<lambda>h. map_option (header_row (fst h)) (snd h)) (http_request_get_headers E ?rq) =
      map (\<lambda>x. Some (header_row x (the (header_map (c_headers c) x)))) (hash_keys (h_hash E) (headers ?rq))"
    using k by (auto simp: http_request_get_headers_def headers_asked [OF assms(1)])
  have pr: "map (\<lambda>x. map_option (param_row x) (cgi_param C ?c x)) (cgi_params C ?c) = map (\<lambda>x. Some (param_row x (first_value ps x))) (cgi_params C ?c)"
    using shown_value [OF ps] by simp
  show ?thesis
    unfolding echo_rows_def h pr
    by (simp add: page_rows_def hello_rows_def request_rows_def asked [OF assms(1)] q comp_def del: parsed_props)
qed

lemma puts_rows:
  assumes "io_ok io" "ready q w" "list_all (\<lambda>x. NUL \<notin> set x \<and> length x \<noteq> 4096) ts"
  shows "puts q (print_rows (h_io E) (map Some ts)) io w () (concat ts)"
  using assms
proof (induction ts arbitrary: io w)
  case (Cons x ts)
  then have x: "NUL \<notin> set x" "length x \<noteq> 4096" by simp_all
  show ?case
    unfolding list.map print_rows.simps concat.simps
    by (rule puts_bind [OF puts_fprintf [OF Cons.prems(1,2) x]]) (use Cons in simp)
qed (simp add: puts_ret)

lemma rows_fine:
  assumes a: "asks c n q ps" "c_method c \<noteq> HTTP_METHOD_HEAD" and ok: "rows_ok c n ps"
    and hks: "set hks \<subseteq> dom (header_map (c_headers c))" and pks: "set pks \<subseteq> fst ` set ps"
  shows "list_all (\<lambda>x. NUL \<notin> set x \<and> length x \<noteq> 4096) (page_rows c n ps hks pks)"
proof -
  let ?fine = "\<lambda>x. NUL \<notin> set x \<and> length x \<noteq> 4096"
  have ps: "\<forall>x \<in> set ps. param_ok x" using a by (simp add: asks_def list_all_iff)
  have hd: "\<forall>k \<in> set hks. ?fine (header_row k (the (header_map (c_headers c) k)))"
  proof
    fix k assume "k \<in> set hks"
    then obtain v where v: "header_map (c_headers c) k = Some v" using hks by blast
    then obtain h where h: "h \<in> set (c_headers c)" "k = map tolower (fst h)" "v = snd h" using header_map_in by blast
    have "header_ok h" "length (header_row (fst h) (snd h)) \<noteq> 4096"
      using h(1) a ok by (auto simp: asks_def sendable_def rows_ok_def list_all_iff)
    then show "?fine (header_row k (the (header_map (c_headers c) k)))"
      using v h by (auto simp: header_ok_def clean_line_def header_row_def lower_NUL)
  qed
  have pr: "\<forall>k \<in> set pks. ?fine (param_row k (first_value ps k))"
  proof
    fix k assume "k \<in> set pks"
    then have x: "(k, first_value ps k) \<in> set ps" using first_value_in(1) pks by blast
    then have "param_ok (k, first_value ps k)" "length (param_row k (first_value ps k)) \<noteq> 4096"
      using ps ok by (auto simp: rows_ok_def list_all_iff)
    then show "?fine (param_row k (first_value ps k))" by (auto simp: param_ok_def param_row_def)
  qed
  have "NUL \<notin> set (c_url c)" using a by (auto simp: asks_def sendable_def clean_line_def request_line_def)
  then have u: "?fine (url_row (c_url c))" "?fine (path_row n)" "?fine (query_row (qs_text ps))"
    using a ok qs_text_clean(2) [OF ps] by (auto simp: asks_def rows_ok_def url_row_def path_row_def query_row_def)
  show ?thesis
    using hd pr u by (simp add: page_rows_def list_all_iff ball_Un)
qed

lemma request_says:
  assumes sv: "serving io w" and a: "asks c n q ps" and ok: "rows_ok c n ps"
  shows "says (echo_request E C m p (parsed E p time c)) io w True
    (head_text E (parsed E p time c) 200 ''OK'' echo_headers @
     (if c_method c = HTTP_METHOD_HEAD then []
      else echo_page c n ps (hash_keys (h_hash E) (headers (parsed E p time c))) (cgi_params C (params_sent p ps))))"
proof -
  let ?rq = "parsed E p time c" and ?rows = "echo_rows E C (parsed E p time c) (params_sent p ps)"
  let ?hks = "hash_keys (h_hash E) (headers ?rq)" and ?pks = "cgi_params C (params_sent p ps)"
  let ?page = "echo_page c n ps ?hks ?pks"
  have ps: "\<forall>x \<in> set ps. param_ok x" using a by (simp add: asks_def list_all_iff)
  have keys: "set ?hks \<subseteq> dom (header_map (c_headers c))" "set ?pks \<subseteq> fst ` set ps"
    using c2_hash.keys_set [OF env(2)] headers_asked [OF a] parse_qs_keys [OF env(3) cgi_env_axioms ps] by (simp_all add: params_sent_def)
  have h: "NUL \<notin> set ''OK''" "list_all (\<lambda>x. NUL \<notin> set (fst x) \<and> NUL \<notin> set (snd x)) echo_headers"
    "length (''HTTP/1.1 '' @ show_int 200 @ '' '' @ ''OK'' @ CRLF) \<noteq> 4096" "\<not> (list_ex (clears 4) echo_headers \<or> list_ex (clears 5) echo_headers)"
    by code_simp+
  have last: "last_answer E ?rq echo_headers" using h(4) by (simp add: last_answer_def closes_def)
  have req: "echo_request E C m p ?rq = bindW (send_head E p ?rq 200 ''OK'' echo_headers) (\<lambda>close.
      if c_method c \<noteq> HTTP_METHOD_HEAD then bindW (print_rows (h_io E) ?rows) (\<lambda>_. retW close) else retW close)"
  proof -
    have "http_response_send_headers E h echo_headers = http_response_send_header E h ''Content-Type'' ''text/plain''" for h
      by (simp add: http_response_send_headers_def http_response_send_header_def echo_headers_def bindW_ret_right)
    moreover have "http_request_is_HEAD ?rq \<longleftrightarrow> c_method c = HTTP_METHOD_HEAD" by (simp add: http_request_is_HEAD_def asked(4) [OF a])
    ultimately show ?thesis
      by (simp add: echo_request_def cgi_asked [OF a] send_head_def bindW_assoc)
  qed
  have body: "puts (io_pool io) (if c_method c \<noteq> HTTP_METHOD_HEAD then bindW (print_rows (h_io E) ?rows) (\<lambda>_. retW a) else retW a) io1 w1 a
      (if c_method c = HTTP_METHOD_HEAD then [] else ?page)" if "io_ok io1" "ready (io_pool io) w1" for io1 w1 a
  proof (cases "c_method c = HTTP_METHOD_HEAD")
    case False
    have "puts (io_pool io) (bindW (print_rows (h_io E) ?rows) (\<lambda>_. retW a)) io1 w1 a (?page @ [])"
      unfolding rows_of_page [OF assms(2) False] concat_page_rows [symmetric]
      by (rule puts_bind [OF puts_rows [OF that rows_fine [OF assms(2) False ok keys]]], rule puts_ret)
    then show ?thesis using False by simp
  qed (simp add: puts_ret [OF that])
  have "puts (io_pool io) (echo_request E C m p ?rq) io w (last_answer E ?rq echo_headers) (head_text E ?rq 200 ''OK'' echo_headers @
      (if c_method c = HTTP_METHOD_HEAD then [] else ?page))"
    unfolding req by (rule puts_bind [OF puts_head [OF _ _ parsed_props(1) h(1-3)] body]) (use sv in \<open>simp_all add: serving_def\<close>)
  from says_puts [OF this sv] show ?thesis unfolding eqTrueI [OF last] .
qed

lemma run_spec:
  assumes w: "runs t w" "settled pinv live t w" and p: "e_pth p = t" "e_sock p \<in> socks"
    and c: "asks c n q ps" "rows_ok c n ps" "rest (os w) (e_sock p) = request_bytes c @ r"
  shows "\<exists>hks pks time pl w'. eg1_run K E C m blk p w = Some (Exit_thread, w') \<and> runs t w' \<and> settled pinv live t w' \<and>
    distinct hks \<and> set hks = dom (header_map (c_headers c)) \<and> distinct pks \<and> set pks = fst ` set ps \<and>
    sent (os w') (e_sock p) = sent (os w) (e_sock p) @ head_text E (parsed E pl time c) 200 ''OK'' echo_headers @
      (if c_method c = HTTP_METHOD_HEAD then [] else echo_page c n ps hks pks)"
proof -
  obtain pl where pl: "pth_get_pool (e_pth p) w = Some pl" using w(1) p(1) by (auto simp: runs_def pth_get_pool_def)
  have ps: "\<forall>x \<in> set ps. param_ok x" and s: "sendable c" using c(1) by (simp_all add: asks_def list_all_iff)
  let ?loop = "request_loop E pl (echo_request E C m pl)"
  let ?text = "\<lambda>rq. head_text E rq 200 ''OK'' echo_headers @ (if c_method c = HTTP_METHOD_HEAD then []
    else echo_page c n ps (hash_keys (h_hash E) (headers rq)) (cgi_params C (params_sent pl ps)))"
  have "\<exists>w'. bindW (open_handle K blk (e_sock p)) (\<lambda>io. bindW (with_handle io (bindW ?loop (\<lambda>_. io_fclose K (h_io E)))) (\<lambda>_. pth_exit)) w =
      Some (Exit_thread :: unit outcome, w') \<and> runs t w' \<and> settled pinv live t w' \<and>
      (\<exists>time. sent (os w') (e_sock p) = sent (os w) (e_sock p) @ ?text (parsed E pl time c))"
  proof (rule handle_thread [OF w p(2)])
    fix io w1 assume h: "serving io w1" "sock io = e_sock p" "arriving rest io w1 = rest (os w) (e_sock p)"
      "written sent io w1 = sent (os w) (e_sock p)"
    have un: "arriving rest io w1 = request_bytes c @ r" using h(3) c(3) by simp
    show "\<exists>io' w'. ?loop (io, w1) = Some (Ret (), io', w') \<and> serving io' w' \<and> sock io' = e_sock p \<and>
      (\<exists>time. written sent io' w' = sent (os w) (e_sock p) @ ?text (parsed E pl time c))"
      using loop_step [OF h(1) s un, of "echo_request E C m pl" pl "\<lambda>rq. (?text rq, True)"] request_says [OF _ c(1,2)] h(2,4) by auto
  qed
  then obtain w' time where r: "bindW (open_handle K blk (e_sock p)) (\<lambda>io. bindW (with_handle io (bindW ?loop (\<lambda>_. io_fclose K (h_io E)))) (\<lambda>_. pth_exit)) w =
      Some (Exit_thread :: unit outcome, w')" "runs t w'" "settled pinv live t w'"
    "sent (os w') (e_sock p) = sent (os w) (e_sock p) @ ?text (parsed E pl time c)" by (elim exE conjE)
  have "eg1_run K E C m blk p w = Some (Exit_thread, w')" using pl r(1) by (simp add: eg1_run_def bindW_def getW_def)
  moreover have "set (hash_keys (h_hash E) (headers (parsed E pl time c))) = dom (header_map (c_headers c))"
    by (simp add: c2_hash.keys_set [OF env(2)] headers_asked [OF c(1)])
  moreover have "set (cgi_params C (params_sent pl ps)) = fst ` set ps"
    unfolding params_sent_def by (rule parse_qs_keys [OF env(3) cgi_env_axioms ps])
  ultimately show ?thesis
    using r(2-4) c2_hash.keys_distinct [OF env(2)] keys_present(2) by blast
qed

end

section \<open>Properties\<close>

interpretation demo_echo: echo_server net_kernel 7 net_read net_write net_close n_lag n_in n_out
  cpool_inv cpool_live "\<lambda>P p. set (cpool_under P p)" cpool_own net_block net_http "{3}" list_cgi
  by (intro echo_server.intro net_http_thread.http_thread_axioms list_cgi.cgi_env_axioms)

text \<open>
  C35: The echo server end to end. When a client sends a well-formed request other than POST with the
  parameters \<open>ps\<close> in the query string, which may be missing only for HEAD, the thread of the connection writes a page that
  lists every header of the request exactly once under its name in small letters, with the value sent
  last, then the URL, the path and the query string, and every parameter exactly once with the value
  sent first, unescaped; for HEAD only the head. As the length of the page is not announced, it closes
  the connection after this one answer, whatever the client has sent behind the request, and ends.
\<close>

theorem echo_server_answers:
  assumes "echo_server K t rd wr cl busy rest sent pinv live sub own blk E C"
    and "runs t w" "settled pinv live t w" "e_pth p = t" "e_sock p \<in> socks"
    and "asks c n q ps" "rows_ok c n ps" "rest (os w) (e_sock p) = request_bytes c @ r"
  shows "\<exists>hks pks time pl w'. eg1_run K E C m blk p w = Some (Exit_thread, w') \<and> runs t w' \<and> settled pinv live t w' \<and>
    distinct hks \<and> set hks = dom (header_map (c_headers c)) \<and> distinct pks \<and> set pks = fst ` set ps \<and>
    sent (os w') (e_sock p) = sent (os w) (e_sock p) @ head_text E (parsed E pl time c) 200 ''OK'' echo_headers @
      (if c_method c = HTTP_METHOD_HEAD then [] else echo_page c n ps hks pks)"
  by (rule echo_server.run_spec [OF assms])

lemma only_element: "distinct xs \<Longrightarrow> set xs = {x} \<Longrightarrow> xs = [x]"
  by (cases xs; cases "tl xs") auto

definition demo_ask :: client_request where
  "demo_ask = \<lparr>c_method = HTTP_METHOD_GET, c_url = ''/x?a=u+v'', c_major = 1, c_minor = 1, c_headers = [(''Host'', ''h'')]\<rparr>"

theorem echo_server_answers_witness:
  "\<exists>w'. eg1_run net_kernel net_http list_cgi (-1) net_block \<lparr>e_pth = 7, e_sock = 3\<rparr>
      (net_world (\<lambda>_. request_bytes demo_ask @ ''more'')) = Some (Exit_thread, w') \<and>
    n_out (os w') 3 = ''HTTP/1.1 200 OK'' @ CRLF @ ''Content-Type: text/plain'' @ CRLF @ ''Server: pthrlib-httpd'' @ CRLF @
      ''Date: now'' @ CRLF @ ''Connection: close'' @ CRLF @ CRLF @
      ''Hello. This is your server.'' @ CRLF @ CRLF @ ''Your browser sent the following headers:'' @ CRLF @
      [CHR 0x09] @ ''host: h'' @ CRLF @ ''----- end of headers -----'' @ CRLF @ ''The URL was: /x?a=u+v'' @ CRLF @
      ''The path component was: /x'' @ CRLF @ ''The query string was: a=u+v'' @ CRLF @ ''The query arguments were:'' @ CRLF @
      [CHR 0x09] @ ''a=u v'' @ CRLF @ ''----- end of parameters -----'' @ CRLF"
proof -
  let ?p = "\<lparr>e_pth = 7, e_sock = 3\<rparr>" and ?ps = "[(''a'', ''u v'')]" and ?w = "net_world (\<lambda>_. request_bytes demo_ask @ ''more'')"
  have a: "asks demo_ask ''/x'' (Some (qs_text ?ps)) ?ps" "rows_ok demo_ask ''/x'' ?ps" by code_simp+
  have w: "e_pth ?p = 7" "e_sock ?p \<in> {3}" "n_in (os ?w) (e_sock ?p) = request_bytes demo_ask @ ''more''" by (simp_all add: net_world_ok)
  from echo_server_answers [OF demo_echo.echo_server_axioms net_world_ok(1) net_settled w(1,2) a w(3), of "-1"] obtain hks pks time pl w' where
    r: "eg1_run net_kernel net_http list_cgi (-1) net_block ?p ?w = Some (Exit_thread, w')"
    "distinct hks" "set hks = dom (header_map (c_headers demo_ask))" "distinct pks" "set pks = fst ` set ?ps"
    "n_out (os w') 3 = n_out (os ?w) 3 @ head_text net_http (parsed net_http pl time demo_ask) 200 ''OK'' echo_headers @
      (if c_method demo_ask = HTTP_METHOD_HEAD then [] else echo_page demo_ask ''/x'' ?ps hks pks)" by auto
  have "dom (header_map (c_headers demo_ask)) = {map tolower ''Host''}" by (simp add: header_map_def demo_ask_def)
  then have k: "hks = [map tolower ''Host'']" "pks = [''a'']" using r(2-5) by (simp_all only:) (simp_all add: only_element)
  have h: "head_text net_http (parsed net_http pl time demo_ask) 200 ''OK'' echo_headers =
      ''HTTP/1.1 200 OK'' @ CRLF @ ''Content-Type: text/plain'' @ CRLF @ ''Server: pthrlib-httpd'' @ CRLF @
      ''Date: now'' @ CRLF @ ''Connection: close'' @ CRLF @ CRLF"
    "c_method demo_ask \<noteq> HTTP_METHOD_HEAD"
    "echo_page demo_ask ''/x'' ?ps [map tolower ''Host''] [''a''] =
      ''Hello. This is your server.'' @ CRLF @ CRLF @ ''Your browser sent the following headers:'' @ CRLF @
      [CHR 0x09] @ ''host: h'' @ CRLF @ ''----- end of headers -----'' @ CRLF @ ''The URL was: /x?a=u+v'' @ CRLF @
      ''The path component was: /x'' @ CRLF @ ''The query string was: a=u+v'' @ CRLF @ ''The query arguments were:'' @ CRLF @
      [CHR 0x09] @ ''a=u v'' @ CRLF @ ''----- end of parameters -----'' @ CRLF" by code_simp+
  show ?thesis using r(1,6) h(2) unfolding k h(1,3) by (auto simp: net_world_ok)
qed

end
