(* ===== verification/Context.thy ===== *)
theory Context
  imports Prelude "HOL-Library.Word"
begin

text \<open>
  Context switching (\<open>src/src/pthr_context.c\<close>, \<open>src/src/pthr_context.h\<close>) on a machine with the
  registers of an i386 and a memory of bytes, and the contexts of threads on top of it
  (\<open>pthr_pseudothread.c\<close>). The variant with \<open>setjmp\<close> comes first: \<open>setjmp\<close> saves the program counter
  after the call, the stack pointer and the registers a function has to preserve, and returns 0;
  \<open>longjmp\<close> reloads them, so the same \<open>setjmp\<close> returns a second time, with another value. Each thread
  has two contexts, its own and the one of whoever switched to it. The refinement says that the
  single register file behaves like one register file per thread.
\<close>

unbundle bit_operations_syntax

type_synonym word32 = "32 word"
type_synonym memory = "word32 \<Rightarrow> 8 word"

section \<open>Memory\<close>

text \<open>A little endian store and load of an \<open>int\<close>.\<close>

definition store32 :: "word32 \<Rightarrow> word32 \<Rightarrow> memory \<Rightarrow> memory" where
  "store32 a v m =
     m(a := ucast v, a + 1 := ucast (drop_bit 8 v), a + 2 := ucast (drop_bit 16 v), a + 3 := ucast (drop_bit 24 v))"

definition load32 :: "memory \<Rightarrow> word32 \<Rightarrow> word32" where
  "load32 m a =
     ucast (m a) OR push_bit 8 (ucast (m (a + 1))) OR push_bit 16 (ucast (m (a + 2))) OR push_bit 24 (ucast (m (a + 3)))"

lemma bytes_join:
  fixes v :: word32
  shows "ucast (ucast v :: 8 word) OR push_bit 8 (ucast (ucast (drop_bit 8 v) :: 8 word))
    OR push_bit 16 (ucast (ucast (drop_bit 16 v) :: 8 word)) OR push_bit 24 (ucast (ucast (drop_bit 24 v) :: 8 word)) = v"
proof (rule bit_word_eqI)
  fix n assume n: "n < LENGTH(32)"
  consider "n < 8" | "8 \<le> n" "n < 16" | "16 \<le> n" "n < 24" | "24 \<le> n" using n by force
  then show "bit (ucast (ucast v :: 8 word) OR push_bit 8 (ucast (ucast (drop_bit 8 v) :: 8 word))
    OR push_bit 16 (ucast (ucast (drop_bit 16 v) :: 8 word)) OR push_bit 24 (ucast (ucast (drop_bit 24 v) :: 8 word)) :: word32) n
    \<longleftrightarrow> bit v n"
    using n by cases (auto simp: bit_simps)
qed

lemma offset_distinct:
  fixes a :: word32
  shows "a + 1 \<noteq> a" "a + 2 \<noteq> a" "a + 3 \<noteq> a" "a + 1 \<noteq> a + 2" "a + 1 \<noteq> a + 3" "a + 2 \<noteq> a + 3"
  by simp_all

lemma load_store_same: "load32 (store32 a v m) a = v"
  using bytes_join [of v] by (simp add: load32_def store32_def)

lemma store32_frame:
  assumes "\<And>i. i < 4 \<Longrightarrow> b \<noteq> a + of_nat i"
  shows "store32 a v m b = m b"
  using assms [of 0] assms [of 1] assms [of 2] assms [of 3] by (simp add: store32_def)

lemma load_store_above: "load32 (store32 a v m) (a + 4) = load32 m (a + 4)"
  by (simp add: load32_def store32_def add.assoc)

section \<open>Machine contexts with setjmp\<close>

text \<open>
  The registers that \<open>setjmp\<close> saves, which are those a C function hands back unchanged, and the
  register \<open>eax\<close> with the value of the last call.
\<close>

record regs =
  pc :: word32
  sp :: word32
  bp :: word32
  bx :: word32
  si :: word32
  di :: word32

record machine =
  saved :: regs
  eax :: word32
  mem :: memory

record mctx =
  jb :: regs

definition setjmp :: "word32 \<Rightarrow> machine \<Rightarrow> regs \<times> machine" where
  "setjmp ret s = ((saved s)\<lparr>pc := ret\<rparr>, s\<lparr>saved := (saved s)\<lparr>pc := ret\<rparr>, eax := 0\<rparr>)"

definition longjmp :: "regs \<Rightarrow> word32 \<Rightarrow> machine \<Rightarrow> machine" where
  "longjmp j v s = s\<lparr>saved := j, eax := (if v = 0 then 1 else v)\<rparr>"

text \<open>The macros \<open>SET_PC\<close> to \<open>GET_SP\<close> reach into the \<open>jmp_buf\<close>.\<close>

definition SET_PC :: "word32 \<Rightarrow> mctx \<Rightarrow> mctx" where
  "SET_PC v c = c\<lparr>jb := (jb c)\<lparr>pc := v\<rparr>\<rparr>"

definition SET_SP :: "word32 \<Rightarrow> mctx \<Rightarrow> mctx" where
  "SET_SP v c = c\<lparr>jb := (jb c)\<lparr>sp := v\<rparr>\<rparr>"

definition GET_PC :: "mctx \<Rightarrow> word32" where
  "GET_PC c = pc (jb c)"

definition GET_SP :: "mctx \<Rightarrow> word32" where
  "GET_SP c = sp (jb c)"

text \<open>\<open>ret\<close> is the address in the caller to which the \<open>setjmp\<close> of the macro returns.\<close>

definition mctx_save :: "word32 \<Rightarrow> machine \<Rightarrow> mctx \<times> machine" where
  "mctx_save ret s = (let (j, s1) = setjmp ret s in (\<lparr>jb = j\<rparr>, s1))"

definition mctx_restore :: "mctx \<Rightarrow> machine \<Rightarrow> machine" where
  "mctx_restore c s = longjmp (jb c) 1 s"

text \<open>
  The code behind the \<open>setjmp\<close> of \<open>mctx_switch\<close>, which is reached twice: at first with 0, when it
  jumps to the new context, and again when the old context is restored; then it goes on at \<open>nxt\<close>.
\<close>

definition switch_branch :: "word32 \<Rightarrow> mctx \<Rightarrow> machine \<Rightarrow> machine" where
  "switch_branch nxt new s = (if eax s = 0 then longjmp (jb new) 1 s else s\<lparr>saved := (saved s)\<lparr>pc := nxt\<rparr>\<rparr>)"

definition mctx_switch :: "word32 \<Rightarrow> word32 \<Rightarrow> mctx \<Rightarrow> machine \<Rightarrow> mctx \<times> machine" where
  "mctx_switch ret nxt new s =
     (let (j, s1) = setjmp ret s in (\<lparr>jb = j\<rparr>, switch_branch nxt new s1))"

text \<open>
  \<open>*--stack_ptr = v\<close>. On OpenBSD one more word is pushed. The context of the caller is the start of
  the new one.
\<close>

definition push :: "word32 \<Rightarrow> word32 \<times> memory \<Rightarrow> word32 \<times> memory" where
  "push v p = (let a = fst p - 4 in (a, store32 a v (snd p)))"

definition mctx_set :: "bool \<Rightarrow> word32 \<Rightarrow> word32 \<Rightarrow> word32 \<Rightarrow> word32 \<Rightarrow> int \<Rightarrow> machine \<Rightarrow> mctx \<times> machine" where
  "mctx_set openbsd ret sf_addr sf_arg sk_addr sk_size s =
     (let stack_ptr = sk_addr + of_int sk_size;
          p = push 0xfafafafa (push sf_arg (stack_ptr, mem s));
          (stack_ptr', m) = (if openbsd then push 0 p else p);
          (c, s1) = mctx_save ret (s\<lparr>mem := m\<rparr>)
      in (SET_SP stack_ptr' (SET_PC sf_addr c), s1))"

definition mctx_get_PC :: "mctx \<Rightarrow> word32" where
  "mctx_get_PC c = GET_PC c"

definition mctx_get_SP :: "mctx \<Rightarrow> word32" where
  "mctx_get_SP c = GET_SP c"

lemmas mctx_defs = mctx_save_def mctx_restore_def mctx_switch_def switch_branch_def setjmp_def longjmp_def
  SET_PC_def SET_SP_def GET_PC_def GET_SP_def mctx_get_PC_def mctx_get_SP_def

lemma mctx_switch_spec:
  "mctx_switch ret nxt new s = (\<lparr>jb = (saved s)\<lparr>pc := ret\<rparr>\<rparr>, s\<lparr>saved := jb new, eax := 1\<rparr>)"
  by (simp add: mctx_defs)

lemma switch_resumes:
  "eax s = 1 \<Longrightarrow> switch_branch nxt new s = s\<lparr>saved := (saved s)\<lparr>pc := nxt\<rparr>\<rparr>"
  by (simp add: switch_branch_def)

lemma mctx_set_linux:
  "mctx_set False ret f x a n s =
     (let top = a + of_int n; m = store32 (top - 8) 0xfafafafa (store32 (top - 4) x (mem s))
      in (\<lparr>jb = (saved s)\<lparr>pc := f, sp := top - 8\<rparr>\<rparr>, s\<lparr>saved := (saved s)\<lparr>pc := ret\<rparr>, eax := 0, mem := m\<rparr>))"
  by (simp add: mctx_set_def push_def mctx_defs Let_def diff_diff_eq)

text \<open>Only the top of the stack is written.\<close>

definition in_stack :: "word32 \<Rightarrow> int \<Rightarrow> word32 \<Rightarrow> bool" where
  "in_stack a n b \<longleftrightarrow> uint (b - a) < n"

lemma in_stack_top:
  assumes "int k \<le> n" "n < 2 ^ 32" "0 < k"
  shows "in_stack a n (a + of_int n - of_nat k)"
proof -
  have "a + of_int n - of_nat k - a = (of_int (n - int k) :: word32)" by simp
  then have "uint (a + of_int n - of_nat k - a) = take_bit 32 (n - int k)"
    by (simp only: unsigned_of_int) simp
  also have "\<dots> = n - int k" using assms by (intro take_bit_int_eq_self) auto
  finally show ?thesis using assms by (simp add: in_stack_def)
qed

lemma push_frame:
  assumes "\<not> in_stack a n b" "4 \<le> k" "int k \<le> n" "n < 2 ^ 32"
  shows "store32 (a + of_int n - of_nat k) v m b = m b"
proof (rule store32_frame)
  fix i :: nat assume i: "i < 4"
  have "a + of_int n - of_nat k + of_nat i = a + of_int n - (of_nat (k - i) :: word32)"
    using i assms by (simp add: of_nat_diff)
  moreover have "in_stack a n (a + of_int n - of_nat (k - i))"
    using i assms by (intro in_stack_top) auto
  ultimately show "b \<noteq> a + of_int n - of_nat k + of_nat i" using assms(1) by metis
qed

lemma mctx_set_frame:
  assumes "(if openbsd then 12 else 8) \<le> n" "n < 2 ^ 32" "\<not> in_stack a n b"
  shows "mem (snd (mctx_set openbsd ret f x a n s)) b = mem s b"
proof -
  have 4: "store32 (a + of_int n - 4) v m b = m b" and 8: "store32 (a + of_int n - 8) v m b = m b" for v m
    using push_frame [of a n b 4 v m] push_frame [of a n b 8 v m] assms by (auto split: if_splits)
  have 12: "openbsd \<Longrightarrow> store32 (a + of_int n - 12) v m b = m b" for v m
    using push_frame [of a n b 12 v m] assms by auto
  show ?thesis using 4 8 12
    by (simp add: mctx_set_def push_def mctx_defs Let_def diff_diff_eq)
qed

section \<open>The variant with ucontext\<close>

text \<open>
  With \<open>getcontext\<close> and \<open>makecontext\<close> the new stack is described by \<open>uc_stack\<close>. \<open>getcontext\<close> is a
  parameter (it fills in a context and leaves in \<open>uc_stack\<close> what it likes), and so is \<open>makecontext\<close>.
  POSIX takes \<open>ss_sp\<close> as the lowest address of a region of \<open>ss_size\<close> bytes.
\<close>

record ucontext =
  uc_link :: word32
  ss_sp :: word32
  ss_size :: int
  ss_flags :: int
  uc_eip :: word32
  uc_regs :: "word32 list"

datatype arch = I386 | Sparc

definition uc_mctx_set ::
  "(machine \<Rightarrow> ucontext) \<Rightarrow> (ucontext \<Rightarrow> word32 \<Rightarrow> word32 \<Rightarrow> ucontext) \<Rightarrow> arch
     \<Rightarrow> word32 \<Rightarrow> word32 \<Rightarrow> word32 \<Rightarrow> int \<Rightarrow> machine \<Rightarrow> ucontext" where
  "uc_mctx_set getcontext makecontext a sf_addr sf_arg sk_addr sk_size s =
     (let uc = (getcontext s)\<lparr>uc_link := 0\<rparr>;
          uc1 = (case a of
              I386 \<Rightarrow> uc\<lparr>ss_sp := sk_addr + of_int sk_size - 4\<rparr>
            | Sparc \<Rightarrow> uc\<lparr>ss_sp := sk_addr + of_int sk_size - 8, ss_size := sk_size - 8\<rparr>)
      in makecontext (uc1\<lparr>ss_flags := 0\<rparr>) sf_addr sf_arg)"

text \<open>The other macros of this variant are calls of the library: \<open>getcontext\<close>, \<open>setcontext\<close> and \<open>swapcontext\<close>.\<close>

definition uc_mctx_save :: "(machine \<Rightarrow> ucontext) \<Rightarrow> machine \<Rightarrow> ucontext" where
  "uc_mctx_save getcontext s = getcontext s"

definition uc_mctx_restore :: "(ucontext \<Rightarrow> machine \<Rightarrow> machine) \<Rightarrow> ucontext \<Rightarrow> machine \<Rightarrow> machine" where
  "uc_mctx_restore setcontext uc s = setcontext uc s"

definition uc_mctx_switch ::
  "(ucontext \<Rightarrow> machine \<Rightarrow> ucontext \<times> machine) \<Rightarrow> ucontext \<Rightarrow> machine \<Rightarrow> ucontext \<times> machine" where
  "uc_mctx_switch swapcontext new s = swapcontext new s"

definition uc_get_PC :: "ucontext \<Rightarrow> word32" where
  "uc_get_PC uc = uc_eip uc"

definition uc_get_SP :: "ucontext \<Rightarrow> word32" where
  "uc_get_SP uc = ss_sp uc"

text \<open>The region that \<open>makecontext\<close> is given.\<close>

definition uc_region :: "ucontext \<Rightarrow> word32 \<Rightarrow> bool" where
  "uc_region uc b \<longleftrightarrow> in_stack (ss_sp uc) (ss_size uc) b"

section \<open>Contexts of threads\<close>

text \<open>
  The fields \<open>thread_ctx\<close> and \<open>calling_ctx\<close> of the threads, and \<open>current_pth\<close>. The functions below are
  the parts of \<open>new_pseudothread\<close>, \<open>pth_start\<close>, \<open>thread_trampoline\<close> and of the two switches that deal
  with contexts; the address of a thread's structure is \<open>pth_addr t\<close>.
\<close>

record ctx_state =
  cpu :: machine
  thread_ctx :: "tid \<Rightarrow> mctx"
  calling_ctx :: "tid \<Rightarrow> mctx"
  cur_pth :: "tid option"

definition new_thread_ctx ::
  "word32 \<Rightarrow> word32 \<Rightarrow> (tid \<Rightarrow> word32) \<Rightarrow> tid \<Rightarrow> word32 \<Rightarrow> int \<Rightarrow> ctx_state \<Rightarrow> ctx_state" where
  "new_thread_ctx ret trampoline pth_addr t stack_addr sz s =
     (let (c, m) = mctx_set False ret trampoline (pth_addr t) stack_addr sz (cpu s)
      in s\<lparr>thread_ctx := (thread_ctx s)(t := c), cpu := m\<rparr>)"

definition switch_calling_to_thread :: "word32 \<Rightarrow> word32 \<Rightarrow> tid \<Rightarrow> ctx_state \<Rightarrow> ctx_state" where
  "switch_calling_to_thread ret nxt t s =
     (let s1 = s\<lparr>cur_pth := Some t\<rparr>; (c, m) = mctx_switch ret nxt (thread_ctx s1 t) (cpu s1)
      in s1\<lparr>calling_ctx := (calling_ctx s1)(t := c), cpu := m\<rparr>)"

definition switch_thread_to_calling :: "word32 \<Rightarrow> word32 \<Rightarrow> ctx_state \<Rightarrow> ctx_state option" where
  "switch_thread_to_calling ret nxt s =
     (case cur_pth s of
        None \<Rightarrow> None
      | Some t \<Rightarrow>
          (let (c, m) = mctx_switch ret nxt (calling_ctx s t) (cpu s)
           in Some (s\<lparr>thread_ctx := (thread_ctx s)(t := c), cpu := m\<rparr>)))"

text \<open>\<open>pth_start\<close> up to the jump, with the first statement of \<open>thread_trampoline\<close>.\<close>

definition start_ctx :: "word32 \<Rightarrow> word32 \<Rightarrow> tid \<Rightarrow> ctx_state \<Rightarrow> ctx_state" where
  "start_ctx ret nxt t s =
     (let (c, m) = mctx_switch ret nxt (thread_ctx s t) (cpu s)
      in s\<lparr>calling_ctx := (calling_ctx s)(t := c), cpu := m, cur_pth := Some t\<rparr>)"

text \<open>The end of \<open>thread_trampoline\<close>.\<close>

definition end_ctx :: "tid \<Rightarrow> ctx_state \<Rightarrow> ctx_state" where
  "end_ctx t s = s\<lparr>cpu := mctx_restore (calling_ctx s t) (cpu s)\<rparr>"

definition pth_get_PC :: "tid \<Rightarrow> ctx_state \<Rightarrow> word32" where
  "pth_get_PC t s = mctx_get_PC (thread_ctx s t)"

definition pth_get_SP :: "tid \<Rightarrow> ctx_state \<Rightarrow> word32" where
  "pth_get_SP t s = mctx_get_SP (thread_ctx s t)"

section \<open>Threads on one processor\<close>

text \<open>
  All threads and the reactor. \<open>chain\<close> are the threads that have been entered and not left, the
  running one first; below the last one is the reactor. A thread is entered by \<open>pth_start\<close>, whose local
  variable \<open>old_pth\<close> keeps the caller, or by a callback of the reactor. Whoever runs may change the
  registers and the memory; the contexts are changed by the functions above only.
\<close>

datatype entry = Started "tid option" | Resumed

record ctx_system =
  chain :: "(tid \<times> entry) list"
  live :: "tid set"
  fresh :: "tid set"
  cs :: ctx_state

definition return_to :: "entry \<Rightarrow> ctx_state \<Rightarrow> ctx_state" where
  "return_to e s = (case e of Started old_pth \<Rightarrow> s\<lparr>cur_pth := old_pth\<rparr> | Resumed \<Rightarrow> s)"

inductive ctx_step :: "ctx_system \<Rightarrow> ctx_system \<Rightarrow> bool" where
  run: "ctx_step y (y\<lparr>cs := (cs y)\<lparr>cpu := m\<rparr>\<rparr>)"
| create: "t \<notin> live y \<Longrightarrow>
    ctx_step y (y\<lparr>live := insert t (live y), fresh := insert t (fresh y),
      cs := new_thread_ctx ret trampoline pth_addr t stack_addr sz (cs y)\<rparr>)"
| start: "t \<in> fresh y \<Longrightarrow>
    ctx_step y (y\<lparr>chain := (t, Started (cur_pth (cs y))) # chain y, fresh := fresh y - {t}, cs := start_ctx ret nxt t (cs y)\<rparr>)"
| resume: "t \<in> live y - fresh y \<Longrightarrow> chain y = [] \<Longrightarrow>
    ctx_step y (y\<lparr>chain := [(t, Resumed)], cs := switch_calling_to_thread ret nxt t (cs y)\<rparr>)"
| leave: "chain y = (t, e) # c \<Longrightarrow> switch_thread_to_calling ret nxt (cs y) = Some s \<Longrightarrow>
    ctx_step y (y\<lparr>chain := c, cs := return_to e s\<rparr>)"
| finish: "chain y = (t, e) # c \<Longrightarrow>
    ctx_step y (y\<lparr>chain := c, live := live y - {t}, cs := return_to e (end_ctx t (cs y))\<rparr>)"

inductive_cases ctx_stepE: "ctx_step y y'"

definition ctx_init :: "ctx_state \<Rightarrow> ctx_system" where
  "ctx_init s = \<lparr>chain = [], live = {}, fresh = {}, cs = s\<rparr>"

text \<open>
  The steps as events, so that a run is a list of events and has one result. \<open>Run g\<close> is any piece of
  code of whoever runs: it changes the machine by \<open>g\<close>.
\<close>

datatype ctx_event =
    Run "machine \<Rightarrow> machine"
  | Create tid word32 word32 "tid \<Rightarrow> word32" word32 int
  | Start tid word32 word32
  | Resume tid word32 word32
  | Leave word32 word32
  | Finish

definition ctx_exec :: "ctx_event \<Rightarrow> ctx_system \<Rightarrow> ctx_system option" where
  "ctx_exec ev y =
     (case ev of
        Run g \<Rightarrow> Some (y\<lparr>cs := (cs y)\<lparr>cpu := g (cpu (cs y))\<rparr>\<rparr>)
      | Create t ret trampoline pth_addr stack_addr sz \<Rightarrow>
          if t \<in> live y then None
          else Some (y\<lparr>live := insert t (live y), fresh := insert t (fresh y),
                 cs := new_thread_ctx ret trampoline pth_addr t stack_addr sz (cs y)\<rparr>)
      | Start t ret nxt \<Rightarrow>
          if t \<in> fresh y
          then Some (y\<lparr>chain := (t, Started (cur_pth (cs y))) # chain y, fresh := fresh y - {t}, cs := start_ctx ret nxt t (cs y)\<rparr>)
          else None
      | Resume t ret nxt \<Rightarrow>
          if t \<in> live y - fresh y \<and> chain y = []
          then Some (y\<lparr>chain := [(t, Resumed)], cs := switch_calling_to_thread ret nxt t (cs y)\<rparr>) else None
      | Leave ret nxt \<Rightarrow>
          (case chain y of
             [] \<Rightarrow> None
           | (t, e) # c \<Rightarrow> map_option (\<lambda>s. y\<lparr>chain := c, cs := return_to e s\<rparr>) (switch_thread_to_calling ret nxt (cs y)))
      | Finish \<Rightarrow>
          (case chain y of
             [] \<Rightarrow> None
           | (t, e) # c \<Rightarrow> Some (y\<lparr>chain := c, live := live y - {t}, cs := return_to e (end_ctx t (cs y))\<rparr>)))"

fun execs :: "('e \<Rightarrow> 's \<Rightarrow> 's option) \<Rightarrow> 'e list \<Rightarrow> 's \<Rightarrow> 's option" where
  "execs f [] s = Some s"
| "execs f (e # es) s = Option.bind (f e s) (execs f es)"

lemma ctx_exec_step: "ctx_exec ev y = Some y' \<Longrightarrow> ctx_step y y'"
  by (cases ev) (auto simp: ctx_exec_def intro: ctx_step.intros split: if_splits list.splits)

lemma ctx_step_exec: "ctx_step y y' \<Longrightarrow> \<exists>ev. ctx_exec ev y = Some y'"
proof (induction rule: ctx_step.induct)
  case (run y m)
  show ?case by (rule exI [of _ "Run (\<lambda>_. m)"]) (simp add: ctx_exec_def)
next
  case (create t y ret trampoline pth_addr stack_addr sz)
  then show ?case by (intro exI [of _ "Create t ret trampoline pth_addr stack_addr sz"]) (simp add: ctx_exec_def)
next
  case (start t y ret nxt)
  then show ?case by (intro exI [of _ "Start t ret nxt"]) (simp add: ctx_exec_def)
next
  case (resume t y ret nxt)
  then show ?case by (intro exI [of _ "Resume t ret nxt"]) (simp add: ctx_exec_def)
next
  case (leave y t e c ret nxt s)
  then show ?case by (intro exI [of _ "Leave ret nxt"]) (simp add: ctx_exec_def)
next
  case (finish y t e c)
  then show ?case by (intro exI [of _ Finish]) (simp add: ctx_exec_def)
qed

text \<open>
  The specification: a register file of its own for each thread and for the reactor (\<open>None\<close>), no
  contexts, and the same events. \<open>eax\<close> and the memory are shared. The code of \<open>Run g\<close> sees the register
  file of whoever runs. A switch only changes who runs; the one who is left goes on at \<open>ret\<close> later.
\<close>

record vsystem =
  vchain :: "tid list"
  vlive :: "tid set"
  vfresh :: "tid set"
  vregs :: "tid option \<Rightarrow> regs"
  veax :: word32
  vmem :: memory

definition top_flow :: "tid list \<Rightarrow> tid option" where
  "top_flow ts = (case ts of [] \<Rightarrow> None | t # _ \<Rightarrow> Some t)"

abbreviation goto :: "word32 \<Rightarrow> tid option \<Rightarrow> (tid option \<Rightarrow> regs) \<Rightarrow> (tid option \<Rightarrow> regs)" where
  "goto ret f v \<equiv> v(f := (v f)\<lparr>pc := ret\<rparr>)"

definition vmachine :: "vsystem \<Rightarrow> machine" where
  "vmachine a = \<lparr>saved = vregs a (top_flow (vchain a)), eax = veax a, mem = vmem a\<rparr>"

definition vexec :: "ctx_event \<Rightarrow> vsystem \<Rightarrow> vsystem option" where
  "vexec ev a =
     (let f = top_flow (vchain a) in
      case ev of
        Run g \<Rightarrow>
          (let m = g (vmachine a)
           in Some (a\<lparr>vregs := (vregs a)(f := saved m), veax := eax m, vmem := mem m\<rparr>))
      | Create t ret trampoline pth_addr stack_addr sz \<Rightarrow>
          if t \<in> vlive a then None
          else
            (let top = stack_addr + of_int sz
             in Some (a\<lparr>vlive := insert t (vlive a), vfresh := insert t (vfresh a),
                  vregs := (goto ret f (vregs a))(Some t := (vregs a f)\<lparr>pc := trampoline, sp := top - 8\<rparr>),
                  veax := 0, vmem := store32 (top - 8) 0xfafafafa (store32 (top - 4) (pth_addr t) (vmem a))\<rparr>))
      | Start t ret nxt \<Rightarrow>
          if t \<in> vfresh a
          then Some (a\<lparr>vchain := t # vchain a, vfresh := vfresh a - {t}, vregs := goto ret f (vregs a), veax := 1\<rparr>) else None
      | Resume t ret nxt \<Rightarrow>
          if t \<in> vlive a - vfresh a \<and> vchain a = []
          then Some (a\<lparr>vchain := [t], vregs := goto ret f (vregs a), veax := 1\<rparr>) else None
      | Leave ret nxt \<Rightarrow>
          (case vchain a of
             [] \<Rightarrow> None
           | t # c \<Rightarrow> Some (a\<lparr>vchain := c, vregs := goto ret (Some t) (vregs a), veax := 1\<rparr>))
      | Finish \<Rightarrow>
          (case vchain a of
             [] \<Rightarrow> None
           | t # c \<Rightarrow> Some (a\<lparr>vchain := c, vlive := vlive a - {t}, veax := 1\<rparr>)))"

definition v_init :: "machine \<Rightarrow> vsystem" where
  "v_init m = \<lparr>vchain = [], vlive = {}, vfresh = {}, vregs = (\<lambda>_. saved m), veax = eax m, vmem = mem m\<rparr>"

text \<open>
  Where the register files are: the running one in the processor, those of threads that wait for
  their turn in \<open>thread_ctx\<close>, and that of whoever entered a thread in the \<open>calling_ctx\<close> of that thread.
\<close>

fun callers_ok :: "(tid option \<Rightarrow> regs) \<Rightarrow> ctx_state \<Rightarrow> tid list \<Rightarrow> bool" where
  "callers_ok v s [] = True"
| "callers_ok v s (t # ts) = (jb (calling_ctx s t) = v (top_flow ts) \<and> callers_ok v s ts)"

definition sim :: "vsystem \<Rightarrow> ctx_system \<Rightarrow> bool" where
  "sim a y \<longleftrightarrow>
     vchain a = map fst (chain y) \<and> vlive a = live y \<and> vfresh a = fresh y
     \<and> cpu (cs y) = vmachine a
     \<and> (\<forall>t \<in> live y - fst ` set (chain y). jb (thread_ctx (cs y) t) = vregs a (Some t))
     \<and> callers_ok (vregs a) (cs y) (map fst (chain y))"

text \<open>\<open>current_pth\<close> is the running thread, and each \<open>old_pth\<close> the thread below.\<close>

fun olds_ok :: "(tid \<times> entry) list \<Rightarrow> bool" where
  "olds_ok [] = True"
| "olds_ok [x] = True"
| "olds_ok (x # y # c) = (snd x = Started (Some (fst y)) \<and> olds_ok (y # c))"

definition ctx_inv :: "ctx_system \<Rightarrow> bool" where
  "ctx_inv y \<longleftrightarrow>
     distinct (map fst (chain y)) \<and> fst ` set (chain y) \<subseteq> live y - fresh y \<and> fresh y \<subseteq> live y
     \<and> olds_ok (chain y) \<and> (chain y \<noteq> [] \<longrightarrow> cur_pth (cs y) = Some (fst (hd (chain y))))"

lemma top_flow_simps [simp]: "top_flow [] = None" "top_flow (t # ts) = Some t"
  by (simp_all add: top_flow_def)

lemma top_flow_notin [simp]: "t \<notin> set ts \<Longrightarrow> top_flow ts \<noteq> Some t" "t \<notin> set ts \<Longrightarrow> Some t \<noteq> top_flow ts"
  by (cases ts; auto)+

lemma olds_ok_tl: "olds_ok (x # c) \<Longrightarrow> olds_ok c"
  by (cases c) simp_all

lemma return_to_simps [simp]:
  "cpu (return_to e s) = cpu s" "thread_ctx (return_to e s) = thread_ctx s" "calling_ctx (return_to e s) = calling_ctx s"
  by (simp_all add: return_to_def split: entry.splits)

lemma callers_ok_upd: "f \<noteq> None \<Longrightarrow> f \<notin> Some ` set (tl ts) \<Longrightarrow> callers_ok (v(f := r)) s ts = callers_ok v s ts"
proof (induction ts)
  case (Cons t ts)
  have "top_flow ts \<noteq> f" using Cons.prems by (cases ts) auto
  moreover have "f \<notin> Some ` set (tl ts)" using Cons.prems by (cases ts) auto
  ultimately show ?case using Cons by simp
qed simp

lemma callers_ok_top: "distinct ts \<Longrightarrow> callers_ok (v(top_flow ts := r)) s ts = callers_ok v s ts"
proof (cases ts)
  case (Cons t ts')
  assume "distinct ts"
  then have "Some t \<notin> Some ` set (tl ts)" using Cons by auto
  from callers_ok_upd [OF _ this] show ?thesis using Cons by simp
qed simp

lemma callers_ok_ctx:
  "(\<And>t. t \<in> set ts \<Longrightarrow> calling_ctx s' t = calling_ctx s t) \<Longrightarrow> callers_ok v s' ts = callers_ok v s ts"
  by (induction ts) auto

lemma ctx_inv_step: "ctx_step y y' \<Longrightarrow> ctx_inv y \<Longrightarrow> ctx_inv y'"
proof (induction rule: ctx_step.induct)
  case (start t y ret nxt)
  then show ?case
    by (cases "chain y") (auto simp: ctx_inv_def start_ctx_def split: prod.splits)
next
  case (leave y t e c ret nxt s)
  have "cur_pth s = cur_pth (cs y)"
    using leave.hyps by (auto simp: switch_thread_to_calling_def Let_def split: option.splits prod.splits)
  with leave show ?case
    by (cases c) (auto simp: ctx_inv_def return_to_def split: entry.splits)
next
  case (finish y t e c)
  then show ?case
    by (cases c) (auto simp: ctx_inv_def return_to_def end_ctx_def split: entry.splits)
qed (auto simp: ctx_inv_def new_thread_ctx_def switch_calling_to_thread_def Let_def split: prod.splits)

text \<open>
  The parts of \<open>sim\<close> as an introduction rule, and the consequences of the invariant that the simulation
  of a step needs.
\<close>

lemma simI:
  assumes "vchain a = map fst (chain y)" "vlive a = live y" "vfresh a = fresh y" "cpu (cs y) = vmachine a"
    "\<And>t. t \<in> live y \<Longrightarrow> t \<notin> fst ` set (chain y) \<Longrightarrow> jb (thread_ctx (cs y) t) = vregs a (Some t)"
    "callers_ok (vregs a) (cs y) (map fst (chain y))"
  shows "sim a y"
  using assms by (simp add: sim_def)

lemma simD:
  assumes "sim a y"
  shows "vchain a = map fst (chain y)" "vlive a = live y" "vfresh a = fresh y" "cpu (cs y) = vmachine a"
    "\<And>t. t \<in> live y \<Longrightarrow> t \<notin> fst ` set (chain y) \<Longrightarrow> jb (thread_ctx (cs y) t) = vregs a (Some t)"
    "callers_ok (vregs a) (cs y) (map fst (chain y))"
  using assms unfolding sim_def by blast+

lemma ctx_inv_chain:
  assumes "ctx_inv y"
  shows "distinct (map fst (chain y))" "t \<in> fst ` set (chain y) \<Longrightarrow> t \<in> live y"
    "t \<in> fresh y \<Longrightarrow> t \<in> live y \<and> t \<notin> fst ` set (chain y)"
    "chain y = (t, e) # c \<Longrightarrow> cur_pth (cs y) = Some t"
  using assms by (auto simp: ctx_inv_def)

lemma top_flow_chain [simp]:
  "t \<notin> fst ` set c \<Longrightarrow> top_flow (map fst c) \<noteq> Some t" "t \<notin> fst ` set c \<Longrightarrow> Some t \<noteq> top_flow (map fst c)"
  by simp_all

lemma sim_run:
  assumes "ctx_inv y" "sim a y"
  shows "rel_option sim (vexec (Run g) a) (ctx_exec (Run g) y)"
proof -
  note s = simD [OF assms(2)] and i = ctx_inv_chain [OF assms(1)]
  let ?m = "g (cpu (cs y))"
  have "sim (a\<lparr>vregs := (vregs a)(top_flow (vchain a) := saved ?m), veax := eax ?m, vmem := mem ?m\<rparr>)
      (y\<lparr>cs := (cs y)\<lparr>cpu := ?m\<rparr>\<rparr>)"
    using s(6) callers_ok_ctx [of "map fst (chain y)" "(cs y)\<lparr>cpu := ?m\<rparr>" "cs y"]
    by (intro simI) (simp_all add: s(1-3,5) i(1) callers_ok_top vmachine_def)
  then show ?thesis by (simp add: vexec_def ctx_exec_def s(4) Let_def)
qed

lemma sim_create:
  assumes "ctx_inv y" "sim a y"
  shows "rel_option sim (vexec (Create t ret trampoline pth_addr stack_addr sz) a)
    (ctx_exec (Create t ret trampoline pth_addr stack_addr sz) y)"
proof (cases "t \<in> live y")
  case True
  then show ?thesis using simD(2) [OF assms(2)] by (simp add: vexec_def ctx_exec_def)
next
  case False
  note s = simD [OF assms(2)] and i = ctx_inv_chain [OF assms(1)]
  let ?f = "top_flow (vchain a)" and ?s = "new_thread_ctx ret trampoline pth_addr t stack_addr sz (cs y)"
  let ?top = "stack_addr + of_int sz"
  let ?v = "(goto ret ?f (vregs a))(Some t := (vregs a ?f)\<lparr>pc := trampoline, sp := ?top - 8\<rparr>)"
  let ?m = "store32 (?top - 8) 0xfafafafa (store32 (?top - 4) (pth_addr t) (vmem a))"
  have t: "t \<notin> fst ` set (chain y)" using False i(2) by blast
  have "Some t \<notin> Some ` set (tl (map fst (chain y)))" using t by (cases "chain y") auto
  then have c: "callers_ok ?v ?s (map fst (chain y))"
    using s(6) i(1) callers_ok_ctx [of "map fst (chain y)" ?s "cs y"]
    by (simp add: callers_ok_upd callers_ok_top s(1) new_thread_ctx_def mctx_set_linux Let_def)
  have "sim (a\<lparr>vlive := insert t (vlive a), vfresh := insert t (vfresh a), vregs := ?v, veax := 0, vmem := ?m\<rparr>)
      (y\<lparr>live := insert t (live y), fresh := insert t (fresh y), cs := ?s\<rparr>)"
    using c by (intro simI) (auto simp: s(1-5) t new_thread_ctx_def mctx_set_linux Let_def vmachine_def)
  then show ?thesis using False by (simp add: vexec_def ctx_exec_def s(2) Let_def)
qed

text \<open>Entering a thread, by \<open>pth_start\<close> or from the reactor.\<close>

lemma sim_enter:
  assumes "ctx_inv y" "sim a y" "t \<in> live y" "t \<notin> fst ` set (chain y)"
    and y: "chain y' = (t, e) # chain y" "live y' = live y" "thread_ctx (cs y') = thread_ctx (cs y)"
      "calling_ctx (cs y') = (calling_ctx (cs y))(t := \<lparr>jb = (saved (cpu (cs y)))\<lparr>pc := ret\<rparr>\<rparr>)"
      "cpu (cs y') = (cpu (cs y))\<lparr>saved := jb (thread_ctx (cs y) t), eax := 1\<rparr>"
    and a: "a' = a\<lparr>vchain := t # vchain a, vfresh := fresh y', vregs := goto ret (top_flow (vchain a)) (vregs a), veax := 1\<rparr>"
  shows "sim a' y'"
proof -
  note s = simD [OF assms(2)] and i = ctx_inv_chain [OF assms(1)]
  let ?f = "top_flow (vchain a)"
  have "callers_ok v (cs y') (map fst (chain y)) = callers_ok v (cs y) (map fst (chain y))" for v
    using assms(4) by (intro callers_ok_ctx) (auto simp: y(4))
  then have "callers_ok (goto ret ?f (vregs a)) (cs y') (map fst (chain y))"
    using s(6) i(1) by (simp add: callers_ok_top s(1))
  then show ?thesis
    using assms(3,4) unfolding a by (intro simI) (auto simp: y s vmachine_def)
qed

lemma sim_start:
  assumes "ctx_inv y" "sim a y"
  shows "rel_option sim (vexec (Start t ret nxt) a) (ctx_exec (Start t ret nxt) y)"
proof (cases "t \<in> fresh y")
  case False
  then show ?thesis using simD(3) [OF assms(2)] by (simp add: vexec_def ctx_exec_def)
next
  case True
  note f = ctx_inv_chain(3) [OF assms(1) True]
  have "sim (a\<lparr>vchain := t # vchain a, vfresh := vfresh a - {t}, vregs := goto ret (top_flow (vchain a)) (vregs a), veax := 1\<rparr>)
     (y\<lparr>chain := (t, Started (cur_pth (cs y))) # chain y, fresh := fresh y - {t}, cs := start_ctx ret nxt t (cs y)\<rparr>)"
    by (rule sim_enter [OF assms, of t]) (use f in \<open>auto simp: start_ctx_def mctx_switch_spec simD(3) [OF assms(2)]\<close>)
  then show ?thesis using True by (simp add: vexec_def ctx_exec_def simD(3) [OF assms(2)] Let_def)
qed

lemma sim_resume:
  assumes "ctx_inv y" "sim a y"
  shows "rel_option sim (vexec (Resume t ret nxt) a) (ctx_exec (Resume t ret nxt) y)"
proof (cases "t \<in> live y - fresh y \<and> chain y = []")
  case False
  then show ?thesis using simD(1-3) [OF assms(2)] by (auto simp: vexec_def ctx_exec_def)
next
  case True
  have "sim (a\<lparr>vchain := [t], vregs := goto ret (top_flow (vchain a)) (vregs a), veax := 1\<rparr>)
     (y\<lparr>chain := [(t, Resumed)], cs := switch_calling_to_thread ret nxt t (cs y)\<rparr>)"
    by (rule sim_enter [OF assms, of t])
      (use True in \<open>auto simp: switch_calling_to_thread_def mctx_switch_spec simD(1,3) [OF assms(2)]\<close>)
  then show ?thesis using True by (simp add: vexec_def ctx_exec_def simD(1-3) [OF assms(2)])
qed

lemma sim_leave:
  assumes "ctx_inv y" "sim a y"
  shows "rel_option sim (vexec (Leave ret nxt) a) (ctx_exec (Leave ret nxt) y)"
proof (cases "chain y")
  case Nil
  then show ?thesis using simD(1) [OF assms(2)] by (simp add: vexec_def ctx_exec_def)
next
  case (Cons x c)
  obtain t e where ch: "chain y = (t, e) # c" using Cons by (cases x) simp
  note s = simD [OF assms(2)] and i = ctx_inv_chain [OF assms(1)]
  have d: "t \<notin> fst ` set c" "distinct (map fst c)" using i(1) ch by auto
  let ?s = "(cs y)\<lparr>thread_ctx := (thread_ctx (cs y))(t := \<lparr>jb = (saved (cpu (cs y)))\<lparr>pc := ret\<rparr>\<rparr>),
      cpu := (cpu (cs y))\<lparr>saved := jb (calling_ctx (cs y) t), eax := 1\<rparr>\<rparr>"
  have sw: "switch_thread_to_calling ret nxt (cs y) = Some ?s"
    using i(4) [OF ch] by (simp add: switch_thread_to_calling_def mctx_switch_spec)
  have "Some t \<notin> Some ` set (tl (map fst c))" using d by (cases c) auto
  then have "callers_ok (goto ret (Some t) (vregs a)) (return_to e ?s) (map fst c)"
    using s(6) callers_ok_ctx [of "map fst c" "return_to e ?s" "cs y"] ch
    by (simp add: callers_ok_upd)
  then have "sim (a\<lparr>vchain := map fst c, vregs := goto ret (Some t) (vregs a), veax := 1\<rparr>) (y\<lparr>chain := c, cs := return_to e ?s\<rparr>)"
    using s(6) d ch by (intro simI) (auto simp: s(1-5) vmachine_def)
  then show ?thesis using ch sw by (simp add: vexec_def ctx_exec_def s(1))
qed

lemma sim_finish:
  assumes "ctx_inv y" "sim a y"
  shows "rel_option sim (vexec Finish a) (ctx_exec Finish y)"
proof (cases "chain y")
  case Nil
  then show ?thesis using simD(1) [OF assms(2)] by (simp add: vexec_def ctx_exec_def)
next
  case (Cons x c)
  obtain t e where ch: "chain y = (t, e) # c" using Cons by (cases x) simp
  note s = simD [OF assms(2)] and i = ctx_inv_chain [OF assms(1)]
  have "sim (a\<lparr>vchain := map fst c, vlive := vlive a - {t}, veax := 1\<rparr>)
      (y\<lparr>chain := c, live := live y - {t}, cs := return_to e (end_ctx t (cs y))\<rparr>)"
    using s(6) ch callers_ok_ctx [of "map fst c" "return_to e (end_ctx t (cs y))" "cs y"]
    by (intro simI) (auto simp: s(1-5) end_ctx_def mctx_defs vmachine_def)
  then show ?thesis using ch by (simp add: vexec_def ctx_exec_def s(1))
qed

lemma exec_sim:
  assumes "ctx_inv y" "sim a y"
  shows "rel_option sim (vexec ev a) (ctx_exec ev y)"
  using sim_run [OF assms] sim_create [OF assms] sim_start [OF assms] sim_resume [OF assms] sim_leave [OF assms]
    sim_finish [OF assms] by (cases ev) simp_all

text \<open>\<open>current_pth\<close> names the thread that runs.\<close>

definition current_ok :: "ctx_system \<Rightarrow> bool" where
  "current_ok y \<longleftrightarrow> (case chain y of [] \<Rightarrow> True | (t, e) # c \<Rightarrow> cur_pth (cs y) = Some t)"

lemma execs_sim:
  assumes "ctx_inv y" "sim a y"
  shows "rel_option (\<lambda>a y. sim a y \<and> current_ok y) (execs vexec evs a) (execs ctx_exec evs y)"
  using assms
proof (induction evs arbitrary: a y)
  case Nil
  then show ?case using ctx_inv_chain(4) [OF Nil(1)] by (auto simp: current_ok_def split: list.split)
next
  case (Cons ev evs)
  show ?case
    using exec_sim [OF Cons.prems, of ev] Cons.IH ctx_inv_step [OF ctx_exec_step Cons.prems(1), of ev]
    by (cases "vexec ev a"; cases "ctx_exec ev y") auto
qed

text \<open>As long as a thread is not entered and does not end, its context stays as it is.\<close>

definition dormant_step :: "tid \<Rightarrow> ctx_system \<Rightarrow> ctx_system \<Rightarrow> bool" where
  "dormant_step t y y' \<longleftrightarrow> ctx_step y y' \<and> t \<notin> fst ` set (chain y') \<and> t \<in> live y'"

lemma dormant_step_keeps:
  assumes "dormant_step t y y'" "ctx_inv y" "t \<in> live y" "t \<notin> fst ` set (chain y)"
  shows "thread_ctx (cs y') t = thread_ctx (cs y) t"
proof -
  have "ctx_step y y'" "t \<notin> fst ` set (chain y')" using assms(1) by (simp_all add: dormant_step_def)
  then show ?thesis using assms(2-4)
  proof (induction rule: ctx_step.induct)
    case (leave y u e c ret nxt s)
    have "cur_pth (cs y) = Some u" using ctx_inv_chain(4) [OF leave.prems(2) leave.hyps(1)] .
    then show ?case using leave by (auto simp: switch_thread_to_calling_def mctx_switch_spec)
  qed (auto simp: new_thread_ctx_def mctx_set_linux start_ctx_def switch_calling_to_thread_def mctx_switch_spec end_ctx_def Let_def)
qed

lemma dormant_keeps:
  assumes "(dormant_step t)\<^sup>*\<^sup>* y y'" "ctx_inv y" "t \<in> live y" "t \<notin> fst ` set (chain y)"
  shows "thread_ctx (cs y') t = thread_ctx (cs y) t \<and> ctx_inv y' \<and> t \<in> live y' \<and> t \<notin> fst ` set (chain y')"
  using assms
proof (induction rule: rtranclp_induct)
  case (step y' y'')
  then show ?case using dormant_step_keeps [OF step.hyps(2)] ctx_inv_step by (auto simp: dormant_step_def)
qed simp

lemma ctx_inv_init: "ctx_inv (ctx_init s)"
  by (simp add: ctx_inv_def ctx_init_def)

lemma reachable_ctx_inv: "ctx_step\<^sup>*\<^sup>* (ctx_init s) y \<Longrightarrow> ctx_inv y"
  by (induction rule: rtranclp_induct) (blast intro: ctx_inv_init ctx_inv_step)+

section \<open>The test program\<close>

text \<open>
  \<open>src/src/test_context.c\<close> as a program of this machine. \<open>L\<close> gives the addresses of the functions and of
  the points behind each \<open>setjmp\<close>, where execution goes on a second time after a \<open>longjmp\<close>.
\<close>

datatype label = Main | Main_switched1 | Main_switched2 | Fn | Setjmp_test | Setjmp_test_ret | Mctx_set_ret

datatype status = Running | Exited int | Aborted

record test_state =
  tm :: machine
  t_ctx :: mctx
  t_calling_ctx :: mctx
  t_jb :: regs
  called :: int
  status :: status

definition STACK_SIZE :: nat where "STACK_SIZE = 4096"
definition MARKER_SIZE :: nat where "MARKER_SIZE = 16"
definition DATA :: word32 where "DATA = 0x12546731"

fun memset :: "word32 \<Rightarrow> 8 word \<Rightarrow> nat \<Rightarrow> memory \<Rightarrow> memory" where
  "memset a v 0 m = m"
| "memset a v (Suc n) m = (memset a v n m)(a + of_nat n := v)"

text \<open>\<open>mctx_set (&ctx, f, DATA, stack + MARKER_SIZE, STACK_SIZE); mctx_switch (&calling_ctx, &ctx);\<close>\<close>

definition test_switch :: "(label \<Rightarrow> word32) \<Rightarrow> word32 \<Rightarrow> label \<Rightarrow> label \<Rightarrow> test_state \<Rightarrow> test_state" where
  "test_switch L stack f ret s =
     (let (c, m) = mctx_set False (L Mctx_set_ret) (L f) DATA (stack + of_nat MARKER_SIZE) (int STACK_SIZE) (tm s);
          (c', m') = mctx_switch (L ret) (L ret) c m
      in s\<lparr>t_ctx := c, t_calling_ctx := c', tm := m'\<rparr>)"

definition markers_ok :: "word32 \<Rightarrow> memory \<Rightarrow> bool" where
  "markers_ok stack m \<longleftrightarrow>
     (\<forall>i \<in> set [0 ..< MARKER_SIZE]. m (stack + of_nat i) = 0xeb \<and> m (stack + of_nat (i + (MARKER_SIZE + STACK_SIZE))) = 0xeb)"

definition test_main :: "(label \<Rightarrow> word32) \<Rightarrow> word32 \<Rightarrow> test_state \<Rightarrow> test_state" where
  "test_main L stack s =
     test_switch L stack Fn Main_switched1
       (s\<lparr>tm := (tm s)\<lparr>mem := memset (stack + of_nat (MARKER_SIZE + STACK_SIZE)) 0xeb MARKER_SIZE (memset stack 0xeb MARKER_SIZE (mem (tm s)))\<rparr>\<rparr>)"

definition test_main1 :: "(label \<Rightarrow> word32) \<Rightarrow> word32 \<Rightarrow> test_state \<Rightarrow> test_state" where
  "test_main1 L stack s =
     (if eax (tm s) = 0 then s\<lparr>tm := mctx_restore (t_ctx s) (tm s)\<rparr>
      else if called s \<noteq> 1 then s\<lparr>status := Aborted\<rparr>
      else if \<not> markers_ok stack (mem (tm s)) then s\<lparr>status := Aborted\<rparr>
      else test_switch L stack Setjmp_test Main_switched2 s)"

definition test_main2 :: "test_state \<Rightarrow> test_state" where
  "test_main2 s = (if eax (tm s) = 0 then s\<lparr>tm := mctx_restore (t_ctx s) (tm s)\<rparr> else s\<lparr>status := Exited 0\<rparr>)"

text \<open>The argument of a function is the word above the return address.\<close>

definition test_fn :: "test_state \<Rightarrow> test_state" where
  "test_fn s =
     (if load32 (mem (tm s)) (sp (saved (tm s)) + 4) \<noteq> DATA then s\<lparr>status := Aborted\<rparr>
      else s\<lparr>called := 1, tm := mctx_restore (t_calling_ctx s) (tm s)\<rparr>)"

definition test_setjmp :: "(label \<Rightarrow> word32) \<Rightarrow> test_state \<Rightarrow> test_state" where
  "test_setjmp L s = (let (j, m) = setjmp (L Setjmp_test_ret) (tm s) in s\<lparr>t_jb := j, tm := m\<rparr>)"

definition test_call_longjmp :: "test_state \<Rightarrow> test_state" where
  "test_call_longjmp s = s\<lparr>tm := longjmp (t_jb s) 1 (tm s)\<rparr>"

definition test_setjmp_ret :: "test_state \<Rightarrow> test_state" where
  "test_setjmp_ret s =
     (if eax (tm s) = 0 then test_call_longjmp s else s\<lparr>tm := mctx_restore (t_calling_ctx s) (tm s)\<rparr>)"

definition test_step :: "(label \<Rightarrow> word32) \<Rightarrow> word32 \<Rightarrow> test_state \<Rightarrow> test_state" where
  "test_step L stack s =
     (let a = pc (saved (tm s)) in
      if status s \<noteq> Running then s
      else if a = L Main then test_main L stack s
      else if a = L Main_switched1 then test_main1 L stack s
      else if a = L Main_switched2 then test_main2 s
      else if a = L Fn then test_fn s
      else if a = L Setjmp_test then test_setjmp L s
      else if a = L Setjmp_test_ret then test_setjmp_ret s
      else s\<lparr>status := Aborted\<rparr>)"

lemma memset_spec:
  "n \<le> 2 ^ 32 \<Longrightarrow> memset a v n m b = (if unat (b - a) < n then v else m b)"
proof (induction n)
  case (Suc n)
  have "b = a + of_nat n \<longleftrightarrow> unat (b - a) = n"
  proof
    assume "b = a + of_nat n"
    then show "unat (b - a) = n" using Suc.prems by (simp add: unsigned_of_nat take_bit_nat_eq_self)
  next
    assume "unat (b - a) = n"
    then have "of_nat n = b - a" by auto
    then show "b = a + of_nat n" by simp
  qed
  then show ?case using Suc by auto
qed simp

lemma test_switch_spec:
  "test_switch L stack f ret s = s\<lparr>t_ctx := \<lparr>jb = (saved (tm s))\<lparr>pc := L f, sp := stack + 4104\<rparr>\<rparr>,
    t_calling_ctx := \<lparr>jb = (saved (tm s))\<lparr>pc := L ret\<rparr>\<rparr>,
    tm := (tm s)\<lparr>saved := (saved (tm s))\<lparr>pc := L f, sp := stack + 4104\<rparr>, eax := 1,
      mem := store32 (stack + 4104) 0xfafafafa (store32 (stack + 4108) DATA (mem (tm s)))\<rparr>\<rparr>"
  by (simp add: test_switch_def mctx_set_linux mctx_switch_spec Let_def STACK_SIZE_def MARKER_SIZE_def add.commute [of stack])

text \<open>The two words that are pushed lie between the markers.\<close>

lemma pushed_between_markers:
  assumes "b = stack + of_nat i" "i < 16 \<or> 4112 \<le> i \<and> i < 4128"
  shows "store32 (stack + 4104) u (store32 (stack + 4108) v m) b = m b"
proof -
  have ne: "of_nat i \<noteq> (of_nat j :: word32)" if "4104 \<le> j" "j < 4112" for j
  proof
    assume "of_nat i = (of_nat j :: word32)"
    then have "unat (of_nat i :: word32) = unat (of_nat j :: word32)" by simp
    then have "i = j" using assms that by (auto simp: unsigned_of_nat take_bit_nat_eq_self)
    then show False using assms that by auto
  qed
  have "b \<noteq> stack + 4104 + of_nat k" "b \<noteq> stack + 4108 + of_nat k" if "k < 4" for k
    using ne [of "4104 + k"] ne [of "4108 + k"] that assms(1) by (simp_all add: add.assoc)
  then show ?thesis by (simp add: store32_frame)
qed

lemma markers_set:
  "markers_ok stack (store32 (stack + 4104) u (store32 (stack + 4108) v
     (memset (stack + of_nat (MARKER_SIZE + STACK_SIZE)) 0xeb MARKER_SIZE (memset stack 0xeb MARKER_SIZE m))))"
  unfolding markers_ok_def
proof (intro ballI conjI)
  fix i assume "i \<in> set [0 ..< MARKER_SIZE]"
  then have i: "i < 16" by (simp add: MARKER_SIZE_def)
  let ?m = "memset (stack + of_nat (MARKER_SIZE + STACK_SIZE)) 0xeb MARKER_SIZE (memset stack 0xeb MARKER_SIZE m)"
  have u: "unat (of_nat i :: word32) = i" using i by (simp add: unsigned_of_nat take_bit_nat_eq_self)
  have "?m (stack + of_nat i) = 0xeb" "?m (stack + of_nat (i + 4112)) = 0xeb"
    using i by (auto simp: memset_spec MARKER_SIZE_def STACK_SIZE_def u)
  then show "store32 (stack + 4104) u (store32 (stack + 4108) v ?m) (stack + of_nat i) = 0xeb"
    "store32 (stack + 4104) u (store32 (stack + 4108) v ?m) (stack + of_nat (i + (MARKER_SIZE + STACK_SIZE))) = 0xeb"
    using i pushed_between_markers [OF refl, of i] pushed_between_markers [OF refl, of "i + 4112"]
    by (simp_all add: MARKER_SIZE_def STACK_SIZE_def)
qed

lemma pushed_argument:
  "load32 (store32 (a - 8) u (store32 (a - 4) v m)) (a - 8 + 4) = v"
proof -
  have "a - 4 = a - 8 + 4" by simp
  then show ?thesis using load_store_above [of "a - 8" u "store32 (a - 4) v m"] by (metis load_store_same)
qed

section \<open>Properties\<close>

text \<open>
  C14: Switching contexts gives every thread a register file of its own. Take any list of events
  from a state without threads: threads are created (\<open>new_pseudothread\<close>), started from the reactor or from
  another thread (\<open>pth_start\<close>), leave to whoever entered them, are resumed by the reactor and end, and
  whoever runs executes any code. The same events are possible, and have the same effect, on the
  single processor with the contexts \<open>thread_ctx\<close> and \<open>calling_ctx\<close> and on the specification with one
  register file per thread: after every list of events the processor holds the registers of the
  one who runs there, every other register file is in the context where \<open>sim\<close> says, and while a thread runs,
  \<open>current_pth\<close> is that thread.\<close>

theorem contexts_refine_register_files:
  "rel_option (\<lambda>a y. sim a y \<and> current_ok y) (execs vexec evs (v_init (cpu s))) (execs ctx_exec evs (ctx_init s))"
proof (rule execs_sim [OF ctx_inv_init])
  show "sim (v_init (cpu s)) (ctx_init s)" by (simp add: ctx_init_def sim_def v_init_def vmachine_def)
qed

text \<open>The steps of one thread: created, started by the reactor, blocking, resumed.\<close>

definition demo_machine :: machine where
  "demo_machine = \<lparr>saved = \<lparr>pc = 1, sp = 0x8000, bp = 2, bx = 3, si = 4, di = 5\<rparr>, eax = 0, mem = (\<lambda>_. 0)\<rparr>"

definition demo_ctx :: ctx_state where
  "demo_ctx = \<lparr>cpu = demo_machine, thread_ctx = (\<lambda>_. \<lparr>jb = saved demo_machine\<rparr>),
     calling_ctx = (\<lambda>_. \<lparr>jb = saved demo_machine\<rparr>), cur_pth = None\<rparr>"

definition demo_created :: ctx_system where
  "demo_created = (ctx_init demo_ctx)\<lparr>live := {7}, fresh := {7}, cs := new_thread_ctx 10 0x1000 (\<lambda>t. of_nat t) 7 0x4000 4096 demo_ctx\<rparr>"

definition demo_started :: ctx_system where
  "demo_started = demo_created\<lparr>chain := [(7, Started None)], fresh := {}, cs := start_ctx 20 21 7 (cs demo_created)\<rparr>"

definition demo_left :: ctx_system where
  "demo_left = demo_started\<lparr>chain := [], cs := return_to (Started None) (the (switch_thread_to_calling 30 31 (cs demo_started)))\<rparr>"

lemma demo_started_steps: "ctx_step\<^sup>*\<^sup>* (ctx_init demo_ctx) demo_started"
proof -
  have "ctx_step (ctx_init demo_ctx) demo_created"
    using ctx_step.create [of 7 "ctx_init demo_ctx"] by (simp add: demo_created_def ctx_init_def)
  moreover have "ctx_step demo_created demo_started"
    using ctx_step.start [of 7 demo_created] by (simp add: demo_started_def demo_created_def new_thread_ctx_def ctx_init_def demo_ctx_def mctx_set_linux Let_def)
  ultimately show ?thesis by (meson converse_rtranclp_into_rtranclp rtranclp.rtrancl_refl)
qed

text \<open>
  C15: a thread goes on where it has left. When a thread gives up control in any reachable state and is
  resumed by the reactor later, with any steps of other threads in between, it runs with exactly the
  saved registers and the stack pointer that it had, at the address behind the \<open>setjmp\<close> of its switch;
  there \<open>setjmp\<close> now returns 1, so the switch is left and not made again.
\<close>

theorem thread_resumes_where_it_left:
  assumes "ctx_step\<^sup>*\<^sup>* (ctx_init s) y" "chain y = (t, e) # c" "switch_thread_to_calling ret nxt (cs y) = Some s1"
    and "y1 = y\<lparr>chain := c, cs := return_to e s1\<rparr>" "(dormant_step t)\<^sup>*\<^sup>* y1 y2"
    and "s3 = switch_calling_to_thread ret' nxt' t (cs y2)"
  shows "saved (cpu s3) = (saved (cpu (cs y)))\<lparr>pc := ret\<rparr> \<and> eax (cpu s3) = 1
    \<and> switch_branch nxt (calling_ctx s3 t) (cpu s3) = (cpu s3)\<lparr>saved := (saved (cpu (cs y)))\<lparr>pc := nxt\<rparr>\<rparr>"
proof -
  have i: "ctx_inv y" using reachable_ctx_inv [OF assms(1)] .
  have "ctx_step y y1" unfolding assms(4) by (rule ctx_step.leave [OF assms(2,3)])
  then have i1: "ctx_inv y1" using ctx_inv_step i by blast
  have t: "t \<in> live y1" "t \<notin> fst ` set (chain y1)"
    using ctx_inv_chain(1) [OF i] ctx_inv_chain(2) [OF i, of t] assms(2,4) by auto
  have "cur_pth (cs y) = Some t" using ctx_inv_chain(4) [OF i assms(2)] .
  then have "thread_ctx (cs y1) t = \<lparr>jb = (saved (cpu (cs y)))\<lparr>pc := ret\<rparr>\<rparr>"
    using assms(3,4) by (auto simp: switch_thread_to_calling_def mctx_switch_spec)
  then have "thread_ctx (cs y2) t = \<lparr>jb = (saved (cpu (cs y)))\<lparr>pc := ret\<rparr>\<rparr>"
    using dormant_keeps [OF assms(5) i1 t] by simp
  then show ?thesis unfolding assms(6) by (simp add: switch_calling_to_thread_def mctx_switch_spec switch_branch_def)
qed

theorem thread_resumes_where_it_left_witness:
  "saved (cpu (switch_calling_to_thread 40 41 7 (cs demo_left))) = (saved (cpu (cs demo_started)))\<lparr>pc := 30\<rparr>"
proof -
  obtain s1 where s1: "switch_thread_to_calling 30 31 (cs demo_started) = Some s1"
    by (auto simp: demo_started_def start_ctx_def switch_thread_to_calling_def mctx_switch_spec)
  have c: "chain demo_started = (7, Started None) # []" by (simp add: demo_started_def)
  have "demo_left = demo_started\<lparr>chain := [], cs := return_to (Started None) s1\<rparr>" by (simp add: demo_left_def s1)
  from thread_resumes_where_it_left [OF demo_started_steps c s1 this rtranclp.rtrancl_refl refl] show ?thesis by blast
qed

text \<open>
  C16: \<open>mctx_set\<close> prepares a stack that \<open>mctx_switch\<close> can enter. For a stack of at least 8 bytes
  that is no larger than the address space, \<open>mctx_set\<close> changes no byte outside the stack. A later switch
  to the context enters \<open>sf_addr\<close> with the stack pointer inside the stack, the return address
  0xfafafafa on top and \<open>sf_arg\<close> as the argument above it, if nobody has written to the stack in
  between. Restoring the context that the switch saved comes back behind the switch with all saved
  registers as they were, whatever has happened in between.\<close>

theorem mctx_set_then_switch:
  assumes "mctx_set False ret sf_addr sf_arg sk_addr sk_size s = (c, s1)" "8 \<le> sk_size" "sk_size < 2 ^ 32"
    and "mctx_switch ret' nxt c s2 = (old, s3)" "\<And>b. in_stack sk_addr sk_size b \<Longrightarrow> mem s2 b = mem s1 b"
  shows "(\<not> in_stack sk_addr sk_size b \<longrightarrow> mem s1 b = mem s b)
    \<and> pc (saved s3) = sf_addr \<and> in_stack sk_addr sk_size (sp (saved s3))
    \<and> load32 (mem s3) (sp (saved s3)) = 0xfafafafa \<and> load32 (mem s3) (sp (saved s3) + 4) = sf_arg
    \<and> switch_branch nxt c (mctx_restore old s4) = s4\<lparr>saved := (saved s2)\<lparr>pc := nxt\<rparr>, eax := 1\<rparr>"
proof -
  let ?top = "sk_addr + of_int sk_size"
  have m: "c = \<lparr>jb = (saved s)\<lparr>pc := sf_addr, sp := ?top - 8\<rparr>\<rparr>"
    "mem s1 = store32 (?top - 8) 0xfafafafa (store32 (?top - 4) sf_arg (mem s))"
    using assms(1) by (auto simp: mctx_set_linux Let_def)
  have sw: "old = \<lparr>jb = (saved s2)\<lparr>pc := ret'\<rparr>\<rparr>" "saved s3 = jb c" "mem s3 = mem s2"
    using assms(4) by (auto simp: mctx_switch_spec)
  have i: "in_stack sk_addr sk_size (?top - of_nat k)" if "0 < k" "k \<le> 8" for k
    using assms(2,3) that by (intro in_stack_top) auto
  have e: "mem s3 (?top - of_nat k) = mem s1 (?top - of_nat k)" if "0 < k" "k \<le> 8" for k
    using i [OF that] assms(5) sw(3) by simp
  have ld: "load32 (mem s3) (?top - 8) = load32 (mem s1) (?top - 8)" "load32 (mem s3) (?top - 8 + 4) = load32 (mem s1) (?top - 8 + 4)"
    using e [of 8] e [of 7] e [of 6] e [of 5] e [of 4] e [of 3] e [of 2] e [of 1] by (simp_all add: load32_def diff_add_eq)
  have "\<not> in_stack sk_addr sk_size b \<Longrightarrow> mem s1 b = mem s b"
    using mctx_set_frame [of False sk_size sk_addr b ret sf_addr sf_arg s] assms(1-3) by simp
  moreover have "in_stack sk_addr sk_size (?top - 8)" using i [of 8] by simp
  moreover have "load32 (mem s1) (?top - 8) = 0xfafafafa" "load32 (mem s1) (?top - 8 + 4) = sf_arg"
    by (simp_all only: m(2) load_store_same pushed_argument)
  moreover have "switch_branch nxt c (mctx_restore old s4) = s4\<lparr>saved := (saved s2)\<lparr>pc := nxt\<rparr>, eax := 1\<rparr>"
    by (simp add: sw(1) mctx_defs)
  ultimately show ?thesis using ld by (simp add: sw(2) m(1))
qed

theorem mctx_set_then_switch_witness:
  "pc (saved (snd (mctx_switch 20 21 (fst (mctx_set False 10 0x1000 42 0x4000 4096 demo_machine))
       (snd (mctx_set False 10 0x1000 42 0x4000 4096 demo_machine))))) = 0x1000
   \<and> load32 (mem (snd (mctx_switch 20 21 (fst (mctx_set False 10 0x1000 42 0x4000 4096 demo_machine))
       (snd (mctx_set False 10 0x1000 42 0x4000 4096 demo_machine)))))
      (sp (saved (snd (mctx_switch 20 21 (fst (mctx_set False 10 0x1000 42 0x4000 4096 demo_machine))
       (snd (mctx_set False 10 0x1000 42 0x4000 4096 demo_machine))))) + 4) = 42"
  using mctx_set_then_switch [where ret = 10 and sf_addr = "0x1000" and sf_arg = 42 and sk_addr = "0x4000" and sk_size = 4096
      and s = demo_machine and ret' = 20 and nxt = 21 and ?s2.0 = "snd (mctx_set False 10 0x1000 42 0x4000 4096 demo_machine)",
      OF prod.collapse [symmetric] _ _ prod.collapse [symmetric]] by simp

text \<open>
  The test of the context switch passes. Started at \<open>main\<close> with any registers and memory, with
  the stack anywhere, the program ends with \<open>exit (0)\<close> after seven jumps: \<open>fn\<close> is entered on the new stack
  with its argument, returns to \<open>main\<close> by restoring the calling context, the markers at both ends of
  the stack are untouched, and \<open>setjmp\<close> and \<open>longjmp\<close> work on the new stack.\<close>

theorem test_context_passes:
  assumes "inj L" "status s = Running" "pc (saved (tm s)) = L Main"
  shows "status ((test_step L stack ^^ 7) s) = Exited 0"
proof -
  have L: "L x = L y \<longleftrightarrow> x = y" for x y using assms(1) by (simp add: inj_eq)
  let ?f = "test_step L stack"
  let ?m = "memset (stack + of_nat (MARKER_SIZE + STACK_SIZE)) 0xeb MARKER_SIZE (memset stack 0xeb MARKER_SIZE (mem (tm s)))"
  let ?m1 = "store32 (stack + 4104) 0xfafafafa (store32 (stack + 4108) DATA ?m)"
  let ?r = "saved (tm s)"
  let ?s1 = "?f s" let ?s2 = "?f ?s1" let ?s3 = "?f ?s2" let ?s4 = "?f ?s3" let ?s5 = "?f ?s4" let ?s6 = "?f ?s5"
  have 1: "pc (saved (tm ?s1)) = L Fn" "sp (saved (tm ?s1)) = stack + 4104" "mem (tm ?s1) = ?m1"
    "t_calling_ctx ?s1 = \<lparr>jb = ?r\<lparr>pc := L Main_switched1\<rparr>\<rparr>" "status ?s1 = Running"
    by (simp_all add: test_step_def assms test_main_def test_switch_spec)
  have "load32 ?m1 (stack + 4104 + 4) = DATA" using pushed_argument [where a = "stack + 4112" and m = ?m] by (simp add: add.commute [of stack])
  with 1 have 2: "saved (tm ?s2) = ?r\<lparr>pc := L Main_switched1\<rparr>" "eax (tm ?s2) = 1" "called ?s2 = 1" "mem (tm ?s2) = ?m1"
    "status ?s2 = Running"
    by (simp_all add: test_step_def [of L stack ?s1] L test_fn_def mctx_defs)
  have "test_step L stack ?s2 = test_switch L stack Setjmp_test Main_switched2 ?s2"
    using markers_set [of stack _ _ "mem (tm s)"] 2 by (simp add: test_step_def [of L stack ?s2] L test_main1_def)
  then have 3: "pc (saved (tm ?s3)) = L Setjmp_test" "status ?s3 = Running"
    "t_calling_ctx ?s3 = \<lparr>jb = ?r\<lparr>pc := L Main_switched2\<rparr>\<rparr>"
    using 2 by (simp_all add: test_switch_spec)
  then have 4: "pc (saved (tm ?s4)) = L Setjmp_test_ret" "eax (tm ?s4) = 0" "pc (t_jb ?s4) = L Setjmp_test_ret"
    "status ?s4 = Running" "t_calling_ctx ?s4 = t_calling_ctx ?s3"
    by (simp_all add: test_step_def [of L stack ?s3] L test_setjmp_def setjmp_def)
  then have 5: "pc (saved (tm ?s5)) = L Setjmp_test_ret" "eax (tm ?s5) = 1" "status ?s5 = Running" "t_calling_ctx ?s5 = t_calling_ctx ?s3"
    by (simp_all add: test_step_def [of L stack ?s4] L test_setjmp_ret_def test_call_longjmp_def longjmp_def)
  then have 6: "pc (saved (tm ?s6)) = L Main_switched2" "eax (tm ?s6) = 1" "status ?s6 = Running"
    using 3(3) by (simp_all add: test_step_def [of L stack ?s5] L test_setjmp_ret_def mctx_defs)
  then have "status (?f ?s6) = Exited 0" by (simp add: test_step_def [of L stack ?s6] L test_main2_def)
  then show ?thesis by (simp add: numeral_eq_Suc)
qed

definition demo_labels :: "label \<Rightarrow> word32" where
  "demo_labels l = (case l of Main \<Rightarrow> 0x100 | Main_switched1 \<Rightarrow> 0x110 | Main_switched2 \<Rightarrow> 0x120 | Fn \<Rightarrow> 0x200
     | Setjmp_test \<Rightarrow> 0x300 | Setjmp_test_ret \<Rightarrow> 0x310 | Mctx_set_ret \<Rightarrow> 0x400)"

definition demo_test :: test_state where
  "demo_test = \<lparr>tm = demo_machine\<lparr>saved := (saved demo_machine)\<lparr>pc := 0x100\<rparr>\<rparr>, t_ctx = \<lparr>jb = saved demo_machine\<rparr>,
     t_calling_ctx = \<lparr>jb = saved demo_machine\<rparr>, t_jb = saved demo_machine, called = 0, status = Running\<rparr>"

theorem test_context_passes_witness: "status ((test_step demo_labels 0x4000 ^^ 7) demo_test) = Exited 0"
proof (rule test_context_passes)
  show "inj demo_labels" by (auto simp: inj_def demo_labels_def split: label.splits)
qed (simp_all add: demo_test_def demo_labels_def)

text \<open>
  In the variant with \<open>ucontext\<close>, \<open>uc_stack\<close> does not describe the thread's stack. If \<open>makecontext\<close>
  keeps \<open>uc_stack\<close> and takes it as POSIX says, then on a Sparc the region it is given reaches past the
  end of a stack of more than 16 bytes, up to nearly twice its size; on an i386 \<open>ss_size\<close> is whatever \<open>getcontext\<close>
  left there, and a region of more than 4 bytes leaves the stack.\<close>

theorem uc_stack_outside:
  assumes "\<And>uc f x. ss_sp (makecontext uc f x) = ss_sp uc" "\<And>uc f x. ss_size (makecontext uc f x) = ss_size uc"
    and "16 < sk_size" "sk_size < 2 ^ 31"
    and "uc = uc_mctx_set getcontext makecontext a sf_addr sf_arg sk_addr sk_size s"
    and "a = I386 \<Longrightarrow> 4 < ss_size (getcontext s)"
  shows "uc_region uc (sk_addr + of_int sk_size) \<and> \<not> in_stack sk_addr sk_size (sk_addr + of_int sk_size)"
proof -
  have "uint (of_int sk_size :: word32) = sk_size"
    using assms(3,4) by (simp add: unsigned_of_int take_bit_int_eq_self)
  then show ?thesis using assms(3,6)
    by (cases a) (simp_all add: assms(1,2,5) uc_mctx_set_def Let_def uc_region_def in_stack_def)
qed

theorem uc_stack_outside_witness:
  "uc_region (uc_mctx_set (\<lambda>_. \<lparr>uc_link = 1, ss_sp = 0, ss_size = 0, ss_flags = 1, uc_eip = 0, uc_regs = []\<rparr>)
       (\<lambda>uc f x. uc\<lparr>uc_eip := f\<rparr>) Sparc 0x1000 42 0x4000 4096 demo_machine) 0x5000
   \<and> \<not> in_stack 0x4000 4096 0x5000"
  using uc_stack_outside [where makecontext = "\<lambda>uc f x. uc\<lparr>uc_eip := f\<rparr>" and sk_size = 4096 and sk_addr = "0x4000" and a = Sparc,
      OF _ _ _ _ refl]
  by simp

end
