(* ===== verification/Putenv.thy ===== *)
theory Putenv
  imports Prelude "HOL-Library.Monad_Syntax"
begin

text \<open>
  \<open>do_setenv\<close> and \<open>do_unsetenv\<close> of \<open>src/src/pthr_pseudothread.c\<close> for systems that have \<open>putenv\<close> and no
  \<open>setenv\<close>. \<open>putenv\<close> puts a pointer into the environment, so the strings are kept in entries of a
  list, each with a buffer of 256 bytes. The environment is the list of these pointers; a
  string is the text up to its null byte.
\<close>

record putenv_entry =
  pe_next :: "addr option"
  pe_name :: string
  pe_env :: string

record penv =
  putenv_map :: "addr option"
  entries :: "addr \<rightharpoonup> putenv_entry"
  initial :: "addr \<rightharpoonup> string"
  environ :: "addr list"

definition ENV_SIZE :: nat where "ENV_SIZE = 256"

definition env_text :: "penv \<Rightarrow> addr \<Rightarrow> string" where
  "env_text s a = (case entries s a of Some e \<Rightarrow> pe_env e | None \<Rightarrow> (case initial s a of Some x \<Rightarrow> x | None \<Rightarrow> []))"

definition env_name :: "string \<Rightarrow> string" where
  "env_name x = takeWhile (\<lambda>c. c \<noteq> CHR ''='') x"

text \<open>The functions of the C library: \<open>putenv\<close> of a string with an equals sign replaces or adds, without one it removes.\<close>

definition names :: "penv \<Rightarrow> string \<Rightarrow> addr \<Rightarrow> bool" where
  "names s n a \<longleftrightarrow> env_name (env_text s a) = n"

definition getenv :: "string \<Rightarrow> penv \<Rightarrow> string option" where
  "getenv n s = map_option (\<lambda>a. drop (Suc (length n)) (env_text s a)) (find (names s n) (environ s))"

definition putenv :: "addr \<Rightarrow> penv \<Rightarrow> penv" where
  "putenv a s =
     (let n = env_name (env_text s a); i = first_index (names s n) (environ s)
      in s\<lparr>environ := (if i < length (environ s) then (environ s)[i := a] else environ s @ [a])\<rparr>)"

definition unputenv :: "string \<Rightarrow> penv \<Rightarrow> penv" where
  "unputenv n s = s\<lparr>environ := filter (\<lambda>a. \<not> names s n a) (environ s)\<rparr>"

text \<open>The search of the list.\<close>

partial_function (option) find_entry :: "(addr \<rightharpoonup> putenv_entry) \<Rightarrow> string \<Rightarrow> addr option \<Rightarrow> addr option option" where
  "find_entry H n p =
     (case p of
        None \<Rightarrow> Some None
      | Some m \<Rightarrow>
          (case H m of
             None \<Rightarrow> None
           | Some e \<Rightarrow> if pe_name e = n then Some (Some m) else find_entry H n (pe_next e)))"

text \<open>\<open>a\<close> is the address that \<open>pmalloc\<close> returns, should a new entry be made.\<close>

definition do_setenv :: "addr \<Rightarrow> string \<Rightarrow> string \<Rightarrow> penv \<Rightarrow> penv option" where
  "do_setenv a n v s =
     do {
       r \<leftarrow> find_entry (entries s) n (putenv_map s);
       let (m, s1) = (case r of
           Some m \<Rightarrow> (m, s)
         | None \<Rightarrow> (a, s\<lparr>entries := (entries s)(a \<mapsto> \<lparr>pe_next = putenv_map s, pe_name = n, pe_env = []\<rparr>)\<rparr>));
       e \<leftarrow> entries s1 m;
       Some (putenv m (s1\<lparr>entries := (entries s1)(m \<mapsto> e\<lparr>pe_env := take (ENV_SIZE - 1) (n @ ''='' @ v)\<rparr>)\<rparr>))
     }"

definition do_unsetenv :: "string \<Rightarrow> penv \<Rightarrow> penv" where
  "do_unsetenv n s = unputenv n s"

section \<open>What the environment says\<close>

lemma find_update:
  "find P (let i = first_index P xs in if i < length xs then xs[i := a] else xs @ [a]) = Some a" if "P a"
  using that by (induction xs) (auto simp: Let_def split: if_splits)

lemma find_update_other:
  assumes "\<not> Q a" "\<And>x. P x \<Longrightarrow> \<not> Q x"
  shows "find Q (let i = first_index P xs in if i < length xs then xs[i := a] else xs @ [a]) = find Q xs"
  using assms by (induction xs) (auto simp: Let_def split: if_splits)

lemma find_filter_other: "(\<And>x. P x \<Longrightarrow> \<not> Q x) \<Longrightarrow> find Q (filter (\<lambda>x. \<not> P x) xs) = find Q xs"
  by (induction xs) auto

lemma first_index_cong: "(\<And>x. x \<in> set xs \<Longrightarrow> P x = Q x) \<Longrightarrow> first_index P xs = first_index Q xs"
  by (induction xs) auto

lemma find_cong_list: "(\<And>x. x \<in> set xs \<Longrightarrow> P x = Q x) \<Longrightarrow> find P xs = find Q xs"
  by (induction xs) auto

lemma do_setenv_new:
  assumes "putenv_map s = None"
  shows "do_setenv a n v s = Some (putenv a (s\<lparr>entries := (entries s)(a \<mapsto>
    \<lparr>pe_next = None, pe_name = n, pe_env = take 255 (n @ ''='' @ v)\<rparr>)\<rparr>))"
  using assms by (simp add: do_setenv_def ENV_SIZE_def find_entry.simps)

lemma env_name_eq: "CHR ''='' \<notin> set n \<Longrightarrow> env_name (n @ ''='' @ r) = n"
  by (induction n) (auto simp: env_name_def)

lemma getenv_putenv:
  assumes "a \<notin> set (environ s)" "s1 = s\<lparr>entries := (entries s)(a \<mapsto> e)\<rparr>" "env_name (pe_env e) = n"
  shows "getenv n (putenv a s1) = Some (drop (Suc (length n)) (pe_env e))" "m \<noteq> n \<Longrightarrow> getenv m (putenv a s1) = getenv m s"
proof -
  have a: "env_text s1 a = pe_env e" "environ s1 = environ s" using assms(2) by (simp_all add: env_text_def)
  have o: "env_text s1 x = env_text s x" if "x \<in> set (environ s)" for x
    using that assms(1,2) by (cases "entries s x") (auto simp: env_text_def)
  have p: "entries (putenv a s1) = entries s1" "initial (putenv a s1) = initial s1" by (simp_all add: putenv_def Let_def)
  have t: "env_text (putenv a s1) = env_text s1" by (rule ext) (simp add: env_text_def p cong: option.case_cong)
  then have t2: "names (putenv a s1) = names s1" by (simp add: names_def fun_eq_iff)
  have e: "environ (putenv a s1) =
      (let i = first_index (names s1 n) (environ s) in if i < length (environ s) then (environ s)[i := a] else environ s @ [a])"
    using a assms(3) by (simp add: putenv_def Let_def)
  have "find (names s1 n) (environ (putenv a s1)) = Some a"
    unfolding e by (rule find_update) (simp add: names_def a assms(3))
  then show "getenv n (putenv a s1) = Some (drop (Suc (length n)) (pe_env e))" by (simp add: getenv_def t t2 a)
  assume m: "m \<noteq> n"
  have "find (names s1 m) (environ (putenv a s1)) = find (names s1 m) (environ s)"
    unfolding e by (rule find_update_other) (use m assms(3) in \<open>auto simp: names_def a\<close>)
  also have "\<dots> = find (names s m) (environ s)" by (rule find_cong_list) (simp add: names_def o)
  finally have "find (names s1 m) (environ (putenv a s1)) = find (names s m) (environ s)" .
  then show "getenv m (putenv a s1) = getenv m s"
    using o by (auto simp: getenv_def t t2 find_Some_iff intro!: option.map_cong)
qed

section \<open>Properties\<close>

text \<open>
  C40: \<open>do_setenv\<close> on top of \<open>putenv\<close> sets the variable and no other, but cuts the value so that the
  name, the equals sign and the value fit into 255 bytes. It never puts the entry that it
  allocates on its list: the list stays empty, and every call allocates another entry.
\<close>

theorem putenv_sets_and_leaks:
  assumes "putenv_map s = None" "a \<notin> set (environ s)" "CHR ''='' \<notin> set n" "length n < 255"
  shows "\<exists>s'. do_setenv a n v s = Some s' \<and> getenv n s' = Some (take (254 - length n) v)
    \<and> (m \<noteq> n \<longrightarrow> getenv m s' = getenv m s)
    \<and> putenv_map s' = None \<and> dom (entries s') = insert a (dom (entries s))"
proof -
  let ?e = "\<lparr>pe_next = None, pe_name = n, pe_env = n @ ''='' @ take (254 - length n) v\<rparr>"
  let ?s = "s\<lparr>entries := (entries s)(a \<mapsto> ?e)\<rparr>"
  have x: "take 255 (n @ ''='' @ v) = n @ ''='' @ take (254 - length n) v"
    using assms(4) by (simp add: take_Cons' diff_Suc_1 split: if_splits)
  have "env_name (pe_env ?e) = n" using env_name_eq [OF assms(3)] by simp
  from getenv_putenv [OF assms(2) refl this]
  have "getenv n (putenv a ?s) = Some (take (254 - length n) v)" "m \<noteq> n \<longrightarrow> getenv m (putenv a ?s) = getenv m s" by simp_all
  moreover have "do_setenv a n v s = Some (putenv a ?s)" using do_setenv_new [OF assms(1), of a n v] unfolding x .
  ultimately show ?thesis using assms(1) by (intro exI [of _ "putenv a ?s"]) (simp add: putenv_def Let_def)
qed

theorem putenv_sets_and_leaks_witness:
  "\<exists>s'. do_setenv 5 ''TZ'' ''GMT'' \<lparr>putenv_map = None, entries = Map.empty, initial = [1 \<mapsto> ''TZ=UTC'', 2 \<mapsto> ''HOME=/''], environ = [1, 2]\<rparr> = Some s'
    \<and> getenv ''TZ'' s' = Some ''GMT'' \<and> getenv ''HOME'' s' = Some ''/'' \<and> putenv_map s' = None"
proof -
  let ?s = "\<lparr>putenv_map = None, entries = Map.empty, initial = [1 \<mapsto> ''TZ=UTC'', 2 \<mapsto> ''HOME=/''], environ = [1, 2 :: nat]\<rparr>"
  have "getenv ''HOME'' ?s = Some ''/''" by (simp add: getenv_def names_def env_text_def env_name_def)
  then show ?thesis using putenv_sets_and_leaks [of ?s 5 "''TZ''" "''GMT''" "''HOME''"] by auto
qed

end
