(* ===== verification/Tests.thy ===== *)
theory Tests
  imports Pseudothread
begin

text \<open>
  The test programs for exceptions (\<open>src/src/test_except1.c\<close>, \<open>test_except2.c\<close>, \<open>test_except3.c\<close>): the functions
  that their threads run, as computations of a thread. An \<open>abort\<close> is \<open>None\<close>. The test of the context
  switch is in \<open>Context\<close>.
\<close>

definition abort :: "('w, 'a) comp" where
  "abort w = None"

definition test1_do_die :: "('v, 'j, 'P, 'm, 'u) kernel \<Rightarrow> (('v, 'j, 'P, 'm, 'u) world, unit) comp" where
  "test1_do_die K = pth_die K ''this is the message''"

definition test1_do_test :: "('v, 'j, 'P, 'm, 'u) kernel \<Rightarrow> (('v, 'j, 'P, 'm, 'u) world, unit) comp" where
  "test1_do_test K =
     bindW (pth_catch K (test1_do_die K)) (\<lambda>msg. if msg \<noteq> Some ''this is the message'' then abort else retW ())"

definition test2_do_test :: "('v, 'j, 'P, 'm, 'u) kernel \<Rightarrow> (('v, 'j, 'P, 'm, 'u) world, unit) comp" where
  "test2_do_test K = bindW (pth_die K ''you can just ignore this message'') (\<lambda>_ :: unit. abort)"

definition test3_do_die :: "('v, 'j, 'P, 'm, 'u) kernel \<Rightarrow> (('v, 'j, 'P, 'm, 'u) world, unit) comp" where
  "test3_do_die K = pth_die K ''this is do_die''"

definition test3_do_nested :: "('v, 'j, 'P, 'm, 'u) kernel \<Rightarrow> (('v, 'j, 'P, 'm, 'u) world, unit) comp" where
  "test3_do_nested K =
     bindW (pth_catch K (test3_do_die K)) (\<lambda>msg. if msg \<noteq> Some ''this is do_die'' then abort else retW ())"

definition test3_do_test :: "('v, 'j, 'P, 'm, 'u) kernel \<Rightarrow> (('v, 'j, 'P, 'm, 'u) world, unit) comp" where
  "test3_do_test K =
     bindW (pth_catch K (test3_do_nested K)) (\<lambda>msg. if msg \<noteq> None then abort else retW ())"

section \<open>Catching\<close>

lemma catch_die:
  assumes J: "c2_vector (k_jumps K)" and c: "cur w \<noteq> None" and h: "handlers K w = [0..<n]"
  shows "\<exists>w'. pth_catch K (pth_die K msg) w = Some (Ret (Some msg), w') \<and> cur w' \<noteq> None \<and> handlers K w' = [0..<n]"
proof -
  obtain w1 where w1: "push_handler K w = Some (Ret n, w1)" "cur w1 \<noteq> None" "handlers K w1 = [0..<Suc n]"
    using push_handler_spec [OF J c h] by blast
  obtain w2 where w2: "(pth_die K msg w1 :: (unit outcome \<times> _) option) = Some (Jump n, w2)" "map_option exception_msg (cur w2) = Some msg"
    using pth_die_spec [OF J w1(2,3)] by blast
  from pth_catch_ret [OF J c h w1(1) balanced_die [OF J] w2(1)] w2(2) show ?thesis by auto
qed

lemma catch_returns:
  assumes J: "c2_vector (k_jumps K)" and c: "cur w \<noteq> None" and h: "handlers K w = [0..<n]" and b: "balanced K fn"
    and f: "\<And>w1. cur w1 \<noteq> None \<Longrightarrow> handlers K w1 = [0..<Suc n] \<Longrightarrow> \<exists>w2. fn w1 = Some (Ret (), w2)"
  shows "\<exists>w'. pth_catch K fn w = Some (Ret None, w') \<and> cur w' \<noteq> None \<and> handlers K w' = [0..<n]"
proof -
  obtain w1 where w1: "push_handler K w = Some (Ret n, w1)" "cur w1 \<noteq> None" "handlers K w1 = [0..<Suc n]"
    using push_handler_spec [OF J c h] by blast
  obtain w2 where w2: "fn w1 = Some (Ret (), w2)" using f [OF w1(2,3)] by blast
  from pth_catch_ret [OF J c h w1(1) b w2] show ?thesis by simp
qed

lemma balanced_abort: "balanced K abort"
  by (simp add: balanced_def abort_def)

lemma test1_passes:
  assumes "c2_vector (k_jumps K)" "cur w \<noteq> None" "handlers K w = [0..<n]"
  shows "\<exists>w'. test1_do_test K w = Some (Ret (), w') \<and> cur w' \<noteq> None \<and> handlers K w' = [0..<n]"
  using catch_die [OF assms, of "''this is the message''"]
  by (auto simp: test1_do_test_def test1_do_die_def bindW_Ret retW_def)

lemma test3_nested:
  assumes "c2_vector (k_jumps K)" "cur w \<noteq> None" "handlers K w = [0..<n]"
  shows "\<exists>w'. test3_do_nested K w = Some (Ret (), w')"
  using catch_die [OF assms, of "''this is do_die''"]
  by (auto simp: test3_do_nested_def test3_do_die_def bindW_Ret retW_def)

lemma test3_passes:
  assumes "c2_vector (k_jumps K)" "cur w \<noteq> None" "handlers K w = [0..<n]"
  shows "\<exists>w'. test3_do_test K w = Some (Ret (), w') \<and> handlers K w' = [0..<n]"
proof -
  have "balanced K (test3_do_nested K)"
    unfolding test3_do_nested_def test3_do_die_def
    by (intro balanced_bind balanced_catch balanced_die assms(1)) (simp add: balanced_abort balanced_ret)
  from catch_returns [OF assms this] test3_nested [OF assms(1)]
  obtain w' where "pth_catch K (test3_do_nested K) w = Some (Ret None, w')" "handlers K w' = [0..<n]" by blast
  then show ?thesis by (auto simp: test3_do_test_def bindW_Ret retW_def)
qed

section \<open>Properties\<close>

text \<open>
  the test programs for exceptions pass. In a thread without handlers, the first one catches the
  message of a function that dies; the second one, which dies without a handler, ends its thread by \<open>pth_exit\<close> and
  does not come back to the \<open>abort\<close>; in the third one the inner \<open>pth_catch\<close> catches the exception and the outer
  one sees a normal return. None of them reaches \<open>abort\<close>.
\<close>

theorem except_tests_pass:
  assumes "c2_vector (k_jumps K)" "cur w = Some p" "exception_jmp_vec p = None"
  shows "(\<exists>w'. test1_do_test K w = Some (Ret (), w') \<and> handlers K w' = []) \<and> test2_do_test K w = Some (Exit_thread, w)
    \<and> (\<exists>w'. test3_do_test K w = Some (Ret (), w') \<and> handlers K w' = [])"
proof -
  have w: "cur w \<noteq> None" "handlers K w = [0..<0]" using assms by (simp_all add: handlers_def)
  have "test2_do_test K w = Some (Exit_thread, w)"
    using assms(2,3) by (simp add: test2_do_test_def pth_die_def pth_exit_def bindW_def)
  then show ?thesis using test1_passes [OF assms(1) w] test3_passes [OF assms(1) w] by auto
qed

theorem except_tests_pass_witness:
  "(\<exists>w'. test1_do_test demo_kernel demo_world = Some (Ret (), w')) \<and> test2_do_test demo_kernel demo_world = Some (Exit_thread, demo_world)
    \<and> (\<exists>w'. test3_do_test demo_kernel demo_world = Some (Ret (), w'))"
proof -
  have "c2_vector (k_jumps demo_kernel)" using list_vec.c2_vector_axioms by (simp add: demo_kernel_def)
  moreover have "cur demo_world = Some demo_pth" "exception_jmp_vec demo_pth = None" by (simp_all add: demo_world_ok demo_pth_def)
  ultimately show ?thesis using except_tests_pass [of demo_kernel demo_world demo_pth] by blast
qed

end
