(* ===== verification/Spec2Isabelle.thy ===== *)
theory Spec2Isabelle
  imports Mutex Rwlock Ftpc Dbi_Types Dbi_Patterns Bytea File_Server Echo_Server Context Putenv Tests
begin

text \<open>
  A verification of pthrlib, a library for writing servers in C with cooperative threads
  (\<open>src/src/*.c\<close>), and of the two servers that come with it (\<open>src/examples/*.c\<close>).

  The program. The reactor (\<open>pthr_reactor.c\<close>) is a loop around \<open>poll\<close>: it fires timers, runs prepoll
  handlers and calls the handlers of descriptors that are ready. Pseudothreads
  (\<open>pthr_pseudothread.c\<close>, \<open>pthr_stack.c\<close>) have stacks of their own and give control back to the reactor
  whenever a system call would block. Wait queues, mutexes and read-write locks
  (\<open>pthr_wait_queue.c\<close>, \<open>pthr_mutex.c\<close>, \<open>pthr_rwlock.c\<close>) synchronise them; a lock is released by a
  cleanup function of a memory pool, so it is released when its thread ends. On this rest buffered
  input and output (\<open>pthr_iolib.c\<close>), the HTTP and CGI libraries (\<open>pthr_http.c\<close>, \<open>pthr_cgi.c\<close>), the
  listener thread and the main loop of a server (\<open>pthr_listener.c\<close>, \<open>pthr_server.c\<close>), a client for FTP
  (\<open>pthr_ftpc.c\<close>) and an interface to PostgreSQL (\<open>pthr_dbi.c\<close>).
  The example servers (\<open>pthr_eg1_echo.c\<close>, \<open>pthr_eg2_server.c\<close>) use most of these parts together.

  The theories, each a group of definitions that follows its source file, then lemmas, then the
  properties with their witnesses.

  \<^item> \<open>Prelude\<close>, \<open>Control\<close>, \<open>Cstring\<close>: C integers, characters and conversions; computations of a thread,
    which return (\<open>Ret\<close>), leave by \<open>pth_exit\<close> (\<open>Exit_thread\<close>) or jump to a handler of \<open>pth_catch\<close> (\<open>Jump\<close>).
  \<^item> \<open>C2lib\<close>: vectors, hashes, pools of the library c2lib, whose source is not part of the repository:
    records of operations with the locales \<open>c2_vector\<close>, \<open>c2_hash\<close>, \<open>c2_pool\<close> (and \<open>c2_strings\<close> in
    \<open>Cstring\<close>) as their contracts.
  \<^item> \<open>Reactor_Handles\<close>: the arrays \<open>handles\<close> and \<open>poll_array\<close>, in which handles on the same descriptor
    share an entry (\<open>reactor_register\<close>, \<open>reactor_unregister\<close>). The array refines a map from handles to
    registrations. The source compacts the poll array with \<open>memcpy\<close> on regions that may overlap, so
    \<open>memcpy\<close> is a parameter (\<open>reactor_unregister_with\<close>): the refinement needs disjoint regions or a \<open>memcpy\<close> that
    copies from the front, and is refuted for one that copies from the back. The theories on top of it use
    \<open>reactor_unregister\<close>, the instance that copies from the front.
  \<^item> \<open>Reactor_Timers\<close>: the doubly linked list of timers on an explicit heap, with trigger times relative
    to the timer before (\<open>enqueue_timer\<close> is the list part of \<open>reactor_set_timer\<close>, \<open>remove_timer\<close>). The
    list refines a schedule sorted by absolute time.
  \<^item> \<open>Reactor\<close>: timers with their pools, prepoll handlers, \<open>reactor_invoke\<close>, \<open>reactor_init\<close> and
    \<open>reactor_stop\<close>. One turn of the loop (\<open>reactor_turn\<close>) is described by the traces of its calls, for
    callbacks that use the reactor themselves (\<open>client_callbacks\<close> says what they keep); the prepoll loop ends and
    calls every handler that stays registered.
  \<^item> \<open>Wait_Queue\<close>, \<open>Lock_Pools\<close>, \<open>Mutex\<close>, \<open>Rwlock\<close>: the functions of the sources and, for the locks, a
    step relation over all threads that use one lock (\<open>mutex_step\<close>, \<open>rw_step\<close>), with entering, waiting,
    being woken up, alarms and the end of threads as steps. Exclusion and the absence of lost wake-ups
    are invariants, by rule induction; two flaws of the locks are shown on reachable states.
  \<^item> \<open>Context\<close>: machine contexts (\<open>pthr_context.c\<close>) on a machine with the registers of an i386 and a memory of
    bytes: \<open>mctx_set\<close> and \<open>mctx_switch\<close> with \<open>setjmp\<close>, and the variant with \<open>ucontext\<close>. On top of it the two
    contexts of each thread, and a step relation (\<open>ctx_step\<close>) in which threads are created, started, left,
    resumed and ended, also as a function of events (\<open>ctx_exec\<close>). Event by event it refines a system with a register
    file for each thread (\<open>vexec\<close>). The test program \<open>test_context.c\<close> is run on this machine.
  \<^item> \<open>Stack\<close>, \<open>Pseudothread\<close>: stacks that are freed one operation late, the table of threads, the
    exception stack, \<open>block\<close>, sleeping, polling, alarms, the blocking system calls and what is released
    when a thread ends.
  \<^item> \<open>Iolib\<close>, \<open>Thread_IO\<close>: the buffers of a handle and all functions on it; opening and closing of
    handles in the pools of a thread. What is read and written is described by the streams of the
    socket (\<open>rest\<close>, \<open>sent\<close>), however the system splits or delays them.
  \<^item> \<open>Cgi_Escape\<close>, \<open>Http\<close>, \<open>Cgi\<close>: escaping, requests, responses, cookies, parameters. Reading a body of unknown
    length may store behind the end of a buffer; what that does is a parameter (\<open>wild\<close> of \<open>new_cgi_with\<close>).
  \<^item> \<open>Listener\<close>, \<open>Server\<close>: the accept loop, observed through the calls of the processor function, and the
    start of a server.
  \<^item> \<open>Ftpc\<close>: the control dialogue, passive and active data connections, listings, downloads and uploads. Open
    descriptors and the file on disk, which has its contents only after \<open>fclose\<close>, are observed.
  \<^item> \<open>Http_Thread\<close>, \<open>File_Server\<close>, \<open>Echo_Server\<close>: threads that read requests and write responses on one
    connection. \<open>http_thread\<close> puts the contracts of threads, pools, handles and HTTP together; on it the
    two example servers are described from the bytes a client sends to the bytes it gets back. Where the
    echo server hands a null pointer to \<open>%s\<close>, the model crashes.
  \<^item> \<open>Dbi\<close>: statements with placeholders, transactions and fetching of results. \<open>Dbi_Query\<close> shows how the
    server reads the queries that the library builds (literals, quoted names, comments and words),
    \<open>Dbi_Session\<close> what reaches it in a session,
    \<open>Dbi_Rows\<close> how rows are fetched, \<open>Dbi_Types\<close> that bound variables keep their types. \<open>Dbi_Patterns\<close> has the
    regular expressions of \<open>init_dbi\<close>: under the documented semantics of matching they satisfy the laws
    that the other theories assume, and timestamps and intervals are read as described there.
    \<open>Bytea\<close> is the escaping of binary data.
  \<^item> \<open>Putenv\<close>: environment variables on systems without \<open>setenv\<close>. \<open>Tests\<close>: the tests for exceptions.

  State. A C struct is a record with the fields of the struct; the globals of a module are a record as
  well. Objects that are reached by pointers live at addresses in maps (timers, prepoll handlers,
  statement handles). The \<open>world\<close> of a thread consists of the reactor, the table of threads, the
  current thread, the environment variables, the stacks and the state of the operating system.
  Sizes and counters are \<open>nat\<close> or \<open>int\<close>; times, addresses and port numbers are words where they wrap.

  Parameters. c2lib, libpq and the operating system are arguments of the definitions: records of
  functions (\<open>pool_ops\<close>, \<open>vec_ops\<close>, \<open>hash_ops\<close>, \<open>pq_ops\<close>, \<open>ftp_sys\<close>, \<open>eg2_sys\<close>, \<open>kernel\<close>) whose documented behaviour is
  stated as the assumptions of locales. Every locale is interpreted on a concrete instance, and the
  witnesses of the properties use these instances. In the theories on threads a context switch is the
  function \<open>k_switch\<close> of the record \<open>kernel\<close>, which gives the world in which the thread runs again; how
  a switch brings a thread back with its registers and its stack is the subject of \<open>Context\<close>.

  Loops. A loop without an evident bound is a \<open>partial_function (option)\<close>; \<open>None\<close> is a crash, an \<open>abort\<close>,
  a failed assertion or a computation without end. The properties state that a result exists, so
  they include termination; no fuel is used.

  Not modelled: what compiled C functions do with the registers and below the stack pointer (any step
  of the running thread stands for it in \<open>Context\<close>); debugging output, messages to the standard error
  output and, but for the start of a server, to \<open>syslog\<close>; conditional compilation, except that both variants of machine contexts and of
  setting environment variables are there; the test programs other than \<open>test_context.c\<close> and
  \<open>test_except1.c\<close> to \<open>test_except3.c\<close>, which print messages or need a terminal, a network or a database.
\<close>

end
